(* ===== verification/Prelude.thy ===== *)
theory Prelude
  imports Main "HOL-Library.Multiset" "HOL-Library.Word"
begin

text \<open>
  Shared vocabulary of the development.

  Failures of the C++ are values of the sum type \<open>err + 'a\<close>: an \<open>assert\<close> that does not
  hold, a \<open>panic\<close> or \<open>fatal\<close> call, an index past the end of a \<open>std::vector\<close>, a null
  pointer that is followed, an iterator moved before the first element of a list, and a
  division by zero.  The last four are undefined behaviour in C++; a model that returns one
  of them says that the code would have reached it.  \<open>NoReturn\<close> stands for a loop that does not
  end.  \<open>bindE\<close> sequences two steps and stops
  at the first failure; \<open>foldE\<close> is a \<open>for\<close> loop over a list whose body can fail.

  Tracing (\<open>DPRINTF\<close>, \<open>cprintf\<close>, \<open>warn\<close>), probe points and the gem5 statistics framework
  have no effect on the simulated machine and are left out, except where a component's own
  counters are part of what it promises.
\<close>

section \<open>Failures as values\<close>

datatype err =
    AssertFail
  | PanicCall
  | FatalCall
  | OutOfRange
  | NullDeref
  | BadIterator
  | DivByZero
  | NoReturn

type_synonym 'a res = "err + 'a"

named_theorems res_simps \<open>computation rules of the failure type\<close>
named_theorems split_res \<open>inversion rules for successful runs\<close>

definition bindE :: "'a res \<Rightarrow> ('a \<Rightarrow> 'b res) \<Rightarrow> 'b res" where
  "bindE m f = (case m of Inl e \<Rightarrow> Inl e | Inr x \<Rightarrow> f x)"

lemma bindE_Inl [simp, res_simps]: "bindE (Inl e) f = Inl e"
  by (simp add: bindE_def)

lemma bindE_Inr [simp, res_simps]: "bindE (Inr x) f = f x"
  by (simp add: bindE_def)

lemma bindE_ok [split_res]: "bindE m f = Inr y \<longleftrightarrow> (\<exists>x. m = Inr x \<and> f x = Inr y)"
  by (cases m) auto

lemma bindE_elim: "bindE m f = Inr y \<Longrightarrow> (\<And>x. m = Inr x \<Longrightarrow> f x = Inr y \<Longrightarrow> P) \<Longrightarrow> P"
  by (cases m) auto

lemma bindE_err: "bindE m f = Inl e \<longleftrightarrow> m = Inl e \<or> (\<exists>x. m = Inr x \<and> f x = Inl e)"
  by (cases m) auto

lemma bindE_assoc: "bindE (bindE m f) g = bindE m (\<lambda>x. bindE (f x) g)"
  by (cases m) auto

lemma bindE_cong [fundef_cong]:
  "m = m' \<Longrightarrow> (\<And>x. m' = Inr x \<Longrightarrow> f x = f' x) \<Longrightarrow> bindE m f = bindE m' f'"
  by (cases m') auto

definition assertE :: "bool \<Rightarrow> unit res" where
  "assertE b = (if b then Inr () else Inl AssertFail)"

lemma assertE_True [simp, res_simps]: "assertE True = Inr ()"
  by (simp add: assertE_def)

lemma assertE_False [simp, res_simps]: "assertE False = Inl AssertFail"
  by (simp add: assertE_def)

lemma assertE_ok [split_res]: "assertE b = Inr u \<longleftrightarrow> b"
  by (simp add: assertE_def)

definition is_ok :: "'a res \<Rightarrow> bool" where
  "is_ok m = (case m of Inl _ \<Rightarrow> False | Inr _ \<Rightarrow> True)"

lemma is_ok_simps [simp, res_simps]: "is_ok (Inr x)" "\<not> is_ok (Inl e)"
  by (simp_all add: is_ok_def)

lemma is_ok_iff: "is_ok m \<longleftrightarrow> (\<exists>x. m = Inr x)"
  by (cases m) auto

section \<open>Vectors\<close>

text \<open>\<open>v[i]\<close> and \<open>v[i] = x\<close> on a \<open>std::vector\<close>; an index past the end is a failure.\<close>

definition vecGet :: "'a list \<Rightarrow> nat \<Rightarrow> 'a res" where
  "vecGet xs i = (if i < length xs then Inr (xs ! i) else Inl OutOfRange)"

definition vecSet :: "'a list \<Rightarrow> nat \<Rightarrow> 'a \<Rightarrow> 'a list res" where
  "vecSet xs i x = (if i < length xs then Inr (xs[i := x]) else Inl OutOfRange)"

lemma vecGet_in [simp]: "i < length xs \<Longrightarrow> vecGet xs i = Inr (xs ! i)"
  by (simp add: vecGet_def)

lemma vecSet_in [simp]: "i < length xs \<Longrightarrow> vecSet xs i x = Inr (xs[i := x])"
  by (simp add: vecSet_def)

lemma vecGet_ok [split_res]: "vecGet xs i = Inr x \<longleftrightarrow> i < length xs \<and> x = xs ! i"
  by (auto simp: vecGet_def)

lemma vecSet_ok [split_res]: "vecSet xs i x = Inr ys \<longleftrightarrow> i < length xs \<and> ys = xs[i := x]"
  by (auto simp: vecSet_def)

section \<open>Loops that can fail\<close>

fun foldE :: "('x \<Rightarrow> 's \<Rightarrow> 's res) \<Rightarrow> 'x list \<Rightarrow> 's \<Rightarrow> 's res" where
  "foldE f [] s = Inr s"
| "foldE f (x # xs) s = bindE (f x s) (\<lambda>u. foldE f xs u)"

lemma foldE_append: "foldE f (xs @ ys) s = bindE (foldE f xs s) (\<lambda>u. foldE f ys u)"
  by (induction xs arbitrary: s) (auto simp: bindE_def split: sum.splits)

lemma foldE_upt_Suc: "foldE f [0..<Suc k] s = bindE (foldE f [0..<k] s) (f k)"
  by (simp add: foldE_append bindE_def split: sum.splits)

lemma foldE_map: "foldE f (map h xs) s = foldE (\<lambda>x. f (h x)) xs s"
  by (induction xs arbitrary: s) (simp_all add: bindE_def split: sum.splits)

lemma foldE_concat_pairs:
  "foldE (\<lambda>x. foldE (g x) (ys x)) xs s
     = foldE (\<lambda>(x, y). g x y) (concat (map (\<lambda>x. map (Pair x) (ys x)) xs)) s"
proof (induction xs arbitrary: s)
  case (Cons x xs)
  have "foldE (\<lambda>(x, y). g x y) (map (Pair x) zs) s = foldE (g x) zs s" for zs s
    by (induction zs arbitrary: s) (simp_all add: bindE_def split: sum.splits)
  moreover have "foldE (\<lambda>x. foldE (g x) (ys x)) xs
      = foldE (\<lambda>(x, y). g x y) (concat (map (\<lambda>x. map (Pair x) (ys x)) xs))"
    by (rule ext) (rule Cons.IH)
  ultimately show ?case by (simp add: foldE_append)
qed simp

lemma foldE_ext: "(\<And>x s. x \<in> set xs \<Longrightarrow> f x s = g x s) \<Longrightarrow> foldE f xs s = foldE g xs s"
  by (induction xs arbitrary: s) (auto simp: bindE_def split: sum.splits)

text \<open>Two loops agree when their bodies do on the states an invariant allows.\<close>

lemma foldE_cong_inv:
  assumes "P s" "\<And>x u. x \<in> set xs \<Longrightarrow> P u \<Longrightarrow> f x u = g x u"
    and "\<And>x u v. x \<in> set xs \<Longrightarrow> P u \<Longrightarrow> g x u = Inr v \<Longrightarrow> P v"
  shows "foldE f xs s = foldE g xs s"
  using assms
proof (induction xs arbitrary: s)
  case Nil
  then show ?case by simp
next
  case (Cons x xs)
  then have "f x s = g x s" by simp
  moreover have "foldE f xs v = foldE g xs v" if v: "g x s = Inr v" for v
  proof (rule Cons.IH)
    show "P v" by (rule Cons.prems(3)[OF _ Cons.prems(1) v]) simp
    show "f y u = g y u" if "y \<in> set xs" "P u" for y u using Cons.prems(2) that by simp
    show "P w" if "y \<in> set xs" "P u" "g y u = Inr w" for y u w
      using Cons.prems(3)[of y u w] that by simp
  qed
  ultimately show ?case by (cases "g x s") simp_all
qed

text \<open>The invariant rule of such a loop, for runs that succeed.\<close>

lemma foldE_inv:
  assumes "foldE f xs s = Inr t" "P s"
    and "\<And>x u v. x \<in> set xs \<Longrightarrow> P u \<Longrightarrow> f x u = Inr v \<Longrightarrow> P v"
  shows "P t"
  using assms
proof (induction xs arbitrary: s)
  case Nil
  then show ?case by simp
next
  case (Cons x xs)
  from Cons.prems(1) obtain u where u: "f x s = Inr u" "foldE f xs u = Inr t"
    by (auto simp: bindE_ok)
  from Cons.prems(2,3) u(1) have "P u" by auto
  with Cons.IH u(2) Cons.prems(3) show ?case by auto
qed

text \<open>The same rule for total correctness: the loop succeeds when every body does.\<close>

lemma foldE_total:
  assumes "P s" and "\<And>x u. x \<in> set xs \<Longrightarrow> P u \<Longrightarrow> \<exists>v. f x u = Inr v \<and> P v"
  shows "\<exists>t. foldE f xs s = Inr t \<and> P t"
  using assms
proof (induction xs arbitrary: s)
  case Nil
  then show ?case by simp
next
  case (Cons x xs)
  from Cons.prems obtain v where v: "f x s = Inr v" "P v" by auto
  have "\<exists>t. foldE f xs v = Inr t \<and> P t"
    by (rule Cons.IH [OF v(2)]) (use Cons.prems(2) in auto)
  with v show ?case by simp
qed

section \<open>Partial correctness of operations that can fail\<close>

definition on_ok :: "'a res \<Rightarrow> ('a \<Rightarrow> bool) \<Rightarrow> bool" where
  "on_ok m Q \<longleftrightarrow> (\<forall>x. m = Inr x \<longrightarrow> Q x)"

lemma on_ok_simps [simp]:
  "on_ok (Inr x) Q = Q x" "on_ok (Inl e) Q" "on_ok (bindE n f) Q = on_ok n (\<lambda>x. on_ok (f x) Q)"
  "on_ok (assertE b) R = (b \<longrightarrow> R ())" "on_ok (if b then m else m') Q = (if b then on_ok m Q else on_ok m' Q)"
  "on_ok (case p of (x, y) \<Rightarrow> g x y) Q = (case p of (x, y) \<Rightarrow> on_ok (g x y) Q)"
  by (auto simp: on_ok_def bindE_ok assertE_ok split: prod.splits)

lemma on_ok_mono: "on_ok m Q \<Longrightarrow> (\<And>x. Q x \<Longrightarrow> R x) \<Longrightarrow> on_ok m R"
  by (auto simp: on_ok_def)

lemma on_okD: "on_ok m Q \<Longrightarrow> m = Inr x \<Longrightarrow> Q x"
  by (auto simp: on_ok_def)

lemma on_okI: "(\<And>x. m = Inr x \<Longrightarrow> Q x) \<Longrightarrow> on_ok m Q"
  by (auto simp: on_ok_def)

lemma on_ok_bindI: "(\<And>x. m = Inr x \<Longrightarrow> on_ok (f x) Q) \<Longrightarrow> on_ok (bindE m f) Q"
  by (auto simp: on_ok_def bindE_ok)

lemma on_ok_any [simp]: "on_ok m (\<lambda>_. True)"
  by (simp add: on_ok_def)

lemma on_ok_foldE:
  assumes "P s" "\<And>x u. x \<in> set xs \<Longrightarrow> P u \<Longrightarrow> on_ok (f x u) P"
  shows "on_ok (foldE f xs s) P"
  using assms by (auto simp: on_ok_def intro: foldE_inv[of f xs s _ P])

section \<open>Machine integers\<close>

text \<open>
  \<open>a - b\<close> on \<open>uint64_t\<close>.  Sequence numbers (\<open>InstSeqNum\<close>, a \<open>uint64_t\<close>) are natural
  numbers; where the source subtracts, the wrap-around is written out with this function.
\<close>

definition usub64 :: "nat \<Rightarrow> nat \<Rightarrow> nat" where
  "usub64 a b = (a + 2 ^ 64 - b) mod 2 ^ 64"

lemma usub64_le: "b \<le> a \<Longrightarrow> a < 2 ^ 64 \<Longrightarrow> usub64 a b = a - b"
proof -
  assume ba: "b \<le> a" and a: "a < 2 ^ 64"
  then have "a + 2 ^ 64 - b = (a - b) + 2 ^ 64" by simp
  then have "usub64 a b = ((a - b) + 2 ^ 64) mod 2 ^ 64"
    unfolding usub64_def by (simp only:)
  also have "\<dots> = (a - b) mod 2 ^ 64" by (rule mod_add_self2)
  also have "\<dots> = a - b" using a ba by (intro mod_less) linarith
  finally show ?thesis .
qed

lemma usub64_wraps: "usub64 0 1 = 2 ^ 64 - 1"
  by (simp add: usub64_def)

section \<open>Lists\<close>

lemma mset_update_swap:
  "i < length xs \<Longrightarrow> add_mset (xs ! i) (mset (xs[i := x])) = add_mset x (mset xs)"
  by (simp add: mset_update)

lemma distinct_mset_Un:
  "mset ys = mset xs + mset zs \<Longrightarrow> distinct ys \<Longrightarrow> set xs \<inter> set zs = {}"
proof -
  assume "mset ys = mset xs + mset zs" "distinct ys"
  then have "distinct (xs @ zs)"
    by (metis mset_append mset_eq_imp_distinct_iff)
  then show ?thesis by simp
qed

lemma nth_map_Some_eq:
  "length xs = length ys \<Longrightarrow> (\<And>i. i < length xs \<Longrightarrow> xs ! i = Some (ys ! i)) \<Longrightarrow> xs = map Some ys"
  by (simp add: list_eq_iff_nth_eq)

lemma distinct_concat_key:
  "distinct cs \<Longrightarrow> (\<And>c. c \<in> set cs \<Longrightarrow> distinct (f c)) \<Longrightarrow>
     (\<And>c x. c \<in> set cs \<Longrightarrow> x \<in> set (f c) \<Longrightarrow> key x = c) \<Longrightarrow> distinct (concat (map f cs))"
proof (induction cs)
  case (Cons c cs)
  have "x \<notin> set (f d)" if "x \<in> set (f c)" "d \<in> set cs" for x d
    using Cons.prems(1) Cons.prems(3)[of c x] Cons.prems(3)[of d x] that by auto
  with Cons show ?case by auto
qed simp

end
