(* ===== verification/RegFile.thy ===== *)
theory RegFile
  imports Prelude
begin

text \<open>
  The physical register file (\<open>regfile.hh\<close>, \<open>regfile.cc\<close>): the register classes, the
  identifiers of architectural and physical registers, the constructor that numbers the
  physical registers, reads and writes of values, and the poison bits that runahead keeps per
  flat register.  A \<open>PhysRegIdPtr\<close> points to the one \<open>PhysRegId\<close> object of its register, so
  equality of pointers is equality of the records here; the mutable pin counters of a
  \<open>PhysRegId\<close> are kept apart, in the state of renaming.
\<close>

section \<open>Register classes and identifiers\<close>

text \<open>
  The classes the sources switch over, in the order in which \<open>PhysRegFile\<close> lays the files
  out and in which \<open>freeLists\<close> and \<open>renameMaps\<close> are indexed (\<open>CCRegClass + 1\<close> entries).
\<close>

datatype reg_class =
    IntRegClass
  | FloatRegClass
  | VecRegClass
  | VecElemClass
  | VecPredRegClass
  | CCRegClass
  | MiscRegClass
  | InvalidRegClass

fun class_no :: "reg_class \<Rightarrow> nat" where
  "class_no IntRegClass = 0"
| "class_no FloatRegClass = 1"
| "class_no VecRegClass = 2"
| "class_no VecElemClass = 3"
| "class_no VecPredRegClass = 4"
| "class_no CCRegClass = 5"
| "class_no MiscRegClass = 6"
| "class_no InvalidRegClass = 7"

lemma class_no_inj: "class_no a = class_no b \<longleftrightarrow> a = b"
  by (cases a; cases b) simp_all

text \<open>The enumeration order, which the loops \<open>for (type = 0; type <= CCRegClass; ...)\<close> use.\<close>

instantiation reg_class :: linorder
begin

definition less_eq_reg_class :: "reg_class \<Rightarrow> reg_class \<Rightarrow> bool" where
  "less_eq_reg_class a b \<longleftrightarrow> class_no a \<le> class_no b"

definition less_reg_class :: "reg_class \<Rightarrow> reg_class \<Rightarrow> bool" where
  "less_reg_class a b \<longleftrightarrow> class_no a < class_no b"

instance
  by standard (auto simp: less_eq_reg_class_def less_reg_class_def class_no_inj)

end

definition all_classes :: "reg_class list" where
  "all_classes = [IntRegClass, FloatRegClass, VecRegClass, VecElemClass, VecPredRegClass,
     CCRegClass, MiscRegClass]"

definition classes_upto :: "reg_class \<Rightarrow> reg_class list" where
  "classes_upto c = [k \<leftarrow> all_classes. k \<le> c]"

abbreviation rename_classes :: "reg_class list" where
  "rename_classes \<equiv> classes_upto CCRegClass"

lemma rename_classes_eq:
  "rename_classes = [IntRegClass, FloatRegClass, VecRegClass, VecElemClass, VecPredRegClass,
     CCRegClass]"
  by (simp add: classes_upto_def all_classes_def less_eq_reg_class_def)

lemma in_rename_classes: "c \<in> set rename_classes \<longleftrightarrow> c \<noteq> MiscRegClass \<and> c \<noteq> InvalidRegClass"
  by (cases c) (simp_all add: rename_classes_eq)

lemma distinct_rename_classes [simp]: "distinct rename_classes"
  by (simp add: rename_classes_eq)

record reg_id =
  raClass :: reg_class
  raIndex :: nat
  raPinned :: int

record phys_reg =
  prClass :: reg_class
  prIndex :: nat
  prFlat :: nat

type_synonym regval = "64 word"
type_synonym blob = "8 word list"

section \<open>The register file\<close>

text \<open>
  The sources keep one field per class (\<open>intRegFile\<close>, \<open>intRegIds\<close>,
  \<open>numPhysicalIntRegs\<close> and so on); here a field is a function of the class.  \<open>regVals\<close>
  holds the files of 64-bit registers, \<open>vecVals\<close> those of vector and predicate registers,
  whose values are byte blobs.
\<close>

record phys_reg_file =
  regVals :: "reg_class \<Rightarrow> regval list"
  vecVals :: "reg_class \<Rightarrow> blob list"
  regIds :: "reg_class \<Rightarrow> phys_reg list"
  poisonedRegs :: "bool list"
  numPhys :: "reg_class \<Rightarrow> nat"
  totalNumRegs :: nat

definition is_scalar :: "reg_class \<Rightarrow> bool" where
  "is_scalar c = (case c of IntRegClass \<Rightarrow> True | FloatRegClass \<Rightarrow> True | VecElemClass \<Rightarrow> True
     | CCRegClass \<Rightarrow> True | _ \<Rightarrow> False)"

definition is_blob :: "reg_class \<Rightarrow> bool" where
  "is_blob c = (case c of VecRegClass \<Rightarrow> True | VecPredRegClass \<Rightarrow> True | _ \<Rightarrow> False)"

text \<open>One of the constructor's loops: the identifiers of a class, numbered on from a flat index.\<close>

definition mk_ids :: "reg_class \<Rightarrow> nat \<Rightarrow> nat \<Rightarrow> phys_reg list" where
  "mk_ids c n flat = map (\<lambda>i. \<lparr>prClass = c, prIndex = i, prFlat = flat + i\<rparr>) [0..<n]"

fun phys_count :: "nat \<Rightarrow> nat \<Rightarrow> nat \<Rightarrow> nat \<Rightarrow> nat \<Rightarrow> nat \<Rightarrow> reg_class \<Rightarrow> nat" where
  "phys_count nInt nFloat nVec nElem nPred nCC IntRegClass = nInt"
| "phys_count nInt nFloat nVec nElem nPred nCC FloatRegClass = nFloat"
| "phys_count nInt nFloat nVec nElem nPred nCC VecRegClass = nVec"
| "phys_count nInt nFloat nVec nElem nPred nCC VecElemClass = nElem"
| "phys_count nInt nFloat nVec nElem nPred nCC VecPredRegClass = nPred"
| "phys_count nInt nFloat nVec nElem nPred nCC CCRegClass = nCC"
| "phys_count nInt nFloat nVec nElem nPred nCC _ = 0"

text \<open>The flat index at which a class starts: the sizes of the classes before it.\<close>

fun flat_base :: "(reg_class \<Rightarrow> nat) \<Rightarrow> reg_class \<Rightarrow> nat" where
  "flat_base n IntRegClass = 0"
| "flat_base n FloatRegClass = n IntRegClass"
| "flat_base n VecRegClass = n IntRegClass + n FloatRegClass"
| "flat_base n VecElemClass = n IntRegClass + n FloatRegClass + n VecRegClass"
| "flat_base n VecPredRegClass =
     n IntRegClass + n FloatRegClass + n VecRegClass + n VecElemClass"
| "flat_base n CCRegClass =
     n IntRegClass + n FloatRegClass + n VecRegClass + n VecElemClass + n VecPredRegClass"
| "flat_base n _ =
     n IntRegClass + n FloatRegClass + n VecRegClass + n VecElemClass + n VecPredRegClass
       + n CCRegClass"

text \<open>
  The constructor.  \<open>archRegs\<close> is \<open>BaseISA::RegClasses\<close>: the number of architectural
  registers per class.  The number of vector elements divides by that of the vector class.
  Registers of \<open>RegFile\<close> start as zero bytes; \<open>vecBytes\<close> is the size the ISA gives a
  register of a blob class.  Misc registers all get flat index 0.
\<close>

definition new_PhysRegFile ::
  "nat \<Rightarrow> nat \<Rightarrow> nat \<Rightarrow> nat \<Rightarrow> nat \<Rightarrow> (reg_class \<Rightarrow> nat) \<Rightarrow> (reg_class \<Rightarrow> nat) \<Rightarrow> phys_reg_file res"
where
  "new_PhysRegFile nInt nFloat nVec nPred nCC archRegs vecBytes =
     (if archRegs VecRegClass = 0 then Inl DivByZero
      else
        let nElem = nVec * (archRegs VecElemClass div archRegs VecRegClass);
            n = phys_count nInt nFloat nVec nElem nPred nCC;
            total = nInt + nFloat + nVec + nElem + nPred + nCC
        in Inr \<lparr>regVals = (\<lambda>c. if is_scalar c then replicate (n c) 0 else []),
                vecVals = (\<lambda>c. if is_blob c then replicate (n c) (replicate (vecBytes c) 0)
                               else []),
                regIds = (\<lambda>c. if c = MiscRegClass
                              then map (\<lambda>i. \<lparr>prClass = MiscRegClass, prIndex = i, prFlat = 0\<rparr>)
                                     [0..<archRegs MiscRegClass]
                              else mk_ids c (n c) (flat_base n c)),
                poisonedRegs = replicate total False,
                numPhys = n,
                totalNumRegs = total\<rparr>)"

text \<open>\<open>getReg(phys_reg)\<close>: the tracing code reads the poison bit before the class is looked at.\<close>

definition getReg :: "phys_reg_file \<Rightarrow> phys_reg \<Rightarrow> regval res" where
  "getReg rf p =
     bindE (vecGet (poisonedRegs rf) (prFlat p)) (\<lambda>_.
       case prClass p of
         IntRegClass \<Rightarrow> vecGet (regVals rf IntRegClass) (prIndex p)
       | FloatRegClass \<Rightarrow> vecGet (regVals rf FloatRegClass) (prIndex p)
       | VecElemClass \<Rightarrow> vecGet (regVals rf VecElemClass) (prIndex p)
       | CCRegClass \<Rightarrow> vecGet (regVals rf CCRegClass) (prIndex p)
       | _ \<Rightarrow> Inl PanicCall)"

datatype anyval = Scalar regval | Blob blob

text \<open>\<open>getReg(phys_reg, void *val)\<close>: the value that is copied to \<open>val\<close>.\<close>

definition getRegAny :: "phys_reg_file \<Rightarrow> phys_reg \<Rightarrow> anyval res" where
  "getRegAny rf p =
     (case prClass p of
        IntRegClass \<Rightarrow> map_sum id Scalar (getReg rf p)
      | FloatRegClass \<Rightarrow> map_sum id Scalar (getReg rf p)
      | VecRegClass \<Rightarrow> map_sum id Blob (vecGet (vecVals rf VecRegClass) (prIndex p))
      | VecElemClass \<Rightarrow> map_sum id Scalar (getReg rf p)
      | VecPredRegClass \<Rightarrow> map_sum id Blob (vecGet (vecVals rf VecPredRegClass) (prIndex p))
      | CCRegClass \<Rightarrow> map_sum id Scalar (getReg rf p)
      | _ \<Rightarrow> Inl PanicCall)"

text \<open>
  \<open>getWritableReg\<close> returns a pointer into the file of the class, which is the class and the
  position in its file here.
\<close>

definition getWritableReg :: "phys_reg_file \<Rightarrow> phys_reg \<Rightarrow> (reg_class \<times> nat) res" where
  "getWritableReg rf p =
     (case prClass p of
        VecRegClass \<Rightarrow> map_sum id (\<lambda>_. (VecRegClass, prIndex p))
                          (vecGet (vecVals rf VecRegClass) (prIndex p))
      | VecPredRegClass \<Rightarrow> map_sum id (\<lambda>_. (VecPredRegClass, prIndex p))
                          (vecGet (vecVals rf VecPredRegClass) (prIndex p))
      | _ \<Rightarrow> Inl PanicCall)"

definition upd_vals :: "phys_reg_file \<Rightarrow> reg_class \<Rightarrow> nat \<Rightarrow> regval \<Rightarrow> phys_reg_file res" where
  "upd_vals rf c i v =
     bindE (vecSet (regVals rf c) i v) (\<lambda>xs. Inr (rf\<lparr>regVals := (regVals rf)(c := xs)\<rparr>))"

definition upd_blobs :: "phys_reg_file \<Rightarrow> reg_class \<Rightarrow> nat \<Rightarrow> blob \<Rightarrow> phys_reg_file res" where
  "upd_blobs rf c i v =
     bindE (vecSet (vecVals rf c) i v) (\<lambda>xs. Inr (rf\<lparr>vecVals := (vecVals rf)(c := xs)\<rparr>))"

definition setReg :: "phys_reg_file \<Rightarrow> phys_reg \<Rightarrow> regval \<Rightarrow> phys_reg_file res" where
  "setReg rf p v =
     (case prClass p of
        InvalidRegClass \<Rightarrow> Inr rf
      | IntRegClass \<Rightarrow> upd_vals rf IntRegClass (prIndex p) v
      | FloatRegClass \<Rightarrow> upd_vals rf FloatRegClass (prIndex p) v
      | VecElemClass \<Rightarrow> upd_vals rf VecElemClass (prIndex p) v
      | CCRegClass \<Rightarrow> upd_vals rf CCRegClass (prIndex p) v
      | _ \<Rightarrow> Inl PanicCall)"

text \<open>
  \<open>setReg(phys_reg, const void *val)\<close>; the caller passes a pointer to a value of the
  register's kind, so a scalar class with a blob (or the reverse) does not arise.
\<close>

definition setRegAny :: "phys_reg_file \<Rightarrow> phys_reg \<Rightarrow> anyval \<Rightarrow> phys_reg_file res" where
  "setRegAny rf p a =
     (case (prClass p, a) of
        (IntRegClass, Scalar v) \<Rightarrow> setReg rf p v
      | (FloatRegClass, Scalar v) \<Rightarrow> setReg rf p v
      | (VecRegClass, Blob b) \<Rightarrow> upd_blobs rf VecRegClass (prIndex p) b
      | (VecElemClass, Scalar v) \<Rightarrow> setReg rf p v
      | (VecPredRegClass, Blob b) \<Rightarrow> upd_blobs rf VecPredRegClass (prIndex p) b
      | (CCRegClass, Scalar v) \<Rightarrow> setReg rf p v
      | _ \<Rightarrow> Inl PanicCall)"

text \<open>\<open>regPoisoned(physReg)\<close> and \<open>regPoisoned(physReg, poisoned)\<close>.\<close>

definition regPoisoned :: "phys_reg_file \<Rightarrow> phys_reg \<Rightarrow> bool res" where
  "regPoisoned rf p =
     (if prClass p = InvalidRegClass then Inr False
      else vecGet (poisonedRegs rf) (prFlat p))"

definition setPoison :: "phys_reg_file \<Rightarrow> phys_reg \<Rightarrow> bool \<Rightarrow> phys_reg_file res" where
  "setPoison rf p b =
     (if prClass p = MiscRegClass then Inl PanicCall
      else if prClass p = InvalidRegClass then Inr rf
      else bindE (vecSet (poisonedRegs rf) (prFlat p) b) (\<lambda>xs. Inr (rf\<lparr>poisonedRegs := xs\<rparr>)))"

definition clearPoison :: "phys_reg_file \<Rightarrow> phys_reg_file" where
  "clearPoison rf = rf\<lparr>poisonedRegs := map (\<lambda>_. False) (poisonedRegs rf)\<rparr>"

text \<open>\<open>getRegIds\<close>, \<open>getMiscRegId\<close> and \<open>getTrueId\<close>.\<close>

definition getRegIds :: "phys_reg_file \<Rightarrow> reg_class \<Rightarrow> phys_reg list res" where
  "getRegIds rf c = (if c = InvalidRegClass then Inl PanicCall else Inr (regIds rf c))"

definition getMiscRegId :: "phys_reg_file \<Rightarrow> nat \<Rightarrow> phys_reg res" where
  "getMiscRegId rf i = vecGet (regIds rf MiscRegClass) i"

definition getTrueId :: "phys_reg_file \<Rightarrow> phys_reg \<Rightarrow> phys_reg res" where
  "getTrueId rf p =
     (case prClass p of
        VecRegClass \<Rightarrow> vecGet (regIds rf VecRegClass) (prIndex p)
      | VecElemClass \<Rightarrow> vecGet (regIds rf VecElemClass) (prIndex p)
      | _ \<Rightarrow> Inl PanicCall)"

section \<open>Well-formed register files\<close>

text \<open>
  What the constructor establishes: identifiers are numbered by position, flat indices run
  through the classes without a gap, the files and the poison bits have the matching sizes.
\<close>

definition ids_wf :: "phys_reg_file \<Rightarrow> bool" where
  "ids_wf rf \<longleftrightarrow>
     (\<forall>c \<in> set rename_classes. regIds rf c = mk_ids c (numPhys rf c) (flat_base (numPhys rf) c))"

definition rf_wf :: "phys_reg_file \<Rightarrow> bool" where
  "rf_wf rf \<longleftrightarrow>
     ids_wf rf
     \<and> (\<forall>p \<in> set (regIds rf MiscRegClass). prClass p = MiscRegClass \<and> prFlat p = 0)
     \<and> (\<forall>c \<in> set rename_classes. is_scalar c \<longrightarrow> length (regVals rf c) = numPhys rf c)
     \<and> (\<forall>c \<in> set rename_classes. is_blob c \<longrightarrow> length (vecVals rf c) = numPhys rf c)
     \<and> length (poisonedRegs rf) = totalNumRegs rf
     \<and> totalNumRegs rf = sum_list (map (numPhys rf) rename_classes)"

text \<open>A renameable physical register of this file.\<close>

definition owned :: "phys_reg_file \<Rightarrow> phys_reg \<Rightarrow> bool" where
  "owned rf p \<longleftrightarrow> prClass p \<in> set rename_classes \<and> p \<in> set (regIds rf (prClass p))"

lemma mk_ids_set:
  "p \<in> set (mk_ids c n b) \<longleftrightarrow> prClass p = c \<and> prIndex p < n \<and> prFlat p = b + prIndex p"
proof -
  have "p = \<lparr>prClass = c, prIndex = i, prFlat = b + i\<rparr> \<longleftrightarrow>
        prClass p = c \<and> prIndex p = i \<and> prFlat p = b + i" for i
    by (cases p) auto
  then show ?thesis by (auto simp: mk_ids_def image_iff)
qed

lemma mk_ids_distinct: "distinct (mk_ids c n b)"
  by (auto simp: mk_ids_def distinct_map inj_on_def)

lemma mk_ids_length [simp]: "length (mk_ids c n b) = n"
  by (simp add: mk_ids_def)

lemma owned_alt:
  "ids_wf rf \<Longrightarrow> owned rf p \<longleftrightarrow> prClass p \<in> set rename_classes \<and> prIndex p < numPhys rf (prClass p)
     \<and> prFlat p = flat_base (numPhys rf) (prClass p) + prIndex p"
  by (auto simp: owned_def ids_wf_def mk_ids_set)

text \<open>The intervals of flat indices of two classes do not meet.\<close>

lemma flat_base_mono:
  "c \<in> set rename_classes \<Longrightarrow> d \<in> set rename_classes \<Longrightarrow> c < d \<Longrightarrow>
     flat_base n c + n c \<le> flat_base n d"
  by (cases c; cases d) (simp_all add: less_reg_class_def in_rename_classes)

lemma flat_base_total:
  "c \<in> set rename_classes \<Longrightarrow> flat_base n c + n c \<le> sum_list (map n rename_classes)"
  by (cases c) (simp_all add: in_rename_classes rename_classes_eq)

lemma flat_inj:
  assumes "ids_wf rf" "owned rf p" "owned rf q" "prFlat p = prFlat q"
  shows "p = q"
proof -
  let ?n = "numPhys rf"
  note P = assms(2)[unfolded owned_alt[OF assms(1)]] and Q = assms(3)[unfolded owned_alt[OF assms(1)]]
  have "prClass p = prClass q"
  proof (rule ccontr)
    assume "prClass p \<noteq> prClass q"
    then have "prClass p < prClass q \<or> prClass q < prClass p" by auto
    then show False
      using flat_base_mono[of "prClass p" "prClass q" ?n] flat_base_mono[of "prClass q" "prClass p" ?n]
        P Q assms(4) by auto
  qed
  with P Q assms(4) show ?thesis by (cases p; cases q) auto
qed

lemma flat_bound: "rf_wf rf \<Longrightarrow> owned rf p \<Longrightarrow> prFlat p < length (poisonedRegs rf)"
  using flat_base_total[of "prClass p" "numPhys rf"]
  by (auto simp: rf_wf_def owned_alt)

lemma new_rf_wf:
  assumes "new_PhysRegFile nInt nFloat nVec nPred nCC archRegs vecBytes = Inr rf"
  shows "rf_wf rf"
proof -
  from assms have "archRegs VecRegClass \<noteq> 0"
    by (cases "archRegs VecRegClass = 0") (simp_all add: new_PhysRegFile_def)
  with assms show ?thesis
    unfolding rf_wf_def ids_wf_def rename_classes_eq
    by (auto simp: new_PhysRegFile_def Let_def is_scalar_def is_blob_def)
qed

section \<open>Reads and writes\<close>

text \<open>
  The interface of a register store: writes to valid registers succeed, keep validity, are
  read back, and leave the other registers alone.
\<close>

locale reg_store =
  fixes rd :: "'s \<Rightarrow> 'r \<Rightarrow> 'v res"
    and wr :: "'s \<Rightarrow> 'r \<Rightarrow> 'v \<Rightarrow> 's res"
    and valid :: "'s \<Rightarrow> 'r \<Rightarrow> bool"
  assumes wr_total: "valid s r \<Longrightarrow> \<exists>t. wr s r v = Inr t"
    and wr_valid: "valid s r \<Longrightarrow> wr s r v = Inr t \<Longrightarrow> valid t q = valid s q"
    and rd_wr_same: "valid s r \<Longrightarrow> wr s r v = Inr t \<Longrightarrow> rd t r = Inr v"
    and rd_wr_other:
      "valid s r \<Longrightarrow> valid s q \<Longrightarrow> wr s r v = Inr t \<Longrightarrow> q \<noteq> r \<Longrightarrow> rd t q = rd s q"
begin

lemma rd_wr:
  "valid s r \<Longrightarrow> valid s q \<Longrightarrow> wr s r v = Inr t \<Longrightarrow> rd t q = (if q = r then Inr v else rd s q)"
  using rd_wr_same rd_wr_other by auto

lemma wr_all:
  assumes "\<And>x. x \<in> set xs \<Longrightarrow> valid s (r x)" "distinct (map r xs)"
  shows "\<exists>t. foldE (\<lambda>x u. wr u (r x) (f x)) xs s = Inr t
           \<and> (\<forall>x \<in> set xs. rd t (r x) = Inr (f x))
           \<and> (\<forall>q. valid s q \<longrightarrow> q \<notin> r ` set xs \<longrightarrow> rd t q = rd s q)
           \<and> (\<forall>q. valid t q = valid s q)"
  using assms
proof (induction xs arbitrary: s)
  case Nil
  then show ?case by simp
next
  case (Cons x xs)
  from Cons.prems obtain u where u: "wr s (r x) (f x) = Inr u" using wr_total by fastforce
  have vs: "valid u q = valid s q" for q
    using wr_valid[of s "r x" "f x" u q] Cons.prems(1)[of x] u by simp
  have "\<exists>t. foldE (\<lambda>x u. wr u (r x) (f x)) xs u = Inr t \<and> (\<forall>x \<in> set xs. rd t (r x) = Inr (f x))
           \<and> (\<forall>q. valid u q \<longrightarrow> q \<notin> r ` set xs \<longrightarrow> rd t q = rd u q) \<and> (\<forall>q. valid t q = valid u q)"
    by (rule Cons.IH) (use Cons.prems vs in auto)
  then show ?case
    using Cons.prems u vs rd_wr[of s "r x" _ "f x" u] by auto
qed

end

text \<open>Writes keep the identifiers and the sizes, hence well-formedness.\<close>

lemma upd_vals_frame:
  "upd_vals rf c i v = Inr rf' \<Longrightarrow> i < length (regVals rf c)
     \<and> rf' = rf\<lparr>regVals := (regVals rf)(c := (regVals rf c)[i := v])\<rparr>"
  by (auto simp: upd_vals_def bindE_ok vecSet_ok)

lemma setReg_cases:
  assumes "is_scalar (prClass p)"
  shows "setReg rf p v = upd_vals rf (prClass p) (prIndex p) v"
    and "getReg rf p = bindE (vecGet (poisonedRegs rf) (prFlat p))
           (\<lambda>_. vecGet (regVals rf (prClass p)) (prIndex p))"
  using assms by (auto simp: setReg_def getReg_def is_scalar_def split: reg_class.splits)

definition scalar_reg :: "phys_reg_file \<Rightarrow> phys_reg \<Rightarrow> bool" where
  "scalar_reg rf p \<longleftrightarrow> rf_wf rf \<and> owned rf p \<and> is_scalar (prClass p)"

lemma scalar_index: "scalar_reg rf p \<Longrightarrow> prIndex p < length (regVals rf (prClass p))"
  by (auto simp: scalar_reg_def rf_wf_def owned_alt)

lemma setReg_ok:
  "scalar_reg rf p \<Longrightarrow> setReg rf p v =
     Inr (rf\<lparr>regVals := (regVals rf)(prClass p := (regVals rf (prClass p))[prIndex p := v])\<rparr>)"
  using scalar_index[of rf p]
  by (simp add: setReg_cases scalar_reg_def upd_vals_def)

lemma getReg_ok:
  "scalar_reg rf p \<Longrightarrow> getReg rf p = Inr (regVals rf (prClass p) ! prIndex p)"
  using scalar_index[of rf p] flat_bound[of rf p]
  by (simp add: setReg_cases scalar_reg_def)

lemma regVals_upd_wf:
  "length xs = length (regVals rf c) \<Longrightarrow>
     rf_wf (rf\<lparr>regVals := (regVals rf)(c := xs)\<rparr>) = rf_wf rf"
  by (auto simp: rf_wf_def ids_wf_def)

lemma owned_regVals [simp]: "owned (rf\<lparr>regVals := X\<rparr>) p = owned rf p"
  by (simp add: owned_def)

lemma owned_eq_iff:
  "ids_wf rf \<Longrightarrow> owned rf p \<Longrightarrow> owned rf q \<Longrightarrow>
     prClass p = prClass q \<Longrightarrow> prIndex p = prIndex q \<Longrightarrow> p = q"
  by (rule flat_inj) (auto simp: owned_alt)

lemma setReg_scalar:
  "scalar_reg rf p \<Longrightarrow> setReg rf p v = Inr rf' \<Longrightarrow> scalar_reg rf' q = scalar_reg rf q"
  by (auto simp: setReg_ok scalar_reg_def regVals_upd_wf)

interpretation scalars: reg_store getReg setReg scalar_reg
proof
  fix s r v t
  assume r: "scalar_reg s r"
  then show "\<exists>t. setReg s r v = Inr t" by (simp add: setReg_ok)
  assume t: "setReg s r v = Inr t"
  with r show tq: "scalar_reg t q = scalar_reg s q" for q by (rule setReg_scalar)
  show "getReg t r = Inr v"
    using r t tq[of r] scalar_index[OF r] by (auto simp: getReg_ok setReg_ok)
  fix q
  assume q: "scalar_reg s q" "q \<noteq> r"
  have "prClass q = prClass r \<Longrightarrow> prIndex q \<noteq> prIndex r"
    using owned_eq_iff[of s q r] q r by (auto simp: scalar_reg_def rf_wf_def)
  then show "getReg t q = getReg s q"
    using q(1) r t tq[of q] scalar_index[OF r] by (auto simp: getReg_ok setReg_ok)
qed

section \<open>Poison\<close>

definition poison_reg :: "phys_reg_file \<Rightarrow> phys_reg \<Rightarrow> bool" where
  "poison_reg rf p \<longleftrightarrow> rf_wf rf \<and> owned rf p"

lemma owned_not_misc: "owned rf p \<Longrightarrow> prClass p \<noteq> MiscRegClass \<and> prClass p \<noteq> InvalidRegClass"
  by (auto simp: owned_def in_rename_classes)

lemma setPoison_ok:
  "poison_reg rf p \<Longrightarrow>
     setPoison rf p b = Inr (rf\<lparr>poisonedRegs := (poisonedRegs rf)[prFlat p := b]\<rparr>)"
  using flat_bound[of rf p] owned_not_misc[of rf p] by (simp add: setPoison_def poison_reg_def)

lemma regPoisoned_ok:
  "poison_reg rf p \<Longrightarrow> regPoisoned rf p = Inr (poisonedRegs rf ! prFlat p)"
  using flat_bound[of rf p] owned_not_misc[of rf p] by (simp add: regPoisoned_def poison_reg_def)

lemma poison_frame:
  "length xs = length (poisonedRegs rf) \<Longrightarrow>
     rf_wf (rf\<lparr>poisonedRegs := xs\<rparr>) = rf_wf rf"
  "owned (rf\<lparr>poisonedRegs := xs\<rparr>) p = owned rf p"
  by (auto simp: rf_wf_def ids_wf_def owned_def)

interpretation poisons: reg_store regPoisoned setPoison poison_reg
proof
  fix s r b t
  assume r: "poison_reg s r"
  then show "\<exists>t. setPoison s r b = Inr t" by (simp add: setPoison_ok)
  assume "setPoison s r b = Inr t"
  with r have t: "t = s\<lparr>poisonedRegs := (poisonedRegs s)[prFlat r := b]\<rparr>" by (simp add: setPoison_ok)
  show tq: "poison_reg t q = poison_reg s q" for q
    using t by (simp add: poison_reg_def poison_frame)
  have rb: "prFlat r < length (poisonedRegs s)" using r flat_bound by (simp add: poison_reg_def)
  show "regPoisoned t r = Inr b" using r tq[of r] rb t by (simp add: regPoisoned_ok)
  fix q
  assume q: "poison_reg s q" "q \<noteq> r"
  then have "prFlat q \<noteq> prFlat r"
    using flat_inj[of s q r] r by (auto simp: poison_reg_def rf_wf_def)
  then show "regPoisoned t q = regPoisoned s q"
    using q tq[of q] t by (simp add: regPoisoned_ok)
qed

lemma clearPoison_wf [simp]: "rf_wf (clearPoison rf) = rf_wf rf"
  by (simp add: clearPoison_def poison_frame)

lemma clearPoison_owned [simp]: "owned (clearPoison rf) p = owned rf p"
  by (simp add: clearPoison_def poison_frame)

lemma clearPoison_reads:
  "poison_reg rf p \<Longrightarrow> regPoisoned (clearPoison rf) p = Inr False"
  using flat_bound[of rf p]
  by (simp add: regPoisoned_ok poison_reg_def) (simp add: clearPoison_def)

lemma clearPoison_values: "scalar_reg rf p \<Longrightarrow> getReg (clearPoison rf) p = getReg rf p"
proof -
  assume p: "scalar_reg rf p"
  then have "scalar_reg (clearPoison rf) p" by (simp add: scalar_reg_def)
  with p show ?thesis by (simp add: getReg_ok) (simp add: clearPoison_def)
qed

section \<open>Properties of the register file\<close>

definition small_arch :: "reg_class \<Rightarrow> nat" where
  "small_arch c = (case c of VecElemClass \<Rightarrow> 2 | MiscRegClass \<Rightarrow> 3 | _ \<Rightarrow> 1)"

definition small_rf :: "phys_reg_file" where
  "small_rf = projr (new_PhysRegFile 2 1 1 1 1 small_arch (\<lambda>_. 2))"

lemma small_rf_ok: "new_PhysRegFile 2 1 1 1 1 small_arch (\<lambda>_. 2) = Inr small_rf"
  by (simp add: small_rf_def new_PhysRegFile_def Let_def small_arch_def)

lemma small_rf_wf: "rf_wf small_rf"
  using small_rf_ok by (rule new_rf_wf)

text \<open>
  C18: the constructor numbers the physical registers so that a register's flat index, which
  selects its poison bit, identifies the register: two renameable registers with the same
  flat index are the same, every flat index is in range of the poison bits, and a fresh file
  has no poisoned register.
\<close>

theorem new_PhysRegFile_flat_indices:
  assumes "new_PhysRegFile nInt nFloat nVec nPred nCC archRegs vecBytes = Inr rf"
  shows "rf_wf rf
     \<and> (\<forall>p q. owned rf p \<longrightarrow> owned rf q \<longrightarrow> prFlat p = prFlat q \<longrightarrow> p = q)
     \<and> (\<forall>p. owned rf p \<longrightarrow> regPoisoned rf p = Inr False)"
proof (intro conjI allI impI)
  show wf: "rf_wf rf" using assms by (rule new_rf_wf)
  then show "owned rf p \<Longrightarrow> owned rf q \<Longrightarrow> prFlat p = prFlat q \<Longrightarrow> p = q" for p q
    using flat_inj by (auto simp: rf_wf_def)
  have "poisonedRegs rf = replicate (totalNumRegs rf) False"
    using assms by (cases "archRegs VecRegClass = 0") (auto simp: new_PhysRegFile_def Let_def)
  then show "owned rf p \<Longrightarrow> regPoisoned rf p = Inr False" for p
    using wf flat_bound[of rf p] by (simp add: regPoisoned_ok poison_reg_def)
qed

lemma new_PhysRegFile_flat_indices_witness:
  "rf_wf small_rf
     \<and> regPoisoned small_rf \<lparr>prClass = CCRegClass, prIndex = 0, prFlat = 7\<rparr> = Inr False"
proof -
  have "owned small_rf \<lparr>prClass = CCRegClass, prIndex = 0, prFlat = 7\<rparr>"
    by (simp add: owned_def in_rename_classes small_rf_def new_PhysRegFile_def Let_def
        small_arch_def mk_ids_set)
  then show ?thesis using new_PhysRegFile_flat_indices[OF small_rf_ok] by blast
qed

text \<open>
  \<open>regPoisoned(physReg)\<close> excludes only the invalid class, and every misc register has flat
  index 0, so asking whether a misc register is poisoned answers for the physical register
  with flat index 0, integer register 0; the writer of the poison bit panics on misc
  registers because of those indices.
\<close>

theorem misc_reg_reads_poison_of_flat_0:
  assumes "rf_wf rf" "m \<in> set (regIds rf MiscRegClass)" "owned rf p" "prFlat p = 0"
  shows "regPoisoned rf m = regPoisoned rf p \<and> setPoison rf m b = Inl PanicCall"
proof -
  have "prClass m = MiscRegClass" "prFlat m = 0" using assms(1,2) by (auto simp: rf_wf_def)
  moreover have "prFlat p < length (poisonedRegs rf)" using assms(1,3) by (rule flat_bound)
  ultimately show ?thesis
    using assms owned_not_misc[of rf p] by (simp add: regPoisoned_def setPoison_def)
qed

lemma misc_reg_reads_poison_of_flat_0_witness:
  "regPoisoned (projr (setPoison small_rf \<lparr>prClass = IntRegClass, prIndex = 0, prFlat = 0\<rparr> True))
       \<lparr>prClass = MiscRegClass, prIndex = 1, prFlat = 0\<rparr> = Inr True"
proof -
  let ?r0 = "\<lparr>prClass = IntRegClass, prIndex = 0, prFlat = 0\<rparr>"
  let ?m = "\<lparr>prClass = MiscRegClass, prIndex = 1, prFlat = 0\<rparr>"
  let ?rf = "projr (setPoison small_rf ?r0 True)"
  have ids: "?r0 \<in> set (regIds small_rf IntRegClass)"
    "?m \<in> set (regIds small_rf MiscRegClass)"
    by (simp_all add: small_rf_def new_PhysRegFile_def Let_def small_arch_def mk_ids_set)
  have o: "poison_reg small_rf ?r0"
    using ids small_rf_wf by (simp add: poison_reg_def owned_def in_rename_classes)
  then obtain t where t: "setPoison small_rf ?r0 True = Inr t"
    using poisons.wr_total by blast
  have rf: "?rf = t" using t by simp
  have "t = small_rf\<lparr>poisonedRegs := (poisonedRegs small_rf)[0 := True]\<rparr>"
    using t setPoison_ok[OF o] by simp
  then have "?m \<in> set (regIds t MiscRegClass)" using ids by simp
  moreover have "poison_reg t ?r0" using poisons.wr_valid[OF o t] o by simp
  moreover have "regPoisoned t ?r0 = Inr True" using poisons.rd_wr_same[OF o t] .
  ultimately show ?thesis
    using misc_reg_reads_poison_of_flat_0[of t ?m ?r0 True] by (simp add: rf poison_reg_def)
qed

end
