(* ===== verification/FreeList.thy ===== *)
theory FreeList
  imports RegFile
begin

text \<open>
  The free lists of physical registers (\<open>free_list.hh\<close>, \<open>free_list.cc\<close>) and
  \<open>PhysRegFile::initFreeList\<close> (\<open>regfile.cc\<close>).  A \<open>std::queue\<close> is a list whose head is the
  front.  The array of per-class lists has \<open>CCRegClass + 1\<close> entries; an index past them is
  the failure \<open>OutOfRange\<close>.
\<close>

section \<open>SimpleFreeList\<close>

type_synonym free_list = "phys_reg list"

fun fl_clear :: "free_list \<Rightarrow> free_list" where
  "fl_clear [] = []"
| "fl_clear (r # rs) = fl_clear rs"

definition fl_addReg :: "free_list \<Rightarrow> phys_reg \<Rightarrow> free_list" where
  "fl_addReg fl r = fl @ [r]"

definition fl_addRegs :: "free_list \<Rightarrow> phys_reg list \<Rightarrow> free_list" where
  "fl_addRegs fl rs = fold (\<lambda>r q. fl_addReg q r) rs fl"

definition fl_getReg :: "free_list \<Rightarrow> (phys_reg \<times> free_list) res" where
  "fl_getReg fl = (case fl of [] \<Rightarrow> Inl AssertFail | r # rs \<Rightarrow> Inr (r, rs))"

definition fl_numFreeRegs :: "free_list \<Rightarrow> nat" where
  "fl_numFreeRegs fl = length fl"

definition fl_hasFreeRegs :: "free_list \<Rightarrow> bool" where
  "fl_hasFreeRegs fl \<longleftrightarrow> fl \<noteq> []"

section \<open>UnifiedFreeList\<close>

type_synonym free_lists = "reg_class \<Rightarrow> free_list"

definition ufl_getReg :: "free_lists \<Rightarrow> reg_class \<Rightarrow> (phys_reg \<times> free_lists) res" where
  "ufl_getReg f c =
     (if c \<le> CCRegClass
      then bindE (fl_getReg (f c)) (\<lambda>(r, fl). Inr (r, f(c := fl)))
      else Inl OutOfRange)"

definition ufl_addReg :: "free_lists \<Rightarrow> phys_reg \<Rightarrow> free_lists res" where
  "ufl_addReg f r =
     (if prClass r \<le> CCRegClass
      then Inr (f(prClass r := fl_addReg (f (prClass r)) r))
      else Inl OutOfRange)"

definition ufl_addRegs :: "free_lists \<Rightarrow> phys_reg list \<Rightarrow> free_lists res" where
  "ufl_addRegs f rs = foldE (\<lambda>r u. ufl_addReg u r) rs f"

definition ufl_hasFreeRegs :: "free_lists \<Rightarrow> reg_class \<Rightarrow> bool res" where
  "ufl_hasFreeRegs f c = (if c \<le> CCRegClass then Inr (fl_hasFreeRegs (f c)) else Inl OutOfRange)"

definition ufl_numFreeRegs :: "free_lists \<Rightarrow> reg_class \<Rightarrow> nat res" where
  "ufl_numFreeRegs f c = (if c \<le> CCRegClass then Inr (fl_numFreeRegs (f c)) else Inl OutOfRange)"

text \<open>
  \<open>PhysRegFile::initFreeList\<close>: per class, assert that the identifiers are numbered by
  position, then add them.
\<close>

definition ids_numbered :: "phys_reg list \<Rightarrow> nat \<Rightarrow> unit res" where
  "ids_numbered ids n =
     foldE (\<lambda>i b. bindE (vecGet ids i) (\<lambda>r. bindE (assertE (prIndex r = i)) (\<lambda>_. Inr b)))
       [0..<n] ()"

definition initFreeList :: "phys_reg_file \<Rightarrow> free_lists \<Rightarrow> free_lists res" where
  "initFreeList rf f =
     foldE (\<lambda>c u. bindE (ids_numbered (regIds rf c) (numPhys rf c))
                    (\<lambda>_. ufl_addRegs u (regIds rf c)))
       rename_classes f"

definition new_UnifiedFreeList :: "phys_reg_file \<Rightarrow> free_lists res" where
  "new_UnifiedFreeList rf = initFreeList rf (\<lambda>_. [])"

definition ufl_reset :: "phys_reg_file \<Rightarrow> free_lists \<Rightarrow> free_lists res" where
  "ufl_reset rf f =
     initFreeList rf (fold (\<lambda>c u. u(c := fl_clear (u c))) rename_classes f)"

section \<open>First in, first out\<close>

text \<open>The queue interface that the free lists provide.\<close>

locale fifo =
  fixes push :: "'q \<Rightarrow> 'a \<Rightarrow> 'q"
    and pop :: "'q \<Rightarrow> ('a \<times> 'q) res"
    and contents :: "'q \<Rightarrow> 'a list"
  assumes push_contents: "contents (push q x) = contents q @ [x]"
    and pop_nonempty:
      "contents q = x # xs \<Longrightarrow> \<exists>q'. pop q = Inr (x, q') \<and> contents q' = xs"
    and pop_empty: "contents q = [] \<Longrightarrow> pop q = Inl AssertFail"
begin

lemma pop_ok: "pop q = Inr (x, q') \<Longrightarrow> contents q = x # contents q'"
  using pop_empty[of q] pop_nonempty[of q] by (cases "contents q") auto

lemma pop_iff: "is_ok (pop q) \<longleftrightarrow> contents q \<noteq> []"
  using pop_empty[of q] pop_nonempty[of q] by (cases "contents q") auto

lemma push_all: "contents (fold (\<lambda>x q. push q x) xs q) = contents q @ xs"
  by (induction xs arbitrary: q) (simp_all add: push_contents)

text \<open>An element behind \<open>k\<close> others comes out at the pop number \<open>k + 1\<close>.\<close>

lemma pop_order:
  "contents q = xs @ y # ys \<Longrightarrow>
     \<exists>q' q''. foldE (\<lambda>_ u. bindE (pop u) (\<lambda>(_, v). Inr v)) [0..<length xs] q = Inr q'
        \<and> pop q' = Inr (y, q'') \<and> contents q'' = ys"
proof (induction xs arbitrary: q y ys rule: rev_induct)
  case Nil
  then show ?case using pop_nonempty[of q] by auto
next
  case (snoc x xs)
  then have "contents q = xs @ x # (y # ys)" by simp
  from snoc.IH[OF this]
  obtain q' q'' where q: "foldE (\<lambda>_ u. bindE (pop u) (\<lambda>(_, v). Inr v)) [0..<length xs] q = Inr q'"
    "pop q' = Inr (x, q'')" "contents q'' = y # ys"
    by blast
  then obtain q3 where "pop q'' = Inr (y, q3)" "contents q3 = ys" using pop_nonempty by blast
  with q show ?case by (simp add: foldE_append)
qed

end

interpretation free_fifo: fifo fl_addReg fl_getReg id
  by unfold_locales (auto simp: fl_addReg_def fl_getReg_def)

text \<open>
  The interface renaming uses: a pool of registers per class.  Taking a register removes it
  from its pool, giving one back adds it, and other pools are not touched.
\<close>

locale reg_pool =
  fixes take_reg :: "'s \<Rightarrow> 'c \<Rightarrow> ('r \<times> 's) res"
    and give :: "'s \<Rightarrow> 'r \<Rightarrow> 's res"
    and pool :: "'s \<Rightarrow> 'c \<Rightarrow> 'r multiset"
    and cls :: "'r \<Rightarrow> 'c"
    and has :: "'c \<Rightarrow> bool"
  assumes take_law: "take_reg s c = Inr (r, s') \<Longrightarrow>
      pool s c = add_mset r (pool s' c) \<and> (\<forall>d. d \<noteq> c \<longrightarrow> pool s' d = pool s d)"
    and take_total: "has c \<Longrightarrow> pool s c \<noteq> {#} \<Longrightarrow> is_ok (take_reg s c)"
    and give_law: "give s r = Inr s' \<Longrightarrow>
      pool s' (cls r) = add_mset r (pool s (cls r)) \<and> (\<forall>d. d \<noteq> cls r \<longrightarrow> pool s' d = pool s d)"
    and give_total: "has (cls r) \<Longrightarrow> is_ok (give s r)"
begin

lemma give_all:
  assumes "\<And>r. r \<in> set rs \<Longrightarrow> has (cls r)"
  shows "\<exists>s'. foldE (\<lambda>r u. give u r) rs s = Inr s'
    \<and> (\<forall>c. pool s' c = pool s c + filter_mset (\<lambda>r. cls r = c) (mset rs))"
  using assms
proof (induction rs arbitrary: s)
  case Nil
  then show ?case by simp
next
  case (Cons r rs)
  then obtain u where u: "give s r = Inr u" using give_total[of r s] by (auto simp: is_ok_iff)
  from Cons.IH[of u] Cons.prems obtain t where
    t: "foldE (\<lambda>r u. give u r) rs u = Inr t"
       "\<forall>c. pool t c = pool u c + filter_mset (\<lambda>r. cls r = c) (mset rs)"
    by auto
  with u give_law[OF u] show ?case by auto
qed

lemma take_give:
  "take_reg s c = Inr (r, u) \<Longrightarrow> cls r = c \<Longrightarrow> give u r = Inr t \<Longrightarrow> pool t d = pool s d"
  by (cases "d = c") (auto dest!: take_law give_law)

end

lemma class_le_CC: "c \<le> CCRegClass \<longleftrightarrow> c \<in> set rename_classes"
  by (cases c) (simp_all add: in_rename_classes less_eq_reg_class_def)

definition free_mset :: "free_lists \<Rightarrow> reg_class \<Rightarrow> phys_reg multiset" where
  "free_mset f c = mset (f c)"

interpretation free_pool:
  reg_pool ufl_getReg ufl_addReg free_mset prClass "\<lambda>c. c \<in> set rename_classes"
  by unfold_locales
    (auto simp: ufl_getReg_def ufl_addReg_def fl_getReg_def fl_addReg_def free_mset_def
       is_ok_iff class_le_CC bindE_ok split: if_splits list.splits)

section \<open>The initial and the reset free list\<close>

lemma fl_clear_nil [simp]: "fl_clear fl = []"
  by (induction fl) simp_all

lemma ids_numbered_ok:
  assumes "ids_wf rf" "c \<in> set rename_classes"
  shows "ids_numbered (regIds rf c) (numPhys rf c) = Inr ()"
proof -
  have ids: "regIds rf c = mk_ids c (numPhys rf c) (flat_base (numPhys rf) c)"
    using assms by (auto simp: ids_wf_def)
  have "\<exists>t. ids_numbered (regIds rf c) (numPhys rf c) = Inr t \<and> True"
    unfolding ids_numbered_def by (rule foldE_total) (auto simp: ids mk_ids_def)
  then show ?thesis by simp
qed

lemma ids_class: "ids_wf rf \<Longrightarrow> c \<in> set rename_classes \<Longrightarrow> r \<in> set (regIds rf c) \<Longrightarrow> prClass r = c"
  by (auto simp: ids_wf_def mk_ids_set)

lemma ufl_addRegs_class:
  assumes "\<And>r. r \<in> set rs \<Longrightarrow> prClass r = c" "c \<in> set rename_classes"
  shows "ufl_addRegs f rs = Inr (f(c := f c @ rs))"
  using assms(1) unfolding ufl_addRegs_def
proof (induction rs arbitrary: f)
  case Nil
  then show ?case by simp
next
  case (Cons r rs)
  have "prClass r = c" using Cons.prems by simp
  then have "ufl_addReg f r = Inr (f(c := f c @ [r]))"
    using assms(2) by (simp add: ufl_addReg_def fl_addReg_def class_le_CC)
  with Cons show ?case by (auto simp: fun_eq_iff)
qed

lemma initFreeList_ok:
  assumes "ids_wf rf"
  shows "initFreeList rf f =
    Inr (\<lambda>c. if c \<in> set rename_classes then f c @ regIds rf c else f c)"
proof -
  have step: "bindE (ids_numbered (regIds rf c) (numPhys rf c)) (\<lambda>_. ufl_addRegs u (regIds rf c))
      = Inr (u(c := u c @ regIds rf c))" if "c \<in> set rename_classes" for c u
    using ids_numbered_ok[OF assms that] ufl_addRegs_class[OF ids_class[OF assms that] that]
    by simp
  have "foldE (\<lambda>c u. bindE (ids_numbered (regIds rf c) (numPhys rf c))
                    (\<lambda>_. ufl_addRegs u (regIds rf c))) cs f
      = Inr (\<lambda>c. if c \<in> set cs then f c @ regIds rf c else f c)"
    if "set cs \<subseteq> set rename_classes" "distinct cs" for cs
    using that
  proof (induction cs arbitrary: f)
    case Nil
    then show ?case by simp
  next
    case (Cons c cs)
    then show ?case by (auto simp: step)
  qed
  then show ?thesis unfolding initFreeList_def by simp
qed

lemma ufl_reset_ok:
  assumes "ids_wf rf" "\<And>c. c \<notin> set rename_classes \<Longrightarrow> f c = []"
  shows "ufl_reset rf f = new_UnifiedFreeList rf"
proof -
  have "fold (\<lambda>c u. u(c := fl_clear (u c))) rename_classes f = (\<lambda>_. [])"
    using assms(2) by (auto simp: rename_classes_eq fun_eq_iff)
  then show ?thesis by (simp add: ufl_reset_def new_UnifiedFreeList_def)
qed

lemma new_ufl_content:
  "ids_wf rf \<Longrightarrow> new_UnifiedFreeList rf =
     Inr (\<lambda>c. if c \<in> set rename_classes then regIds rf c else [])"
  by (simp add: new_UnifiedFreeList_def initFreeList_ok cong: if_cong)

end
