(* ===== verification/RenameMap.thy ===== *)
theory RenameMap
  imports FreeList
begin

text \<open>
  The rename maps (\<open>rename_map.hh\<close>, \<open>rename_map.cc\<close>).  An entry of a map is a pointer to a
  physical register, null until it is set, hence an option.  The maps of all classes, the
  free lists they take registers from and the pin counters of the \<open>PhysRegId\<close> objects form
  one state.

  What renaming uses of gem5's ISA description is a parameter, the record \<open>isa\<close>: whether a
  register class is renamed (\<open>RegId::isRenameable\<close>), whether a physical register has a fixed
  mapping (\<open>PhysRegId::isFixedMapping\<close>), the number of architectural registers of a class
  (\<open>RegClass::numRegs\<close>) and the default-constructed \<open>PhysRegId\<close>.  \<open>isa_ok\<close> states what
  gem5 documents of them.
\<close>

record isa =
  isRenameable :: "reg_class \<Rightarrow> bool"
  isFixedMapping :: "reg_class \<Rightarrow> bool"
  numArchRegs :: "reg_class \<Rightarrow> nat"
  invalidPhysReg :: phys_reg

definition isa_ok :: "isa \<Rightarrow> bool" where
  "isa_ok I \<longleftrightarrow>
     (\<forall>c. isRenameable I c \<longleftrightarrow> c \<in> set rename_classes)
     \<and> (\<forall>c. isFixedMapping I c \<longleftrightarrow> c \<notin> set rename_classes)
     \<and> prClass (invalidPhysReg I) = InvalidRegClass"

type_synonym arch_map = "phys_reg option list"
type_synonym arch_maps = "reg_class \<Rightarrow> arch_map"

record pin_counts =
  numPinned :: "phys_reg \<Rightarrow> int"
  pinnedToComplete :: "phys_reg \<Rightarrow> int"

section \<open>SimpleRenameMap\<close>

text \<open>\<open>init\<close>: \<open>hasFree\<close> says whether the map already points to a free list.\<close>

definition srm_init :: "bool \<Rightarrow> arch_map \<Rightarrow> nat \<Rightarrow> arch_map res" where
  "srm_init hasFree m n =
     bindE (assertE (\<not> hasFree)) (\<lambda>_. bindE (assertE (m = [])) (\<lambda>_. Inr (replicate n None)))"

definition srm_rename ::
  "arch_map \<Rightarrow> free_list \<Rightarrow> pin_counts \<Rightarrow> reg_id
     \<Rightarrow> ((phys_reg \<times> phys_reg) \<times> arch_map \<times> free_list \<times> pin_counts) res"
where
  "srm_rename m fl pc a =
     bindE (vecGet m (raIndex a)) (\<lambda>prev.
       case prev of
         None \<Rightarrow> Inl NullDeref
       | Some p \<Rightarrow>
           if raClass a = InvalidRegClass then
             bindE (assertE (prClass p = InvalidRegClass)) (\<lambda>_. Inr ((p, p), m, fl, pc))
           else if numPinned pc p > 0 then
             bindE (assertE (raPinned a = 0)) (\<lambda>_.
               Inr ((p, p), m, fl, pc\<lparr>numPinned := (numPinned pc)(p := numPinned pc p - 1)\<rparr>))
           else
             bindE (fl_getReg fl) (\<lambda>(r, fl').
               Inr ((r, p), m[raIndex a := Some r], fl',
                    pc\<lparr>numPinned := (numPinned pc)(r := raPinned a),
                       pinnedToComplete := (pinnedToComplete pc)(r := raPinned a + 1)\<rparr>)))"

text \<open>The assertions of \<open>lookup\<close> and \<open>setEntry\<close> compare with \<open><=\<close>, as in the source.\<close>

definition srm_lookup :: "arch_map \<Rightarrow> reg_id \<Rightarrow> phys_reg option res" where
  "srm_lookup m a =
     bindE (assertE (raIndex a \<le> length m)) (\<lambda>_. vecGet m (raIndex a))"

definition srm_setEntry :: "arch_map \<Rightarrow> reg_id \<Rightarrow> phys_reg option \<Rightarrow> arch_map res" where
  "srm_setEntry m a p =
     bindE (assertE (raIndex a \<le> length m)) (\<lambda>_. vecSet m (raIndex a) p)"

definition srm_reset :: "nat \<Rightarrow> arch_map \<Rightarrow> arch_map" where
  "srm_reset n m = replicate n None"

section \<open>UnifiedRenameMap\<close>

record rename_maps =
  archMaps :: arch_maps
  freeRegs :: free_lists
  pinCounts :: pin_counts

definition urm_init :: "isa \<Rightarrow> arch_maps res" where
  "urm_init I =
     foldE (\<lambda>c ms. bindE (srm_init False (ms c) (numArchRegs I c)) (\<lambda>m. Inr (ms(c := m))))
       rename_classes (\<lambda>_. [])"

definition urm_lookup :: "isa \<Rightarrow> phys_reg_file \<Rightarrow> arch_maps \<Rightarrow> reg_id \<Rightarrow> phys_reg option res" where
  "urm_lookup I rf ms a =
     (if raClass a = InvalidRegClass then Inr (Some (invalidPhysReg I))
      else if raClass a = MiscRegClass then map_sum id Some (getMiscRegId rf (raIndex a))
      else srm_lookup (ms (raClass a)) a)"

definition urm_rename ::
  "isa \<Rightarrow> phys_reg_file \<Rightarrow> rename_maps \<Rightarrow> reg_id
     \<Rightarrow> ((phys_reg option \<times> phys_reg option) \<times> rename_maps) res"
where
  "urm_rename I rf rm a =
     (if \<not> isRenameable I (raClass a) then
        bindE (urm_lookup I rf (archMaps rm) a) (\<lambda>p. Inr ((p, p), rm))
      else if \<not> raClass a \<le> CCRegClass then Inl OutOfRange
      else
        bindE (srm_rename (archMaps rm (raClass a)) (freeRegs rm (raClass a)) (pinCounts rm) a)
          (\<lambda>((r, p), m, fl, pc).
            Inr ((Some r, Some p),
                 rm\<lparr>archMaps := (archMaps rm)(raClass a := m),
                    freeRegs := (freeRegs rm)(raClass a := fl),
                    pinCounts := pc\<rparr>)))"

definition urm_setEntry ::
  "isa \<Rightarrow> phys_reg_file \<Rightarrow> arch_maps \<Rightarrow> reg_id \<Rightarrow> phys_reg option \<Rightarrow> arch_maps res"
where
  "urm_setEntry I rf ms a p =
     (case p of
        None \<Rightarrow> Inl NullDeref
      | Some r \<Rightarrow>
          bindE (assertE (prClass r = raClass a)) (\<lambda>_.
            if \<not> isRenameable I (raClass a) then
              bindE (urm_lookup I rf ms a) (\<lambda>q. bindE (assertE (p = q)) (\<lambda>_. Inr ms))
            else if \<not> raClass a \<le> CCRegClass then Inl OutOfRange
            else
              bindE (srm_setEntry (ms (raClass a)) a p) (\<lambda>m. Inr (ms(raClass a := m)))))"

text \<open>\<open>numFreeEntries()\<close>: the minimum over the classes in use; an \<open>unsigned\<close>.\<close>

definition urm_numFreeEntries :: "rename_maps \<Rightarrow> nat" where
  "urm_numFreeEntries rm =
     fold (\<lambda>c k. if archMaps rm c \<noteq> [] then min k (fl_numFreeRegs (freeRegs rm c)) else k)
       rename_classes (2 ^ 32 - 1)"

definition urm_numFreeEntriesOf :: "rename_maps \<Rightarrow> reg_class \<Rightarrow> nat res" where
  "urm_numFreeEntriesOf rm c = ufl_numFreeRegs (freeRegs rm) c"

text \<open>\<open>nDest\<close> is the instruction's \<open>numDestRegs(type)\<close>.\<close>

definition urm_canRename :: "rename_maps \<Rightarrow> (reg_class \<Rightarrow> nat) \<Rightarrow> bool" where
  "urm_canRename rm nDest =
     list_all (\<lambda>c. \<not> nDest c > fl_numFreeRegs (freeRegs rm c)) rename_classes"

definition urm_reset :: "isa \<Rightarrow> arch_maps \<Rightarrow> arch_maps" where
  "urm_reset I ms = fold (\<lambda>c u. u(c := srm_reset (numArchRegs I c) (u c))) rename_classes ms"

section \<open>What the operations do\<close>

definition maps_wf :: "isa \<Rightarrow> phys_reg_file \<Rightarrow> arch_maps \<Rightarrow> bool" where
  "maps_wf I rf ms \<longleftrightarrow> (\<forall>c \<in> set rename_classes.
     length (ms c) = numArchRegs I c
     \<and> (\<forall>e \<in> set (ms c). \<exists>p. e = Some p \<and> p \<in> set (regIds rf c)))"

text \<open>The registers a map holds.\<close>

definition mapped :: "arch_maps \<Rightarrow> reg_class \<Rightarrow> phys_reg multiset" where
  "mapped ms c = mset (map the (ms c))"

definition arch_ok :: "isa \<Rightarrow> reg_id \<Rightarrow> bool" where
  "arch_ok I a \<longleftrightarrow> raClass a \<in> set rename_classes \<and> raIndex a < numArchRegs I (raClass a)"

lemma maps_wf_nth:
  assumes "maps_wf I rf ms" "arch_ok I a"
  obtains p where "ms (raClass a) ! raIndex a = Some p" "p \<in> set (regIds rf (raClass a))"
    "raIndex a < length (ms (raClass a))"
proof -
  have l: "raIndex a < length (ms (raClass a))" using assms by (auto simp: maps_wf_def arch_ok_def)
  then have "ms (raClass a) ! raIndex a \<in> set (ms (raClass a))" by simp
  with assms l that show ?thesis unfolding maps_wf_def arch_ok_def by blast
qed

lemma mapped_nth_in:
  "i < length (ms c) \<Longrightarrow> ms c ! i = Some p \<Longrightarrow> p \<in># mapped ms c"
  unfolding mapped_def by (metis image_eqI in_set_conv_nth list.set_map option.sel set_mset_mset)

text \<open>Overwriting an entry exchanges the register it held for the new one.\<close>

lemma mapped_upd:
  assumes "i < length (ms c)" "ms c ! i = Some p"
  shows "add_mset p (mapped (ms(c := (ms c)[i := Some r])) c) = add_mset r (mapped ms c)"
  using mset_update_swap[of i "map the (ms c)" r] assms by (simp add: mapped_def map_update)

lemma mapped_upd_other: "d \<noteq> c \<Longrightarrow> mapped (ms(c := m)) d = mapped ms d"
  by (simp add: mapped_def)

lemma maps_wf_upd:
  "maps_wf I rf ms \<Longrightarrow> r \<in> set (regIds rf c) \<Longrightarrow>
     maps_wf I rf (ms(c := (ms c)[i := Some r]))"
  using set_update_subset_insert[of "ms c" i "Some r"]
  by (auto simp: maps_wf_def)

lemma urm_setEntry_ok:
  assumes "isa_ok I" "maps_wf I rf ms" "arch_ok I a" "prClass r = raClass a"
  shows "urm_setEntry I rf ms a (Some r) =
     Inr (ms(raClass a := (ms (raClass a))[raIndex a := Some r]))"
proof -
  have "raIndex a < length (ms (raClass a))" using assms by (auto simp: maps_wf_def arch_ok_def)
  with assms show ?thesis
    by (simp add: urm_setEntry_def srm_setEntry_def isa_ok_def arch_ok_def class_le_CC)
qed

lemma urm_lookup_ok:
  assumes "maps_wf I rf ms" "arch_ok I a"
  shows "urm_lookup I rf ms a = Inr (ms (raClass a) ! raIndex a)"
  using assms
  by (auto simp: urm_lookup_def srm_lookup_def arch_ok_def maps_wf_def in_rename_classes)

text \<open>The three outcomes of renaming a destination register of a renamed class.\<close>

lemma urm_rename_pinned:
  assumes "isa_ok I" "arch_ok I a" "raIndex a < length (archMaps rm (raClass a))"
    "archMaps rm (raClass a) ! raIndex a = Some p" "numPinned (pinCounts rm) p > 0"
  shows "urm_rename I rf rm a =
     (if raPinned a = 0
      then Inr ((Some p, Some p), rm\<lparr>pinCounts := (pinCounts rm)\<lparr>
             numPinned := (numPinned (pinCounts rm))(p := numPinned (pinCounts rm) p - 1)\<rparr>\<rparr>)
      else Inl AssertFail)"
  using assms
  by (auto simp: urm_rename_def srm_rename_def isa_ok_def arch_ok_def class_le_CC
      in_rename_classes intro!: rename_maps.equality)

lemma urm_rename_fresh:
  assumes "isa_ok I" "arch_ok I a" "raIndex a < length (archMaps rm (raClass a))"
    "archMaps rm (raClass a) ! raIndex a = Some p" "\<not> numPinned (pinCounts rm) p > 0"
    "freeRegs rm (raClass a) = r # fl"
  shows "urm_rename I rf rm a =
     Inr ((Some r, Some p), rm\<lparr>
        archMaps := (archMaps rm)(raClass a := (archMaps rm (raClass a))[raIndex a := Some r]),
        freeRegs := (freeRegs rm)(raClass a := fl),
        pinCounts := (pinCounts rm)\<lparr>
          numPinned := (numPinned (pinCounts rm))(r := raPinned a),
          pinnedToComplete := (pinnedToComplete (pinCounts rm))(r := raPinned a + 1)\<rparr>\<rparr>)"
  using assms
  by (simp add: urm_rename_def srm_rename_def isa_ok_def arch_ok_def class_le_CC
      in_rename_classes fl_getReg_def)

lemma urm_rename_empty:
  assumes "isa_ok I" "arch_ok I a" "raIndex a < length (archMaps rm (raClass a))"
    "archMaps rm (raClass a) ! raIndex a = Some p" "\<not> numPinned (pinCounts rm) p > 0"
    "freeRegs rm (raClass a) = []"
  shows "urm_rename I rf rm a = Inl AssertFail"
  using assms
  by (simp add: urm_rename_def srm_rename_def isa_ok_def arch_ok_def class_le_CC
      in_rename_classes fl_getReg_def)

lemma fold_min_le_start:
  "fold (\<lambda>c k. if P c then min k (f c) else k) cs k0 \<le> (k0 :: nat)"
proof (induction cs arbitrary: k0)
  case (Cons c cs)
  show ?case using Cons.IH[of "min k0 (f c)"] Cons.IH[of k0] by simp
qed simp

lemma fold_min_le:
  "c \<in> set cs \<Longrightarrow> P c \<Longrightarrow> fold (\<lambda>c k. if P c then min k (f c) else k) cs k0 \<le> (f c :: nat)"
proof (induction cs arbitrary: k0)
  case (Cons d cs)
  show ?case
  proof (cases "d = c")
    case True
    then show ?thesis
      using fold_min_le_start[of P f cs "min k0 (f c)"] Cons.prems by simp
  next
    case False
    then show ?thesis using Cons by simp
  qed
qed simp

lemma urm_numFree_le:
  "c \<in> set rename_classes \<Longrightarrow> archMaps rm c \<noteq> [] \<Longrightarrow>
     urm_numFreeEntries rm \<le> length (freeRegs rm c)"
  unfolding urm_numFreeEntries_def
  using fold_min_le[of c rename_classes "\<lambda>c. archMaps rm c \<noteq> []" "\<lambda>c. fl_numFreeRegs (freeRegs rm c)"]
  by (simp add: fl_numFreeRegs_def)

lemma urm_reset_entry:
  "c \<in> set rename_classes \<Longrightarrow> urm_reset I ms c = replicate (numArchRegs I c) None"
  by (cases c) (auto simp: urm_reset_def rename_classes_eq srm_reset_def)

lemma urm_init_entry:
  "\<exists>ms. urm_init I = Inr ms \<and> (\<forall>c \<in> set rename_classes. ms c = replicate (numArchRegs I c) None)"
  by (simp add: urm_init_def rename_classes_eq srm_init_def)

end
