(* ===== verification/Scoreboard.thy ===== *)
theory Scoreboard
  imports RegFile
begin

text \<open>
  The scoreboard (\<open>scoreboard.hh\<close>, \<open>scoreboard.cc\<close>): one ready bit per flat register index.
  Registers with a fixed mapping are always ready.  \<open>isFixedMapping\<close> is a method of gem5's
  \<open>PhysRegId\<close> and a parameter here.
\<close>

record scoreboard =
  regScoreBoard :: "bool list"
  sbNumRegs :: nat

definition new_Scoreboard :: "nat \<Rightarrow> scoreboard" where
  "new_Scoreboard n = \<lparr>regScoreBoard = replicate n True, sbNumRegs = n\<rparr>"

definition sb_getReg :: "(reg_class \<Rightarrow> bool) \<Rightarrow> scoreboard \<Rightarrow> phys_reg \<Rightarrow> bool res" where
  "sb_getReg fixedMap sb r =
     (if fixedMap (prClass r) then Inr True
      else bindE (assertE (prFlat r < sbNumRegs sb)) (\<lambda>_. vecGet (regScoreBoard sb) (prFlat r)))"

definition sb_setReg :: "(reg_class \<Rightarrow> bool) \<Rightarrow> scoreboard \<Rightarrow> phys_reg \<Rightarrow> scoreboard res" where
  "sb_setReg fixedMap sb r =
     (if fixedMap (prClass r) then Inr sb
      else bindE (assertE (prFlat r < sbNumRegs sb)) (\<lambda>_.
        map_sum id (\<lambda>b. sb\<lparr>regScoreBoard := b\<rparr>) (vecSet (regScoreBoard sb) (prFlat r) True)))"

definition sb_unsetReg :: "(reg_class \<Rightarrow> bool) \<Rightarrow> scoreboard \<Rightarrow> phys_reg \<Rightarrow> scoreboard res" where
  "sb_unsetReg fixedMap sb r =
     (if fixedMap (prClass r) then Inr sb
      else bindE (assertE (prFlat r < sbNumRegs sb)) (\<lambda>_.
        map_sum id (\<lambda>b. sb\<lparr>regScoreBoard := b\<rparr>) (vecSet (regScoreBoard sb) (prFlat r) False)))"

definition sb_wf :: "scoreboard \<Rightarrow> bool" where
  "sb_wf sb \<longleftrightarrow> length (regScoreBoard sb) = sbNumRegs sb"

lemma new_sb_wf [simp]: "sb_wf (new_Scoreboard n)" "sbNumRegs (new_Scoreboard n) = n"
  by (simp_all add: sb_wf_def new_Scoreboard_def)

text \<open>\<open>setReg\<close> and \<open>unsetReg\<close> as one write, and the store laws of the ready bits.\<close>

definition sb_write :: "(reg_class \<Rightarrow> bool) \<Rightarrow> scoreboard \<Rightarrow> phys_reg \<Rightarrow> bool \<Rightarrow> scoreboard res" where
  "sb_write fixedMap sb r b = (if b then sb_setReg fixedMap sb r else sb_unsetReg fixedMap sb r)"

definition sb_valid ::
  "(reg_class \<Rightarrow> bool) \<Rightarrow> phys_reg_file \<Rightarrow> scoreboard \<Rightarrow> phys_reg \<Rightarrow> bool"
where
  "sb_valid fixedMap rf sb r \<longleftrightarrow> sb_wf sb \<and> sbNumRegs sb = totalNumRegs rf \<and> poison_reg rf r
     \<and> \<not> fixedMap (prClass r)"

lemma sb_valid_flat: "sb_valid fm rf sb r \<Longrightarrow> prFlat r < length (regScoreBoard sb)"
  using flat_bound[of rf r] by (auto simp: sb_valid_def sb_wf_def poison_reg_def rf_wf_def)

lemma sb_write_ok:
  "sb_valid fm rf sb r \<Longrightarrow>
     sb_write fm sb r b = Inr (sb\<lparr>regScoreBoard := (regScoreBoard sb)[prFlat r := b]\<rparr>)"
  using sb_valid_flat[of fm rf sb r]
  by (simp add: sb_write_def sb_setReg_def sb_unsetReg_def sb_valid_def sb_wf_def)

lemma sb_getReg_ok: "sb_valid fm rf sb r \<Longrightarrow> sb_getReg fm sb r = Inr (regScoreBoard sb ! prFlat r)"
  using sb_valid_flat[of fm rf sb r] by (simp add: sb_getReg_def sb_valid_def sb_wf_def)

interpretation ready_bits: reg_store "sb_getReg fm" "sb_write fm" "sb_valid fm rf" for fm rf
proof
  fix s r b t
  assume r: "sb_valid fm rf s r"
  then show "\<exists>t. sb_write fm s r b = Inr t" by (simp add: sb_write_ok)
  assume "sb_write fm s r b = Inr t"
  with r have t: "t = s\<lparr>regScoreBoard := (regScoreBoard s)[prFlat r := b]\<rparr>" by (simp add: sb_write_ok)
  then show tq: "sb_valid fm rf t q = sb_valid fm rf s q" for q
    by (simp add: sb_valid_def sb_wf_def)
  show "sb_getReg fm t r = Inr b"
    using r t sb_valid_flat[OF r] sb_getReg_ok[of fm rf t r] tq[of r] by simp
  fix q
  assume q: "sb_valid fm rf s q" "q \<noteq> r"
  then have "prFlat q \<noteq> prFlat r"
    using flat_inj[of rf q r] r by (auto simp: sb_valid_def poison_reg_def rf_wf_def)
  then show "sb_getReg fm t q = sb_getReg fm s q"
    using q tq[of q] t by (simp add: sb_getReg_ok)
qed

lemma sb_fixed: "fixedMap (prClass r) \<Longrightarrow> sb_getReg fixedMap sb r = Inr True
    \<and> sb_setReg fixedMap sb r = Inr sb \<and> sb_unsetReg fixedMap sb r = Inr sb"
  by (simp add: sb_getReg_def sb_setReg_def sb_unsetReg_def)

lemma new_sb_ready:
  "rf_wf rf \<Longrightarrow> owned rf r \<Longrightarrow> sb_getReg fm (new_Scoreboard (totalNumRegs rf)) r = Inr True"
  using flat_bound[of rf r] by (auto simp: sb_getReg_def new_Scoreboard_def rf_wf_def)

end
