(* ===== verification/RenameHistory.thy ===== *)
theory RenameHistory
  imports RenameMap Scoreboard
begin

text \<open>
  Register renaming with its history buffer (\<open>rename.hh\<close>, \<open>rename.cc\<close>): renaming the sources
  and destinations of an instruction, undoing the renames of squashed instructions
  (\<open>doSquash\<close>) and releasing the registers of committed ones (\<open>removeFromHistory\<close>).

  The state holds the rename maps and history buffers of all threads, the free lists and pin
  counters they share, and the scoreboard.  A history buffer is a list whose head is the
  front of the \<open>std::list\<close>, the youngest rename.  \<open>flattenRegId\<close> of the thread's ISA object is
  the parameter \<open>flat\<close>.
\<close>

record rename_history =
  hbSeq :: nat
  hbArch :: reg_id
  hbNew :: phys_reg
  hbPrev :: phys_reg

record ren_state =
  rsMaps :: "nat \<Rightarrow> arch_maps"
  rsCommit :: "nat \<Rightarrow> arch_maps"
  rsFree :: free_lists
  rsPins :: pin_counts
  rsHist :: "nat \<Rightarrow> rename_history list"
  rsBoard :: scoreboard

text \<open>What renaming reads from an instruction, and what it records in it.\<close>

record ren_inst =
  riSeq :: nat
  riSrcs :: "reg_id list"
  riDests :: "reg_id list"
  riSrcPhys :: "phys_reg list"
  riSrcReady :: "bool list"
  riFlatDests :: "reg_id list"
  riDestPhys :: "phys_reg list"
  riPrevPhys :: "phys_reg list"

section \<open>Operations\<close>

definition thread_maps :: "ren_state \<Rightarrow> nat \<Rightarrow> rename_maps" where
  "thread_maps s t = \<lparr>archMaps = rsMaps s t, freeRegs = rsFree s, pinCounts = rsPins s\<rparr>"

text \<open>One iteration of the loop of \<open>renameSrcRegs\<close>; the statistics are left out.\<close>

definition rename_src ::
  "isa \<Rightarrow> phys_reg_file \<Rightarrow> (reg_id \<Rightarrow> reg_id) \<Rightarrow> nat \<Rightarrow> ren_state \<Rightarrow> reg_id \<Rightarrow> ren_inst \<Rightarrow> ren_inst res"
where
  "rename_src I rf flat t s src i =
     bindE (urm_lookup I rf (rsMaps s t) (flat src)) (\<lambda>q.
       case q of
         None \<Rightarrow> Inl NullDeref
       | Some r \<Rightarrow>
           bindE (sb_getReg (isFixedMapping I) (rsBoard s) r) (\<lambda>ready.
             Inr (i\<lparr>riSrcPhys := riSrcPhys i @ [r], riSrcReady := riSrcReady i @ [ready]\<rparr>)))"

definition renameSrcRegs ::
  "isa \<Rightarrow> phys_reg_file \<Rightarrow> (reg_id \<Rightarrow> reg_id) \<Rightarrow> nat \<Rightarrow> ren_state \<Rightarrow> ren_inst \<Rightarrow> ren_inst res"
where
  "renameSrcRegs I rf flat t s i = foldE (rename_src I rf flat t s) (riSrcs i) i"

text \<open>One iteration of the loop of \<open>renameDestRegs\<close>.\<close>

definition rename_dest ::
  "isa \<Rightarrow> phys_reg_file \<Rightarrow> (reg_id \<Rightarrow> reg_id) \<Rightarrow> nat \<Rightarrow> reg_id \<Rightarrow> ren_state \<times> ren_inst
     \<Rightarrow> (ren_state \<times> ren_inst) res"
where
  "rename_dest I rf flat t dest = (\<lambda>(s, i).
     let fd = (flat dest)\<lparr>raPinned := raPinned dest\<rparr> in
     bindE (urm_rename I rf (thread_maps s t) fd) (\<lambda>((new, prev), rm).
       case (new, prev) of
         (Some n, Some p) \<Rightarrow>
           bindE (sb_unsetReg (isFixedMapping I) (rsBoard s) n) (\<lambda>sb.
             Inr (s\<lparr>rsMaps := (rsMaps s)(t := archMaps rm), rsFree := freeRegs rm,
                    rsPins := pinCounts rm,
                    rsHist := (rsHist s)(t :=
                      \<lparr>hbSeq = riSeq i, hbArch = fd, hbNew = n, hbPrev = p\<rparr> # rsHist s t),
                    rsBoard := sb\<rparr>,
                  i\<lparr>riFlatDests := riFlatDests i @ [fd], riDestPhys := riDestPhys i @ [n],
                    riPrevPhys := riPrevPhys i @ [p]\<rparr>))
       | _ \<Rightarrow> Inl NullDeref))"

definition renameDestRegs ::
  "isa \<Rightarrow> phys_reg_file \<Rightarrow> (reg_id \<Rightarrow> reg_id) \<Rightarrow> nat \<Rightarrow> ren_state \<times> ren_inst
     \<Rightarrow> (ren_state \<times> ren_inst) res"
where
  "renameDestRegs I rf flat t si = foldE (rename_dest I rf flat t) (riDests (snd si)) si"

text \<open>The loop of \<open>doSquash\<close>, from the front of the history buffer.\<close>

fun undo_entries ::
  "isa \<Rightarrow> phys_reg_file \<Rightarrow> nat \<Rightarrow> rename_history list \<Rightarrow> arch_maps \<Rightarrow> free_lists
     \<Rightarrow> (arch_maps \<times> free_lists \<times> rename_history list) res"
where
  "undo_entries I rf q [] ms fl = Inr (ms, fl, [])"
| "undo_entries I rf q (h # hs) ms fl =
     (if hbSeq h > q then
        bindE (if hbNew h \<noteq> hbPrev h then
                 bindE (urm_setEntry I rf ms (hbArch h) (Some (hbPrev h))) (\<lambda>ms'.
                   bindE (ufl_addReg fl (hbNew h)) (\<lambda>fl'. Inr (ms', fl')))
               else Inr (ms, fl))
          (\<lambda>(ms', fl'). undo_entries I rf q hs ms' fl')
      else Inr (ms, fl, h # hs))"

definition doSquash ::
  "isa \<Rightarrow> phys_reg_file \<Rightarrow> nat \<Rightarrow> nat \<Rightarrow> ren_state \<Rightarrow> ren_state res"
where
  "doSquash I rf q t s =
     bindE (undo_entries I rf q (rsHist s t) (rsMaps s t) (rsFree s)) (\<lambda>(ms, fl, hs).
       Inr (s\<lparr>rsMaps := (rsMaps s)(t := ms), rsFree := fl, rsHist := (rsHist s)(t := hs)\<rparr>))"

text \<open>
  The loop of \<open>removeFromHistory\<close>, from the back of the buffer, the oldest rename; the
  argument list starts with the back.  Decrementing \<open>end()\<close> of an empty buffer and \<open>begin()\<close>
  gives \<open>end()\<close> in the ring that implements \<open>std::list\<close>, which the code's tests rely on.
\<close>

fun release_entries ::
  "nat \<Rightarrow> rename_history list \<Rightarrow> free_lists \<Rightarrow> (rename_history list \<times> free_lists) res"
where
  "release_entries q [] fl = Inr ([], fl)"
| "release_entries q (h # hs) fl =
     (if hbSeq h \<le> q then
        bindE (if hbNew h \<noteq> hbPrev h then ufl_addReg fl (hbPrev h) else Inr fl)
          (\<lambda>fl'. release_entries q hs fl')
      else Inr (h # hs, fl))"

definition removeFromHistory :: "nat \<Rightarrow> nat \<Rightarrow> ren_state \<Rightarrow> ren_state res" where
  "removeFromHistory q t s =
     bindE (release_entries q (rev (rsHist s t)) (rsFree s)) (\<lambda>(hs, fl).
       Inr (s\<lparr>rsFree := fl, rsHist := (rsHist s)(t := rev hs)\<rparr>))"

section \<open>The history as an undo log\<close>

definition set_entry :: "arch_maps \<Rightarrow> reg_id \<Rightarrow> phys_reg \<Rightarrow> arch_maps" where
  "set_entry ms a p = ms(raClass a := (ms (raClass a))[raIndex a := Some p])"

definition real_rename :: "rename_history \<Rightarrow> bool" where
  "real_rename h \<longleftrightarrow> hbNew h \<noteq> hbPrev h"

definition undo1 :: "rename_history \<Rightarrow> arch_maps \<Rightarrow> arch_maps" where
  "undo1 h ms = (if real_rename h then set_entry ms (hbArch h) (hbPrev h) else ms)"

definition redo1 :: "rename_history \<Rightarrow> arch_maps \<Rightarrow> arch_maps" where
  "redo1 h ms = (if real_rename h then set_entry ms (hbArch h) (hbNew h) else ms)"

text \<open>
  Undoing a whole history gives the map as of the last commit: the abstract architectural
  state that the rename stage maintains.
\<close>

fun undo_all :: "rename_history list \<Rightarrow> arch_maps \<Rightarrow> arch_maps" where
  "undo_all [] ms = ms"
| "undo_all (h # hs) ms = undo_all hs (undo1 h ms)"

fun redo_all :: "rename_history list \<Rightarrow> arch_maps \<Rightarrow> arch_maps" where
  "redo_all [] ms = ms"
| "redo_all (h # hs) ms = redo1 h (redo_all hs ms)"

definition committed_map :: "ren_state \<Rightarrow> nat \<Rightarrow> arch_maps" where
  "committed_map s t = undo_all (rsHist s t) (rsMaps s t)"

definition entry_wf :: "isa \<Rightarrow> phys_reg_file \<Rightarrow> rename_history \<Rightarrow> arch_maps \<Rightarrow> bool" where
  "entry_wf I rf h ms \<longleftrightarrow>
     (if raClass (hbArch h) \<in> set rename_classes then
        arch_ok I (hbArch h)
        \<and> hbNew h \<in> set (regIds rf (raClass (hbArch h)))
        \<and> hbPrev h \<in> set (regIds rf (raClass (hbArch h)))
        \<and> ms (raClass (hbArch h)) ! raIndex (hbArch h) = Some (hbNew h)
      else
        \<not> real_rename h \<and> urm_lookup I rf ms (hbArch h) = Inr (Some (hbNew h))
        \<and> prClass (hbNew h) = raClass (hbArch h))"

lemma entry_wf_real:
  "entry_wf I rf h ms \<Longrightarrow> real_rename h \<Longrightarrow> arch_ok I (hbArch h)
     \<and> hbNew h \<in> set (regIds rf (raClass (hbArch h)))
     \<and> hbPrev h \<in> set (regIds rf (raClass (hbArch h)))
     \<and> ms (raClass (hbArch h)) ! raIndex (hbArch h) = Some (hbNew h)"
  by (auto simp: entry_wf_def split: if_splits)

text \<open>Every entry's new register is the current one once the younger entries are undone.\<close>

fun hist_ok :: "isa \<Rightarrow> phys_reg_file \<Rightarrow> rename_history list \<Rightarrow> arch_maps \<Rightarrow> bool" where
  "hist_ok I rf [] ms \<longleftrightarrow> True"
| "hist_ok I rf (h # hs) ms \<longleftrightarrow> entry_wf I rf h ms \<and> hist_ok I rf hs (undo1 h ms)"

lemma undo_all_append: "undo_all (xs @ ys) ms = undo_all ys (undo_all xs ms)"
  by (induction xs arbitrary: ms) simp_all

lemma hist_ok_append:
  "hist_ok I rf (xs @ ys) ms \<longleftrightarrow> hist_ok I rf xs ms \<and> hist_ok I rf ys (undo_all xs ms)"
  by (induction xs arbitrary: ms) simp_all

lemma set_entry_wf:
  "maps_wf I rf ms \<Longrightarrow> p \<in> set (regIds rf (raClass a)) \<Longrightarrow> maps_wf I rf (set_entry ms a p)"
  unfolding set_entry_def by (rule maps_wf_upd)

lemma undo1_wf: "maps_wf I rf ms \<Longrightarrow> entry_wf I rf h ms \<Longrightarrow> maps_wf I rf (undo1 h ms)"
  by (auto simp: undo1_def dest: entry_wf_real intro: set_entry_wf)

lemma undo_all_wf: "maps_wf I rf ms \<Longrightarrow> hist_ok I rf hs ms \<Longrightarrow> maps_wf I rf (undo_all hs ms)"
  by (induction hs arbitrary: ms) (auto intro: undo1_wf)

lemma set_entry_twice:
  "set_entry (set_entry ms a p) a r = set_entry ms a r"
  by (simp add: set_entry_def)

lemma set_entry_same:
  "ms (raClass a) ! raIndex a = Some p \<Longrightarrow> set_entry ms a p = ms"
  unfolding set_entry_def by (simp add: fun_eq_iff) (metis list_update_id)

lemma redo1_undo1: "entry_wf I rf h ms \<Longrightarrow> redo1 h (undo1 h ms) = ms"
  by (auto simp: redo1_def undo1_def set_entry_twice set_entry_same dest: entry_wf_real)

lemma redo_undo_all: "hist_ok I rf hs ms \<Longrightarrow> redo_all hs (undo_all hs ms) = ms"
  by (induction hs arbitrary: ms) (auto simp: redo1_undo1)

end
