(* ===== verification/RenameInv.thy ===== *)
theory RenameInv
  imports RenameHistory
begin

text \<open>
  Invariants of renaming: no physical register is lost or handed out twice, the history is an
  undo log, and renaming cannot fail when \<open>canRename\<close> allowed it.  The step relation at the
  end interleaves the operations of all threads.
\<close>

definition ren_env :: "isa \<Rightarrow> phys_reg_file \<Rightarrow> bool" where
  "ren_env I rf \<longleftrightarrow> isa_ok I \<and> rf_wf rf"

lemma ren_envD: "ren_env I rf \<Longrightarrow> isa_ok I" "ren_env I rf \<Longrightarrow> rf_wf rf" "ren_env I rf \<Longrightarrow> ids_wf rf"
  by (simp_all add: ren_env_def rf_wf_def)

section \<open>Registers held by a thread\<close>

text \<open>The registers a history will release at commit, and those it will release at a squash.\<close>

definition prevs :: "rename_history list \<Rightarrow> reg_class \<Rightarrow> phys_reg multiset" where
  "prevs hs c = mset (map hbPrev (filter (\<lambda>h. real_rename h \<and> raClass (hbArch h) = c) hs))"

definition news :: "rename_history list \<Rightarrow> reg_class \<Rightarrow> phys_reg multiset" where
  "news hs c = mset (map hbNew (filter (\<lambda>h. real_rename h \<and> raClass (hbArch h) = c) hs))"

definition held :: "arch_maps \<Rightarrow> rename_history list \<Rightarrow> reg_class \<Rightarrow> phys_reg multiset" where
  "held ms hs c = mapped ms c + prevs hs c"

lemma prevs_append [simp]: "prevs (xs @ ys) c = prevs xs c + prevs ys c"
  by (simp add: prevs_def)

lemma news_append [simp]: "news (xs @ ys) c = news xs c + news ys c"
  by (simp add: news_def)

lemma prevs_rev [simp]: "prevs (rev xs) c = prevs xs c"
  by (simp add: prevs_def rev_filter[symmetric] rev_map)

lemma hist_news_nil [simp]: "prevs [] c = {#}" "news [] c = {#}"
  by (simp_all add: prevs_def news_def)

text \<open>Undoing an entry returns its new register and takes back its previous one.\<close>

lemma held_undo1:
  assumes "maps_wf I rf ms" "entry_wf I rf h ms"
  shows "held (undo1 h ms) hs c + news [h] c = held ms (h # hs) c"
proof (cases "real_rename h \<and> raClass (hbArch h) = c")
  case False
  then show ?thesis
    by (auto simp: held_def undo1_def news_def prevs_def set_entry_def mapped_upd_other)
next
  case True
  let ?a = "hbArch h"
  have "raIndex ?a < length (ms c)" "ms c ! raIndex ?a = Some (hbNew h)"
    using assms True entry_wf_real[of I rf h ms] by (auto simp: arch_ok_def maps_wf_def)
  from mapped_upd[where ms = ms and c = c and r = "hbPrev h", OF this] True show ?thesis
    by (simp add: held_def undo1_def news_def prevs_def set_entry_def)
qed

lemma held_undo_all:
  assumes "maps_wf I rf ms" "hist_ok I rf xs ms"
  shows "held (undo_all xs ms) ys c + news xs c = held ms (xs @ ys) c"
  using assms
proof (induction xs arbitrary: ms)
  case Nil
  then show ?case by simp
next
  case (Cons h xs)
  have n: "news (h # xs) c = news xs c + news [h] c"
    using news_append[of "[h]" xs c] by simp
  have "held (undo_all xs (undo1 h ms)) ys c + news xs c = held (undo1 h ms) (xs @ ys) c"
    using Cons undo1_wf[of I rf ms h] by auto
  then have "held (undo_all (h # xs) ms) ys c + news (h # xs) c
      = held (undo1 h ms) (xs @ ys) c + news [h] c"
    by (simp add: n union_assoc[symmetric])
  also have "\<dots> = held ms ((h # xs) @ ys) c"
    using held_undo1[of I rf ms h "xs @ ys" c] Cons.prems by simp
  finally show ?case .
qed

section \<open>Success of squash and release\<close>

lemma ufl_addReg_ok:
  "ids_wf rf \<Longrightarrow> c \<in> set rename_classes \<Longrightarrow> r \<in> set (regIds rf c) \<Longrightarrow>
     ufl_addReg fl r = Inr (fl(c := fl c @ [r]))"
  using ids_class[of rf c r] by (simp add: ufl_addReg_def fl_addReg_def class_le_CC)

lemma undo_step:
  assumes "ren_env I rf" "maps_wf I rf ms" "entry_wf I rf h ms"
  shows "\<exists>fl'. (if hbNew h \<noteq> hbPrev h then
                 bindE (urm_setEntry I rf ms (hbArch h) (Some (hbPrev h))) (\<lambda>ms'.
                   bindE (ufl_addReg fl (hbNew h)) (\<lambda>fl'. Inr (ms', fl')))
               else Inr (ms, fl)) = Inr (undo1 h ms, fl')
    \<and> (\<forall>c. mset (fl' c) = mset (fl c) + news [h] c)"
proof (cases "real_rename h")
  case False
  then show ?thesis by (simp add: real_rename_def undo1_def news_def)
next
  case True
  note e = entry_wf_real[OF assms(3) True]
  have c: "raClass (hbArch h) \<in> set rename_classes" using e by (simp add: arch_ok_def)
  have "prClass (hbPrev h) = raClass (hbArch h)" using e c ids_class ren_envD[OF assms(1)] by blast
  then have "urm_setEntry I rf ms (hbArch h) (Some (hbPrev h)) = Inr (undo1 h ms)"
    using urm_setEntry_ok[of I rf ms "hbArch h" "hbPrev h"] e assms(2) ren_envD[OF assms(1)] True
    by (simp add: undo1_def set_entry_def)
  moreover have "ufl_addReg fl (hbNew h) =
      Inr (fl(raClass (hbArch h) := fl (raClass (hbArch h)) @ [hbNew h]))"
    using ufl_addReg_ok e c ren_envD[OF assms(1)] by blast
  ultimately show ?thesis using True by (simp add: real_rename_def news_def)
qed

lemma undo_entries_ok:
  assumes "ren_env I rf" "maps_wf I rf ms" "hist_ok I rf hs ms"
  shows "\<exists>fl'. undo_entries I rf q hs ms fl =
      Inr (undo_all (takeWhile (\<lambda>h. hbSeq h > q) hs) ms, fl', dropWhile (\<lambda>h. hbSeq h > q) hs)
    \<and> (\<forall>c. mset (fl' c) = mset (fl c) + news (takeWhile (\<lambda>h. hbSeq h > q) hs) c)"
  using assms(2,3)
proof (induction hs arbitrary: ms fl)
  case Nil
  then show ?case by simp
next
  case (Cons h hs)
  obtain fl1 where f1: "(if hbNew h \<noteq> hbPrev h then
                 bindE (urm_setEntry I rf ms (hbArch h) (Some (hbPrev h))) (\<lambda>ms'.
                   bindE (ufl_addReg fl (hbNew h)) (\<lambda>fl'. Inr (ms', fl')))
               else Inr (ms, fl)) = Inr (undo1 h ms, fl1)"
      "\<forall>c. mset (fl1 c) = mset (fl c) + news [h] c"
    using undo_step[OF assms(1) Cons.prems(1), of h fl] Cons.prems(2) by auto
  have "maps_wf I rf (undo1 h ms)" "hist_ok I rf hs (undo1 h ms)"
    using Cons.prems undo1_wf by auto
  from Cons.IH[OF this, of fl1] obtain fl2 where f2: "undo_entries I rf q hs (undo1 h ms) fl1 =
      Inr (undo_all (takeWhile (\<lambda>h. hbSeq h > q) hs) (undo1 h ms), fl2,
           dropWhile (\<lambda>h. hbSeq h > q) hs)"
      "\<forall>c. mset (fl2 c) = mset (fl1 c) + news (takeWhile (\<lambda>h. hbSeq h > q) hs) c"
    by blast
  let ?y = "takeWhile (\<lambda>h. hbSeq h > q) hs"
  have nh: "news (h # ?y) c = news [h] c + news ?y c" for c
    using news_append[of "[h]" ?y c] by simp
  show ?case
  proof (cases "hbSeq h > q")
    case True
    have "undo_entries I rf q (h # hs) ms fl = undo_entries I rf q hs (undo1 h ms) fl1"
      by (simp only: undo_entries.simps True if_True f1(1) bindE_Inr prod.case)
    with True f1(2) f2 show ?thesis by (simp add: nh)
  next
    case False
    then show ?thesis by simp
  qed
qed

lemma release_entries_ok:
  assumes "ids_wf rf"
    "\<And>h. h \<in> set hs \<Longrightarrow> real_rename h \<Longrightarrow> raClass (hbArch h) \<in> set rename_classes
       \<and> hbPrev h \<in> set (regIds rf (raClass (hbArch h)))"
  shows "\<exists>fl'. release_entries q hs fl = Inr (dropWhile (\<lambda>h. hbSeq h \<le> q) hs, fl')
    \<and> (\<forall>c. mset (fl' c) = mset (fl c) + prevs (takeWhile (\<lambda>h. hbSeq h \<le> q) hs) c)"
  using assms(2)
proof (induction hs arbitrary: fl)
  case Nil
  then show ?case by simp
next
  case (Cons h hs)
  let ?y = "takeWhile (\<lambda>h. hbSeq h \<le> q) hs"
  have nh: "prevs (h # ?y) c = prevs [h] c + prevs ?y c" for c
    using prevs_append[of "[h]" ?y c] by simp
  have "\<exists>fl1. (if hbNew h \<noteq> hbPrev h then ufl_addReg fl (hbPrev h) else Inr fl) = Inr fl1
      \<and> (\<forall>c. mset (fl1 c) = mset (fl c) + prevs [h] c)"
    using ufl_addReg_ok[OF assms(1), of "raClass (hbArch h)" "hbPrev h" fl] Cons.prems[of h]
    by (cases "real_rename h") (auto simp: real_rename_def prevs_def)
  then obtain fl1 where f1: "(if hbNew h \<noteq> hbPrev h then ufl_addReg fl (hbPrev h) else Inr fl) = Inr fl1"
    "\<forall>c. mset (fl1 c) = mset (fl c) + prevs [h] c" by blast
  have "\<And>h. h \<in> set hs \<Longrightarrow> real_rename h \<Longrightarrow> raClass (hbArch h) \<in> set rename_classes
       \<and> hbPrev h \<in> set (regIds rf (raClass (hbArch h)))"
    using Cons.prems by simp
  from Cons.IH[OF this, of fl1] obtain fl2 where
    f2: "release_entries q hs fl1 = Inr (dropWhile (\<lambda>h. hbSeq h \<le> q) hs, fl2)"
    "\<forall>c. mset (fl2 c) = mset (fl1 c) + prevs (takeWhile (\<lambda>h. hbSeq h \<le> q) hs) c"
    by blast
  show ?case
  proof (cases "hbSeq h \<le> q")
    case True
    have "release_entries q (h # hs) fl = release_entries q hs fl1"
      by (simp only: release_entries.simps True if_True f1(1) bindE_Inr)
    with True f1(2) f2 show ?thesis by (simp add: nh)
  next
    case False
    then show ?thesis by simp
  qed
qed

section \<open>The invariant\<close>

definition board_ok :: "phys_reg_file \<Rightarrow> ren_state \<Rightarrow> bool" where
  "board_ok rf s \<longleftrightarrow> sb_wf (rsBoard s) \<and> sbNumRegs (rsBoard s) = totalNumRegs rf"

definition thread_ok :: "isa \<Rightarrow> phys_reg_file \<Rightarrow> ren_state \<Rightarrow> nat \<Rightarrow> bool" where
  "thread_ok I rf s t \<longleftrightarrow> maps_wf I rf (rsMaps s t) \<and> hist_ok I rf (rsHist s t) (rsMaps s t)
     \<and> sorted_wrt (\<ge>) (map hbSeq (rsHist s t))"

text \<open>
  Of each class, the free list, the maps of all threads and the previous registers of all
  histories make up exactly the registers of the file.
\<close>

definition conserved :: "nat \<Rightarrow> phys_reg_file \<Rightarrow> ren_state \<Rightarrow> bool" where
  "conserved n rf s \<longleftrightarrow> (\<forall>c \<in> set rename_classes.
     mset (rsFree s c) + (\<Sum>t<n. held (rsMaps s t) (rsHist s t) c) = mset (regIds rf c))"

definition ren_inv :: "nat \<Rightarrow> isa \<Rightarrow> phys_reg_file \<Rightarrow> ren_state \<Rightarrow> bool" where
  "ren_inv n I rf s \<longleftrightarrow> (\<forall>t<n. thread_ok I rf s t) \<and> conserved n rf s \<and> board_ok rf s"

lemma ren_invD:
  assumes "ren_inv n I rf s" "t < n"
  shows "maps_wf I rf (rsMaps s t)" "hist_ok I rf (rsHist s t) (rsMaps s t)"
    "sorted_wrt (\<ge>) (map hbSeq (rsHist s t))" "conserved n rf s" "board_ok rf s"
  using assms by (auto simp: ren_inv_def thread_ok_def)

lemma sum_thread:
  fixes f :: "nat \<Rightarrow> 'a multiset"
  shows "t < n \<Longrightarrow> (\<Sum>u<n. f u) = f t + (\<Sum>u \<in> {..<n} - {t}. f u)"
  by (rule sum.remove) auto

lemma conserved_update:
  assumes "conserved n rf s" "t < n"
    and oth: "\<And>u. u \<noteq> t \<Longrightarrow> rsMaps s' u = rsMaps s u \<and> rsHist s' u = rsHist s u"
    and bal: "\<And>c. c \<in> set rename_classes \<Longrightarrow>
      mset (rsFree s' c) + held (rsMaps s' t) (rsHist s' t) c
      = mset (rsFree s c) + held (rsMaps s t) (rsHist s t) c"
  shows "conserved n rf s'"
  unfolding conserved_def
proof
  fix c
  assume c: "c \<in> set rename_classes"
  let ?R = "\<lambda>s. \<Sum>u \<in> {..<n} - {t}. held (rsMaps s u) (rsHist s u) c"
  have "?R s' = ?R s" by (rule sum.cong) (auto simp: oth)
  then have "mset (rsFree s' c) + (held (rsMaps s' t) (rsHist s' t) c + ?R s')
      = mset (rsFree s c) + (held (rsMaps s t) (rsHist s t) c + ?R s)"
    using bal[OF c] by (simp add: union_assoc[symmetric])
  then show "mset (rsFree s' c) + (\<Sum>u<n. held (rsMaps s' u) (rsHist s' u) c) = mset (regIds rf c)"
    using assms(1,2) c by (simp add: conserved_def sum_thread)
qed

text \<open>A register has one owner: a free one is in no map and in no history.\<close>

lemma ids_distinct: "ids_wf rf \<Longrightarrow> c \<in> set rename_classes \<Longrightarrow> distinct (regIds rf c)"
  by (simp add: ids_wf_def mk_ids_distinct)

lemma part_disjoint:
  assumes "A + B + C = mset xs" "distinct xs"
  shows "x \<in># A \<Longrightarrow> x \<notin># B"
proof
  assume x: "x \<in># A" "x \<in># B"
  have "count (mset xs) x \<le> 1" using assms(2) by (simp add: distinct_count_atmost_1)
  moreover have "count A x \<ge> 1" "count B x \<ge> 1" using x by (simp_all add: Suc_le_eq)
  moreover have "count (mset xs) x = count A x + count B x + count C x"
    using assms(1) by (metis count_union)
  ultimately show False by linarith
qed

lemma free_not_held:
  assumes "conserved n rf s" "ids_wf rf" "t < n" "c \<in> set rename_classes" "r \<in> set (rsFree s c)"
  shows "r \<notin># held (rsMaps s t) (rsHist s t) c"
proof -
  have "mset (rsFree s c) + held (rsMaps s t) (rsHist s t) c
      + (\<Sum>u \<in> {..<n} - {t}. held (rsMaps s u) (rsHist s u) c) = mset (regIds rf c)"
    using assms by (simp add: conserved_def sum_thread union_assoc)
  from part_disjoint[OF this ids_distinct[OF assms(2,4)]] assms(5) show ?thesis by simp
qed

lemma free_in_ids:
  "conserved n rf s \<Longrightarrow> c \<in> set rename_classes \<Longrightarrow> r \<in> set (rsFree s c) \<Longrightarrow> r \<in> set (regIds rf c)"
  unfolding conserved_def by (metis mset_eq_setD set_mset_mset set_mset_union UnCI)

lemma held_disjoint_threads:
  assumes "conserved n rf s" "ids_wf rf" "t < n" "u < n" "t \<noteq> u" "c \<in> set rename_classes"
    "r \<in># held (rsMaps s t) (rsHist s t) c"
  shows "r \<notin># held (rsMaps s u) (rsHist s u) c"
proof -
  let ?h = "\<lambda>u. held (rsMaps s u) (rsHist s u) c"
  have "(\<Sum>v<n. ?h v) = ?h t + ?h u + (\<Sum>v \<in> {..<n} - {t} - {u}. ?h v)"
    using assms sum.remove[of "{..<n} - {t}" u ?h] by (simp add: sum_thread union_assoc)
  then have "mset (rsFree s c) + (?h t + ?h u + (\<Sum>v \<in> {..<n} - {t} - {u}. ?h v)) = mset (regIds rf c)"
    using assms(1,6) unfolding conserved_def by metis
  then have "?h t + ?h u + ((\<Sum>v \<in> {..<n} - {t} - {u}. ?h v) + mset (rsFree s c)) = mset (regIds rf c)"
    by (simp add: add.commute add.left_commute)
  from part_disjoint[OF this ids_distinct[OF assms(2,6)] assms(7)] show ?thesis .
qed

section \<open>Squash and commit keep the invariant\<close>

lemma sorted_ge_takeWhile:
  "sorted_wrt (\<ge>) (map hbSeq hs) \<Longrightarrow>
     takeWhile (\<lambda>h. hbSeq h > q) hs = filter (\<lambda>h. hbSeq h > q) hs
     \<and> dropWhile (\<lambda>h. hbSeq h > q) hs = filter (\<lambda>h. hbSeq h \<le> q) hs"
proof (induction hs)
  case (Cons h hs)
  show ?case
  proof (cases "hbSeq h > q")
    case True
    with Cons show ?thesis by simp
  next
    case False
    with Cons.prems have "\<forall>x \<in> set hs. hbSeq x \<le> q" by auto
    then have "filter (\<lambda>h. hbSeq h > q) hs = []" "filter (\<lambda>h. hbSeq h \<le> q) hs = hs"
      by (auto simp: filter_empty_conv filter_id_conv)
    with False show ?thesis by simp
  qed
qed simp

lemma sorted_le_takeWhile:
  "sorted_wrt (\<le>) (map hbSeq hs) \<Longrightarrow>
     takeWhile (\<lambda>h. hbSeq h \<le> q) hs = filter (\<lambda>h. hbSeq h \<le> q) hs
     \<and> dropWhile (\<lambda>h. hbSeq h \<le> q) hs = filter (\<lambda>h. hbSeq h > q) hs"
proof (induction hs)
  case (Cons h hs)
  show ?case
  proof (cases "hbSeq h \<le> q")
    case True
    with Cons show ?thesis by simp
  next
    case False
    with Cons.prems have "\<forall>x \<in> set hs. \<not> hbSeq x \<le> q" by auto
    then have "filter (\<lambda>h. hbSeq h \<le> q) hs = []" "filter (\<lambda>h. hbSeq h > q) hs = hs"
      by (auto simp: filter_empty_conv filter_id_conv)
    with False show ?thesis by simp
  qed
qed simp

lemma hist_split:
  "sorted_wrt (\<ge>) (map hbSeq hs) \<Longrightarrow>
     hs = filter (\<lambda>h. hbSeq h > q) hs @ filter (\<lambda>h. hbSeq h \<le> q) hs"
  using sorted_ge_takeWhile[of hs q] takeWhile_dropWhile_id[of "\<lambda>h. hbSeq h > q" hs] by simp

lemma sorted_filter_seq:
  "sorted_wrt (\<ge>) (map hbSeq hs) \<Longrightarrow> sorted_wrt (\<ge>) (map hbSeq (filter P hs))"
  by (simp add: sorted_wrt_map sorted_wrt_filter)

text \<open>What \<open>doSquash\<close> does to a thread whose history is in order.\<close>

lemma doSquash_ok:
  assumes env: "ren_env I rf" and inv: "ren_inv n I rf s" and t: "t < n"
  shows "\<exists>fl. doSquash I rf q t s = Inr (s\<lparr>
      rsMaps := (rsMaps s)(t := undo_all (filter (\<lambda>h. hbSeq h > q) (rsHist s t)) (rsMaps s t)),
      rsFree := fl,
      rsHist := (rsHist s)(t := filter (\<lambda>h. hbSeq h \<le> q) (rsHist s t))\<rparr>)
    \<and> (\<forall>c. mset (fl c) = mset (rsFree s c) + news (filter (\<lambda>h. hbSeq h > q) (rsHist s t)) c)"
  using undo_entries_ok[OF env ren_invD(1,2)[OF inv t], of q "rsFree s"]
    sorted_ge_takeWhile[OF ren_invD(3)[OF inv t], of q]
  by (auto simp: doSquash_def)

lemma doSquash_inv:
  assumes env: "ren_env I rf" and inv: "ren_inv n I rf s" and t: "t < n"
    and s': "doSquash I rf q t s = Inr s'"
  shows "ren_inv n I rf s'"
proof -
  let ?y = "filter (\<lambda>h. hbSeq h > q) (rsHist s t)" and ?o = "filter (\<lambda>h. hbSeq h \<le> q) (rsHist s t)"
  obtain fl where fl: "s' = s\<lparr>rsMaps := (rsMaps s)(t := undo_all ?y (rsMaps s t)),
      rsFree := fl, rsHist := (rsHist s)(t := ?o)\<rparr>"
    "\<forall>c. mset (fl c) = mset (rsFree s c) + news ?y c"
    using doSquash_ok[OF env inv t, of q] s' by auto
  have sp: "rsHist s t = ?y @ ?o" by (rule hist_split) (rule ren_invD(3)[OF inv t])
  have ho: "hist_ok I rf ?y (rsMaps s t)" "hist_ok I rf ?o (undo_all ?y (rsMaps s t))"
    using ren_invD(2)[OF inv t] sp hist_ok_append[of I rf ?y ?o "rsMaps s t"] by simp_all
  have th: "thread_ok I rf s' u" if "u < n" for u
  proof (cases "u = t")
    case True
    then show ?thesis
      using ho undo_all_wf[OF ren_invD(1)[OF inv t] ho(1)] sorted_filter_seq[OF ren_invD(3)[OF inv t]]
      by (simp add: thread_ok_def fl)
  next
    case False
    then show ?thesis using inv that by (auto simp: thread_ok_def fl ren_inv_def)
  qed
  have "conserved n rf s'"
  proof (rule conserved_update[OF ren_invD(4)[OF inv t] t])
    fix c
    have "held (undo_all ?y (rsMaps s t)) ?o c + news ?y c = held (rsMaps s t) (rsHist s t) c"
      using held_undo_all[OF ren_invD(1)[OF inv t] ho(1), of ?o c] sp by simp
    then show "mset (rsFree s' c) + held (rsMaps s' t) (rsHist s' t) c
      = mset (rsFree s c) + held (rsMaps s t) (rsHist s t) c"
      using fl by (simp add: ac_simps)
  qed (simp add: fl)
  then show ?thesis using th ren_invD(5)[OF inv t] by (simp add: ren_inv_def fl board_ok_def)
qed

lemma hist_ok_entry:
  "hist_ok I rf hs ms \<Longrightarrow> h \<in> set hs \<Longrightarrow> real_rename h \<Longrightarrow>
     raClass (hbArch h) \<in> set rename_classes \<and> hbPrev h \<in> set (regIds rf (raClass (hbArch h)))"
  by (induction hs arbitrary: ms) (auto simp: arch_ok_def dest: entry_wf_real)

lemma removeFromHistory_ok:
  assumes env: "ren_env I rf" and inv: "ren_inv n I rf s" and t: "t < n"
  shows "\<exists>fl. removeFromHistory q t s = Inr (s\<lparr>rsFree := fl,
      rsHist := (rsHist s)(t := filter (\<lambda>h. hbSeq h > q) (rsHist s t))\<rparr>)
    \<and> (\<forall>c. mset (fl c) = mset (rsFree s c) + prevs (filter (\<lambda>h. hbSeq h \<le> q) (rsHist s t)) c)"
proof -
  have "sorted_wrt (\<le>) (map hbSeq (rev (rsHist s t)))"
    using ren_invD(3)[OF inv t] by (simp add: rev_map[symmetric] sorted_wrt_rev)
  then have d: "takeWhile (\<lambda>h. hbSeq h \<le> q) (rev (rsHist s t)) = rev (filter (\<lambda>h. hbSeq h \<le> q) (rsHist s t))"
    "dropWhile (\<lambda>h. hbSeq h \<le> q) (rev (rsHist s t)) = rev (filter (\<lambda>h. hbSeq h > q) (rsHist s t))"
    using sorted_le_takeWhile[of "rev (rsHist s t)" q] by (simp_all add: rev_filter)
  have "\<And>h. h \<in> set (rev (rsHist s t)) \<Longrightarrow> real_rename h \<Longrightarrow> raClass (hbArch h) \<in> set rename_classes
       \<and> hbPrev h \<in> set (regIds rf (raClass (hbArch h)))"
    using hist_ok_entry[OF ren_invD(2)[OF inv t]] by simp
  from release_entries_ok[where hs = "rev (rsHist s t)" and q = q and fl = "rsFree s",
      OF ren_envD(3)[OF env] this] d
  show ?thesis
    by (auto simp: removeFromHistory_def)
qed

lemma removeFromHistory_inv:
  assumes env: "ren_env I rf" and inv: "ren_inv n I rf s" and t: "t < n"
    and s': "removeFromHistory q t s = Inr s'"
  shows "ren_inv n I rf s'"
proof -
  let ?y = "filter (\<lambda>h. hbSeq h > q) (rsHist s t)" and ?o = "filter (\<lambda>h. hbSeq h \<le> q) (rsHist s t)"
  obtain fl where fl: "s' = s\<lparr>rsFree := fl, rsHist := (rsHist s)(t := ?y)\<rparr>"
    "\<forall>c. mset (fl c) = mset (rsFree s c) + prevs ?o c"
    using removeFromHistory_ok[OF env inv t, of q] s' by auto
  have sp: "rsHist s t = ?y @ ?o" by (rule hist_split) (rule ren_invD(3)[OF inv t])
  have ho: "hist_ok I rf ?y (rsMaps s t)"
    using ren_invD(2)[OF inv t] sp hist_ok_append[of I rf ?y ?o "rsMaps s t"] by simp
  have th: "thread_ok I rf s' u" if "u < n" for u
    using inv that ho sorted_filter_seq[OF ren_invD(3)[OF inv t]]
    by (cases "u = t") (auto simp: thread_ok_def fl ren_inv_def)
  have "conserved n rf s'"
  proof (rule conserved_update[OF ren_invD(4)[OF inv t] t])
    fix c
    have "prevs (rsHist s t) c = prevs ?y c + prevs ?o c"
      using sp prevs_append[of ?y ?o c] by simp
    then show "mset (rsFree s' c) + held (rsMaps s' t) (rsHist s' t) c
      = mset (rsFree s c) + held (rsMaps s t) (rsHist s t) c"
      using fl by (simp add: held_def ac_simps)
  qed (simp add: fl)
  then show ?thesis using th ren_invD(5)[OF inv t] by (simp add: ren_inv_def fl board_ok_def)
qed

end
