(* ===== verification/RenameSteps.thy ===== *)
theory RenameSteps
  imports RenameInv
begin

text \<open>
  Renaming destinations: what one rename records, that the invariant survives it, and that
  renaming an instruction that \<open>canRename\<close> admitted succeeds.  Then the step relation over
  the operations of all threads, its reachable states, and the properties of renaming.
\<close>

section \<open>Renaming one destination\<close>

text \<open>A flattened destination that exists.\<close>

definition dest_ok :: "isa \<Rightarrow> phys_reg_file \<Rightarrow> reg_id \<Rightarrow> bool" where
  "dest_ok I rf a \<longleftrightarrow> arch_ok I a \<or> raClass a = InvalidRegClass
     \<or> (raClass a = MiscRegClass \<and> raIndex a < length (regIds rf MiscRegClass))"

definition flat_dest :: "(reg_id \<Rightarrow> reg_id) \<Rightarrow> reg_id \<Rightarrow> reg_id" where
  "flat_dest flat d = (flat d)\<lparr>raPinned := raPinned d\<rparr>"

lemma flat_dest_simps [simp]:
  "raClass (flat_dest flat d) = raClass (flat d)"
  "raIndex (flat_dest flat d) = raIndex (flat d)"
  "raPinned (flat_dest flat d) = raPinned d"
  by (simp_all add: flat_dest_def)

text \<open>What a successful rename of one destination does: the conclusion the proofs share.\<close>

definition renamed_to ::
  "isa \<Rightarrow> phys_reg_file \<Rightarrow> nat \<Rightarrow> ren_state \<Rightarrow> ren_state \<Rightarrow> rename_history \<Rightarrow> bool"
where
  "renamed_to I rf t s s' h \<longleftrightarrow>
     rsHist s' = (rsHist s)(t := h # rsHist s t)
     \<and> (\<forall>u. u \<noteq> t \<longrightarrow> rsMaps s' u = rsMaps s u)
     \<and> rsCommit s' = rsCommit s
     \<and> maps_wf I rf (rsMaps s' t) \<and> entry_wf I rf h (rsMaps s' t)
     \<and> undo1 h (rsMaps s' t) = rsMaps s t
     \<and> (\<forall>c \<in> set rename_classes. mset (rsFree s c) = mset (rsFree s' c) + news [h] c)
     \<and> board_ok rf s'"

lemma renamed_toD:
  assumes "renamed_to I rf t s s' h"
  shows "rsHist s' = (rsHist s)(t := h # rsHist s t)" "u \<noteq> t \<Longrightarrow> rsMaps s' u = rsMaps s u"
    "rsCommit s' = rsCommit s" "maps_wf I rf (rsMaps s' t)" "entry_wf I rf h (rsMaps s' t)"
    "undo1 h (rsMaps s' t) = rsMaps s t" "board_ok rf s'"
    "c \<in> set rename_classes \<Longrightarrow> mset (rsFree s c) = mset (rsFree s' c) + news [h] c"
  using assms by (auto simp: renamed_to_def)

lemma sb_unset_ok:
  assumes "ren_env I rf" "board_ok rf s" "isFixedMapping I (prClass r) \<or> owned rf r"
  shows "\<exists>sb. sb_unsetReg (isFixedMapping I) (rsBoard s) r = Inr sb
     \<and> sb_wf sb \<and> sbNumRegs sb = totalNumRegs rf"
proof (cases "isFixedMapping I (prClass r)")
  case True
  then show ?thesis using assms(2) by (simp add: sb_unsetReg_def board_ok_def)
next
  case False
  then have v: "sb_valid (isFixedMapping I) rf (rsBoard s) r"
    using assms ren_envD[OF assms(1)] by (auto simp: sb_valid_def board_ok_def poison_reg_def)
  have "sb_unsetReg (isFixedMapping I) (rsBoard s) r = sb_write (isFixedMapping I) (rsBoard s) r False"
    by (simp add: sb_write_def)
  with sb_write_ok[OF v, of False] assms(2) show ?thesis by (simp add: board_ok_def sb_wf_def)
qed

text \<open>A destination that is not renamed (misc or invalid) keeps its mapping.\<close>

lemma rename_dest_fixed:
  assumes env: "ren_env I rf" and mw: "maps_wf I rf (rsMaps s t)" and bo: "board_ok rf s"
    and d: "dest_ok I rf (flat d)" "raClass (flat d) \<notin> set rename_classes"
  shows "\<exists>s' h r. rename_dest I rf flat t d (s, i) = Inr (s', i\<lparr>
            riFlatDests := riFlatDests i @ [flat_dest flat d],
            riDestPhys := riDestPhys i @ [r], riPrevPhys := riPrevPhys i @ [r]\<rparr>)
     \<and> h = \<lparr>hbSeq = riSeq i, hbArch = flat_dest flat d, hbNew = r, hbPrev = r\<rparr>
     \<and> renamed_to I rf t s s' h \<and> rsPins s' = rsPins s \<and> rsFree s' = rsFree s \<and> rsMaps s' = rsMaps s"
proof -
  note E = ren_envD[OF env]
  have c: "raClass (flat d) = InvalidRegClass \<or> raClass (flat d) = MiscRegClass"
    using d(2) by (auto simp: in_rename_classes)
  then obtain r where r: "urm_lookup I rf (rsMaps s t) (flat_dest flat d) = Inr (Some r)"
     "prClass r = raClass (flat d)"
  proof
    assume "raClass (flat d) = InvalidRegClass"
    then show ?thesis
      using that[of "invalidPhysReg I"] E(1) by (simp add: urm_lookup_def isa_ok_def in_rename_classes)
  next
    assume m: "raClass (flat d) = MiscRegClass"
    then have l: "raIndex (flat d) < length (regIds rf MiscRegClass)"
      using d by (simp add: dest_ok_def arch_ok_def in_rename_classes)
    then have "prClass (regIds rf MiscRegClass ! raIndex (flat d)) = MiscRegClass"
      using E(2) by (simp add: rf_wf_def)
    then show ?thesis
      using that[of "regIds rf MiscRegClass ! raIndex (flat d)"] m l
      by (simp add: urm_lookup_def getMiscRegId_def in_rename_classes)
  qed
  have fx: "isFixedMapping I (prClass r)" using r(2) d(2) E(1) by (simp add: isa_ok_def)
  have nr: "\<not> isRenameable I (raClass (flat d))" using d(2) E(1) by (simp add: isa_ok_def)
  have u: "urm_rename I rf (thread_maps s t) (flat_dest flat d)
      = Inr ((Some r, Some r), thread_maps s t)"
    using nr r(1) by (simp add: urm_rename_def thread_maps_def)
  have hh: "\<not> real_rename \<lparr>hbSeq = riSeq i, hbArch = flat_dest flat d, hbNew = r, hbPrev = r\<rparr>"
    by (simp add: real_rename_def)
  let ?s = "s\<lparr>rsMaps := (rsMaps s)(t := rsMaps s t),
      rsHist := (rsHist s)(t := \<lparr>hbSeq = riSeq i, hbArch = flat_dest flat d, hbNew = r, hbPrev = r\<rparr>
         # rsHist s t)\<rparr>"
  have "rename_dest I rf flat t d (s, i) = Inr (?s, i\<lparr>
            riFlatDests := riFlatDests i @ [flat_dest flat d],
            riDestPhys := riDestPhys i @ [r], riPrevPhys := riPrevPhys i @ [r]\<rparr>)"
    using u sb_fixed[of "isFixedMapping I" r "rsBoard s"] fx
    by (simp add: rename_dest_def Let_def flat_dest_def thread_maps_def)
  then show ?thesis
    using mw bo hh r d(2)
    by (auto simp: renamed_to_def entry_wf_def undo1_def news_def board_ok_def)
qed

text \<open>A destination whose current register is pinned keeps it and uses up one pinned write.\<close>

lemma rename_dest_pinned:
  assumes env: "ren_env I rf" and mw: "maps_wf I rf (rsMaps s t)" and bo: "board_ok rf s"
    and d: "arch_ok I (flat d)" "rsMaps s t (raClass (flat d)) ! raIndex (flat d) = Some p"
    and pin: "numPinned (rsPins s) p > 0" "raPinned d = 0"
  shows "\<exists>s' h. rename_dest I rf flat t d (s, i) = Inr (s', i\<lparr>
            riFlatDests := riFlatDests i @ [flat_dest flat d],
            riDestPhys := riDestPhys i @ [p], riPrevPhys := riPrevPhys i @ [p]\<rparr>)
     \<and> h = \<lparr>hbSeq = riSeq i, hbArch = flat_dest flat d, hbNew = p, hbPrev = p\<rparr>
     \<and> renamed_to I rf t s s' h \<and> rsFree s' = rsFree s \<and> rsMaps s' = rsMaps s
     \<and> numPinned (rsPins s') = (numPinned (rsPins s))(p := numPinned (rsPins s) p - 1)"
proof -
  note E = ren_envD[OF env]
  have l: "raIndex (flat d) < length (rsMaps s t (raClass (flat d)))"
    using mw d(1) by (auto simp: maps_wf_def arch_ok_def)
  have ao: "arch_ok I (flat_dest flat d)" using d(1) by (simp add: arch_ok_def)
  obtain p' where p': "rsMaps s t (raClass (flat d)) ! raIndex (flat d) = Some p'"
      "p' \<in> set (regIds rf (raClass (flat d)))"
    by (rule maps_wf_nth[OF mw d(1)])
  have c: "raClass (flat d) \<in> set rename_classes" using d(1) by (simp add: arch_ok_def)
  have pr: "p \<in> set (regIds rf (raClass (flat d)))" using p' d(2) by simp
  have ow: "owned rf p" using pr ids_class[OF E(3) c pr] c by (simp add: owned_def)
  obtain sb where sb: "sb_unsetReg (isFixedMapping I) (rsBoard s) p = Inr sb" "sb_wf sb"
      "sbNumRegs sb = totalNumRegs rf"
    using sb_unset_ok[OF env bo] ow by blast
  let ?h = "\<lparr>hbSeq = riSeq i, hbArch = flat_dest flat d, hbNew = p, hbPrev = p\<rparr>"
  let ?s = "s\<lparr>rsMaps := (rsMaps s)(t := rsMaps s t),
      rsPins := (rsPins s)\<lparr>numPinned := (numPinned (rsPins s))(p := numPinned (rsPins s) p - 1)\<rparr>,
      rsHist := (rsHist s)(t := ?h # rsHist s t), rsBoard := sb\<rparr>"
  have "urm_rename I rf (thread_maps s t) (flat_dest flat d) = Inr ((Some p, Some p),
      (thread_maps s t)\<lparr>pinCounts := (rsPins s)\<lparr>
         numPinned := (numPinned (rsPins s))(p := numPinned (rsPins s) p - 1)\<rparr>\<rparr>)"
    using urm_rename_pinned[OF E(1) ao, of "thread_maps s t" p] l d(2) pin
    by (simp add: thread_maps_def)
  then have "rename_dest I rf flat t d (s, i) = Inr (?s, i\<lparr>
            riFlatDests := riFlatDests i @ [flat_dest flat d],
            riDestPhys := riDestPhys i @ [p], riPrevPhys := riPrevPhys i @ [p]\<rparr>)"
    using sb(1) by (simp add: rename_dest_def Let_def flat_dest_def thread_maps_def)
  moreover have "renamed_to I rf t s ?s ?h"
    using mw sb(2,3) c ao pr d(2)
    by (auto simp: renamed_to_def entry_wf_def undo1_def news_def board_ok_def real_rename_def)
  ultimately show ?thesis by auto
qed

text \<open>Otherwise the destination takes the front of the free list.\<close>

lemma rename_dest_fresh:
  assumes env: "ren_env I rf" and mw: "maps_wf I rf (rsMaps s t)" and bo: "board_ok rf s"
    and d: "arch_ok I (flat d)" "rsMaps s t (raClass (flat d)) ! raIndex (flat d) = Some p"
    and pin: "\<not> numPinned (rsPins s) p > 0"
    and fr: "rsFree s (raClass (flat d)) = r # fl" "r \<noteq> p" "r \<in> set (regIds rf (raClass (flat d)))"
  shows "\<exists>s' h. rename_dest I rf flat t d (s, i) = Inr (s', i\<lparr>
            riFlatDests := riFlatDests i @ [flat_dest flat d],
            riDestPhys := riDestPhys i @ [r], riPrevPhys := riPrevPhys i @ [p]\<rparr>)
     \<and> h = \<lparr>hbSeq = riSeq i, hbArch = flat_dest flat d, hbNew = r, hbPrev = p\<rparr>
     \<and> renamed_to I rf t s s' h \<and> rsFree s' = (rsFree s)(raClass (flat d) := fl)
     \<and> rsMaps s' t = set_entry (rsMaps s t) (flat_dest flat d) r
     \<and> numPinned (rsPins s') = (numPinned (rsPins s))(r := raPinned d)"
proof -
  note E = ren_envD[OF env]
  have l: "raIndex (flat d) < length (rsMaps s t (raClass (flat d)))"
    using mw d(1) by (auto simp: maps_wf_def arch_ok_def)
  have ao: "arch_ok I (flat_dest flat d)" using d(1) by (simp add: arch_ok_def)
  obtain p' where p': "rsMaps s t (raClass (flat d)) ! raIndex (flat d) = Some p'"
      "p' \<in> set (regIds rf (raClass (flat d)))"
    by (rule maps_wf_nth[OF mw d(1)])
  have c: "raClass (flat d) \<in> set rename_classes" using d(1) by (simp add: arch_ok_def)
  have pr: "p \<in> set (regIds rf (raClass (flat d)))" using p' d(2) by simp
  have ow: "owned rf r" using fr(3) ids_class[OF E(3) c fr(3)] c by (simp add: owned_def)
  obtain sb where sb: "sb_unsetReg (isFixedMapping I) (rsBoard s) r = Inr sb" "sb_wf sb"
      "sbNumRegs sb = totalNumRegs rf"
    using sb_unset_ok[OF env bo] ow by blast
  let ?h = "\<lparr>hbSeq = riSeq i, hbArch = flat_dest flat d, hbNew = r, hbPrev = p\<rparr>"
  let ?m = "set_entry (rsMaps s t) (flat_dest flat d) r"
  let ?s = "s\<lparr>rsMaps := (rsMaps s)(t := ?m), rsFree := (rsFree s)(raClass (flat d) := fl),
      rsPins := (rsPins s)\<lparr>numPinned := (numPinned (rsPins s))(r := raPinned d),
          pinnedToComplete := (pinnedToComplete (rsPins s))(r := raPinned d + 1)\<rparr>,
      rsHist := (rsHist s)(t := ?h # rsHist s t), rsBoard := sb\<rparr>"
  have "urm_rename I rf (thread_maps s t) (flat_dest flat d) = Inr ((Some r, Some p),
      \<lparr>archMaps = ?m, freeRegs = (rsFree s)(raClass (flat d) := fl), pinCounts = rsPins ?s\<rparr>)"
    using urm_rename_fresh[OF E(1) ao, of "thread_maps s t" p r fl] l d(2) pin fr(1)
    by (simp add: thread_maps_def set_entry_def)
  then have eq: "rename_dest I rf flat t d (s, i) = Inr (?s, i\<lparr>
            riFlatDests := riFlatDests i @ [flat_dest flat d],
            riDestPhys := riDestPhys i @ [r], riPrevPhys := riPrevPhys i @ [p]\<rparr>)"
    using sb(1) by (simp add: rename_dest_def Let_def flat_dest_def)
  have hr: "real_rename ?h" using fr(2) by (simp add: real_rename_def)
  have "undo1 ?h ?m = rsMaps s t"
    using hr d(2) by (simp add: undo1_def set_entry_twice set_entry_same)
  moreover have "entry_wf I rf ?h ?m"
    using hr d pr fr(3) l ao c by (simp add: entry_wf_def set_entry_def)
  moreover have "maps_wf I rf ?m" using mw fr(3) by (simp add: set_entry_wf)
  moreover have "mset (rsFree s c) = mset (rsFree ?s c) + news [?h] c" for c
    using hr fr(1) by (simp add: news_def)
  ultimately have "renamed_to I rf t s ?s ?h"
    using sb(2,3) by (simp add: renamed_to_def board_ok_def)
  with eq show ?thesis by auto
qed

section \<open>Renaming an instruction\<close>

text \<open>The history entries of an instruction, the youngest (its last destination) first.\<close>

definition inst_entries :: "ren_inst \<Rightarrow> rename_history list" where
  "inst_entries i = rev (map (\<lambda>(a, n, p). \<lparr>hbSeq = riSeq i, hbArch = a, hbNew = n, hbPrev = p\<rparr>)
     (zip (riFlatDests i) (zip (riDestPhys i) (riPrevPhys i))))"

definition fresh_inst :: "ren_inst \<Rightarrow> bool" where
  "fresh_inst i \<longleftrightarrow> riFlatDests i = [] \<and> riDestPhys i = [] \<and> riPrevPhys i = []"

definition inst_ok :: "isa \<Rightarrow> phys_reg_file \<Rightarrow> (reg_id \<Rightarrow> reg_id) \<Rightarrow> ren_inst \<Rightarrow> bool" where
  "inst_ok I rf flat i \<longleftrightarrow> (\<forall>d \<in> set (riDests i). dest_ok I rf (flat d))"

lemma inst_entries_append:
  assumes "length (riDestPhys i) = length (riFlatDests i)" "length (riPrevPhys i) = length (riFlatDests i)"
  shows "inst_entries (i\<lparr>riFlatDests := riFlatDests i @ [a], riDestPhys := riDestPhys i @ [r],
            riPrevPhys := riPrevPhys i @ [p]\<rparr>)
    = \<lparr>hbSeq = riSeq i, hbArch = a, hbNew = r, hbPrev = p\<rparr> # inst_entries i"
  using assms by (simp add: inst_entries_def)

lemma inst_entries_seq: "h \<in> set (inst_entries i) \<Longrightarrow> hbSeq h = riSeq i"
  by (auto simp: inst_entries_def)

text \<open>A successful rename, whichever way it went.\<close>

lemma rename_dest_facts:
  assumes env: "ren_env I rf" and inv: "ren_inv n I rf s" and t: "t < n"
    and d: "dest_ok I rf (flat d)" and ok: "rename_dest I rf flat t d (s, i) = Inr (s', i')"
  shows "\<exists>r p h. i' = i\<lparr>riFlatDests := riFlatDests i @ [flat_dest flat d],
            riDestPhys := riDestPhys i @ [r], riPrevPhys := riPrevPhys i @ [p]\<rparr>
     \<and> h = \<lparr>hbSeq = riSeq i, hbArch = flat_dest flat d, hbNew = r, hbPrev = p\<rparr>
     \<and> renamed_to I rf t s s' h"
proof (cases "raClass (flat d) \<in> set rename_classes")
  case False
  from rename_dest_fixed[where i = i and flat = flat and d = d, OF env ren_invD(1)[OF inv t] ren_invD(5)[OF inv t] d False] ok
  show ?thesis by auto
next
  case True
  let ?c = "raClass (flat d)"
  note mw = ren_invD(1)[OF inv t] and bo = ren_invD(5)[OF inv t] and E = ren_envD[OF env]
  have ao: "arch_ok I (flat d)" using d True by (auto simp: dest_ok_def in_rename_classes)
  have ao': "arch_ok I (flat_dest flat d)" using ao by (simp add: arch_ok_def)
  obtain p where p: "rsMaps s t ?c ! raIndex (flat d) = Some p" "p \<in> set (regIds rf ?c)"
      "raIndex (flat d) < length (rsMaps s t ?c)"
    by (rule maps_wf_nth[OF mw ao])
  show ?thesis
  proof (cases "numPinned (rsPins s) p > 0")
    case pin: True
    have "raPinned d = 0"
    proof (rule ccontr)
      assume "raPinned d \<noteq> 0"
      then have "urm_rename I rf (thread_maps s t) (flat_dest flat d) = Inl AssertFail"
        using urm_rename_pinned[OF E(1) ao', of "thread_maps s t" p] p pin
        by (simp add: thread_maps_def)
      then show False using ok by (simp add: rename_dest_def Let_def flat_dest_def)
    qed
    from rename_dest_pinned[where i = i and flat = flat and d = d, OF env mw bo ao p(1) pin this] ok
    show ?thesis by auto
  next
    case pin: False
    show ?thesis
    proof (cases "rsFree s ?c")
      case Nil
      then have "urm_rename I rf (thread_maps s t) (flat_dest flat d) = Inl AssertFail"
        using urm_rename_empty[OF E(1) ao', of "thread_maps s t" p] p pin
        by (simp add: thread_maps_def)
      then show ?thesis using ok by (simp add: rename_dest_def Let_def flat_dest_def)
    next
      case (Cons r fl)
      then have r: "r \<in> set (rsFree s ?c)" by simp
      have "p \<in># held (rsMaps s t) (rsHist s t) ?c"
        using mapped_nth_in[of "raIndex (flat d)" "rsMaps s t" ?c p] p by (simp add: held_def)
      then have "r \<noteq> p" using free_not_held[OF ren_invD(4)[OF inv t] E(3) t True r] by auto
      from rename_dest_fresh[where i = i and flat = flat and d = d, OF env mw bo ao p(1) pin Cons this
          free_in_ids[OF ren_invD(4)[OF inv t] True r]] ok
      show ?thesis by auto
    qed
  qed
qed

lemma renamed_to_inv:
  assumes inv: "ren_inv n I rf s" and t: "t < n" and r: "renamed_to I rf t s s' h"
    and sq: "\<And>g. g \<in> set (rsHist s t) \<Longrightarrow> hbSeq g \<le> hbSeq h"
  shows "ren_inv n I rf s'"
proof -
  note R = renamed_toD[OF r]
  have th: "thread_ok I rf s' u" if "u < n" for u
  proof (cases "u = t")
    case True
    have "hist_ok I rf (h # rsHist s t) (rsMaps s' t)"
      using R(5,6) ren_invD(2)[OF inv t] by simp
    then show ?thesis
      using True R(1,4) sq ren_invD(3)[OF inv t] by (auto simp: thread_ok_def)
  next
    case False
    then show ?thesis using inv that R(1) R(2)[OF False] by (auto simp: thread_ok_def ren_inv_def)
  qed
  have "conserved n rf s'"
  proof (rule conserved_update[OF ren_invD(4)[OF inv t] t])
    fix c assume c: "c \<in> set rename_classes"
    have "held (rsMaps s t) (rsHist s t) c + news [h] c = held (rsMaps s' t) (rsHist s' t) c"
      using held_undo1[OF R(4,5), of "rsHist s t" c] R(1,6) by simp
    then show "mset (rsFree s' c) + held (rsMaps s' t) (rsHist s' t) c
      = mset (rsFree s c) + held (rsMaps s t) (rsHist s t) c"
      using R(8)[OF c] by (simp add: ac_simps)
  next
    fix u assume "u \<noteq> t"
    then show "rsMaps s' u = rsMaps s u \<and> rsHist s' u = rsHist s u" using R(1,2) by simp
  qed
  then show ?thesis using th R(7) by (simp add: ren_inv_def)
qed

text \<open>The state between two iterations of \<open>renameDestRegs\<close>, relative to where it started.\<close>

definition dests_done ::
  "nat \<Rightarrow> isa \<Rightarrow> phys_reg_file \<Rightarrow> nat \<Rightarrow> ren_state \<Rightarrow> ren_inst \<Rightarrow> ren_state \<times> ren_inst \<Rightarrow> bool"
where
  "dests_done n I rf t s0 i0 = (\<lambda>(s, i).
     ren_inv n I rf s \<and> riSeq i = riSeq i0 \<and> riDests i = riDests i0
     \<and> length (riDestPhys i) = length (riFlatDests i)
     \<and> length (riPrevPhys i) = length (riFlatDests i)
     \<and> rsHist s = (rsHist s0)(t := inst_entries i @ rsHist s0 t)
     \<and> undo_all (inst_entries i) (rsMaps s t) = rsMaps s0 t
     \<and> (\<forall>u. u \<noteq> t \<longrightarrow> rsMaps s u = rsMaps s0 u) \<and> rsCommit s = rsCommit s0
     \<and> (\<forall>c \<in> set rename_classes. mset (rsFree s0 c) = mset (rsFree s c) + news (inst_entries i) c))"

lemma dests_done_step:
  assumes env: "ren_env I rf" and t: "t < n" and d: "dest_ok I rf (flat d)"
    and D: "dests_done n I rf t s0 i0 (s, i)"
    and sq: "\<And>g. g \<in> set (rsHist s0 t) \<Longrightarrow> hbSeq g \<le> riSeq i0"
    and ok: "rename_dest I rf flat t d (s, i) = Inr (s', i')"
  shows "dests_done n I rf t s0 i0 (s', i')"
proof -
  have D1: "ren_inv n I rf s" "riSeq i = riSeq i0" "riDests i = riDests i0"
    "length (riDestPhys i) = length (riFlatDests i)" "length (riPrevPhys i) = length (riFlatDests i)"
    "rsHist s = (rsHist s0)(t := inst_entries i @ rsHist s0 t)"
    "undo_all (inst_entries i) (rsMaps s t) = rsMaps s0 t"
    "\<And>u. u \<noteq> t \<Longrightarrow> rsMaps s u = rsMaps s0 u" "rsCommit s = rsCommit s0"
    "\<And>c. c \<in> set rename_classes \<Longrightarrow> mset (rsFree s0 c) = mset (rsFree s c) + news (inst_entries i) c"
    using D by (auto simp: dests_done_def)
  obtain r p h where i': "i' = i\<lparr>riFlatDests := riFlatDests i @ [flat_dest flat d],
            riDestPhys := riDestPhys i @ [r], riPrevPhys := riPrevPhys i @ [p]\<rparr>"
    and h: "h = \<lparr>hbSeq = riSeq i, hbArch = flat_dest flat d, hbNew = r, hbPrev = p\<rparr>"
    and R0: "renamed_to I rf t s s' h"
    using rename_dest_facts[where flat = flat, OF env D1(1) t d ok] by blast
  note R = renamed_toD[OF R0]
  have en: "inst_entries i' = h # inst_entries i"
    unfolding i' h by (rule inst_entries_append[OF D1(4,5)])
  have "hbSeq g \<le> hbSeq h" if "g \<in> set (rsHist s t)" for g
    using that sq D1(2,6) inst_entries_seq[of g i] h by auto
  then have "ren_inv n I rf s'" by (rule renamed_to_inv[OF D1(1) t R0])
  moreover have "mset (rsFree s0 c) = mset (rsFree s' c) + news (h # inst_entries i) c"
    if c: "c \<in> set rename_classes" for c
    using D1(10)[OF c] R(8)[OF c] news_append[of "[h]" "inst_entries i" c] by (simp add: ac_simps)
  moreover have "rsHist s' = (rsHist s0)(t := inst_entries i' @ rsHist s0 t)"
    using R(1) D1(6) en by simp
  moreover have "undo_all (inst_entries i') (rsMaps s' t) = rsMaps s0 t"
    using en R(6) D1(7) by simp
  moreover have "length (riDestPhys i') = length (riFlatDests i')"
    "length (riPrevPhys i') = length (riFlatDests i')" "riSeq i' = riSeq i0" "riDests i' = riDests i0"
    using D1(2-5) i' by simp_all
  ultimately show ?thesis
    using D1(8,9) R(2,3) en by (simp add: dests_done_def)
qed

lemma renameDestRegs_done:
  assumes env: "ren_env I rf" and inv: "ren_inv n I rf s" and t: "t < n"
    and i: "inst_ok I rf flat i" "fresh_inst i"
    and sq: "\<And>g. g \<in> set (rsHist s t) \<Longrightarrow> hbSeq g \<le> riSeq i"
    and ok: "renameDestRegs I rf flat t (s, i) = Inr (s', i')"
  shows "dests_done n I rf t s i (s', i')"
proof (rule foldE_inv[where P = "dests_done n I rf t s i", OF ok[unfolded renameDestRegs_def]])
  show "dests_done n I rf t s i (s, i)"
    using inv i(2) by (simp add: dests_done_def fresh_inst_def inst_entries_def)
next
  fix d u v
  assume a: "d \<in> set (riDests (snd (s, i)))" "dests_done n I rf t s i u"
    "rename_dest I rf flat t d u = Inr v"
  obtain u1 u2 v1 v2 where uv: "u = (u1, u2)" "v = (v1, v2)" by (cases u; cases v) auto
  have "dest_ok I rf (flat d)" using a(1) i(1) by (simp add: inst_ok_def)
  from dests_done_step[where flat = flat, OF env t this a(2)[unfolded uv(1)] sq a(3)[unfolded uv]]
  show "dests_done n I rf t s i v" by (simp add: uv)
qed

section \<open>Renaming succeeds when it was allowed to start\<close>

definition demand :: "(reg_id \<Rightarrow> reg_id) \<Rightarrow> reg_id list \<Rightarrow> reg_class \<Rightarrow> nat" where
  "demand flat ds c = length (filter (\<lambda>d. raClass (flat d) = c) ds)"

text \<open>
  \<open>SimpleRenameMap::rename\<close> asserts that a destination that asks for pinned writes does not
  find its register pinned already.  Its current register is the one of the map.
\<close>

definition mapped_to :: "nat \<Rightarrow> ren_state \<Rightarrow> reg_id \<Rightarrow> phys_reg option" where
  "mapped_to t s a = rsMaps s t (raClass a) ! raIndex a"

definition may_pin :: "nat \<Rightarrow> ren_state \<Rightarrow> reg_id \<Rightarrow> reg_id \<Rightarrow> bool" where
  "may_pin t s a d \<longleftrightarrow> (raPinned d \<noteq> 0 \<and> raClass a \<in> set rename_classes \<longrightarrow>
     (case mapped_to t s a of None \<Rightarrow> True | Some p \<Rightarrow> numPinned (rsPins s) p \<le> 0))"

text \<open>Other entries of the map stay, and what they are mapped to is not pinned anew.\<close>

definition others_stay :: "isa \<Rightarrow> nat \<Rightarrow> ren_state \<Rightarrow> ren_state \<Rightarrow> reg_id \<Rightarrow> bool" where
  "others_stay I t s s' a \<longleftrightarrow> (\<forall>b. arch_ok I b \<longrightarrow> (raClass b, raIndex b) \<noteq> (raClass a, raIndex a) \<longrightarrow>
     mapped_to t s' b = mapped_to t s b
     \<and> (\<forall>p. mapped_to t s b = Some p \<longrightarrow> numPinned (rsPins s) p \<le> 0 \<longrightarrow> numPinned (rsPins s') p \<le> 0))"

lemma rename_dest_progress:
  assumes env: "ren_env I rf" and inv: "ren_inv n I rf s" and t: "t < n"
    and d: "dest_ok I rf (flat d)" "may_pin t s (flat d) d"
    and fr: "raClass (flat d) \<in> set rename_classes \<Longrightarrow> rsFree s (raClass (flat d)) \<noteq> []"
  shows "\<exists>s' i'. rename_dest I rf flat t d (s, i) = Inr (s', i')
     \<and> (\<forall>c. length (rsFree s c) \<le> length (rsFree s' c) + demand flat [d] c) \<and> others_stay I t s s' (flat d)"
proof (cases "raClass (flat d) \<in> set rename_classes")
  case False
  from rename_dest_fixed[where i = i and flat = flat and d = d, OF env ren_invD(1)[OF inv t] ren_invD(5)[OF inv t] d(1) False]
  show ?thesis by (force simp: others_stay_def mapped_to_def)
next
  case True
  let ?c = "raClass (flat d)"
  note mw = ren_invD(1)[OF inv t] and bo = ren_invD(5)[OF inv t] and E = ren_envD[OF env]
  have ao: "arch_ok I (flat d)" using d(1) True by (auto simp: dest_ok_def in_rename_classes)
  obtain p where p: "rsMaps s t ?c ! raIndex (flat d) = Some p" "p \<in> set (regIds rf ?c)"
      "raIndex (flat d) < length (rsMaps s t ?c)"
    by (rule maps_wf_nth[OF mw ao])
  show ?thesis
  proof (cases "numPinned (rsPins s) p > 0")
    case pin: True
    have "raPinned d = 0" using d(2) pin p(1) True by (auto simp: may_pin_def mapped_to_def)
    from rename_dest_pinned[where i = i and flat = flat and d = d, OF env mw bo ao p(1) pin this]
    show ?thesis by (force simp: others_stay_def mapped_to_def)
  next
    case pin: False
    obtain r fl where Cons: "rsFree s ?c = r # fl" using fr[OF True] by (cases "rsFree s ?c") auto
    then have r: "r \<in> set (rsFree s ?c)" by simp
    have held: "q \<noteq> r" if b: "arch_ok I b" "mapped_to t s b = Some q" for b q
    proof -
      obtain q' where q: "rsMaps s t (raClass b) ! raIndex b = Some q'" "q' \<in> set (regIds rf (raClass b))"
          "raIndex b < length (rsMaps s t (raClass b))"
        by (rule maps_wf_nth[OF mw b(1)])
      have qq: "q' = q" using q(1) b(2) by (simp add: mapped_to_def)
      show ?thesis
      proof (cases "raClass b = ?c")
        case True
        then have "q \<in># held (rsMaps s t) (rsHist s t) ?c"
          using mapped_nth_in[of "raIndex b" "rsMaps s t" ?c q] q qq by (simp add: held_def)
        then show ?thesis using free_not_held[OF ren_invD(4)[OF inv t] E(3) t \<open>?c \<in> _\<close> r] by auto
      next
        case False
        have "prClass q = raClass b" using ids_class[OF E(3) _ q(2)] b(1) qq by (simp add: arch_ok_def)
        moreover have "prClass r = ?c"
          using ids_class[OF E(3) True free_in_ids[OF ren_invD(4)[OF inv t] True r]] .
        ultimately show ?thesis using False by auto
      qed
    qed
    have "r \<noteq> p" using held[OF ao] p(1) by (auto simp: mapped_to_def)
    from rename_dest_fresh[where i = i and flat = flat and d = d, OF env mw bo ao p(1) pin Cons this
        free_in_ids[OF ren_invD(4)[OF inv t] True r]]
    obtain s' i' where x: "rename_dest I rf flat t d (s, i) = Inr (s', i')"
      "rsFree s' = (rsFree s)(?c := fl)" "rsMaps s' t = set_entry (rsMaps s t) (flat_dest flat d) r"
      "numPinned (rsPins s') = (numPinned (rsPins s))(r := raPinned d)" by blast
    have "others_stay I t s s' (flat d)"
      unfolding others_stay_def
    proof (intro allI impI)
      fix b assume b: "arch_ok I b" "(raClass b, raIndex b) \<noteq> (raClass (flat d), raIndex (flat d))"
      have "mapped_to t s' b = mapped_to t s b"
        using b(2) by (auto simp: mapped_to_def x(3) set_entry_def)
      then show "mapped_to t s' b = mapped_to t s b
         \<and> (\<forall>p. mapped_to t s b = Some p \<longrightarrow> numPinned (rsPins s) p \<le> 0 \<longrightarrow> numPinned (rsPins s') p \<le> 0)"
        using held[OF b(1)] x(4) by auto
    qed
    then show ?thesis using Cons x(1,2) by (intro exI[of _ s'] exI[of _ i']) (auto simp: demand_def)
  qed
qed

text \<open>
  When all destinations may be renamed as they stand: a destination that asks for pinned writes
  finds its register unpinned, and no earlier destination of the instruction is the same register.
\<close>

definition pins_allow :: "(reg_id \<Rightarrow> reg_id) \<Rightarrow> nat \<Rightarrow> ren_state \<Rightarrow> reg_id list \<Rightarrow> bool" where
  "pins_allow flat t s ds \<longleftrightarrow> (\<forall>d \<in> set ds. may_pin t s (flat d) d)
     \<and> sorted_wrt (\<lambda>a b. raPinned b \<noteq> 0 \<longrightarrow>
         (raClass (flat b), raIndex (flat b)) \<noteq> (raClass (flat a), raIndex (flat a))) ds"

lemma pins_allow_step:
  assumes "pins_allow flat t s (d # ds)" "others_stay I t s s' (flat d)" "\<forall>b \<in> set ds. dest_ok I rf (flat b)"
  shows "pins_allow flat t s' ds"
proof -
  have "may_pin t s' (flat b) b" if b: "b \<in> set ds" for b
  proof (cases "raPinned b \<noteq> 0 \<and> raClass (flat b) \<in> set rename_classes")
    case True
    then have ao: "arch_ok I (flat b)" using assms(3) b by (auto simp: dest_ok_def in_rename_classes)
    have df: "(raClass (flat b), raIndex (flat b)) \<noteq> (raClass (flat d), raIndex (flat d))"
      using assms(1) True b by (auto simp: pins_allow_def)
    have "may_pin t s (flat b) b" using assms(1) b by (simp add: pins_allow_def)
    with True assms(2)[unfolded others_stay_def, rule_format, OF ao df] show ?thesis
      by (auto simp: may_pin_def split: option.splits)
  qed (auto simp: may_pin_def)
  then show ?thesis using assms(1) by (simp add: pins_allow_def)
qed

lemma renameDestRegs_pins:
  assumes env: "ren_env I rf" and t: "t < n"
    and "ren_inv n I rf s" "\<And>d. d \<in> set ds \<Longrightarrow> dest_ok I rf (flat d)" "pins_allow flat t s ds"
    and "\<And>c. c \<in> set rename_classes \<Longrightarrow> demand flat ds c \<le> length (rsFree s c)"
    and "\<And>g. g \<in> set (rsHist s t) \<Longrightarrow> hbSeq g \<le> riSeq i"
  shows "\<exists>r. foldE (rename_dest I rf flat t) ds (s, i) = Inr r"
  using assms(3-7)
proof (induction ds arbitrary: s i)
  case Nil
  then show ?case by simp
next
  case (Cons d ds)
  have dd: "dest_ok I rf (flat d)" "may_pin t s (flat d) d"
    using Cons.prems(2,3) by (auto simp: pins_allow_def)
  have "rsFree s (raClass (flat d)) \<noteq> []" if "raClass (flat d) \<in> set rename_classes"
    using Cons.prems(4)[OF that] by (auto simp: demand_def)
  from rename_dest_progress[where flat = flat and i = i, OF env Cons.prems(1) t dd this]
  obtain s' i' where e: "rename_dest I rf flat t d (s, i) = Inr (s', i')"
    "\<And>c. length (rsFree s c) \<le> length (rsFree s' c) + demand flat [d] c" "others_stay I t s s' (flat d)" by blast
  obtain r p h where f: "i' = i\<lparr>riFlatDests := riFlatDests i @ [flat_dest flat d],
            riDestPhys := riDestPhys i @ [r], riPrevPhys := riPrevPhys i @ [p]\<rparr>"
     "h = \<lparr>hbSeq = riSeq i, hbArch = flat_dest flat d, hbNew = r, hbPrev = p\<rparr>"
     "renamed_to I rf t s s' h"
    using rename_dest_facts[where flat = flat, OF env Cons.prems(1) t dd(1) e(1)] by blast
  have "ren_inv n I rf s'"
    by (rule renamed_to_inv[OF Cons.prems(1) t f(3)]) (use Cons.prems(5) f(2) in auto)
  moreover have "demand flat ds c \<le> length (rsFree s' c)" if "c \<in> set rename_classes" for c
    using Cons.prems(4)[OF that] e(2)[of c] by (auto simp: demand_def split: if_splits)
  moreover have "hbSeq g \<le> riSeq i'" if "g \<in> set (rsHist s' t)" for g
    using that Cons.prems(5) renamed_toD(1)[OF f(3)] f(1,2) by auto
  moreover have "pins_allow flat t s' ds"
    by (rule pins_allow_step[OF Cons.prems(3) e(3)]) (use Cons.prems(2) in auto)
  ultimately obtain r where "foldE (rename_dest I rf flat t) ds (s', i') = Inr r"
    using Cons.IH[of s' i'] Cons.prems(2) by auto
  with e(1) show ?case by simp
qed

lemma pins_allow_none: "\<forall>d \<in> set ds. raPinned d = 0 \<Longrightarrow> pins_allow flat t s ds"
  by (auto simp: pins_allow_def may_pin_def intro: sorted_wrt_mono_rel[of _ "\<lambda>_ _. True"])

lemma renameDestRegs_total:
  assumes "ren_env I rf" "t < n" "ren_inv n I rf s" "\<And>d. d \<in> set ds \<Longrightarrow> dest_ok I rf (flat d) \<and> raPinned d = 0"
    "\<And>c. c \<in> set rename_classes \<Longrightarrow> demand flat ds c \<le> length (rsFree s c)"
    "\<And>g. g \<in> set (rsHist s t) \<Longrightarrow> hbSeq g \<le> riSeq i"
  shows "\<exists>r. foldE (rename_dest I rf flat t) ds (s, i) = Inr r"
  by (rule renameDestRegs_pins[OF assms(1-3) _ pins_allow_none assms(5,6)]) (use assms(4) in auto)

section \<open>Interleavings\<close>

text \<open>
  One operation of the rename stage: renaming the destinations of an instruction younger than
  everything its thread has renamed, a squash, a commit, and the wakeup of a register by a
  later stage.
\<close>

inductive ren_step ::
  "nat \<Rightarrow> isa \<Rightarrow> phys_reg_file \<Rightarrow> (reg_id \<Rightarrow> reg_id) \<Rightarrow> ren_state \<Rightarrow> ren_state \<Rightarrow> bool"
  for n I rf flat
where
  step_rename: "t < n \<Longrightarrow> inst_ok I rf flat i \<Longrightarrow> fresh_inst i
     \<Longrightarrow> (\<forall>g \<in> set (rsHist s t). hbSeq g \<le> riSeq i)
     \<Longrightarrow> renameDestRegs I rf flat t (s, i) = Inr (s', i') \<Longrightarrow> ren_step n I rf flat s s'"
| step_squash: "t < n \<Longrightarrow> doSquash I rf q t s = Inr s' \<Longrightarrow> ren_step n I rf flat s s'"
| step_commit: "t < n \<Longrightarrow> removeFromHistory q t s = Inr s' \<Longrightarrow> ren_step n I rf flat s s'"
| step_wakeup: "sb_setReg (isFixedMapping I) (rsBoard s) r = Inr sb
     \<Longrightarrow> ren_step n I rf flat s (s\<lparr>rsBoard := sb\<rparr>)"

inductive_cases ren_stepE: "ren_step n I rf flat s s'"

inductive ren_steps ::
  "nat \<Rightarrow> isa \<Rightarrow> phys_reg_file \<Rightarrow> (reg_id \<Rightarrow> reg_id) \<Rightarrow> ren_state \<Rightarrow> ren_state \<Rightarrow> bool"
  for n I rf flat
where
  steps_refl: "ren_steps n I rf flat s s"
| steps_step: "ren_steps n I rf flat s u \<Longrightarrow> ren_step n I rf flat u s' \<Longrightarrow> ren_steps n I rf flat s s'"

lemma sb_setReg_wf: "sb_setReg fm sb r = Inr sb' \<Longrightarrow> sb_wf sb' = sb_wf sb \<and> sbNumRegs sb' = sbNumRegs sb"
  by (auto simp: sb_setReg_def sb_wf_def bindE_ok vecSet_def map_sum_def split: if_splits sum.splits)

lemma ren_inv_board: "ren_inv n I rf s \<Longrightarrow> sb_wf sb \<Longrightarrow> sbNumRegs sb = totalNumRegs rf \<Longrightarrow>
    ren_inv n I rf (s\<lparr>rsBoard := sb\<rparr>)"
  by (simp add: ren_inv_def thread_ok_def conserved_def board_ok_def)

lemma ren_step_inv:
  assumes "ren_step n I rf flat s s'" "ren_env I rf" "ren_inv n I rf s"
  shows "ren_inv n I rf s'"
  using assms
proof (cases rule: ren_step.cases)
  case (step_rename t i i')
  from renameDestRegs_done[OF assms(2,3) step_rename(1-3) _ step_rename(5)] step_rename(4)
  show ?thesis by (auto simp: dests_done_def)
next
  case (step_squash t q)
  then show ?thesis using doSquash_inv assms by blast
next
  case (step_commit t q)
  then show ?thesis using removeFromHistory_inv assms by blast
next
  case (step_wakeup r sb)
  then show ?thesis
    using ren_inv_board[OF assms(3), of sb] sb_setReg_wf[OF step_wakeup(2)] assms(3)
    by (simp add: ren_inv_def board_ok_def)
qed

lemma ren_steps_inv:
  "ren_steps n I rf flat s s' \<Longrightarrow> ren_env I rf \<Longrightarrow> ren_inv n I rf s \<Longrightarrow> ren_inv n I rf s'"
  by (induction rule: ren_steps.induct) (auto intro: ren_step_inv)

end
