(* ===== verification/RenameInit.thy ===== *)
theory RenameInit
  imports RenameSteps
begin

text \<open>
  How the maps get their first registers: the loop of the CPU constructor
  (\<open>cpu.cc\<close>, \<open>CPU::CPU\<close>), which is also the loop of \<open>CPU::restoreCheckpointState\<close> that maps
  every architectural register to a fresh physical one.  The second also marks the register
  ready; \<open>onMap\<close> is what happens to the scoreboard.
\<close>

definition remap_reg ::
  "(phys_reg \<Rightarrow> scoreboard \<Rightarrow> scoreboard res) \<Rightarrow> isa \<Rightarrow> phys_reg_file \<Rightarrow> nat \<Rightarrow> reg_class \<Rightarrow> nat
     \<Rightarrow> ren_state \<Rightarrow> ren_state res"
where
  "remap_reg onMap I rf t c i s =
     (let a = \<lparr>raClass = c, raIndex = i, raPinned = 0\<rparr> in
      bindE (ufl_getReg (rsFree s) c) (\<lambda>(r, fl).
      bindE (urm_setEntry I rf (rsMaps s t) a (Some r)) (\<lambda>ms.
      bindE (urm_setEntry I rf (rsCommit s t) a (Some r)) (\<lambda>cms.
      bindE (onMap r (rsBoard s)) (\<lambda>sb.
        Inr (s\<lparr>rsMaps := (rsMaps s)(t := ms), rsCommit := (rsCommit s)(t := cms),
               rsFree := fl, rsBoard := sb\<rparr>))))))"

definition remap_thread ::
  "(phys_reg \<Rightarrow> scoreboard \<Rightarrow> scoreboard res) \<Rightarrow> isa \<Rightarrow> phys_reg_file \<Rightarrow> nat \<Rightarrow> ren_state \<Rightarrow> ren_state res"
where
  "remap_thread onMap I rf t s =
     foldE (\<lambda>c u. foldE (remap_reg onMap I rf t c) [0..<numArchRegs I c] u) rename_classes s"

text \<open>The state of renaming after the constructor; only active threads get registers.
  The assertions of the constructor on the numbers of registers are hypotheses of the properties.\<close>

definition initial_rename :: "isa \<Rightarrow> phys_reg_file \<Rightarrow> nat \<Rightarrow> ren_state res" where
  "initial_rename I rf active =
     bindE (new_UnifiedFreeList rf) (\<lambda>fl.
     bindE (urm_init I) (\<lambda>ms.
       foldE (remap_thread (\<lambda>r sb. Inr sb) I rf) [0..<active]
         \<lparr>rsMaps = (\<lambda>_. ms), rsCommit = (\<lambda>_. ms), rsFree = fl,
          rsPins = \<lparr>numPinned = (\<lambda>_. 0), pinnedToComplete = (\<lambda>_. 0)\<rparr>,
          rsHist = (\<lambda>_. []), rsBoard = new_Scoreboard (totalNumRegs rf)\<rparr>))"

section \<open>One class\<close>

definition remapped_class ::
  "nat \<Rightarrow> reg_class \<Rightarrow> nat \<Rightarrow> ren_state \<Rightarrow> scoreboard \<Rightarrow> ren_state"
where
  "remapped_class t c k s sb = s\<lparr>
     rsMaps := (rsMaps s)(t := (rsMaps s t)(c := map Some (take k (rsFree s c)) @ drop k (rsMaps s t c))),
     rsCommit := (rsCommit s)(t :=
        (rsCommit s t)(c := map Some (take k (rsFree s c)) @ drop k (rsCommit s t c))),
     rsFree := (rsFree s)(c := drop k (rsFree s c)), rsBoard := sb\<rparr>"

definition remap_ready :: "isa \<Rightarrow> phys_reg_file \<Rightarrow> nat \<Rightarrow> ren_state \<Rightarrow> reg_class \<Rightarrow> bool" where
  "remap_ready I rf t s c \<longleftrightarrow> c \<in> set rename_classes
     \<and> length (rsMaps s t c) = numArchRegs I c \<and> length (rsCommit s t c) = numArchRegs I c
     \<and> numArchRegs I c \<le> length (rsFree s c) \<and> (\<forall>r \<in> set (rsFree s c). prClass r = c)"

lemma update_at_length:
  assumes "length xs = k" "k < length ys"
  shows "(xs @ drop k ys)[k := y] = (xs @ [y]) @ drop (Suc k) ys"
proof -
  have "drop k ys = ys ! k # drop (Suc k) ys" using assms by (simp add: Cons_nth_drop_Suc)
  then show ?thesis using assms by (simp add: list_update_append)
qed

lemma urm_setEntry_raw:
  "isa_ok I \<Longrightarrow> raClass a \<in> set rename_classes \<Longrightarrow> raIndex a < length (ms (raClass a)) \<Longrightarrow>
     prClass r = raClass a \<Longrightarrow>
     urm_setEntry I rf ms a (Some r) = Inr (ms(raClass a := (ms (raClass a))[raIndex a := Some r]))"
  by (simp add: urm_setEntry_def srm_setEntry_def isa_ok_def class_le_CC)

lemma remap_class:
  assumes "isa_ok I" "remap_ready I rf t s c" "k \<le> numArchRegs I c"
  shows "foldE (remap_reg f I rf t c) [0..<k] s
    = bindE (foldE f (take k (rsFree s c)) (rsBoard s)) (\<lambda>sb. Inr (remapped_class t c k s sb))"
  using assms(3)
proof (induction k)
  case 0
  have "remapped_class t c 0 s (rsBoard s) = s" by (simp add: remapped_class_def)
  then show ?case by simp
next
  case (Suc k)
  note rr = assms(2)[unfolded remap_ready_def]
  let ?r = "rsFree s c ! k"
  have k: "k < length (rsFree s c)" "k < length (rsMaps s t c)" "k < length (rsCommit s t c)"
    using Suc.prems rr by auto
  have tk: "take (Suc k) (rsFree s c) = take k (rsFree s c) @ [?r]"
    using k by (simp add: take_Suc_conv_app_nth)
  have step: "remap_reg f I rf t c k (remapped_class t c k s sb)
      = bindE (f ?r sb) (\<lambda>sb. Inr (remapped_class t c (Suc k) s sb))" for sb
  proof -
    let ?u = "remapped_class t c k s sb" and ?a = "\<lparr>raClass = c, raIndex = k, raPinned = 0\<rparr>"
    have g: "ufl_getReg (rsFree ?u) c = Inr (?r, (rsFree s)(c := drop (Suc k) (rsFree s c)))"
      using k(1) rr by (simp add: ufl_getReg_def fl_getReg_def remapped_class_def class_le_CC
          Cons_nth_drop_Suc[symmetric])
    have r: "prClass ?r = c" using k(1) rr by simp
    have m: "urm_setEntry I rf (rsMaps ?u t) ?a (Some ?r) =
       Inr ((rsMaps s t)(c := map Some (take (Suc k) (rsFree s c)) @ drop (Suc k) (rsMaps s t c)))"
      using urm_setEntry_raw[OF assms(1), of ?a "rsMaps ?u t" ?r rf] k r rr
        update_at_length[of "map Some (take k (rsFree s c))" k "rsMaps s t c" "Some ?r"]
      by (simp add: remapped_class_def tk)
    have cm: "urm_setEntry I rf (rsCommit ?u t) ?a (Some ?r) =
       Inr ((rsCommit s t)(c := map Some (take (Suc k) (rsFree s c)) @ drop (Suc k) (rsCommit s t c)))"
      using urm_setEntry_raw[OF assms(1), of ?a "rsCommit ?u t" ?r rf] k r rr
        update_at_length[of "map Some (take k (rsFree s c))" k "rsCommit s t c" "Some ?r"]
      by (simp add: remapped_class_def tk)
    have "rsBoard ?u = sb" by (simp add: remapped_class_def)
    then show ?thesis
      unfolding remap_reg_def Let_def g bindE_Inr prod.case m cm
      by (simp add: remapped_class_def)
  qed
  have "foldE (remap_reg f I rf t c) [0..<Suc k] s
      = bindE (foldE (remap_reg f I rf t c) [0..<k] s) (\<lambda>u. remap_reg f I rf t c k u)"
    by (simp add: foldE_append bindE_def split: sum.splits)
  also have "\<dots> = bindE (foldE f (take k (rsFree s c)) (rsBoard s))
      (\<lambda>sb. bindE (f ?r sb) (\<lambda>sb. Inr (remapped_class t c (Suc k) s sb)))"
    using Suc by (simp add: bindE_assoc step)
  also have "\<dots> = bindE (foldE f (take (Suc k) (rsFree s c)) (rsBoard s))
      (\<lambda>sb. Inr (remapped_class t c (Suc k) s sb))"
    by (simp add: tk foldE_append bindE_assoc)
  finally show ?case .
qed

section \<open>All classes\<close>

definition remapped ::
  "isa \<Rightarrow> nat \<Rightarrow> reg_class list \<Rightarrow> ren_state \<Rightarrow> scoreboard \<Rightarrow> ren_state"
where
  "remapped I t cs s sb = s\<lparr>
     rsMaps := (rsMaps s)(t := (\<lambda>c. if c \<in> set cs
        then map Some (take (numArchRegs I c) (rsFree s c)) else rsMaps s t c)),
     rsCommit := (rsCommit s)(t := (\<lambda>c. if c \<in> set cs
        then map Some (take (numArchRegs I c) (rsFree s c)) else rsCommit s t c)),
     rsFree := (\<lambda>c. if c \<in> set cs then drop (numArchRegs I c) (rsFree s c) else rsFree s c),
     rsBoard := sb\<rparr>"

definition remap_taken :: "isa \<Rightarrow> reg_class list \<Rightarrow> ren_state \<Rightarrow> phys_reg list" where
  "remap_taken I cs s = concat (map (\<lambda>c. take (numArchRegs I c) (rsFree s c)) cs)"

lemma remap_classes:
  assumes "isa_ok I" "\<And>c. c \<in> set cs \<Longrightarrow> remap_ready I rf t s c" "distinct cs"
  shows "foldE (\<lambda>c u. foldE (remap_reg f I rf t c) [0..<numArchRegs I c] u) cs s
    = bindE (foldE f (remap_taken I cs s) (rsBoard s)) (\<lambda>sb. Inr (remapped I t cs s sb))"
  using assms(2,3)
proof (induction cs arbitrary: s)
  case Nil
  have "remapped I t [] s (rsBoard s) = s" by (simp add: remapped_def)
  then show ?case by (simp add: remap_taken_def)
next
  case (Cons c cs)
  let ?N = "numArchRegs I c"
  have rc: "remap_ready I rf t s c" using Cons.prems by simp
  have later: "foldE (\<lambda>c u. foldE (remap_reg f I rf t c) [0..<numArchRegs I c] u) cs
       (remapped_class t c ?N s sb)
     = bindE (foldE f (remap_taken I cs s) sb) (\<lambda>sb. Inr (remapped I t (c # cs) s sb))" for sb
  proof -
    let ?u = "remapped_class t c ?N s sb"
    have "remap_ready I rf t ?u d" if "d \<in> set cs" for d
    proof -
      have "d \<noteq> c" "remap_ready I rf t s d" using that Cons.prems by auto
      then show ?thesis by (simp add: remap_ready_def remapped_class_def)
    qed
    then have "foldE (\<lambda>c u. foldE (remap_reg f I rf t c) [0..<numArchRegs I c] u) cs ?u
       = bindE (foldE f (remap_taken I cs ?u) sb) (\<lambda>sb. Inr (remapped I t cs ?u sb))"
      using Cons.IH[of ?u] Cons.prems(2) by (simp add: remapped_class_def)
    moreover have "remap_taken I cs ?u = remap_taken I cs s"
      using Cons.prems(2) unfolding remap_taken_def
      by (intro arg_cong[of _ _ concat] map_cong) (auto simp: remapped_class_def)
    moreover have "remapped I t cs ?u sb' = remapped I t (c # cs) s sb'" for sb'
      using rc Cons.prems(2)
      by (auto simp: remapped_def remapped_class_def remap_ready_def fun_eq_iff intro!: ren_state.equality)
    ultimately show ?thesis by simp
  qed
  have "remap_taken I (c # cs) s = take ?N (rsFree s c) @ remap_taken I cs s"
    by (simp add: remap_taken_def)
  then show ?case
    by (simp add: remap_class[OF assms(1) rc] bindE_assoc later foldE_append)
qed

lemma remap_thread_eq:
  assumes "isa_ok I" "\<And>c. c \<in> set rename_classes \<Longrightarrow> remap_ready I rf t s c"
  shows "remap_thread f I rf t s
    = bindE (foldE f (remap_taken I rename_classes s) (rsBoard s))
        (\<lambda>sb. Inr (remapped I t rename_classes s sb))"
  unfolding remap_thread_def by (rule remap_classes[OF assms distinct_rename_classes])

section \<open>The initial state satisfies the invariant\<close>

lemma foldE_noop: "foldE (\<lambda>r sb. Inr sb) rs sb = Inr sb"
  by (induction rs) simp_all

definition start_state :: "phys_reg_file \<Rightarrow> arch_maps \<Rightarrow> ren_state" where
  "start_state rf ms = \<lparr>rsMaps = (\<lambda>_. ms), rsCommit = (\<lambda>_. ms),
     rsFree = (\<lambda>c. if c \<in> set rename_classes then regIds rf c else []),
     rsPins = \<lparr>numPinned = (\<lambda>_. 0), pinnedToComplete = (\<lambda>_. 0)\<rparr>,
     rsHist = (\<lambda>_. []), rsBoard = new_Scoreboard (totalNumRegs rf)\<rparr>"

text \<open>After \<open>k\<close> threads: thread \<open>t\<close> has the slice \<open>t\<close> of each class's registers.\<close>

definition assigned :: "isa \<Rightarrow> phys_reg_file \<Rightarrow> arch_maps \<Rightarrow> nat \<Rightarrow> ren_state \<Rightarrow> bool" where
  "assigned I rf ms k s \<longleftrightarrow>
     rsHist s = (\<lambda>_. []) \<and> rsBoard s = new_Scoreboard (totalNumRegs rf)
     \<and> rsPins s = \<lparr>numPinned = (\<lambda>_. 0), pinnedToComplete = (\<lambda>_. 0)\<rparr>
     \<and> rsCommit s = rsMaps s
     \<and> (\<forall>t \<ge> k. rsMaps s t = ms)
     \<and> (\<forall>c \<in> set rename_classes. rsFree s c = drop (k * numArchRegs I c) (regIds rf c))
     \<and> (\<forall>c \<in> set rename_classes. \<forall>t < k. rsMaps s t c
               = map Some (take (numArchRegs I c) (drop (t * numArchRegs I c) (regIds rf c))))"

lemma ids_len: "ids_wf rf \<Longrightarrow> c \<in> set rename_classes \<Longrightarrow> length (regIds rf c) = numPhys rf c"
  by (simp add: ids_wf_def)

lemma assigned_ready:
  assumes "ren_env I rf" "urm_init I = Inr ms" "assigned I rf ms k s"
    "c \<in> set rename_classes" "Suc k * numArchRegs I c \<le> numPhys rf c"
  shows "remap_ready I rf k s c"
proof -
  note E = ren_envD[OF assms(1)]
  have ini: "length (ms c) = numArchRegs I c"
    using urm_init_entry[of I] assms(2,4) by auto
  have m: "rsMaps s k = ms" "rsCommit s k = ms" using assms(3) by (auto simp: assigned_def)
  have f: "rsFree s c = drop (k * numArchRegs I c) (regIds rf c)"
    using assms(3,4) by (simp add: assigned_def)
  have "\<forall>r \<in> set (rsFree s c). prClass r = c"
    using f ids_class[OF E(3) assms(4)] by (auto dest: in_set_dropD)
  then show ?thesis
    using ini m f assms(4,5) ids_len[OF E(3) assms(4)] by (simp add: remap_ready_def)
qed

lemma assigned_step:
  assumes "ren_env I rf" "urm_init I = Inr ms" "assigned I rf ms k s"
    "\<And>c. c \<in> set rename_classes \<Longrightarrow> Suc k * numArchRegs I c \<le> numPhys rf c"
  shows "\<exists>s'. remap_thread (\<lambda>r sb. Inr sb) I rf k s = Inr s' \<and> assigned I rf ms (Suc k) s'"
proof -
  note A = assms(3)[unfolded assigned_def]
  let ?s = "remapped I k rename_classes s (rsBoard s)"
  have "remap_thread (\<lambda>r sb. Inr sb) I rf k s = Inr ?s"
    using remap_thread_eq[OF ren_envD(1)[OF assms(1)] assigned_ready[OF assms(1-3) _ assms(4)], of "\<lambda>r sb. Inr sb"]
    by (simp add: foldE_noop)
  moreover have "assigned I rf ms (Suc k) ?s"
    unfolding assigned_def
  proof (intro conjI ballI allI impI)
    fix c assume c: "c \<in> set rename_classes"
    show "rsFree ?s c = drop (Suc k * numArchRegs I c) (regIds rf c)"
      using A c by (simp add: remapped_def add.commute)
    fix t assume "t < Suc k"
    then show "rsMaps ?s t c = map Some (take (numArchRegs I c) (drop (t * numArchRegs I c) (regIds rf c)))"
      using A c by (cases "t = k") (simp_all add: remapped_def)
  next
    have "rsCommit s = rsMaps s" using A by blast
    then show "rsCommit ?s = rsMaps ?s" by (simp add: remapped_def cong: if_cong)
  next
    fix t assume "Suc k \<le> t"
    then show "rsMaps ?s t = ms" using A by (simp add: remapped_def)
  qed (use A in \<open>simp_all add: remapped_def\<close>)
  ultimately show ?thesis by blast
qed

lemma initial_rename_assigned:
  assumes "ren_env I rf" "\<And>c. c \<in> set rename_classes \<Longrightarrow> n * numArchRegs I c \<le> numPhys rf c"
  shows "\<exists>ms s. urm_init I = Inr ms \<and> initial_rename I rf n = Inr s \<and> assigned I rf ms n s"
proof -
  obtain ms where ms: "urm_init I = Inr ms" using urm_init_entry by blast
  have "\<exists>s. foldE (remap_thread (\<lambda>r sb. Inr sb) I rf) [0..<k] (start_state rf ms) = Inr s
     \<and> assigned I rf ms k s" if "k \<le> n" for k
    using that
  proof (induction k)
    case 0
    then show ?case by (simp add: assigned_def start_state_def)
  next
    case (Suc k)
    then obtain s where s: "foldE (remap_thread (\<lambda>r sb. Inr sb) I rf) [0..<k] (start_state rf ms) = Inr s"
      "assigned I rf ms k s" by auto
    have "Suc k * numArchRegs I c \<le> numPhys rf c" if "c \<in> set rename_classes" for c
      using assms(2)[OF that] mult_le_mono1[OF Suc.prems, of "numArchRegs I c"] by linarith
    from assigned_step[OF assms(1) ms s(2) this] s(1) show ?case by (auto simp: foldE_append)
  qed
  then obtain s where "foldE (remap_thread (\<lambda>r sb. Inr sb) I rf) [0..<n] (start_state rf ms) = Inr s"
     "assigned I rf ms n s" by blast
  then show ?thesis
    using ms new_ufl_content[OF ren_envD(3)[OF assms(1)]]
    by (simp add: initial_rename_def start_state_def)
qed

lemma slices_mset:
  "n * N \<le> length xs \<Longrightarrow>
     mset (drop (n * N) xs) + (\<Sum>t<n. mset (take N (drop (t * N) xs))) = mset xs"
proof (induction n)
  case 0
  then show ?case by simp
next
  case (Suc n)
  have "mset (drop (n * N) xs) = mset (take N (drop (n * N) xs)) + mset (drop (Suc n * N) xs)"
    by (metis append_take_drop_id drop_drop mset_append mult_Suc)
  with Suc show ?case by (simp add: ac_simps)
qed

lemma assigned_inv:
  assumes "ren_env I rf" "assigned I rf ms n s"
    "\<And>c. c \<in> set rename_classes \<Longrightarrow> n * numArchRegs I c \<le> numPhys rf c"
  shows "ren_inv n I rf s"
proof -
  note A = assms(2)[unfolded assigned_def] and E = ren_envD[OF assms(1)]
  have len: "Suc t * numArchRegs I c \<le> length (regIds rf c)"
    if "t < n" "c \<in> set rename_classes" for t c
    using assms(3)[OF that(2)] ids_len[OF E(3) that(2)] mult_le_mono1[of "Suc t" n "numArchRegs I c"] that(1)
    by linarith
  have "maps_wf I rf (rsMaps s t)" if "t < n" for t
    unfolding maps_wf_def
  proof (intro ballI conjI)
    fix c assume c: "c \<in> set rename_classes"
    then have m: "rsMaps s t c = map Some (take (numArchRegs I c) (drop (t * numArchRegs I c) (regIds rf c)))"
      using A that by blast
    show "length (rsMaps s t c) = numArchRegs I c" using m len[OF that c] by simp
    fix e assume "e \<in> set (rsMaps s t c)"
    then show "\<exists>p. e = Some p \<and> p \<in> set (regIds rf c)"
      using m by (auto dest!: in_set_takeD in_set_dropD)
  qed
  moreover have "mset (rsFree s c) + (\<Sum>t<n. held (rsMaps s t) (rsHist s t) c) = mset (regIds rf c)"
    if c: "c \<in> set rename_classes" for c
  proof -
    have "held (rsMaps s t) (rsHist s t) c
        = mset (take (numArchRegs I c) (drop (t * numArchRegs I c) (regIds rf c)))" if "t < n" for t
      using A c that by (simp add: held_def mapped_def comp_def)
    then have "(\<Sum>t<n. held (rsMaps s t) (rsHist s t) c)
       = (\<Sum>t<n. mset (take (numArchRegs I c) (drop (t * numArchRegs I c) (regIds rf c))))"
      by simp
    then show ?thesis
      using slices_mset[of n "numArchRegs I c" "regIds rf c"] A c assms(3)[OF c] ids_len[OF E(3) c]
      by simp
  qed
  ultimately show ?thesis
    using A by (simp add: ren_inv_def thread_ok_def conserved_def board_ok_def)
qed

end
