(* ===== verification/RenameProps.thy ===== *)
theory RenameProps
  imports RenameInit
begin

text \<open>
  The properties of register renaming, and a small concrete machine (two integer registers
  for one architectural one) on which their hypotheses hold.
\<close>

section \<open>A small machine\<close>

definition small_isa :: isa where
  "small_isa = \<lparr>isRenameable = (\<lambda>c. c \<le> CCRegClass), isFixedMapping = (\<lambda>c. \<not> c \<le> CCRegClass),
     numArchRegs = small_arch,
     invalidPhysReg = \<lparr>prClass = InvalidRegClass, prIndex = 0, prFlat = 0\<rparr>\<rparr>"

lemma small_env: "ren_env small_isa small_rf"
  by (simp add: ren_env_def isa_ok_def small_isa_def small_rf_wf class_le_CC)

lemma small_fits: "c \<in> set rename_classes \<Longrightarrow> 1 * numArchRegs small_isa c \<le> numPhys small_rf c"
  by (cases c) (simp_all add: small_isa_def small_rf_def new_PhysRegFile_def Let_def small_arch_def
      in_rename_classes)

definition small_start :: ren_state where
  "small_start = projr (initial_rename small_isa small_rf 1)"

lemma small_start_ok: "initial_rename small_isa small_rf 1 = Inr small_start"
  using initial_rename_assigned[OF small_env small_fits] by (auto simp: small_start_def)

lemma small_start_assigned: "\<exists>ms. assigned small_isa small_rf ms 1 small_start"
  using initial_rename_assigned[OF small_env small_fits] small_start_ok by auto

lemma small_start_inv: "ren_inv 1 small_isa small_rf small_start"
  using assigned_inv[OF small_env _ small_fits] small_start_assigned by blast

definition int0 :: reg_id where
  "int0 = \<lparr>raClass = IntRegClass, raIndex = 0, raPinned = 0\<rparr>"

definition writer :: "nat \<Rightarrow> ren_inst" where
  "writer k = \<lparr>riSeq = k, riSrcs = [int0], riDests = [int0], riSrcPhys = [], riSrcReady = [],
     riFlatDests = [], riDestPhys = [], riPrevPhys = []\<rparr>"

lemma writer_ok: "inst_ok small_isa small_rf id (writer k)" "fresh_inst (writer k)"
  by (simp_all add: inst_ok_def writer_def dest_ok_def arch_ok_def int0_def in_rename_classes
      small_isa_def small_arch_def fresh_inst_def)

lemma small_free: "length (rsFree small_start IntRegClass) = 1" "rsHist small_start = (\<lambda>_. [])"
proof -
  obtain ms where "assigned small_isa small_rf ms 1 small_start" using small_start_assigned by blast
  then show "length (rsFree small_start IntRegClass) = 1" "rsHist small_start = (\<lambda>_. [])"
    by (simp_all add: assigned_def in_rename_classes small_rf_def new_PhysRegFile_def Let_def
        small_arch_def small_isa_def)
qed

lemma writer_demand:
  "c \<in> set rename_classes \<Longrightarrow> demand id (riDests (writer k)) c \<le> length (rsFree small_start c)"
  using small_free(1) by (simp add: demand_def writer_def int0_def)

lemma rename_dest_hist:
  assumes "rename_dest I rf flat t d (s, i) = Inr (s', i')"
  shows "\<exists>h. rsHist s' = (rsHist s)(t := h # rsHist s t)"
proof -
  obtain q w rm where u: "urm_rename I rf (thread_maps s t) ((flat d)\<lparr>raPinned := raPinned d\<rparr>)
      = Inr ((q, w), rm)"
    using assms by (cases "urm_rename I rf (thread_maps s t) ((flat d)\<lparr>raPinned := raPinned d\<rparr>)")
      (auto simp: rename_dest_def Let_def)
  show ?thesis
    using assms u by (cases q; cases w) (auto simp: rename_dest_def Let_def bindE_ok)
qed

section \<open>Properties\<close>

lemma held_distinct:
  assumes "conserved n rf s" "ids_wf rf" "t < n" "c \<in> set rename_classes"
  shows "distinct (map the (rsMaps s t c))"
proof -
  let ?H = "\<Sum>u \<in> {..<n} - {t}. held (rsMaps s u) (rsHist s u) c"
  have "mset (map the (rsMaps s t c)) + (mset (rsFree s c) + prevs (rsHist s t) c + ?H)
      = mset (rsFree s c) + (held (rsMaps s t) (rsHist s t) c + ?H)"
    by (simp add: held_def mapped_def ac_simps)
  also have "\<dots> = mset (regIds rf c)"
    using assms(1,4) sum_thread[OF assms(3), of "\<lambda>u. held (rsMaps s u) (rsHist s u) c"]
    unfolding conserved_def by metis
  finally have sub: "mset (map the (rsMaps s t c)) \<subseteq># mset (regIds rf c)"
    by (metis mset_subset_eq_add_left)
  have "count (mset (map the (rsMaps s t c))) x \<le> 1" for x
    using mset_subset_eq_count[OF sub, of x] ids_distinct[OF assms(2,4)]
    by (metis distinct_count_atmost_1 le_trans le_zero_eq nle_le zero_le_one)
  then show ?thesis
    by (metis One_nat_def count_greater_zero_iff distinct_count_atmost_1 le_antisym less_eq_Suc_le
        not_in_iff set_mset_mset)
qed

text \<open>
  C6: whatever the threads rename, squash and commit, in any interleaving, the physical
  registers of a class are always split between the free list, the rename maps and the
  previous mappings in the history buffers, each register counted once.  So none is lost, a
  free register is never mapped, no two architectural registers share one, and two threads
  never hold the same one.
\<close>

theorem rename_registers_partition:
  assumes "ren_env I rf" "\<And>c. c \<in> set rename_classes \<Longrightarrow> n * numArchRegs I c \<le> numPhys rf c"
    "initial_rename I rf n = Inr s0" "ren_steps n I rf flat s0 s" "c \<in> set rename_classes"
  shows "mset (rsFree s c) + (\<Sum>t<n. held (rsMaps s t) (rsHist s t) c) = mset (regIds rf c)
    \<and> (\<forall>t<n. set (rsFree s c) \<inter> set_mset (held (rsMaps s t) (rsHist s t) c) = {})
    \<and> (\<forall>t<n. distinct (map the (rsMaps s t c)))
    \<and> (\<forall>t<n. \<forall>u<n. t \<noteq> u \<longrightarrow>
         set_mset (held (rsMaps s t) (rsHist s t) c) \<inter> set_mset (held (rsMaps s u) (rsHist s u) c) = {})"
proof -
  note E = ren_envD[OF assms(1)]
  obtain ms where "assigned I rf ms n s0" using initial_rename_assigned[OF assms(1,2)] assms(3) by auto
  then have "ren_inv n I rf s0" using assigned_inv assms(1,2) by blast
  then have "ren_inv n I rf s" using ren_steps_inv assms(1,4) by blast
  then have co: "conserved n rf s" by (simp add: ren_inv_def)
  show ?thesis
  proof (intro conjI allI impI)
    show "mset (rsFree s c) + (\<Sum>t<n. held (rsMaps s t) (rsHist s t) c) = mset (regIds rf c)"
      using co assms(5) by (simp add: conserved_def)
    show "set (rsFree s c) \<inter> set_mset (held (rsMaps s t) (rsHist s t) c) = {}" if "t < n" for t
      using free_not_held[OF co E(3) that assms(5)] by auto
    show "distinct (map the (rsMaps s t c))" if "t < n" for t
      by (rule held_distinct[OF co E(3) that assms(5)])
    show "set_mset (held (rsMaps s t) (rsHist s t) c) \<inter> set_mset (held (rsMaps s u) (rsHist s u) c) = {}"
      if "t < n" "u < n" "t \<noteq> u" for t u
      using held_disjoint_threads[OF co E(3) that assms(5)] by auto
  qed
qed

lemma rename_registers_partition_witness:
  "\<exists>s. ren_steps 1 small_isa small_rf id small_start s \<and> rsHist s 0 \<noteq> []
     \<and> set (rsFree s IntRegClass) \<inter> set_mset (held (rsMaps s 0) (rsHist s 0) IntRegClass) = {}"
proof -
  obtain s i where r: "renameDestRegs small_isa small_rf id 0 (small_start, writer 1) = Inr (s, i)"
    using renameDestRegs_total[OF small_env zero_less_one small_start_inv, where ds = "riDests (writer 1)"
        and flat = id and i = "writer 1"] writer_ok(1) small_free(2) writer_demand
    by (force simp: renameDestRegs_def inst_ok_def writer_def int0_def)
  have st: "ren_step 1 small_isa small_rf id small_start s"
    by (rule step_rename[OF zero_less_one writer_ok _ r]) (simp add: small_free)
  then have ss: "ren_steps 1 small_isa small_rf id small_start s" by (blast intro: steps_refl steps_step)
  have "rename_dest small_isa small_rf id 0 int0 (small_start, writer 1) = Inr (s, i)"
    using r by (auto simp: renameDestRegs_def writer_def bindE_ok)
  from rename_dest_hist[OF this] have "rsHist s 0 \<noteq> []" by auto
  then show ?thesis
    using ss rename_registers_partition[OF small_env small_fits small_start_ok ss, of IntRegClass]
    by (auto simp: in_rename_classes)
qed

text \<open>A writer that asks for two pinned writes of its new register.\<close>

definition pinning :: ren_inst where
  "pinning = (writer 1)\<lparr>riDests := [int0\<lparr>raPinned := 2\<rparr>]\<rparr>"

lemma pinning_ok: "inst_ok small_isa small_rf id pinning" "fresh_inst pinning" "pins_allow id 0 small_start (riDests pinning)"
proof -
  obtain ms where "assigned small_isa small_rf ms 1 small_start" using small_start_assigned by blast
  then have "numPinned (rsPins small_start) = (\<lambda>_. 0)" by (simp add: assigned_def)
  then show "pins_allow id 0 small_start (riDests pinning)"
    by (simp add: pins_allow_def may_pin_def pinning_def split: option.splits)
qed (simp_all add: inst_ok_def fresh_inst_def pinning_def writer_def dest_ok_def arch_ok_def int0_def
    in_rename_classes small_isa_def small_arch_def)

text \<open>
  C9: \<open>canRename\<close> is a sufficient guard.  When it holds, renaming the destinations of the
  instruction cannot run out of registers or fail an assertion, keeps the invariant, and
  records exactly the instruction's renames at the front of its thread's history.  Destinations
  may ask for pinned writes; what \<open>canRename\<close> does not check, and \<open>SimpleRenameMap::rename\<close>
  asserts, is a hypothesis (\<open>pins_allow\<close>): such a destination finds its current register with
  no pinned write left, and no earlier destination of the instruction is the same register.
  Further hypotheses: the destinations are registers of the ISA and the instruction has not been
  renamed before and is not older than the thread's history.
\<close>

theorem canRename_implies_rename_succeeds:
  assumes "ren_env I rf" "ren_inv n I rf s" "t < n" "inst_ok I rf flat i" "fresh_inst i"
    "pins_allow flat t s (riDests i)"
    "\<And>g. g \<in> set (rsHist s t) \<Longrightarrow> hbSeq g \<le> riSeq i"
    "urm_canRename (thread_maps s t) (demand flat (riDests i))"
  shows "\<exists>s' i'. renameDestRegs I rf flat t (s, i) = Inr (s', i') \<and> ren_inv n I rf s'
     \<and> rsHist s' = (rsHist s)(t := inst_entries i' @ rsHist s t)"
proof -
  have "demand flat (riDests i) c \<le> length (rsFree s c)" if "c \<in> set rename_classes" for c
    using assms(8) that by (auto simp: urm_canRename_def list_all_iff thread_maps_def fl_numFreeRegs_def)
  then obtain r where r: "foldE (rename_dest I rf flat t) (riDests i) (s, i) = Inr r"
    using renameDestRegs_pins[where ds = "riDests i" and flat = flat, OF assms(1,3,2) _ assms(6) _ assms(7)]
      assms(4) by (auto simp: inst_ok_def)
  obtain s' i' where si: "r = (s', i')" by (cases r)
  have "renameDestRegs I rf flat t (s, i) = Inr (s', i')" using r si by (simp add: renameDestRegs_def)
  with renameDestRegs_done[OF assms(1-5) assms(7) this] show ?thesis
    by (auto simp: dests_done_def)
qed

lemma canRename_implies_rename_succeeds_witness:
  "\<exists>s' i'. renameDestRegs small_isa small_rf id 0 (small_start, pinning) = Inr (s', i')
     \<and> ren_inv 1 small_isa small_rf s' \<and> rsHist s' = (rsHist small_start)(0 := inst_entries i' @ rsHist small_start 0)"
proof (rule canRename_implies_rename_succeeds[OF small_env small_start_inv zero_less_one pinning_ok])
  show "urm_canRename (thread_maps small_start 0) (demand id (riDests pinning))"
    using small_free(1)
    by (auto simp: urm_canRename_def list_all_iff thread_maps_def fl_numFreeRegs_def not_less demand_def
        pinning_def int0_def)
qed (simp_all add: small_free)

text \<open>Renaming several instructions of a thread one after the other.\<close>

definition rename_insts ::
  "isa \<Rightarrow> phys_reg_file \<Rightarrow> (reg_id \<Rightarrow> reg_id) \<Rightarrow> nat \<Rightarrow> ren_inst list \<Rightarrow> ren_state \<Rightarrow> ren_state res"
where
  "rename_insts I rf flat t is s =
     foldE (\<lambda>i u. bindE (renameDestRegs I rf flat t (u, i)) (\<lambda>(u', _). Inr u')) is s"

definition undoable :: "nat \<Rightarrow> isa \<Rightarrow> phys_reg_file \<Rightarrow> nat \<Rightarrow> nat \<Rightarrow> ren_state \<Rightarrow> ren_state \<Rightarrow> bool" where
  "undoable n I rf q t s0 s \<longleftrightarrow> ren_inv n I rf s \<and> (\<exists>ys.
     rsHist s = (rsHist s0)(t := ys @ rsHist s0 t) \<and> (\<forall>h \<in> set ys. q < hbSeq h)
     \<and> undo_all ys (rsMaps s t) = rsMaps s0 t
     \<and> (\<forall>u. u \<noteq> t \<longrightarrow> rsMaps s u = rsMaps s0 u)
     \<and> (\<forall>c \<in> set rename_classes. mset (rsFree s0 c) = mset (rsFree s c) + news ys c))"

lemma rename_insts_undoable:
  assumes "ren_env I rf" "t < n" "undoable n I rf q t s0 s"
    "\<And>i. i \<in> set is \<Longrightarrow> inst_ok I rf flat i \<and> fresh_inst i \<and> q < riSeq i"
    "sorted_wrt (\<le>) (map riSeq is)"
    "\<And>g i. g \<in> set (rsHist s t) \<Longrightarrow> i \<in> set is \<Longrightarrow> hbSeq g \<le> riSeq i"
    "rename_insts I rf flat t is s = Inr s'"
  shows "undoable n I rf q t s0 s'"
  using assms(3-7)
proof (induction "is" arbitrary: s)
  case Nil
  then show ?case by (simp add: rename_insts_def)
next
  case (Cons i "is")
  obtain u j where u: "renameDestRegs I rf flat t (s, i) = Inr (u, j)"
    "rename_insts I rf flat t is u = Inr s'"
    using Cons.prems(5) by (auto simp: rename_insts_def bindE_ok)
  have i: "inst_ok I rf flat i" "fresh_inst i" "q < riSeq i" using Cons.prems(2) by auto
  have inv: "ren_inv n I rf s" using Cons.prems(1) by (simp add: undoable_def)
  obtain ys where ys: "rsHist s = (rsHist s0)(t := ys @ rsHist s0 t)" "\<forall>h \<in> set ys. q < hbSeq h"
     "undo_all ys (rsMaps s t) = rsMaps s0 t" "\<forall>u. u \<noteq> t \<longrightarrow> rsMaps s u = rsMaps s0 u"
     "\<forall>c \<in> set rename_classes. mset (rsFree s0 c) = mset (rsFree s c) + news ys c"
    using Cons.prems(1) by (auto simp: undoable_def)
  have D: "dests_done n I rf t s i (u, j)"
    using renameDestRegs_done[OF assms(1) inv assms(2) i(1,2) _ u(1)] Cons.prems(4) by simp
  have sj: "riSeq j = riSeq i" using D by (simp add: dests_done_def)
  have "undoable n I rf q t s0 u"
    unfolding undoable_def
  proof (intro conjI exI[of _ "inst_entries j @ ys"])
    show "ren_inv n I rf u" using D by (simp add: dests_done_def)
    show "rsHist u = (rsHist s0)(t := (inst_entries j @ ys) @ rsHist s0 t)"
      using D ys(1) by (simp add: dests_done_def)
    show "\<forall>h \<in> set (inst_entries j @ ys). q < hbSeq h"
      using ys(2) i(3) sj inst_entries_seq[of _ j] by auto
    show "undo_all (inst_entries j @ ys) (rsMaps u t) = rsMaps s0 t"
      using D ys(3) by (simp add: dests_done_def undo_all_append)
    show "\<forall>v. v \<noteq> t \<longrightarrow> rsMaps u v = rsMaps s0 v" using D ys(4) by (simp add: dests_done_def)
    show "\<forall>c \<in> set rename_classes. mset (rsFree s0 c) = mset (rsFree u c) + news (inst_entries j @ ys) c"
      using D ys(5) by (auto simp: dests_done_def ac_simps)
  qed
  moreover have "hbSeq g \<le> riSeq k" if g: "g \<in> set (rsHist u t)" and k: "k \<in> set is" for g k
  proof -
    have "g \<in> set (inst_entries j) \<or> g \<in> set (rsHist s t)" using g D by (auto simp: dests_done_def)
    then show ?thesis
      using inst_entries_seq[of g j] sj Cons.prems(3,4) k by auto
  qed
  ultimately show ?case using Cons.IH[of u] Cons.prems(2,3) u(2) by auto
qed

text \<open>
  C8: a squash takes back exactly what was renamed after it.  Rename any number of
  instructions younger than \<open>q\<close> and squash to \<open>q\<close>: the thread's rename map, its history and
  the set of free registers are what they were.
\<close>

theorem squash_undoes_renames:
  assumes "ren_env I rf" "ren_inv n I rf s" "t < n"
    "\<And>i. i \<in> set is \<Longrightarrow> inst_ok I rf flat i \<and> fresh_inst i \<and> q < riSeq i"
    "sorted_wrt (\<le>) (map riSeq is)"
    "\<And>g. g \<in> set (rsHist s t) \<Longrightarrow> hbSeq g \<le> q"
    "rename_insts I rf flat t is s = Inr s1"
  shows "\<exists>s2. doSquash I rf q t s1 = Inr s2 \<and> rsMaps s2 = rsMaps s \<and> rsHist s2 = rsHist s
     \<and> (\<forall>c \<in> set rename_classes. mset (rsFree s2 c) = mset (rsFree s c))"
proof -
  have le: "hbSeq g \<le> riSeq i" if "g \<in> set (rsHist s t)" "i \<in> set is" for g i
    using assms(4)[OF that(2)] assms(6)[OF that(1)] by linarith
  have "undoable n I rf q t s s"
    using assms(2) by (auto simp: undoable_def intro: exI[of _ "[]"])
  then have U: "undoable n I rf q t s s1"
    by (rule rename_insts_undoable[OF assms(1,3) _ assms(4,5) le assms(7)])
  then have inv: "ren_inv n I rf s1" by (simp add: undoable_def)
  obtain ys where ys: "rsHist s1 = (rsHist s)(t := ys @ rsHist s t)" "\<forall>h \<in> set ys. q < hbSeq h"
     "undo_all ys (rsMaps s1 t) = rsMaps s t" "\<forall>u. u \<noteq> t \<longrightarrow> rsMaps s1 u = rsMaps s u"
     "\<forall>c \<in> set rename_classes. mset (rsFree s c) = mset (rsFree s1 c) + news ys c"
    using U by (auto simp: undoable_def)
  have f: "filter (\<lambda>h. q < hbSeq h) (rsHist s1 t) = ys" "filter (\<lambda>h. hbSeq h \<le> q) (rsHist s1 t) = rsHist s t"
    using ys(1,2) assms(6) by (auto simp: filter_empty_conv filter_id_conv leD)
  obtain fl where fl: "doSquash I rf q t s1 = Inr (s1\<lparr>
      rsMaps := (rsMaps s1)(t := undo_all ys (rsMaps s1 t)),
      rsFree := fl, rsHist := (rsHist s1)(t := rsHist s t)\<rparr>)"
    "\<forall>c. mset (fl c) = mset (rsFree s1 c) + news ys c"
    using doSquash_ok[OF assms(1) inv assms(3), of q] unfolding f by blast
  have "(rsMaps s1)(t := rsMaps s t) = rsMaps s" using ys(4) by (auto simp: fun_eq_iff)
  with fl ys(1,3,5) show ?thesis by simp
qed

lemma squash_undoes_renames_witness:
  "\<exists>s1 s2. rename_insts small_isa small_rf id 0 [writer 1] small_start = Inr s1
     \<and> doSquash small_isa small_rf 0 0 s1 = Inr s2 \<and> rsMaps s2 = rsMaps small_start"
proof -
  obtain r where "foldE (rename_dest small_isa small_rf id 0) (riDests (writer 1)) (small_start, writer 1) = Inr r"
    using renameDestRegs_total[OF small_env zero_less_one small_start_inv, where ds = "riDests (writer 1)"
        and flat = id and i = "writer 1"] writer_ok(1) small_free(2) writer_demand
    by (force simp: inst_ok_def writer_def int0_def)
  then have r: "rename_insts small_isa small_rf id 0 [writer 1] small_start = Inr (fst r)"
    by (cases r) (simp add: rename_insts_def renameDestRegs_def)
  have "\<exists>s2. doSquash small_isa small_rf 0 0 (fst r) = Inr s2 \<and> rsMaps s2 = rsMaps small_start
     \<and> rsHist s2 = rsHist small_start
     \<and> (\<forall>c \<in> set rename_classes. mset (rsFree s2 c) = mset (rsFree small_start c))"
    by (rule squash_undoes_renames[OF small_env small_start_inv zero_less_one _ _ _ r])
      (use writer_ok in \<open>auto simp: small_free writer_def\<close>)
  with r show ?thesis by blast
qed

text \<open>
  C7: the rename stage refines an abstract machine whose state is, per thread, the map of the
  committed instructions.  Renaming and squashing leave that map alone; a commit up to \<open>q\<close>
  applies to it the committed renames in program order, and nothing else.
\<close>

theorem renaming_refines_committed_map:
  assumes "ren_env I rf" "ren_inv n I rf s" "t < n"
    "inst_ok I rf flat i" "fresh_inst i" "\<And>g. g \<in> set (rsHist s t) \<Longrightarrow> hbSeq g \<le> riSeq i"
  shows "(\<forall>s' i'. renameDestRegs I rf flat t (s, i) = Inr (s', i') \<longrightarrow> committed_map s' = committed_map s)
    \<and> (\<exists>s'. doSquash I rf q t s = Inr s' \<and> committed_map s' = committed_map s)
    \<and> (\<exists>s'. removeFromHistory q t s = Inr s' \<and> committed_map s' = (committed_map s)(t :=
          redo_all (filter (\<lambda>h. hbSeq h \<le> q) (rsHist s t)) (committed_map s t)))"
proof (intro conjI allI impI)
  let ?y = "filter (\<lambda>h. hbSeq h > q) (rsHist s t)" and ?o = "filter (\<lambda>h. hbSeq h \<le> q) (rsHist s t)"
  note inv = assms(2)
  have sp: "rsHist s t = ?y @ ?o" by (rule hist_split) (rule ren_invD(3)[OF inv assms(3)])
  have ua: "undo_all (rsHist s t) (rsMaps s t) = undo_all ?o (undo_all ?y (rsMaps s t))"
    using sp undo_all_append[of ?y ?o] by simp
  have ho: "hist_ok I rf ?o (undo_all ?y (rsMaps s t))"
    using ren_invD(2)[OF inv assms(3)] sp hist_ok_append[of I rf ?y ?o "rsMaps s t"] by simp
  show "committed_map s' = committed_map s"
    if "renameDestRegs I rf flat t (s, i) = Inr (s', i')" for s' i'
  proof
    fix u
    show "committed_map s' u = committed_map s u"
      using renameDestRegs_done[OF assms(1-6) that]
      by (cases "u = t") (auto simp: dests_done_def committed_map_def undo_all_append)
  qed
  show "\<exists>s'. doSquash I rf q t s = Inr s' \<and> committed_map s' = committed_map s"
    using doSquash_ok[OF assms(1) inv assms(3), of q] ua
    by (auto simp: committed_map_def fun_eq_iff)
  show "\<exists>s'. removeFromHistory q t s = Inr s' \<and> committed_map s' = (committed_map s)(t :=
          redo_all ?o (committed_map s t))"
  proof -
    obtain fl where "removeFromHistory q t s = Inr (s\<lparr>rsFree := fl, rsHist := (rsHist s)(t := ?y)\<rparr>)"
      using removeFromHistory_ok[OF assms(1) inv assms(3), of q] by blast
    moreover have "undo_all ?y (rsMaps s t) = redo_all ?o (committed_map s t)"
      using redo_undo_all[OF ho] ua by (simp only: committed_map_def)
    ultimately show ?thesis
      by (intro exI conjI) (assumption, simp add: committed_map_def fun_eq_iff)
  qed
qed

lemma renaming_refines_committed_map_witness:
  "\<exists>s'. removeFromHistory 5 0 small_start = Inr s' \<and> committed_map s' = (committed_map small_start)(0 :=
     redo_all (filter (\<lambda>h. hbSeq h \<le> 5) (rsHist small_start 0)) (committed_map small_start 0))"
  using renaming_refines_committed_map[OF small_env small_start_inv zero_less_one writer_ok(1)[of 1]
      writer_ok(2)[of 1], of 5] small_free(2) by simp

text \<open>Where a source operand comes from: the youngest rename in flight, or the committed map.\<close>

definition same_arch :: "reg_id \<Rightarrow> reg_id \<Rightarrow> bool" where
  "same_arch a b \<longleftrightarrow> raClass a = raClass b \<and> raIndex a = raIndex b"

definition youngest_writer :: "rename_history list \<Rightarrow> reg_id \<Rightarrow> rename_history option" where
  "youngest_writer hs a = find (\<lambda>h. real_rename h \<and> same_arch (hbArch h) a) hs"

definition source_of :: "ren_state \<Rightarrow> nat \<Rightarrow> reg_id \<Rightarrow> phys_reg option" where
  "source_of s t a = (case youngest_writer (rsHist s t) a of
     Some h \<Rightarrow> Some (hbNew h)
   | None \<Rightarrow> committed_map s t (raClass a) ! raIndex a)"

lemma undo1_other:
  "\<not> (real_rename h \<and> same_arch (hbArch h) a) \<Longrightarrow>
     undo1 h ms (raClass a) ! raIndex a = ms (raClass a) ! raIndex a"
  by (auto simp: undo1_def set_entry_def same_arch_def)

lemma lookup_youngest:
  "hist_ok I rf hs ms \<Longrightarrow> ms (raClass a) ! raIndex a = (case youngest_writer hs a of
     Some h \<Rightarrow> Some (hbNew h) | None \<Rightarrow> undo_all hs ms (raClass a) ! raIndex a)"
proof (induction hs arbitrary: ms)
  case Nil
  then show ?case by (simp add: youngest_writer_def)
next
  case (Cons h hs)
  show ?case
  proof (cases "real_rename h \<and> same_arch (hbArch h) a")
    case True
    then show ?thesis using Cons.prems entry_wf_real[of I rf h ms] by (auto simp: youngest_writer_def same_arch_def)
  next
    case False
    then show ?thesis
      using Cons.IH[of "undo1 h ms"] Cons.prems undo1_other[OF False, of ms]
      unfolding youngest_writer_def find.simps if_not_P[OF False] undo_all.simps by simp
  qed
qed

lemma rename_srcs_fold:
  assumes "\<And>a. a \<in> set as \<Longrightarrow> urm_lookup I rf (rsMaps s t) (flat a) = Inr (Some (src a))
      \<and> sb_getReg (isFixedMapping I) (rsBoard s) (src a) = Inr (rdy a)"
  shows "foldE (rename_src I rf flat t s) as i = Inr (i\<lparr>
     riSrcPhys := riSrcPhys i @ map src as, riSrcReady := riSrcReady i @ map rdy as\<rparr>)"
  using assms by (induction as arbitrary: i) (simp_all add: rename_src_def)

text \<open>
  C10: renaming preserves data flow.  Every source operand is given the physical register of
  the youngest older instruction in flight that writes the same architectural register, and
  the committed one when there is none; it is marked ready exactly when the scoreboard says so.
\<close>

theorem sources_read_youngest_writer:
  assumes "ren_env I rf" "ren_inv n I rf s" "t < n" "\<And>a. a \<in> set (riSrcs i) \<Longrightarrow> arch_ok I (flat a)"
  shows "renameSrcRegs I rf flat t s i = Inr (i\<lparr>
      riSrcPhys := riSrcPhys i @ map (\<lambda>a. the (source_of s t (flat a))) (riSrcs i),
      riSrcReady := riSrcReady i
        @ map (\<lambda>a. regScoreBoard (rsBoard s) ! prFlat (the (source_of s t (flat a)))) (riSrcs i)\<rparr>)"
  unfolding renameSrcRegs_def
proof (rule rename_srcs_fold)
  note E = ren_envD[OF assms(1)] and V = ren_invD[OF assms(2,3)]
  fix a assume "a \<in> set (riSrcs i)"
  then have ao: "arch_ok I (flat a)" using assms(4) by blast
  obtain p where p: "rsMaps s t (raClass (flat a)) ! raIndex (flat a) = Some p"
      "p \<in> set (regIds rf (raClass (flat a)))"
    by (rule maps_wf_nth[OF V(1) ao])
  have so: "source_of s t (flat a) = Some p"
    using lookup_youngest[OF V(2), of "flat a"] p(1)
    unfolding source_of_def committed_map_def by simp
  have c: "raClass (flat a) \<in> set rename_classes" using ao by (simp add: arch_ok_def)
  have pc: "prClass p = raClass (flat a)" by (rule ids_class[OF E(3) c p(2)])
  have "sb_valid (isFixedMapping I) rf (rsBoard s) p"
    using V(5) E p(2) c pc by (simp add: sb_valid_def board_ok_def poison_reg_def owned_def isa_ok_def)
  then show "urm_lookup I rf (rsMaps s t) (flat a) = Inr (Some (the (source_of s t (flat a))))
      \<and> sb_getReg (isFixedMapping I) (rsBoard s) (the (source_of s t (flat a)))
        = Inr (regScoreBoard (rsBoard s) ! prFlat (the (source_of s t (flat a))))"
    using urm_lookup_ok[OF V(1) ao] p(1) so by (simp add: sb_getReg_ok)
qed

lemma sources_read_youngest_writer_witness:
  "\<exists>p. renameSrcRegs small_isa small_rf id 0 small_start (writer 1) = Inr ((writer 1)\<lparr>
     riSrcPhys := [p], riSrcReady := [regScoreBoard (rsBoard small_start) ! prFlat p]\<rparr>)
    \<and> p = the (source_of small_start 0 int0)"
proof -
  have "arch_ok small_isa (id a)" if "a \<in> set (riSrcs (writer 1))" for a
    using that by (simp add: writer_def int0_def arch_ok_def in_rename_classes small_isa_def small_arch_def)
  from sources_read_youngest_writer[where i = "writer 1" and flat = id, OF small_env small_start_inv zero_less_one this]
  show ?thesis by (simp add: writer_def)
qed

end
