(* ===== verification/CommitMap.thy ===== *)
theory CommitMap
  imports RenameProps
begin

text \<open>
  The commit stage's rename map and the rename stage's, together.  A reorder buffer entry is
  the renamed instruction; \<open>commit_inst\<close> is the loop at the end of \<open>Commit::commitHead\<close> that
  copies the instruction's renames into the commit map.  The theorem says that the two maps
  agree up to the instructions in flight, so that a squash after the last committed
  instruction leaves the rename map equal to the commit map.
\<close>

text \<open>\<open>for (i < numDestRegs) renameMap[tid]->setEntry(flattenedDestIdx(i), renamedDestIdx(i))\<close>.\<close>

definition commit_inst ::
  "isa \<Rightarrow> phys_reg_file \<Rightarrow> nat \<Rightarrow> ren_inst \<Rightarrow> ren_state \<Rightarrow> ren_state res"
where
  "commit_inst I rf t i s =
     bindE (foldE (\<lambda>(a, n) ms. urm_setEntry I rf ms a (Some n))
              (zip (riFlatDests i) (riDestPhys i)) (rsCommit s t)) (\<lambda>ms.
       Inr (s\<lparr>rsCommit := (rsCommit s)(t := ms)\<rparr>))"

record in_flight =
  ifRen :: ren_state
  ifRob :: "ren_inst list"
  ifDone :: nat

text \<open>One thread's operations; the oldest instruction is at the head of the reorder buffer.\<close>

inductive flight_step ::
  "nat \<Rightarrow> isa \<Rightarrow> phys_reg_file \<Rightarrow> (reg_id \<Rightarrow> reg_id) \<Rightarrow> nat \<Rightarrow> in_flight \<Rightarrow> in_flight \<Rightarrow> bool"
  for n I rf flat t
where
  flight_rename: "inst_ok I rf flat i \<Longrightarrow> fresh_inst i \<Longrightarrow> ifDone f < riSeq i
     \<Longrightarrow> (\<forall>j \<in> set (ifRob f). riSeq j < riSeq i)
     \<Longrightarrow> renameDestRegs I rf flat t (ifRen f, i) = Inr (s', i')
     \<Longrightarrow> flight_step n I rf flat t f (f\<lparr>ifRen := s', ifRob := ifRob f @ [i']\<rparr>)"
| flight_squash: "ifDone f \<le> q \<Longrightarrow> doSquash I rf q t (ifRen f) = Inr s'
     \<Longrightarrow> flight_step n I rf flat t f
          (f\<lparr>ifRen := s', ifRob := filter (\<lambda>i. riSeq i \<le> q) (ifRob f)\<rparr>)"
| flight_commit: "ifRob f = i # is \<Longrightarrow> commit_inst I rf t i (ifRen f) = Inr s'
     \<Longrightarrow> flight_step n I rf flat t f (f\<lparr>ifRen := s', ifRob := is, ifDone := riSeq i\<rparr>)"
| flight_release: "q \<le> ifDone f \<Longrightarrow> removeFromHistory q t (ifRen f) = Inr s'
     \<Longrightarrow> flight_step n I rf flat t f (f\<lparr>ifRen := s'\<rparr>)"

definition rob_entries :: "ren_inst list \<Rightarrow> rename_history list" where
  "rob_entries rob = concat (map inst_entries (rev rob))"

text \<open>
  The history is the entries of the instructions in flight on top of entries that are
  committed and not released yet, and undoing the former gives the commit map.
\<close>

definition flight_inv :: "nat \<Rightarrow> isa \<Rightarrow> phys_reg_file \<Rightarrow> nat \<Rightarrow> in_flight \<Rightarrow> bool" where
  "flight_inv n I rf t f \<longleftrightarrow>
     ren_inv n I rf (ifRen f)
     \<and> (\<forall>i \<in> set (ifRob f). ifDone f < riSeq i
          \<and> length (riDestPhys i) = length (riFlatDests i)
          \<and> length (riPrevPhys i) = length (riFlatDests i))
     \<and> sorted_wrt (<) (map riSeq (ifRob f))
     \<and> (\<exists>old. rsHist (ifRen f) t = rob_entries (ifRob f) @ old \<and> (\<forall>h \<in> set old. hbSeq h \<le> ifDone f))
     \<and> rsCommit (ifRen f) t = undo_all (rob_entries (ifRob f)) (rsMaps (ifRen f) t)"

lemma rob_entries_snoc: "rob_entries (rob @ [i]) = inst_entries i @ rob_entries rob"
  by (simp add: rob_entries_def)

lemma rob_entries_Cons: "rob_entries (i # rob) = rob_entries rob @ inst_entries i"
  by (simp add: rob_entries_def)

lemma rob_entries_seq: "h \<in> set (rob_entries rob) \<Longrightarrow> \<exists>i \<in> set rob. hbSeq h = riSeq i"
  using inst_entries_seq by (fastforce simp: rob_entries_def)

lemma filter_rob_entries:
  "filter (\<lambda>h. P (hbSeq h)) (rob_entries rob) = rob_entries (filter (\<lambda>i. P (riSeq i)) rob)"
proof (induction rob)
  case Nil
  then show ?case by (simp add: rob_entries_def)
next
  case (Cons i rob)
  have "filter (\<lambda>h. P (hbSeq h)) (inst_entries i) = (if P (riSeq i) then inst_entries i else [])"
    using inst_entries_seq[of _ i] by (auto simp: filter_empty_conv filter_id_conv)
  with Cons show ?case by (simp add: rob_entries_Cons)
qed

text \<open>Committing an instruction replays its entries, the first destination first.\<close>

lemma setEntry_replays:
  assumes "isa_ok I" "ids_wf rf" "maps_wf I rf ms" "entry_wf I rf h ms"
  shows "urm_setEntry I rf (undo1 h ms) (hbArch h) (Some (hbNew h)) = Inr ms"
proof (cases "raClass (hbArch h) \<in> set rename_classes")
  case True
  then have e: "arch_ok I (hbArch h)" "hbNew h \<in> set (regIds rf (raClass (hbArch h)))"
    "ms (raClass (hbArch h)) ! raIndex (hbArch h) = Some (hbNew h)"
    using assms(4) by (auto simp: entry_wf_def)
  have cl: "prClass (hbNew h) = raClass (hbArch h)" using ids_class assms(2) True e(2) by blast
  have "maps_wf I rf (undo1 h ms)" by (rule undo1_wf[OF assms(3,4)])
  then have "urm_setEntry I rf (undo1 h ms) (hbArch h) (Some (hbNew h))
      = Inr (set_entry (undo1 h ms) (hbArch h) (hbNew h))"
    using urm_setEntry_ok[OF assms(1) _ e(1) cl] by (simp add: set_entry_def)
  also have "set_entry (undo1 h ms) (hbArch h) (hbNew h) = ms"
    using e(3) by (auto simp: undo1_def set_entry_twice set_entry_same)
  finally show ?thesis .
next
  case False
  then have e: "\<not> real_rename h" "urm_lookup I rf ms (hbArch h) = Inr (Some (hbNew h))"
     "prClass (hbNew h) = raClass (hbArch h)"
    using assms(4) by (auto simp: entry_wf_def)
  then show ?thesis
    using False assms(1) by (simp add: undo1_def urm_setEntry_def isa_ok_def)
qed

lemma commit_entries:
  assumes "isa_ok I" "ids_wf rf" "maps_wf I rf ms" "hist_ok I rf hs ms"
  shows "foldE (\<lambda>(a, n) ms. urm_setEntry I rf ms a (Some n))
      (map (\<lambda>h. (hbArch h, hbNew h)) (rev hs)) (undo_all hs ms) = Inr ms"
  using assms(3,4)
proof (induction hs arbitrary: ms)
  case Nil
  then show ?case by simp
next
  case (Cons h hs)
  have "maps_wf I rf (undo1 h ms)" using Cons.prems undo1_wf by auto
  from Cons.IH[OF this] Cons.prems setEntry_replays[OF assms(1,2) Cons.prems(1), of h]
  show ?case by (simp add: foldE_append)
qed

lemma zip_of_entries:
  assumes "length (riDestPhys i) = length (riFlatDests i)" "length (riPrevPhys i) = length (riFlatDests i)"
  shows "zip (riFlatDests i) (riDestPhys i) = map (\<lambda>h. (hbArch h, hbNew h)) (rev (inst_entries i))"
  using assms by (simp add: inst_entries_def list_eq_iff_nth_eq)

lemma commit_inst_ok:
  assumes env: "ren_env I rf" and t: "t < n" and inv: "flight_inv n I rf t f" and r: "ifRob f = i # is"
  shows "commit_inst I rf t i (ifRen f) = Inr ((ifRen f)\<lparr>rsCommit := (rsCommit (ifRen f))(t :=
      undo_all (rob_entries is) (rsMaps (ifRen f) t))\<rparr>)"
proof -
  let ?s = "ifRen f"
  note E = ren_envD[OF env]
  obtain old where F: "ren_inv n I rf ?s" "rsHist ?s t = rob_entries is @ inst_entries i @ old"
    "rsCommit ?s t = undo_all (inst_entries i) (undo_all (rob_entries is) (rsMaps ?s t))"
    "length (riDestPhys i) = length (riFlatDests i)" "length (riPrevPhys i) = length (riFlatDests i)"
    using inv r by (auto simp: flight_inv_def rob_entries_Cons undo_all_append)
  have ho: "hist_ok I rf (rob_entries is) (rsMaps ?s t)"
    "hist_ok I rf (inst_entries i) (undo_all (rob_entries is) (rsMaps ?s t))"
    using ren_invD(2)[OF F(1) t] F(2) by (simp_all add: hist_ok_append)
  have "maps_wf I rf (undo_all (rob_entries is) (rsMaps ?s t))"
    by (rule undo_all_wf[OF ren_invD(1)[OF F(1) t] ho(1)])
  from commit_entries[OF E(1,3) this ho(2)] F(3) zip_of_entries[OF F(4,5)] show ?thesis
    by (simp add: commit_inst_def)
qed

section \<open>The invariant\<close>

lemma rob_split:
  assumes "sorted_wrt (<) (map riSeq rob)"
  shows "rob = filter (\<lambda>i. riSeq i \<le> q) rob @ filter (\<lambda>i. q < riSeq i) rob"
  using assms
proof (induction rob)
  case (Cons i rob)
  show ?case
  proof (cases "riSeq i \<le> q")
    case True
    with Cons show ?thesis by simp
  next
    case False
    with Cons.prems have "filter (\<lambda>i. riSeq i \<le> q) rob = []" "filter (\<lambda>i. q < riSeq i) rob = rob"
      by (force simp: filter_empty_conv filter_id_conv)+
    with False show ?thesis by simp
  qed
qed simp

lemma flight_squash_facts:
  assumes env: "ren_env I rf" and t: "t < n" and inv: "flight_inv n I rf t f" and q: "ifDone f \<le> q"
  shows "\<exists>s'. doSquash I rf q t (ifRen f) = Inr s' \<and> ren_inv n I rf s'
     \<and> rsMaps s' t = undo_all (rob_entries (filter (\<lambda>i. q < riSeq i) (ifRob f))) (rsMaps (ifRen f) t)
     \<and> rsCommit s' = rsCommit (ifRen f)
     \<and> rsHist s' t = filter (\<lambda>h. hbSeq h \<le> q) (rsHist (ifRen f) t)"
proof -
  have ri: "ren_inv n I rf (ifRen f)" using inv by (simp add: flight_inv_def)
  obtain old where old: "rsHist (ifRen f) t = rob_entries (ifRob f) @ old" "\<forall>h \<in> set old. hbSeq h \<le> ifDone f"
    using inv by (auto simp: flight_inv_def)
  have "filter (\<lambda>h. q < hbSeq h) old = []" using old(2) q by (auto simp: filter_empty_conv)
  then have f: "filter (\<lambda>h. q < hbSeq h) (rsHist (ifRen f) t) = rob_entries (filter (\<lambda>i. q < riSeq i) (ifRob f))"
    using old(1) filter_rob_entries[of "\<lambda>k. q < k" "ifRob f"] by simp
  obtain s' where s': "doSquash I rf q t (ifRen f) = Inr s'"
    "rsMaps s' t = undo_all (filter (\<lambda>h. q < hbSeq h) (rsHist (ifRen f) t)) (rsMaps (ifRen f) t)"
    "rsCommit s' = rsCommit (ifRen f)" "rsHist s' t = filter (\<lambda>h. hbSeq h \<le> q) (rsHist (ifRen f) t)"
    using doSquash_ok[OF env ri t, of q] by auto
  then show ?thesis using doSquash_inv[OF env ri t s'(1)] f by auto
qed

lemma flight_step_inv:
  assumes "flight_step n I rf flat t f f'" "ren_env I rf" "t < n" "flight_inv n I rf t f"
  shows "flight_inv n I rf t f'"
  using assms(1)
proof (cases rule: flight_step.cases)
  case (flight_rename i s' i')
  let ?s = "ifRen f"
  obtain old where F: "ren_inv n I rf ?s" "rsHist ?s t = rob_entries (ifRob f) @ old"
    "\<forall>h \<in> set old. hbSeq h \<le> ifDone f" "rsCommit ?s t = undo_all (rob_entries (ifRob f)) (rsMaps ?s t)"
    using assms(4) by (auto simp: flight_inv_def)
  have "hbSeq g \<le> riSeq i" if g: "g \<in> set (rsHist ?s t)" for g
  proof -
    have "g \<in> set (rob_entries (ifRob f)) \<or> g \<in> set old" using g F(2) by auto
    then show ?thesis using rob_entries_seq[of g "ifRob f"] F(3) flight_rename(4,5) by force
  qed
  from renameDestRegs_done[OF assms(2) F(1) assms(3) flight_rename(2,3) this flight_rename(6)]
  have D: "dests_done n I rf t ?s i (s', i')" .
  have "sorted_wrt (<) (map riSeq (ifRob f @ [i']))"
    using assms(4) flight_rename(5) D by (auto simp: flight_inv_def dests_done_def sorted_wrt_append)
  then show ?thesis
    using flight_rename(1,4) D F assms(4)
    by (auto simp: flight_inv_def dests_done_def rob_entries_snoc undo_all_append)
next
  case (flight_squash q s')
  obtain u where u: "doSquash I rf q t (ifRen f) = Inr u" "ren_inv n I rf u"
     "rsMaps u t = undo_all (rob_entries (filter (\<lambda>i. q < riSeq i) (ifRob f))) (rsMaps (ifRen f) t)"
     "rsCommit u = rsCommit (ifRen f)" "rsHist u t = filter (\<lambda>h. hbSeq h \<le> q) (rsHist (ifRen f) t)"
    using flight_squash_facts[OF assms(2-4) flight_squash(2)] by blast
  let ?lo = "filter (\<lambda>i. riSeq i \<le> q) (ifRob f)" and ?hi = "filter (\<lambda>i. q < riSeq i) (ifRob f)"
  obtain old where old: "rsHist (ifRen f) t = rob_entries (ifRob f) @ old" "\<forall>h \<in> set old. hbSeq h \<le> ifDone f"
    using assms(4) by (auto simp: flight_inv_def)
  have srt: "sorted_wrt (<) (map riSeq (ifRob f))" using assms(4) by (simp add: flight_inv_def)
  have "rob_entries (ifRob f) = rob_entries ?hi @ rob_entries ?lo"
    using rob_split[OF srt, of q] by (metis concat_append map_append rev_append rob_entries_def)
  then have cm: "rsCommit u t = undo_all (rob_entries ?lo) (rsMaps u t)"
    using assms(4) u(3,4) by (simp add: flight_inv_def undo_all_append)
  have "filter (\<lambda>h. hbSeq h \<le> q) old = old" using old(2) flight_squash(2) by (auto simp: filter_id_conv)
  then have "rsHist u t = rob_entries ?lo @ old"
    using u(5) old(1) filter_rob_entries[of "\<lambda>k. k \<le> q" "ifRob f"] by simp
  moreover have "sorted_wrt (<) (map riSeq ?lo)" using srt by (simp add: sorted_wrt_map sorted_wrt_filter)
  ultimately show ?thesis
    using flight_squash(1,3) u(1,2) cm assms(4) old(2) by (auto simp: flight_inv_def)
next
  case (flight_commit i "is" s')
  note ci = commit_inst_ok[OF assms(2-4) flight_commit(2)]
  obtain old where old: "rsHist (ifRen f) t = rob_entries is @ inst_entries i @ old" "\<forall>h \<in> set old. hbSeq h \<le> ifDone f"
    using assms(4) flight_commit(2) by (auto simp: flight_inv_def rob_entries_Cons)
  have "\<forall>h \<in> set (inst_entries i @ old). hbSeq h \<le> riSeq i"
    using old(2) inst_entries_seq[of _ i] assms(4) flight_commit(2) by (force simp: flight_inv_def)
  moreover have "ren_inv n I rf s'"
    using assms(4) ci flight_commit(3)
    by (auto simp: flight_inv_def ren_inv_def thread_ok_def conserved_def board_ok_def)
  ultimately show ?thesis
    using flight_commit ci assms(4) old(1) by (auto simp: flight_inv_def rob_entries_Cons)
next
  case (flight_release q s')
  have ri: "ren_inv n I rf (ifRen f)" using assms(4) by (simp add: flight_inv_def)
  obtain old where old: "rsHist (ifRen f) t = rob_entries (ifRob f) @ old" "\<forall>h \<in> set old. hbSeq h \<le> ifDone f"
    using assms(4) by (auto simp: flight_inv_def)
  have "filter (\<lambda>i. q < riSeq i) (ifRob f) = ifRob f"
    using assms(4) flight_release(2) by (force simp: flight_inv_def filter_id_conv)
  then have h: "filter (\<lambda>h. q < hbSeq h) (rsHist (ifRen f) t) = rob_entries (ifRob f) @ filter (\<lambda>h. q < hbSeq h) old"
    using old(1) filter_rob_entries[of "\<lambda>k. q < k" "ifRob f"] by simp
  obtain fl where "s' = (ifRen f)\<lparr>rsFree := fl,
      rsHist := (rsHist (ifRen f))(t := filter (\<lambda>h. q < hbSeq h) (rsHist (ifRen f) t))\<rparr>"
    using removeFromHistory_ok[OF assms(2) ri assms(3), of q] flight_release(3) by auto
  then show ?thesis
    using flight_release(1) removeFromHistory_inv[OF assms(2) ri assms(3) flight_release(3)] assms(4) h old(2)
    by (auto simp: flight_inv_def)
qed

inductive flight_steps ::
  "nat \<Rightarrow> isa \<Rightarrow> phys_reg_file \<Rightarrow> (reg_id \<Rightarrow> reg_id) \<Rightarrow> nat \<Rightarrow> in_flight \<Rightarrow> in_flight \<Rightarrow> bool"
  for n I rf flat t
where
  flights_refl: "flight_steps n I rf flat t f f"
| flights_step: "flight_steps n I rf flat t f g \<Longrightarrow> flight_step n I rf flat t g h
     \<Longrightarrow> flight_steps n I rf flat t f h"

lemma flight_steps_inv:
  "flight_steps n I rf flat t f g \<Longrightarrow> ren_env I rf \<Longrightarrow> t < n \<Longrightarrow> flight_inv n I rf t f \<Longrightarrow>
     flight_inv n I rf t g"
  by (induction rule: flight_steps.induct) (auto intro: flight_step_inv)

lemma start_flight_inv:
  assumes "ren_env I rf" "\<And>c. c \<in> set rename_classes \<Longrightarrow> n * numArchRegs I c \<le> numPhys rf c"
    "initial_rename I rf n = Inr s0"
  shows "flight_inv n I rf t \<lparr>ifRen = s0, ifRob = [], ifDone = 0\<rparr>"
proof -
  obtain ms where a: "assigned I rf ms n s0"
    using initial_rename_assigned[OF assms(1,2)] assms(3) by auto
  then show ?thesis
    using assigned_inv[OF assms(1) a assms(2)]
    by (simp add: flight_inv_def assigned_def rob_entries_def)
qed

section \<open>Properties\<close>

text \<open>
  C20: the commit map is what the rename map would be without the instructions in flight.
  From the initial state, through any renames, squashes, commits and releases of a thread,
  committing the head of the reorder buffer never fails, and a squash back to the last
  committed instruction succeeds and leaves the rename map equal to the commit map: the
  precise state that an exception, or the entry into runahead, relies on.
\<close>

theorem squash_to_commit_gives_commit_map:
  assumes "ren_env I rf" "\<And>c. c \<in> set rename_classes \<Longrightarrow> n * numArchRegs I c \<le> numPhys rf c"
    "initial_rename I rf n = Inr s0" "t < n"
    "flight_steps n I rf flat t \<lparr>ifRen = s0, ifRob = [], ifDone = 0\<rparr> f"
  shows "(\<forall>i is. ifRob f = i # is \<longrightarrow> is_ok (commit_inst I rf t i (ifRen f)))
     \<and> (\<exists>s'. doSquash I rf (ifDone f) t (ifRen f) = Inr s' \<and> rsMaps s' t = rsCommit s' t)"
proof -
  have inv: "flight_inv n I rf t f"
    by (rule flight_steps_inv[OF assms(5,1,4) start_flight_inv[OF assms(1-3)]])
  have "filter (\<lambda>i. ifDone f < riSeq i) (ifRob f) = ifRob f"
    using inv by (auto simp: flight_inv_def filter_id_conv)
  then show ?thesis
    using flight_squash_facts[OF assms(1,4) inv order_refl] commit_inst_ok[OF assms(1,4) inv] inv
    by (auto simp: flight_inv_def)
qed

lemma squash_to_commit_gives_commit_map_witness:
  "\<exists>(f :: in_flight) s'. ifRob f \<noteq> [] \<and> doSquash small_isa small_rf (ifDone f) 0 (ifRen f) = Inr s'
     \<and> rsMaps s' 0 = rsCommit s' 0"
proof -
  let ?g = "\<lparr>ifRen = small_start, ifRob = [], ifDone = 0\<rparr>"
  obtain r where "foldE (rename_dest small_isa small_rf id 0) (riDests (writer 1)) (small_start, writer 1) = Inr r"
    using renameDestRegs_total[OF small_env zero_less_one small_start_inv, where ds = "riDests (writer 1)"
        and flat = id and i = "writer 1"] writer_ok(1) small_free(2) writer_demand
    by (force simp: inst_ok_def writer_def int0_def)
  then have r: "renameDestRegs small_isa small_rf id 0 (ifRen ?g, writer 1) = Inr (fst r, snd r)"
    by (simp add: renameDestRegs_def)
  let ?f = "?g\<lparr>ifRen := fst r, ifRob := ifRob ?g @ [snd r]\<rparr>"
  have "flight_step 1 small_isa small_rf id 0 ?g ?f"
    by (rule flight_rename[OF writer_ok _ _ r]) (simp_all add: writer_def)
  then have "flight_steps 1 small_isa small_rf id 0 ?g ?f" by (blast intro: flights_refl flights_step)
  then have "\<exists>s'. doSquash small_isa small_rf (ifDone ?f) 0 (ifRen ?f) = Inr s' \<and> rsMaps s' 0 = rsCommit s' 0"
    using squash_to_commit_gives_commit_map[OF small_env small_fits small_start_ok zero_less_one, of id ?f]
    by blast
  moreover have "ifRob ?f \<noteq> []" by simp
  ultimately show ?thesis by blast
qed

end
