(* ===== verification/ArchCheckpoint.thy ===== *)
theory ArchCheckpoint
  imports RenameProps
begin

text \<open>
  The architectural checkpoint (\<open>arch_checkpoint.hh\<close>, \<open>arch_checkpoint.cc\<close>) and the return
  to it when a runahead period ends (\<open>cpu.cc\<close>: \<open>getArchReg\<close>, \<open>setArchReg\<close>,
  \<open>saveStateForValidation\<close>, \<open>checkStateForValidation\<close>, \<open>restoreCheckpointState\<close>,
  \<open>updateArchCheckpoint\<close>).  The misc registers live in gem5's ISA object: \<open>miscValid\<close>
  (\<open>misc_reg::isValid\<close>) and \<open>readMisc\<close> (\<open>readMiscReg\<close>) are parameters.
\<close>

record arch_ckpt =
  ckValues :: "reg_class \<Rightarrow> regval list"
  ckValid :: "reg_class \<Rightarrow> nat list"

record arch_state =
  asRen :: ren_state
  asFile :: phys_reg_file
  asCkpt :: arch_ckpt
  asDebug :: "reg_class \<Rightarrow> regval list"
  asDiverging :: "nat \<Rightarrow> bool"

definition arch_reg :: "reg_class \<Rightarrow> nat \<Rightarrow> reg_id" where
  "arch_reg c i = \<lparr>raClass = c, raIndex = i, raPinned = 0\<rparr>"

section \<open>Operations\<close>

definition new_ArchCheckpoint :: "isa \<Rightarrow> arch_ckpt" where
  "new_ArchCheckpoint I = \<lparr>ckValues = (\<lambda>c. if c \<in> set all_classes
     then replicate (numArchRegs I c) 0 else []), ckValid = (\<lambda>_. [])\<rparr>"

definition getArchReg :: "isa \<Rightarrow> phys_reg_file \<Rightarrow> ren_state \<Rightarrow> reg_id \<Rightarrow> nat \<Rightarrow> regval res" where
  "getArchReg I rf s a t =
     bindE (urm_lookup I rf (rsCommit s t) a) (\<lambda>q.
       case q of None \<Rightarrow> Inl NullDeref | Some p \<Rightarrow> getReg rf p)"

definition getArchRegAny :: "isa \<Rightarrow> phys_reg_file \<Rightarrow> ren_state \<Rightarrow> reg_id \<Rightarrow> nat \<Rightarrow> anyval res" where
  "getArchRegAny I rf s a t =
     bindE (urm_lookup I rf (rsCommit s t) a) (\<lambda>q.
       case q of None \<Rightarrow> Inl NullDeref | Some p \<Rightarrow> getRegAny rf p)"

definition setArchReg ::
  "isa \<Rightarrow> phys_reg_file \<Rightarrow> ren_state \<Rightarrow> reg_id \<Rightarrow> regval \<Rightarrow> nat \<Rightarrow> phys_reg_file res"
where
  "setArchReg I rf s a v t =
     bindE (urm_lookup I rf (rsCommit s t) a) (\<lambda>q.
       case q of None \<Rightarrow> Inl NullDeref | Some p \<Rightarrow> setReg rf p v)"

text \<open>\<open>fullSave\<close>: one register, one class, all classes.\<close>

definition save_reg ::
  "isa \<Rightarrow> (nat \<Rightarrow> bool) \<Rightarrow> (nat \<Rightarrow> regval) \<Rightarrow> phys_reg_file \<Rightarrow> ren_state \<Rightarrow> nat \<Rightarrow> reg_class \<Rightarrow> nat
     \<Rightarrow> arch_ckpt \<Rightarrow> arch_ckpt res"
where
  "save_reg I miscValid readMisc rf s t c i ck =
     (if c = MiscRegClass \<and> \<not> miscValid i then Inr ck
      else
        bindE (if c = MiscRegClass then Inr (readMisc i) else getArchReg I rf s (arch_reg c i) t) (\<lambda>v.
        bindE (vecSet (ckValues ck c) i v) (\<lambda>vs.
          Inr (ck\<lparr>ckValues := (ckValues ck)(c := vs), ckValid := (ckValid ck)(c := ckValid ck c @ [i])\<rparr>))))"

definition save_class ::
  "isa \<Rightarrow> (nat \<Rightarrow> bool) \<Rightarrow> (nat \<Rightarrow> regval) \<Rightarrow> phys_reg_file \<Rightarrow> ren_state \<Rightarrow> nat \<Rightarrow> reg_class
     \<Rightarrow> arch_ckpt \<Rightarrow> arch_ckpt res"
where
  "save_class I miscValid readMisc rf s t c ck =
     (if c = VecRegClass \<or> c = VecPredRegClass then Inr ck
      else foldE (save_reg I miscValid readMisc rf s t c) [0..<numArchRegs I c]
             (ck\<lparr>ckValid := (ckValid ck)(c := [])\<rparr>))"

definition fullSave ::
  "isa \<Rightarrow> (nat \<Rightarrow> bool) \<Rightarrow> (nat \<Rightarrow> regval) \<Rightarrow> phys_reg_file \<Rightarrow> ren_state \<Rightarrow> nat
     \<Rightarrow> arch_ckpt \<Rightarrow> arch_ckpt res"
where
  "fullSave I miscValid readMisc rf s t ck =
     foldE (save_class I miscValid readMisc rf s t) all_classes ck"

text \<open>
  \<open>restore\<close>.  The source skips the vector, predicate and misc classes, so its branch for misc
  registers is never reached.
\<close>

definition restore_reg ::
  "isa \<Rightarrow> ren_state \<Rightarrow> nat \<Rightarrow> arch_ckpt \<Rightarrow> reg_class \<Rightarrow> nat \<Rightarrow> phys_reg_file \<Rightarrow> phys_reg_file res"
where
  "restore_reg I s t ck c i rf =
     bindE (vecGet (ckValues ck c) i) (\<lambda>v.
     bindE (getArchReg I rf s (arch_reg c i) t) (\<lambda>cur.
       if cur \<noteq> v then setArchReg I rf s (arch_reg c i) v t else Inr rf))"

definition restore_class ::
  "isa \<Rightarrow> ren_state \<Rightarrow> nat \<Rightarrow> reg_class \<Rightarrow> phys_reg_file \<times> arch_ckpt \<Rightarrow> (phys_reg_file \<times> arch_ckpt) res"
where
  "restore_class I s t c = (\<lambda>(rf, ck).
     if c = VecRegClass \<or> c = VecPredRegClass \<or> c = MiscRegClass then Inr (rf, ck)
     else if ckValid ck c = [] then Inr (rf, ck)
     else bindE (foldE (restore_reg I s t ck c) (ckValid ck c) rf) (\<lambda>rf'.
            Inr (rf', ck\<lparr>ckValid := (ckValid ck)(c := [])\<rparr>)))"

definition ckpt_restore ::
  "isa \<Rightarrow> ren_state \<Rightarrow> nat \<Rightarrow> phys_reg_file \<times> arch_ckpt \<Rightarrow> (phys_reg_file \<times> arch_ckpt) res"
where
  "ckpt_restore I s t rc = foldE (restore_class I s t) all_classes rc"

text \<open>\<open>updateReg\<close>; \<open>inRunahead\<close> is the CPU's flag for the thread.\<close>

definition updateReg ::
  "isa \<Rightarrow> (nat \<Rightarrow> bool) \<Rightarrow> (nat \<Rightarrow> regval) \<Rightarrow> phys_reg_file \<Rightarrow> ren_state \<Rightarrow> nat \<Rightarrow> bool \<Rightarrow> reg_id
     \<Rightarrow> arch_ckpt \<Rightarrow> arch_ckpt res"
where
  "updateReg I miscValid readMisc rf s t inRun a ck =
     bindE (assertE (\<not> inRun)) (\<lambda>_.
       let c = raClass a; i = raIndex a in
       if c = VecRegClass \<or> c = VecPredRegClass then Inr ck
       else if c = InvalidRegClass then Inr ck
       else if c = MiscRegClass \<and> \<not> miscValid i then Inr ck
       else
         bindE (if c = MiscRegClass then Inr (readMisc i) else getArchReg I rf s a t) (\<lambda>v.
         bindE (vecSet (ckValues ck c) i v) (\<lambda>vs.
           Inr (ck\<lparr>ckValues := (ckValues ck)(c := vs),
                  ckValid := (if i \<in> set (ckValid ck c) then ckValid ck
                              else (ckValid ck)(c := ckValid ck c @ [i]))\<rparr>))))"

definition updateArchCheckpoint ::
  "isa \<Rightarrow> (nat \<Rightarrow> bool) \<Rightarrow> (nat \<Rightarrow> regval) \<Rightarrow> phys_reg_file \<Rightarrow> ren_state \<Rightarrow> nat \<Rightarrow> bool \<Rightarrow> bool
     \<Rightarrow> reg_id list \<Rightarrow> reg_id list \<Rightarrow> arch_ckpt \<Rightarrow> arch_ckpt res"
where
  "updateArchCheckpoint I miscValid readMisc rf s t enabled inRun flatDests miscDests ck =
     (if \<not> enabled then Inr ck
      else
        bindE (assertE (\<not> inRun)) (\<lambda>_.
        bindE (foldE (updateReg I miscValid readMisc rf s t inRun) flatDests ck) (\<lambda>ck'.
          foldE (updateReg I miscValid readMisc rf s t inRun) miscDests ck')))"

text \<open>The copy of the registers that \<open>enterRunahead\<close> keeps for the check on exit.\<close>

definition debug_class ::
  "isa \<Rightarrow> phys_reg_file \<Rightarrow> ren_state \<Rightarrow> nat \<Rightarrow> reg_class \<Rightarrow> (reg_class \<Rightarrow> regval list)
     \<Rightarrow> (reg_class \<Rightarrow> regval list) res"
where
  "debug_class I rf s t c dbg =
     (if c = VecRegClass \<or> c = VecPredRegClass then Inr dbg
      else foldE (\<lambda>i d. bindE (getArchReg I rf s (arch_reg c i) t) (\<lambda>v.
                        bindE (vecSet (d c) i v) (\<lambda>vs. Inr (d(c := vs)))))
             [0..<numArchRegs I c] (dbg(c := replicate (numArchRegs I c) 0)))"

definition saveStateForValidation ::
  "isa \<Rightarrow> (nat \<Rightarrow> bool) \<Rightarrow> (nat \<Rightarrow> regval) \<Rightarrow> phys_reg_file \<Rightarrow> ren_state \<Rightarrow> nat
     \<Rightarrow> (reg_class \<Rightarrow> regval list) \<Rightarrow> (reg_class \<Rightarrow> regval list) res"
where
  "saveStateForValidation I miscValid readMisc rf s t dbg =
     bindE (foldE (debug_class I rf s t) rename_classes dbg) (\<lambda>d.
       Inr (d(MiscRegClass := map (\<lambda>i. if miscValid i then readMisc i else 0)
                                [0..<numArchRegs I MiscRegClass])))"

text \<open>A mismatch of a misc register is only traced; one of another class panics.\<close>

definition check_reg ::
  "isa \<Rightarrow> phys_reg_file \<Rightarrow> ren_state \<Rightarrow> nat \<Rightarrow> (reg_class \<Rightarrow> regval list) \<Rightarrow> reg_class \<Rightarrow> nat
     \<Rightarrow> unit \<Rightarrow> unit res"
where
  "check_reg I rf s t dbg c i u =
     bindE (getArchReg I rf s (arch_reg c i) t) (\<lambda>v.
     bindE (vecGet (dbg c) i) (\<lambda>stored. if stored \<noteq> v then Inl PanicCall else Inr ()))"

definition checkStateForValidation ::
  "isa \<Rightarrow> phys_reg_file \<Rightarrow> ren_state \<Rightarrow> nat \<Rightarrow> (reg_class \<Rightarrow> regval list) \<Rightarrow> unit res"
where
  "checkStateForValidation I rf s t dbg =
     foldE (\<lambda>c u. if c = VecRegClass \<or> c = VecPredRegClass then Inr ()
                  else foldE (check_reg I rf s t dbg c) [0..<numArchRegs I c] ())
       rename_classes ()"

text \<open>
  \<open>restoreCheckpointState\<close>; \<open>robCheck\<close> is the result of \<open>ROB::archRestoreSanityCheck\<close>.  The
  debugging code inside \<open>#if !defined(NDEBUG)\<close> is included.
\<close>

definition restoreCheckpointState ::
  "isa \<Rightarrow> unit res \<Rightarrow> nat \<Rightarrow> arch_state \<Rightarrow> arch_state res"
where
  "restoreCheckpointState I robCheck t a =
     bindE robCheck (\<lambda>_.
     bindE (ufl_reset (asFile a) (rsFree (asRen a))) (\<lambda>fl.
       let s0 = asRen a;
           s1 = s0\<lparr>rsFree := fl,
                   rsMaps := (rsMaps s0)(t := urm_reset I (rsMaps s0 t)),
                   rsCommit := (rsCommit s0)(t := urm_reset I (rsCommit s0 t)),
                   rsHist := (rsHist s0)(t := [])\<rparr>
       in
     bindE (remap_thread (\<lambda>r sb. sb_setReg (isFixedMapping I) sb r) I (asFile a) t s1) (\<lambda>s2.
     bindE (ckpt_restore I s2 t (asFile a, asCkpt a)) (\<lambda>(rf, ck).
       let rf' = clearPoison rf in
     bindE (checkStateForValidation I rf' s2 t (asDebug a)) (\<lambda>_.
       Inr (a\<lparr>asRen := s2, asFile := rf', asCkpt := ck,
              asDiverging := (asDiverging a)(t := False)\<rparr>))))))"

section \<open>Saving\<close>

definition ckpt_wf :: "isa \<Rightarrow> arch_ckpt \<Rightarrow> bool" where
  "ckpt_wf I ck \<longleftrightarrow> (\<forall>c \<in> set all_classes. length (ckValues ck c) = numArchRegs I c)"

lemma new_ckpt_wf: "ckpt_wf I (new_ArchCheckpoint I)"
  by (simp add: ckpt_wf_def new_ArchCheckpoint_def)

definition saved_classes :: "reg_class list" where
  "saved_classes = [IntRegClass, FloatRegClass, VecElemClass, CCRegClass]"

lemma saved_class: "c \<in> set saved_classes \<longleftrightarrow> is_scalar c"
  by (cases c) (simp_all add: saved_classes_def is_scalar_def)

lemma saved_rename: "is_scalar c \<Longrightarrow> c \<in> set rename_classes"
  by (cases c) (simp_all add: is_scalar_def in_rename_classes)

text \<open>The value an architectural register has, by the commit map.\<close>

definition arch_phys :: "ren_state \<Rightarrow> nat \<Rightarrow> reg_class \<Rightarrow> nat \<Rightarrow> phys_reg" where
  "arch_phys s t c i = the (rsCommit s t c ! i)"

definition arch_value :: "phys_reg_file \<Rightarrow> ren_state \<Rightarrow> nat \<Rightarrow> reg_class \<Rightarrow> nat \<Rightarrow> regval" where
  "arch_value rf s t c i = regVals rf c ! prIndex (arch_phys s t c i)"

definition commit_wf :: "isa \<Rightarrow> phys_reg_file \<Rightarrow> ren_state \<Rightarrow> nat \<Rightarrow> bool" where
  "commit_wf I rf s t \<longleftrightarrow> rf_wf rf \<and> maps_wf I rf (rsCommit s t)"

lemma arch_phys_scalar:
  assumes "commit_wf I rf s t" "is_scalar c" "i < numArchRegs I c"
  shows "urm_lookup I rf' (rsCommit s t) (arch_reg c i) = Inr (Some (arch_phys s t c i))"
    and "scalar_reg rf (arch_phys s t c i)" and "prClass (arch_phys s t c i) = c"
proof -
  have c: "c \<in> set rename_classes" using assms(2) by (rule saved_rename)
  have m: "maps_wf I rf (rsCommit s t)" and w: "rf_wf rf" using assms(1) by (auto simp: commit_wf_def)
  have ao: "arch_ok I (arch_reg c i)" using c assms(3) by (simp add: arch_ok_def arch_reg_def)
  obtain p where p: "rsCommit s t c ! i = Some p" "p \<in> set (regIds rf c)" "i < length (rsCommit s t c)"
    using maps_wf_nth[OF m ao] by (auto simp: arch_reg_def)
  have ap: "arch_phys s t c i = p" using p(1) by (simp add: arch_phys_def)
  have pc: "prClass p = c" using ids_class[of rf c p] w c p(2) by (simp add: rf_wf_def)
  show "urm_lookup I rf' (rsCommit s t) (arch_reg c i) = Inr (Some (arch_phys s t c i))"
    using p c ap by (simp add: urm_lookup_def srm_lookup_def arch_reg_def in_rename_classes)
  show "scalar_reg rf (arch_phys s t c i)"
    using w p(2) pc c assms(2) ap by (simp add: scalar_reg_def owned_def)
  show "prClass (arch_phys s t c i) = c" using pc ap by simp
qed

lemma getArchReg_ok:
  assumes "commit_wf I rf s t" "is_scalar c" "i < numArchRegs I c"
  shows "getArchReg I rf s (arch_reg c i) t = Inr (arch_value rf s t c i)"
  using arch_phys_scalar[OF assms] getReg_ok[of rf "arch_phys s t c i"]
  by (simp add: getArchReg_def arch_value_def)

lemma save_regs:
  assumes "commit_wf I rf s t" "is_scalar c" "length (ckValues ck c) = numArchRegs I c"
    "ckValid ck c = []" "k \<le> numArchRegs I c"
  shows "foldE (save_reg I mv rm rf s t c) [0..<k] ck = Inr (ck\<lparr>
     ckValues := (ckValues ck)(c := map (arch_value rf s t c) [0..<k] @ drop k (ckValues ck c)),
     ckValid := (ckValid ck)(c := [0..<k])\<rparr>)"
  using assms(5)
proof (induction k)
  case 0
  have "(ckValid ck)(c := []) = ckValid ck" using assms(4) by auto
  then show ?case by simp
next
  case (Suc k)
  have "c \<noteq> MiscRegClass" using assms(2) by (auto simp: is_scalar_def)
  then show ?case
    using Suc assms(3) getArchReg_ok[OF assms(1,2), of k]
      update_at_length[of "map (arch_value rf s t c) [0..<k]" k "ckValues ck c"]
    by (auto simp: foldE_append save_reg_def fun_eq_iff intro!: arch_ckpt.equality)
qed

lemma save_misc:
  assumes "length (ckValues ck MiscRegClass) = numArchRegs I MiscRegClass" "k \<le> numArchRegs I MiscRegClass"
  shows "\<exists>vs is. foldE (save_reg I mv rm rf s t MiscRegClass) [0..<k] ck
      = Inr (ck\<lparr>ckValues := (ckValues ck)(MiscRegClass := vs), ckValid := (ckValid ck)(MiscRegClass := is)\<rparr>)
    \<and> length vs = numArchRegs I MiscRegClass"
  using assms(2)
proof (induction k)
  case 0
  have "ck = ck\<lparr>ckValues := (ckValues ck)(MiscRegClass := ckValues ck MiscRegClass),
      ckValid := (ckValid ck)(MiscRegClass := ckValid ck MiscRegClass)\<rparr>" by simp
  then show ?case using assms(1) by (metis foldE.simps(1) upt_0)
next
  case (Suc k)
  then obtain vs "is" where v: "foldE (save_reg I mv rm rf s t MiscRegClass) [0..<k] ck
      = Inr (ck\<lparr>ckValues := (ckValues ck)(MiscRegClass := vs), ckValid := (ckValid ck)(MiscRegClass := is)\<rparr>)"
    "length vs = numArchRegs I MiscRegClass" by (meson Suc_leD)
  show ?case
    unfolding foldE_upt_Suc v(1) bindE_Inr
    using v(2) Suc.prems
    by (auto simp: save_reg_def fun_eq_iff intro!: exI[of _ "if mv k then vs[k := rm k] else vs"]
        exI[of _ "if mv k then is @ [k] else is"] arch_ckpt.equality)
qed

text \<open>A checkpoint holds the architectural values of a class at a state.\<close>

definition ckpt_holds ::
  "isa \<Rightarrow> phys_reg_file \<Rightarrow> ren_state \<Rightarrow> nat \<Rightarrow> arch_ckpt \<Rightarrow> reg_class \<Rightarrow> bool"
where
  "ckpt_holds I rf s t ck c \<longleftrightarrow>
     ckValues ck c = map (arch_value rf s t c) [0..<numArchRegs I c]
     \<and> ckValid ck c = [0..<numArchRegs I c]"

lemma save_class_ok:
  assumes "commit_wf I rf s t" "ckpt_wf I ck" "c \<in> set all_classes"
  shows "\<exists>ck'. save_class I mv rm rf s t c ck = Inr ck' \<and> ckpt_wf I ck'
    \<and> (\<forall>d. d \<noteq> c \<longrightarrow> ckValues ck' d = ckValues ck d \<and> ckValid ck' d = ckValid ck d)
    \<and> (is_scalar c \<longrightarrow> ckpt_holds I rf s t ck' c)"
proof -
  have len: "length (ckValues ck c) = numArchRegs I c" using assms(2,3) by (simp add: ckpt_wf_def)
  let ?ck = "ck\<lparr>ckValid := (ckValid ck)(c := [])\<rparr>"
  consider "is_scalar c" | "c = MiscRegClass" | "c = VecRegClass \<or> c = VecPredRegClass"
    using assms(3) by (cases c) (auto simp: is_scalar_def all_classes_def)
  then show ?thesis
  proof cases
    case 1
    then have "\<not> (c = VecRegClass \<or> c = VecPredRegClass)" by (auto simp: is_scalar_def)
    then show ?thesis
      using save_regs[OF assms(1) 1, of ?ck "numArchRegs I c" mv rm] len assms(2)
      by (auto simp: save_class_def ckpt_holds_def ckpt_wf_def)
  next
    case 2
    then show ?thesis
      using save_misc[of ?ck I "numArchRegs I c" mv rm rf s t] len assms(2)
      by (auto simp: save_class_def ckpt_wf_def is_scalar_def)
  next
    case 3
    then show ?thesis using assms(2) by (auto simp: save_class_def is_scalar_def)
  qed
qed

lemma save_classes_ok:
  assumes "commit_wf I rf s t" "ckpt_wf I ck" "set cs \<subseteq> set all_classes" "distinct cs"
  shows "\<exists>ck'. foldE (save_class I mv rm rf s t) cs ck = Inr ck' \<and> ckpt_wf I ck'
    \<and> (\<forall>d. d \<notin> set cs \<longrightarrow> ckValues ck' d = ckValues ck d \<and> ckValid ck' d = ckValid ck d)
    \<and> (\<forall>c \<in> set cs. is_scalar c \<longrightarrow> ckpt_holds I rf s t ck' c)"
  using assms(2-4)
proof (induction cs arbitrary: ck)
  case Nil
  then show ?case by simp
next
  case (Cons c cs)
  have c: "c \<in> set all_classes" using Cons.prems(2) by simp
  obtain u where u: "save_class I mv rm rf s t c ck = Inr u" "ckpt_wf I u"
    "\<forall>d. d \<noteq> c \<longrightarrow> ckValues u d = ckValues ck d \<and> ckValid u d = ckValid ck d"
    "is_scalar c \<longrightarrow> ckpt_holds I rf s t u c"
    using save_class_ok[OF assms(1) Cons.prems(1) c, of mv rm] by blast
  obtain v where v: "foldE (save_class I mv rm rf s t) cs u = Inr v" "ckpt_wf I v"
    "\<forall>d. d \<notin> set cs \<longrightarrow> ckValues v d = ckValues u d \<and> ckValid v d = ckValid u d"
    "\<forall>c \<in> set cs. is_scalar c \<longrightarrow> ckpt_holds I rf s t v c"
    using Cons.IH[OF u(2)] Cons.prems(2,3) by auto
  have "ckpt_holds I rf s t v c" if "is_scalar c"
    using that u(4) v(3) Cons.prems(3) by (simp add: ckpt_holds_def)
  with u v Cons.prems(3) show ?case by auto
qed

lemma fullSave_ok:
  assumes "commit_wf I rf s t" "ckpt_wf I ck"
  shows "\<exists>ck'. fullSave I mv rm rf s t ck = Inr ck' \<and> ckpt_wf I ck'
    \<and> (\<forall>c. is_scalar c \<longrightarrow> ckpt_holds I rf s t ck' c)"
proof -
  have "distinct all_classes" by (simp add: all_classes_def)
  moreover have "is_scalar c \<Longrightarrow> c \<in> set all_classes" for c
    by (cases c) (simp_all add: is_scalar_def all_classes_def)
  ultimately show ?thesis
    using save_classes_ok[OF assms subset_refl, of mv rm] by (auto simp: fullSave_def)
qed

text \<open>The debugging copy holds the same values.\<close>

definition debug_holds ::
  "isa \<Rightarrow> phys_reg_file \<Rightarrow> ren_state \<Rightarrow> nat \<Rightarrow> (reg_class \<Rightarrow> regval list) \<Rightarrow> reg_class \<Rightarrow> bool"
where
  "debug_holds I rf s t dbg c \<longleftrightarrow> dbg c = map (arch_value rf s t c) [0..<numArchRegs I c]"

lemma debug_class_ok:
  assumes "commit_wf I rf s t" "is_scalar c"
  shows "debug_class I rf s t c dbg = Inr (dbg(c := map (arch_value rf s t c) [0..<numArchRegs I c]))"
proof -
  let ?d = "dbg(c := replicate (numArchRegs I c) 0)"
  have "foldE (\<lambda>i d. bindE (getArchReg I rf s (arch_reg c i) t) (\<lambda>v.
                        bindE (vecSet (d c) i v) (\<lambda>vs. Inr (d(c := vs))))) [0..<k] ?d
      = Inr (dbg(c := map (arch_value rf s t c) [0..<k] @ drop k (?d c)))" if "k \<le> numArchRegs I c" for k
    using that
  proof (induction k)
    case 0
    then show ?case by simp
  next
    case (Suc k)
    have k: "k \<le> numArchRegs I c" using Suc.prems by simp
    show ?case
      unfolding foldE_upt_Suc Suc.IH[OF k] bindE_Inr
      using Suc.prems getArchReg_ok[OF assms, of k]
        update_at_length[of "map (arch_value rf s t c) [0..<k]" k "?d c"]
      by (simp add: fun_eq_iff)
  qed
  from this[of "numArchRegs I c"] assms(2) show ?thesis
    by (auto simp: debug_class_def is_scalar_def)
qed

lemma saveStateForValidation_ok:
  assumes "commit_wf I rf s t"
  shows "\<exists>d. saveStateForValidation I mv rm rf s t dbg = Inr d
     \<and> (\<forall>c. is_scalar c \<longrightarrow> debug_holds I rf s t d c)"
proof -
  note D = debug_class_ok[OF assms]
  have sc: "is_scalar IntRegClass" "is_scalar FloatRegClass" "is_scalar VecElemClass" "is_scalar CCRegClass"
    by (simp_all add: is_scalar_def)
  have skip: "debug_class I rf s t VecRegClass d = Inr d" "debug_class I rf s t VecPredRegClass d = Inr d" for d
    by (simp_all add: debug_class_def)
  have "is_scalar c \<longleftrightarrow> c \<in> {IntRegClass, FloatRegClass, VecElemClass, CCRegClass}" for c
    by (cases c) (simp_all add: is_scalar_def)
  then show ?thesis
    by (simp add: saveStateForValidation_def rename_classes_eq skip D[OF sc(1)] D[OF sc(2)] D[OF sc(3)]
        D[OF sc(4)] debug_holds_def)
qed

section \<open>Restoring\<close>

text \<open>Restoring a register is writing its checkpointed value.\<close>

lemma setReg_same: "scalar_reg rf p \<Longrightarrow> getReg rf p = Inr v \<Longrightarrow> setReg rf p v = Inr rf"
  by (auto simp: setReg_ok getReg_ok)

lemma restore_reg_eq:
  assumes "commit_wf I rf s t" "is_scalar c" "i < numArchRegs I c" "i < length (ckValues ck c)"
  shows "restore_reg I s t ck c i rf = setReg rf (arch_phys s t c i) (ckValues ck c ! i)"
proof -
  note A = arch_phys_scalar[OF assms(1-3)]
  have g: "getArchReg I rf s (arch_reg c i) t = Inr (arch_value rf s t c i)"
    by (rule getArchReg_ok[OF assms(1-3)])
  have r: "getReg rf (arch_phys s t c i) = Inr (arch_value rf s t c i)"
    using getReg_ok[OF A(2)] A(3) by (simp add: arch_value_def)
  show ?thesis
    using g assms(4) A(1)[of rf] setReg_same[OF A(2) r]
    by (auto simp: restore_reg_def setArchReg_def)
qed

lemma commit_wf_setReg:
  assumes "commit_wf I rf s t" "scalar_reg rf p" "setReg rf p v = Inr rf'"
  shows "commit_wf I rf' s t"
proof -
  have "rf_wf rf'" using setReg_scalar[OF assms(2,3), of p] assms(2) by (simp add: scalar_reg_def)
  moreover have "regIds rf' = regIds rf" using assms(2,3) by (auto simp: setReg_ok)
  ultimately show ?thesis using assms(1) by (simp add: commit_wf_def maps_wf_def)
qed

definition ckpt_pairs :: "isa \<Rightarrow> reg_class list \<Rightarrow> (reg_class \<times> nat) list" where
  "ckpt_pairs I cs = concat (map (\<lambda>c. map (Pair c) [0..<numArchRegs I c]) (filter is_scalar cs))"

definition write_back ::
  "ren_state \<Rightarrow> nat \<Rightarrow> (reg_class \<Rightarrow> regval list) \<Rightarrow> reg_class \<times> nat \<Rightarrow> phys_reg_file \<Rightarrow> phys_reg_file res"
where
  "write_back s t vs x rf = setReg rf (arch_phys s t (fst x) (snd x)) (vs (fst x) ! snd x)"

lemma ckpt_pairs_Cons:
  "ckpt_pairs I (c # cs) = (if is_scalar c then map (Pair c) [0..<numArchRegs I c] else []) @ ckpt_pairs I cs"
  by (simp add: ckpt_pairs_def)

lemma write_back_wf:
  assumes "commit_wf I rf s t" "x \<in> set (ckpt_pairs I cs)" "write_back s t vs x rf = Inr rf'"
  shows "commit_wf I rf' s t"
proof -
  have x: "is_scalar (fst x)" "snd x < numArchRegs I (fst x)" using assms(2) by (auto simp: ckpt_pairs_def)
  show ?thesis
    using commit_wf_setReg[OF assms(1) arch_phys_scalar(2)[OF assms(1) x]] assms(3)
    by (simp add: write_back_def)
qed

lemma restore_classes_eq:
  assumes "commit_wf I rf s t"
    "\<And>c. c \<in> set cs \<Longrightarrow> is_scalar c \<Longrightarrow> length (ckValues ck c) = numArchRegs I c
       \<and> ckValid ck c = [0..<numArchRegs I c]"
    "distinct cs" "InvalidRegClass \<notin> set cs"
  shows "foldE (restore_class I s t) cs (rf, ck)
    = bindE (foldE (write_back s t (ckValues ck)) (ckpt_pairs I cs) rf) (\<lambda>rf'.
        Inr (rf', ck\<lparr>ckValid := (\<lambda>c. if c \<in> set cs \<and> is_scalar c then [] else ckValid ck c)\<rparr>))"
  using assms
proof (induction cs arbitrary: rf ck)
  case Nil
  then show ?case by (simp add: ckpt_pairs_def)
next
  case (Cons c cs)
  let ?N = "numArchRegs I c"
  show ?case
  proof (cases "is_scalar c")
    case False
    then have "restore_class I s t c (rf, ck) = Inr (rf, ck)"
      using Cons.prems(4) by (cases c) (auto simp: restore_class_def is_scalar_def)
    moreover have "(\<lambda>d. if d \<in> set (c # cs) \<and> is_scalar d then [] else ckValid ck d)
        = (\<lambda>d. if d \<in> set cs \<and> is_scalar d then [] else ckValid ck d)"
      using False by auto
    ultimately show ?thesis
      using Cons.IH[OF Cons.prems(1), of ck] Cons.prems False by (simp add: ckpt_pairs_Cons)
  next
    case True
    let ?ck = "ck\<lparr>ckValid := (ckValid ck)(c := [])\<rparr>"
    let ?W = "write_back s t (ckValues ck)"
    have h: "length (ckValues ck c) = ?N" "ckValid ck c = [0..<?N]" using Cons.prems(2) True by auto
    have nc: "\<not> (c = VecRegClass \<or> c = VecPredRegClass \<or> c = MiscRegClass)" using True by (auto simp: is_scalar_def)
    have mem: "(c, i) \<in> set (ckpt_pairs I (c # cs))" if "i < ?N" for i
      using that True by (auto simp: ckpt_pairs_def)
    have eq: "foldE (restore_reg I s t ck c) [0..<?N] rf = foldE (\<lambda>i. ?W (c, i)) [0..<?N] rf"
    proof (rule foldE_cong_inv[where P = "\<lambda>rf. commit_wf I rf s t", OF Cons.prems(1)])
      fix i u assume i: "i \<in> set [0..<?N]" and u: "commit_wf I u s t"
      then show "restore_reg I s t ck c i u = ?W (c, i) u"
        using restore_reg_eq[OF u True] h(1) by (simp add: write_back_def)
      show "?W (c, i) u = Inr v \<Longrightarrow> commit_wf I v s t" for v
        using write_back_wf[OF u mem] i by simp
    qed
    have "foldE (restore_reg I s t ck c) [0..<?N] rf = foldE ?W (map (Pair c) [0..<?N]) rf"
      unfolding eq foldE_map ..
    then have r: "restore_class I s t c (rf, ck)
        = bindE (foldE ?W (map (Pair c) [0..<?N]) rf) (\<lambda>rf'. Inr (rf', ?ck))"
      using nc h
      by (cases "?N = 0") (auto simp: restore_class_def fun_eq_iff intro!: arch_ckpt.equality)
    have later: "foldE (restore_class I s t) cs (rf1, ?ck)
       = bindE (foldE ?W (ckpt_pairs I cs) rf1) (\<lambda>rf'.
          Inr (rf', ck\<lparr>ckValid := (\<lambda>d. if d \<in> set (c # cs) \<and> is_scalar d then [] else ckValid ck d)\<rparr>))"
      if "commit_wf I rf1 s t" for rf1
    proof -
      have "(\<lambda>d. if d \<in> set cs \<and> is_scalar d then [] else ckValid ?ck d)
        = (\<lambda>d. if d \<in> set (c # cs) \<and> is_scalar d then [] else ckValid ck d)"
        using True by auto
      moreover have "\<And>d. d \<in> set cs \<Longrightarrow> is_scalar d \<Longrightarrow> length (ckValues ?ck d) = numArchRegs I d
        \<and> ckValid ?ck d = [0..<numArchRegs I d]"
        using Cons.prems(2,3) by auto
      ultimately show ?thesis using Cons.IH[OF that, of ?ck] Cons.prems(3,4) by simp
    qed
    have inv: "commit_wf I rf1 s t" if "foldE ?W (map (Pair c) [0..<?N]) rf = Inr rf1" for rf1
    proof (rule foldE_inv[where P = "\<lambda>rf. commit_wf I rf s t", OF that Cons.prems(1)])
      fix x u v assume x: "x \<in> set (map (Pair c) [0..<?N])"
      then have "x \<in> set (ckpt_pairs I (c # cs))" using mem by auto
      then show "commit_wf I u s t \<Longrightarrow> ?W x u = Inr v \<Longrightarrow> commit_wf I v s t"
        by (rule write_back_wf[rotated])
    qed
    show ?thesis
    proof (cases "foldE ?W (map (Pair c) [0..<?N]) rf")
      case (Inl e)
      then show ?thesis using r True by (simp add: ckpt_pairs_Cons foldE_append)
    next
      case (Inr rf1)
      then show ?thesis using r later[OF inv[OF Inr]] True by (simp add: ckpt_pairs_Cons foldE_append)
    qed
  qed
qed

lemma write_back_all:
  assumes "commit_wf I rf s t" "distinct cs"
    "\<And>c. c \<in> set cs \<Longrightarrow> is_scalar c \<Longrightarrow> distinct (map (arch_phys s t c) [0..<numArchRegs I c])"
  shows "\<exists>rf'. foldE (write_back s t vs) (ckpt_pairs I cs) rf = Inr rf' \<and> commit_wf I rf' s t
    \<and> (\<forall>c i. c \<in> set cs \<longrightarrow> is_scalar c \<longrightarrow> i < numArchRegs I c \<longrightarrow>
          getReg rf' (arch_phys s t c i) = Inr (vs c ! i))
    \<and> regIds rf' = regIds rf \<and> numPhys rf' = numPhys rf
    \<and> totalNumRegs rf' = totalNumRegs rf \<and> vecVals rf' = vecVals rf"
proof -
  let ?ps = "ckpt_pairs I cs" and ?r = "\<lambda>x. arch_phys s t (fst x) (snd x)"
  have mem: "is_scalar (fst x) \<and> snd x < numArchRegs I (fst x)" if "x \<in> set ?ps" for x
    using that by (auto simp: ckpt_pairs_def)
  have v: "scalar_reg rf (?r x)" if "x \<in> set ?ps" for x
    using arch_phys_scalar(2)[OF assms(1)] mem[OF that] by blast
  have "map ?r ?ps = concat (map (\<lambda>c. map (arch_phys s t c) [0..<numArchRegs I c]) (filter is_scalar cs))"
    by (simp add: ckpt_pairs_def map_concat comp_def)
  moreover have "distinct \<dots>"
    by (rule distinct_concat_key[where key = prClass])
      (use assms(2,3) arch_phys_scalar(3)[OF assms(1)] in auto)
  ultimately have d: "distinct (map ?r ?ps)" by simp
  from scalars.wr_all[where s = rf and xs = ?ps and r = ?r and f = "\<lambda>x. vs (fst x) ! snd x", OF v d]
  obtain rf' where rf': "foldE (write_back s t vs) ?ps rf = Inr rf'"
    "\<forall>x \<in> set ?ps. getReg rf' (?r x) = Inr (vs (fst x) ! snd x)"
    unfolding write_back_def by blast
  have "commit_wf I rf' s t"
    by (rule foldE_inv[where P = "\<lambda>rf. commit_wf I rf s t", OF rf'(1) assms(1)])
      (rule write_back_wf)
  moreover have "regIds rf' = regIds rf \<and> numPhys rf' = numPhys rf
      \<and> totalNumRegs rf' = totalNumRegs rf \<and> vecVals rf' = vecVals rf"
  proof (rule foldE_inv[where P = "\<lambda>u. regIds u = regIds rf \<and> numPhys u = numPhys rf
      \<and> totalNumRegs u = totalNumRegs rf \<and> vecVals u = vecVals rf", OF rf'(1)])
    fix x u w
    assume "write_back s t vs x u = Inr w" "regIds u = regIds rf \<and> numPhys u = numPhys rf
      \<and> totalNumRegs u = totalNumRegs rf \<and> vecVals u = vecVals rf"
    then show "regIds w = regIds rf \<and> numPhys w = numPhys rf
      \<and> totalNumRegs w = totalNumRegs rf \<and> vecVals w = vecVals rf"
      by (auto simp: write_back_def setReg_def upd_vals_def bindE_ok split: reg_class.splits)
  qed simp
  ultimately show ?thesis using rf' by (auto simp: ckpt_pairs_def)
qed

section \<open>The restored state\<close>

lemma reset_ready:
  assumes "ids_wf rf" "c \<in> set rename_classes" "numArchRegs I c \<le> numPhys rf c"
    "rsMaps s t = urm_reset I ms" "rsCommit s t = urm_reset I cms" "rsFree s c = regIds rf c"
  shows "remap_ready I rf t s c"
  using assms ids_class[OF assms(1,2)] ids_len[OF assms(1,2)]
  by (simp add: remap_ready_def urm_reset_entry)

text \<open>The scoreboard after the loop: every register that was handed out is ready.\<close>

lemma wake_all:
  assumes "ren_env I rf" "board_ok rf s" "\<And>r. r \<in> set rs \<Longrightarrow> owned rf r" "distinct rs"
  shows "\<exists>sb. foldE (\<lambda>r sb. sb_setReg (isFixedMapping I) sb r) rs (rsBoard s) = Inr sb
    \<and> sb_wf sb \<and> sbNumRegs sb = totalNumRegs rf
    \<and> (\<forall>r \<in> set rs. sb_getReg (isFixedMapping I) sb r = Inr True)"
proof -
  have v: "sb_valid (isFixedMapping I) rf (rsBoard s) r" if "r \<in> set rs" for r
    using assms(3)[OF that] assms(2) ren_envD[OF assms(1)]
    by (auto simp: sb_valid_def board_ok_def poison_reg_def isa_ok_def owned_def)
  from ready_bits.wr_all[where r = "\<lambda>r. r" and f = "\<lambda>_. True", of rs "isFixedMapping I" rf, OF v] assms(4)
  obtain sb where sb: "foldE (\<lambda>r sb. sb_setReg (isFixedMapping I) sb r) rs (rsBoard s) = Inr sb"
    "\<forall>r \<in> set rs. sb_getReg (isFixedMapping I) sb r = Inr True"
    by (auto simp: sb_write_def)
  have "sb_wf sb \<and> sbNumRegs sb = totalNumRegs rf"
    by (rule foldE_inv[where P = "\<lambda>b. sb_wf b \<and> sbNumRegs b = totalNumRegs rf", OF sb(1)])
      (use assms(2) sb_setReg_wf in \<open>auto simp: board_ok_def\<close>)
  with sb show ?thesis by blast
qed

lemma remap_taken_props:
  assumes "ids_wf rf" "rsFree s = (\<lambda>c. if c \<in> set rename_classes then regIds rf c else [])"
  shows "distinct (remap_taken I rename_classes s)"
    "\<And>r. r \<in> set (remap_taken I rename_classes s) \<Longrightarrow> owned rf r"
    "c \<in> set rename_classes \<Longrightarrow> set (take (numArchRegs I c) (regIds rf c)) \<subseteq> set (remap_taken I rename_classes s)"
proof -
  show "distinct (remap_taken I rename_classes s)"
    unfolding remap_taken_def
    by (rule distinct_concat_key[where key = prClass])
      (use assms ids_distinct[OF assms(1)] ids_class[OF assms(1)] in \<open>auto dest: in_set_takeD\<close>)
  show "owned rf r" if r: "r \<in> set (remap_taken I rename_classes s)" for r
  proof -
    obtain c where "c \<in> set rename_classes" "r \<in> set (regIds rf c)"
      using r assms(2) unfolding remap_taken_def by (fastforce dest: in_set_takeD)
    then show ?thesis using ids_class[OF assms(1), of c r] by (simp add: owned_def)
  qed
  show "c \<in> set rename_classes \<Longrightarrow> set (take (numArchRegs I c) (regIds rf c)) \<subseteq> set (remap_taken I rename_classes s)"
    using assms(2) by (auto simp: remap_taken_def)
qed

lemma check_ok:
  assumes "\<And>c i. is_scalar c \<Longrightarrow> i < numArchRegs I c \<Longrightarrow>
      getArchReg I rf s (arch_reg c i) t = Inr (dbg c ! i) \<and> i < length (dbg c)"
  shows "checkStateForValidation I rf s t dbg = Inr ()"
proof -
  have "\<exists>u. checkStateForValidation I rf s t dbg = Inr u \<and> True"
    unfolding checkStateForValidation_def
  proof (rule foldE_total[where P = "\<lambda>_. True"])
    fix c u
    assume c: "c \<in> set rename_classes"
    have "\<exists>v. foldE (check_reg I rf s t dbg c) [0..<numArchRegs I c] () = Inr v \<and> True" if "is_scalar c"
      by (rule foldE_total[where P = "\<lambda>_. True"]) (use assms[OF that] in \<open>auto simp: check_reg_def\<close>)
    then show "\<exists>v. (if c = VecRegClass \<or> c = VecPredRegClass then Inr ()
        else foldE (check_reg I rf s t dbg c) [0..<numArchRegs I c] ()) = Inr v \<and> True"
      using c by (cases c) (auto simp: in_rename_classes is_scalar_def)
  qed simp
  then show ?thesis by simp
qed

text \<open>What runahead leaves alone: the identity of the registers, the saved values, the sizes.\<close>

definition runahead_frame :: "isa \<Rightarrow> arch_state \<Rightarrow> arch_state \<Rightarrow> bool" where
  "runahead_frame I a b \<longleftrightarrow>
     rf_wf (asFile b) \<and> regIds (asFile b) = regIds (asFile a) \<and> numPhys (asFile b) = numPhys (asFile a)
     \<and> asCkpt b = asCkpt a \<and> asDebug b = asDebug a \<and> board_ok (asFile b) (asRen b)
     \<and> (\<forall>c. c \<notin> set rename_classes \<longrightarrow> rsFree (asRen b) c = [])"

text \<open>The saving part of \<open>enterRunahead\<close>.\<close>

definition save_arch_state ::
  "isa \<Rightarrow> (nat \<Rightarrow> bool) \<Rightarrow> (nat \<Rightarrow> regval) \<Rightarrow> nat \<Rightarrow> arch_state \<Rightarrow> arch_state res"
where
  "save_arch_state I miscValid readMisc t a =
     bindE (saveStateForValidation I miscValid readMisc (asFile a) (asRen a) t (asDebug a)) (\<lambda>d.
     bindE (fullSave I miscValid readMisc (asFile a) (asRen a) t (asCkpt a)) (\<lambda>ck.
       Inr (a\<lparr>asDebug := d, asCkpt := ck\<rparr>)))"

lemma save_arch_state_ok:
  assumes "commit_wf I (asFile a) (asRen a) t" "ckpt_wf I (asCkpt a)"
  shows "\<exists>d ck. save_arch_state I mv rm t a = Inr (a\<lparr>asDebug := d, asCkpt := ck\<rparr>)
     \<and> (\<forall>c. is_scalar c \<longrightarrow> ckpt_holds I (asFile a) (asRen a) t ck c)
     \<and> (\<forall>c. is_scalar c \<longrightarrow> debug_holds I (asFile a) (asRen a) t d c)"
proof -
  obtain d where d: "saveStateForValidation I mv rm (asFile a) (asRen a) t (asDebug a) = Inr d"
      "\<forall>c. is_scalar c \<longrightarrow> debug_holds I (asFile a) (asRen a) t d c"
    using saveStateForValidation_ok[OF assms(1), of mv rm "asDebug a"] by blast
  obtain ck where ck: "fullSave I mv rm (asFile a) (asRen a) t (asCkpt a) = Inr ck"
      "\<forall>c. is_scalar c \<longrightarrow> ckpt_holds I (asFile a) (asRen a) t ck c"
    using fullSave_ok[OF assms, of mv rm] by blast
  show ?thesis
    by (intro exI[of _ d] exI[of _ ck]) (simp add: save_arch_state_def d ck)
qed

text \<open>The conclusion about a restored state.\<close>

definition restored :: "isa \<Rightarrow> (reg_class \<Rightarrow> nat \<Rightarrow> regval) \<Rightarrow> arch_state \<Rightarrow> arch_state \<Rightarrow> bool" where
  "restored I val b a \<longleftrightarrow>
     (\<forall>c i. is_scalar c \<longrightarrow> i < numArchRegs I c \<longrightarrow>
        getArchReg I (asFile a) (asRen a) (arch_reg c i) 0 = Inr (val c i))
     \<and> (\<forall>c \<in> set rename_classes. rsMaps (asRen a) 0 c = rsCommit (asRen a) 0 c)
     \<and> ren_inv 1 I (asFile a) (asRen a) \<and> rsHist (asRen a) 0 = []
     \<and> (\<forall>p. owned (asFile a) p \<longrightarrow> regPoisoned (asFile a) p = Inr False)
     \<and> (\<forall>c \<in> set rename_classes. \<forall>p. p \<in># mapped (rsMaps (asRen a) 0) c \<longrightarrow>
          sb_getReg (isFixedMapping I) (rsBoard (asRen a)) p = Inr True)
     \<and> vecVals (asFile a) = vecVals (asFile b)
     \<and> (\<forall>c \<in> set rename_classes. rsCommit (asRen a) 0 c
           = map Some (take (numArchRegs I c) (regIds (asFile a) c)))
     \<and> rf_wf (asFile a) \<and> asDiverging a 0 = False"

lemma restore_main:
  assumes env: "ren_env I (asFile b)" and fits: "\<And>c. c \<in> set rename_classes \<Longrightarrow> numArchRegs I c \<le> numPhys (asFile b) c"
    and bo: "board_ok (asFile b) (asRen b)" and fr: "\<And>c. c \<notin> set rename_classes \<Longrightarrow> rsFree (asRen b) c = []"
    and ck: "\<And>c. is_scalar c \<Longrightarrow> ckValues (asCkpt b) c = map (val c) [0..<numArchRegs I c]
        \<and> ckValid (asCkpt b) c = [0..<numArchRegs I c]"
    and db: "\<And>c. is_scalar c \<Longrightarrow> asDebug b c = map (val c) [0..<numArchRegs I c]"
  shows "\<exists>a. restoreCheckpointState I (Inr ()) 0 b = Inr a \<and> restored I val b a"
proof -
  let ?rf = "asFile b" and ?s0 = "asRen b" and ?N = "numArchRegs I"
  let ?fl = "\<lambda>c. if c \<in> set rename_classes then regIds ?rf c else []"
  note E = ren_envD[OF env]
  let ?s1 = "?s0\<lparr>rsFree := ?fl, rsMaps := (rsMaps ?s0)(0 := urm_reset I (rsMaps ?s0 0)),
      rsCommit := (rsCommit ?s0)(0 := urm_reset I (rsCommit ?s0 0)), rsHist := (rsHist ?s0)(0 := [])\<rparr>"
  have reset: "ufl_reset ?rf (rsFree ?s0) = Inr ?fl"
    using ufl_reset_ok[OF E(3), of "rsFree ?s0"] fr new_ufl_content[OF E(3)] by simp
  have fr1: "rsFree ?s1 = ?fl" by simp
  note T = remap_taken_props[where I = I and s = ?s1, OF E(3) fr1]
  have bo1: "board_ok ?rf ?s1" using bo by (simp add: board_ok_def)
  obtain sb where sb: "foldE (\<lambda>r sb. sb_setReg (isFixedMapping I) sb r) (remap_taken I rename_classes ?s1)
      (rsBoard ?s1) = Inr sb" "sb_wf sb" "sbNumRegs sb = totalNumRegs ?rf"
    "\<forall>r \<in> set (remap_taken I rename_classes ?s1). sb_getReg (isFixedMapping I) sb r = Inr True"
    using wake_all[OF env bo1 T(2,1)] by blast
  let ?s2 = "remapped I 0 rename_classes ?s1 sb"
  have ready: "remap_ready I ?rf 0 ?s1 c" if "c \<in> set rename_classes" for c
    by (rule reset_ready[OF E(3) that fits[OF that], where ms = "rsMaps ?s0 0" and cms = "rsCommit ?s0 0"])
      (use that in simp_all)
  have remap: "remap_thread (\<lambda>r sb. sb_setReg (isFixedMapping I) sb r) I ?rf 0 ?s1 = Inr ?s2"
    using remap_thread_eq[OF E(1) ready, of "\<lambda>r sb. sb_setReg (isFixedMapping I) sb r"] sb(1) by simp
  have maps: "rsMaps ?s2 0 c = map Some (take (?N c) (regIds ?rf c))"
      "rsCommit ?s2 0 c = map Some (take (?N c) (regIds ?rf c))"
      "rsFree ?s2 c = drop (?N c) (regIds ?rf c)" if "c \<in> set rename_classes" for c
    using that by (simp_all add: remapped_def)
  have mw: "maps_wf I ?rf (rsMaps ?s2 0)" "maps_wf I ?rf (rsCommit ?s2 0)"
    using maps fits ids_len[OF E(3)] by (auto simp: maps_wf_def dest: in_set_takeD)
  have cw: "commit_wf I ?rf ?s2 0" using mw(2) E(2) by (simp add: commit_wf_def)
  have ph: "map (arch_phys ?s2 0 c) [0..<?N c] = take (?N c) (regIds ?rf c)" if "is_scalar c" for c
    using maps(2)[OF saved_rename[OF that]] fits[OF saved_rename[OF that]] ids_len[OF E(3) saved_rename[OF that]]
    by (auto simp: arch_phys_def list_eq_iff_nth_eq)
  have "distinct (map (arch_phys ?s2 0 c) [0..<?N c])" if "is_scalar c" for c
    using ph[OF that] ids_distinct[OF E(3) saved_rename[OF that]] by simp
  from write_back_all[where vs = "ckValues (asCkpt b)" and cs = all_classes, OF cw _ this]
  obtain rf' where rf': "foldE (write_back ?s2 0 (ckValues (asCkpt b))) (ckpt_pairs I all_classes) ?rf = Inr rf'"
    "commit_wf I rf' ?s2 0"
    "\<forall>c i. c \<in> set all_classes \<longrightarrow> is_scalar c \<longrightarrow> i < ?N c \<longrightarrow>
       getReg rf' (arch_phys ?s2 0 c i) = Inr (ckValues (asCkpt b) c ! i)"
    "regIds rf' = regIds ?rf" "numPhys rf' = numPhys ?rf" "totalNumRegs rf' = totalNumRegs ?rf"
    "vecVals rf' = vecVals ?rf"
    by (auto simp: all_classes_def)
  obtain ck' where rest: "ckpt_restore I ?s2 0 (?rf, asCkpt b) = Inr (rf', ck')"
    using restore_classes_eq[where cs = all_classes and ck = "asCkpt b", OF cw] ck rf'(1)
    by (simp add: ckpt_restore_def all_classes_def)
  let ?rf3 = "clearPoison rf'"
  have cw3: "commit_wf I ?rf3 ?s2 0"
    using rf'(2) by (simp add: commit_wf_def maps_wf_def) (simp add: clearPoison_def)
  have sca: "is_scalar c \<Longrightarrow> c \<in> set all_classes" for c
    by (cases c) (simp_all add: is_scalar_def all_classes_def)
  have val: "getArchReg I ?rf3 ?s2 (arch_reg c i) 0 = Inr (val c i)" if "is_scalar c" "i < ?N c" for c i
  proof -
    note A = arch_phys_scalar[OF rf'(2) that]
    have "getArchReg I ?rf3 ?s2 (arch_reg c i) 0 = getReg ?rf3 (arch_phys ?s2 0 c i)"
      using A(1)[of ?rf3] by (simp add: getArchReg_def)
    also have "\<dots> = getReg rf' (arch_phys ?s2 0 c i)" by (rule clearPoison_values[OF A(2)])
    also have "\<dots> = Inr (val c i)" using rf'(3) sca that ck[OF that(1)] by simp
    finally show ?thesis .
  qed
  have chk: "checkStateForValidation I ?rf3 ?s2 0 (asDebug b) = Inr ()"
    by (rule check_ok) (use val db in auto)
  let ?a = "b\<lparr>asRen := ?s2, asFile := ?rf3, asCkpt := ck', asDiverging := (asDiverging b)(0 := False)\<rparr>"
  have run: "restoreCheckpointState I (Inr ()) 0 b = Inr ?a"
    using reset remap rest chk by (simp add: restoreCheckpointState_def Let_def)
  have ids3: "regIds ?rf3 = regIds ?rf" "numPhys ?rf3 = numPhys ?rf" "totalNumRegs ?rf3 = totalNumRegs ?rf"
    "vecVals ?rf3 = vecVals ?rf"
    using rf'(4-7) by (simp_all add: clearPoison_def)
  have wf3: "rf_wf ?rf3" using cw3 by (simp add: commit_wf_def)
  have "ren_inv 1 I ?rf3 ?s2"
  proof -
    have "mset (rsFree ?s2 c) + held (rsMaps ?s2 0) (rsHist ?s2 0) c = mset (regIds ?rf c)"
      if "c \<in> set rename_classes" for c
      using maps(1,3)[OF that] mset_append[of "take (?N c) (regIds ?rf c)" "drop (?N c) (regIds ?rf c)"]
      by (simp add: held_def mapped_def comp_def remapped_def)
    moreover have "maps_wf I ?rf3 (rsMaps ?s2 0)" using mw(1) ids3 by (simp add: maps_wf_def)
    moreover have "rsHist ?s2 0 = []" by (simp add: remapped_def)
    moreover have "board_ok ?rf3 ?s2" using sb(2,3) ids3 by (simp add: board_ok_def remapped_def)
    ultimately show ?thesis using ids3 by (simp add: ren_inv_def thread_ok_def conserved_def)
  qed
  moreover have "regPoisoned ?rf3 p = Inr False" if "owned ?rf3 p" for p
    using clearPoison_reads[of rf' p] that wf3 by (simp add: poison_reg_def)
  moreover have "sb_getReg (isFixedMapping I) sb p = Inr True"
    if "c \<in> set rename_classes" "p \<in># mapped (rsMaps ?s2 0) c" for c p
    using that maps(1)[OF that(1)] sb(4) T(3)[OF that(1)] by (auto simp: mapped_def comp_def)
  moreover have "rsHist ?s2 0 = []" "rsBoard ?s2 = sb" by (simp_all add: remapped_def)
  ultimately have "restored I val b ?a"
    using val maps ids3 wf3 by (simp add: restored_def)
  with run show ?thesis by blast
qed

section \<open>Properties\<close>

lemma restore_from_save:
  assumes "ren_env I (asFile a0)" "\<And>c. c \<in> set rename_classes \<Longrightarrow> numArchRegs I c \<le> numPhys (asFile a0) c"
    "commit_wf I (asFile a0) (asRen a0) 0" "ckpt_wf I (asCkpt a0)"
    "save_arch_state I mv rm 0 a0 = Inr a1" "runahead_frame I a1 b"
  shows "\<exists>a. restoreCheckpointState I (Inr ()) 0 b = Inr a
     \<and> restored I (arch_value (asFile a0) (asRen a0) 0) b a"
proof -
  obtain d ck where s: "a1 = a0\<lparr>asDebug := d, asCkpt := ck\<rparr>"
     "\<forall>c. is_scalar c \<longrightarrow> ckpt_holds I (asFile a0) (asRen a0) 0 ck c"
     "\<forall>c. is_scalar c \<longrightarrow> debug_holds I (asFile a0) (asRen a0) 0 d c"
    using save_arch_state_ok[OF assms(3,4), of mv rm] assms(5) by auto
  note F = assms(6)[unfolded runahead_frame_def]
  show ?thesis
  proof (rule restore_main)
    show "ren_env I (asFile b)" using F assms(1) by (simp add: ren_env_def)
    show "numArchRegs I c \<le> numPhys (asFile b) c" if "c \<in> set rename_classes" for c
      using F assms(2)[OF that] s(1) by simp
    show "board_ok (asFile b) (asRen b)" using F by blast
    show "rsFree (asRen b) c = []" if "c \<notin> set rename_classes" for c using F that by blast
  qed (use F s in \<open>auto simp: ckpt_holds_def debug_holds_def\<close>)
qed

definition small_arch_state :: arch_state where
  "small_arch_state = \<lparr>asRen = small_start, asFile = small_rf, asCkpt = new_ArchCheckpoint small_isa,
     asDebug = (\<lambda>_. []), asDiverging = (\<lambda>_. True)\<rparr>"

definition phys_int0 :: phys_reg where
  "phys_int0 = \<lparr>prClass = IntRegClass, prIndex = 0, prFlat = 0\<rparr>"

lemma small_commit_wf: "commit_wf small_isa small_rf small_start 0"
proof -
  obtain ms where "assigned small_isa small_rf ms 1 small_start" using small_start_assigned by blast
  then have "rsCommit small_start = rsMaps small_start" by (simp add: assigned_def)
  then show ?thesis
    using small_rf_wf ren_invD(1)[OF small_start_inv zero_less_one] by (simp add: commit_wf_def)
qed

lemma small_scalar: "scalar_reg small_rf phys_int0"
  by (simp add: scalar_reg_def small_rf_wf owned_def in_rename_classes is_scalar_def phys_int0_def)
    (simp add: small_rf_def new_PhysRegFile_def Let_def small_arch_def mk_ids_set)

text \<open>The small machine after the save, with register 0 overwritten and poisoned by runahead.\<close>

definition small_runahead :: arch_state where
  "small_runahead = (let a = projr (save_arch_state small_isa (\<lambda>_. True) (\<lambda>_. 0) 0 small_arch_state) in
     a\<lparr>asFile := projr (setPoison (projr (setReg (asFile a) phys_int0 99)) phys_int0 True)\<rparr>)"

lemma small_save:
  "\<exists>a1. save_arch_state small_isa (\<lambda>_. True) (\<lambda>_. 0) 0 small_arch_state = Inr a1
     \<and> runahead_frame small_isa a1 small_runahead
     \<and> getReg (asFile small_runahead) phys_int0 = Inr 99 \<and> asDiverging small_runahead 0"
proof -
  have "commit_wf small_isa (asFile small_arch_state) (asRen small_arch_state) 0"
    using small_commit_wf by (simp add: small_arch_state_def)
  moreover have "ckpt_wf small_isa (asCkpt small_arch_state)"
    by (simp add: small_arch_state_def new_ckpt_wf)
  ultimately obtain d ck where a1: "save_arch_state small_isa (\<lambda>_. True) (\<lambda>_. 0) 0 small_arch_state
      = Inr (small_arch_state\<lparr>asDebug := d, asCkpt := ck\<rparr>)"
    using save_arch_state_ok by blast
  have w: "setReg small_rf phys_int0 99 = Inr (small_rf\<lparr>regVals := (regVals small_rf)(IntRegClass :=
      (regVals small_rf IntRegClass)[0 := 99])\<rparr>)"
    using setReg_ok[OF small_scalar, of 99] by (simp add: phys_int0_def)
  let ?rf = "small_rf\<lparr>regVals := (regVals small_rf)(IntRegClass := (regVals small_rf IntRegClass)[0 := 99])\<rparr>"
  have sr: "scalar_reg ?rf phys_int0" using setReg_scalar[OF small_scalar w] small_scalar by simp
  then have pr: "poison_reg ?rf phys_int0" by (simp add: poison_reg_def scalar_reg_def)
  have p: "setPoison ?rf phys_int0 True = Inr (?rf\<lparr>poisonedRegs := (poisonedRegs ?rf)[0 := True]\<rparr>)"
    using setPoison_ok[OF pr, of True] by (simp add: phys_int0_def)
  let ?rp = "?rf\<lparr>poisonedRegs := (poisonedRegs ?rf)[0 := True]\<rparr>"
  have run: "small_runahead = small_arch_state\<lparr>asDebug := d, asCkpt := ck, asFile := ?rp\<rparr>"
    unfolding small_runahead_def Let_def a1 using w p by (simp add: small_arch_state_def)
  have wf: "rf_wf ?rp" using sr by (simp add: scalar_reg_def poison_frame(1))
  have g99: "getReg ?rf phys_int0 = Inr 99" by (rule scalars.rd_wr_same[OF small_scalar w])
  have pi: "prFlat phys_int0 < length (poisonedRegs small_rf)"
    using flat_bound[of ?rf phys_int0] pr by (simp add: poison_reg_def)
  have g: "getReg (asFile small_runahead) phys_int0 = Inr 99"
    unfolding run using g99 pi by (simp add: setReg_cases phys_int0_def is_scalar_def)
  have nf: "rsFree small_start c = []" if "c \<notin> set rename_classes" for c
  proof -
    have "\<exists>s. initial_rename small_isa small_rf 1 = Inr s \<and> (c \<notin> set rename_classes \<longrightarrow> rsFree s c = [])"
    proof -
      obtain m where m: "urm_init small_isa = Inr m" using urm_init_entry by blast
      have sm: "assigned small_isa small_rf m 0 (start_state small_rf m)"
        by (simp add: assigned_def start_state_def)
      have "remap_thread (\<lambda>r sb. Inr sb) small_isa small_rf 0 (start_state small_rf m)
          = Inr (remapped small_isa 0 rename_classes (start_state small_rf m) (rsBoard (start_state small_rf m)))"
        using remap_thread_eq[OF ren_envD(1)[OF small_env] assigned_ready[OF small_env m sm], of "\<lambda>r sb. Inr sb"]
          small_fits by (simp add: foldE_noop)
      then show ?thesis
        using m new_ufl_content[OF ren_envD(3)[OF small_env]]
        by (simp add: initial_rename_def start_state_def remapped_def)
    qed
    then show ?thesis using small_start_ok that by auto
  qed
  have "runahead_frame small_isa (small_arch_state\<lparr>asDebug := d, asCkpt := ck\<rparr>) small_runahead"
    unfolding runahead_frame_def run
    using wf nf ren_invD(5)[OF small_start_inv zero_less_one]
    by (simp add: small_arch_state_def board_ok_def)
  moreover have "asDiverging small_runahead 0" unfolding run by (simp add: small_arch_state_def)
  ultimately show ?thesis using a1 g by blast
qed

text \<open>
  C19: leaving runahead returns to the architectural state of its entry.  Save the state, let
  runahead overwrite any register values, poison bits, rename maps, histories, free lists and
  ready bits; then \<open>restoreCheckpointState\<close> succeeds, its own check included, and afterwards
  every integer, floating point, vector element and condition code register of the thread has
  its value from before, the two rename maps agree, renaming satisfies its invariant with an
  empty history, nothing is poisoned, every mapped register is ready, and the thread is no longer
  marked as diverging from the committed execution.
\<close>

theorem restore_returns_to_checkpoint:
  assumes "ren_env I (asFile a0)" "\<And>c. c \<in> set rename_classes \<Longrightarrow> numArchRegs I c \<le> numPhys (asFile a0) c"
    "commit_wf I (asFile a0) (asRen a0) 0" "ckpt_wf I (asCkpt a0)"
    "save_arch_state I mv rm 0 a0 = Inr a1" "runahead_frame I a1 b"
  shows "\<exists>a. restoreCheckpointState I (Inr ()) 0 b = Inr a
     \<and> (\<forall>c i. is_scalar c \<longrightarrow> i < numArchRegs I c \<longrightarrow>
          getArchReg I (asFile a) (asRen a) (arch_reg c i) 0
          = getArchReg I (asFile a0) (asRen a0) (arch_reg c i) 0)
     \<and> (\<forall>c \<in> set rename_classes. rsMaps (asRen a) 0 c = rsCommit (asRen a) 0 c)
     \<and> ren_inv 1 I (asFile a) (asRen a) \<and> rsHist (asRen a) 0 = []
     \<and> (\<forall>p. owned (asFile a) p \<longrightarrow> regPoisoned (asFile a) p = Inr False)
     \<and> (\<forall>c \<in> set rename_classes. \<forall>p. p \<in># mapped (rsMaps (asRen a) 0) c \<longrightarrow>
          sb_getReg (isFixedMapping I) (rsBoard (asRen a)) p = Inr True)
     \<and> \<not> asDiverging a 0"
proof -
  obtain a where a: "restoreCheckpointState I (Inr ()) 0 b = Inr a"
    "restored I (arch_value (asFile a0) (asRen a0) 0) b a"
    using restore_from_save[OF assms] by blast
  then show ?thesis
    using getArchReg_ok[OF assms(3)] unfolding restored_def by (intro exI[of _ a]) simp
qed

lemma restore_returns_to_checkpoint_witness:
  "\<exists>a. restoreCheckpointState small_isa (Inr ()) 0 small_runahead = Inr a
     \<and> getArchReg small_isa (asFile a) (asRen a) (arch_reg IntRegClass 0) 0
       = getArchReg small_isa small_rf small_start (arch_reg IntRegClass 0) 0
     \<and> \<not> asDiverging a 0 \<and> asDiverging small_runahead 0 \<and> getReg (asFile small_runahead) phys_int0 = Inr 99"
proof -
  obtain a1 where a1: "save_arch_state small_isa (\<lambda>_. True) (\<lambda>_. 0) 0 small_arch_state = Inr a1"
     "runahead_frame small_isa a1 small_runahead" "getReg (asFile small_runahead) phys_int0 = Inr 99" "asDiverging small_runahead 0"
    using small_save by blast
  have h: "ren_env small_isa (asFile small_arch_state)"
    "commit_wf small_isa (asFile small_arch_state) (asRen small_arch_state) 0"
    "ckpt_wf small_isa (asCkpt small_arch_state)"
    using small_env small_commit_wf by (simp_all add: small_arch_state_def new_ckpt_wf)
  have f: "numArchRegs small_isa c \<le> numPhys (asFile small_arch_state) c" if "c \<in> set rename_classes" for c
    using small_fits[OF that] by (simp add: small_arch_state_def)
  have "is_scalar IntRegClass" "0 < numArchRegs small_isa IntRegClass"
    by (simp_all add: is_scalar_def small_isa_def small_arch_def)
  then show ?thesis
    using restore_returns_to_checkpoint[OF h(1) f h(2,3) a1(1,2)] a1(3,4)
    by (auto simp: small_arch_state_def)
qed

text \<open>
  C23: vector and predicate registers are not part of the return.  After
  \<open>restoreCheckpointState\<close> architectural register \<open>i\<close> of such a class reads what runahead left
  in physical register \<open>i\<close>, whichever physical register held it before and whatever its value
  was: the remapping to \<open>rN -> rN\<close> and the missing checkpoint together lose its value.
\<close>

theorem restore_loses_vector_registers:
  assumes "ren_env I (asFile a0)" "\<And>c. c \<in> set rename_classes \<Longrightarrow> numArchRegs I c \<le> numPhys (asFile a0) c"
    "commit_wf I (asFile a0) (asRen a0) 0" "ckpt_wf I (asCkpt a0)"
    "save_arch_state I mv rm 0 a0 = Inr a1" "runahead_frame I a1 b"
    "is_blob c" "i < numArchRegs I c"
  shows "\<exists>a. restoreCheckpointState I (Inr ()) 0 b = Inr a
     \<and> getArchRegAny I (asFile a) (asRen a) (arch_reg c i) 0 = Inr (Blob (vecVals (asFile b) c ! i))"
proof -
  obtain a where a: "restoreCheckpointState I (Inr ()) 0 b = Inr a"
    "restored I (arch_value (asFile a0) (asRen a0) 0) b a"
    using restore_from_save[OF assms(1-6)] by blast
  let ?rf = "asFile a"
  have c: "c \<in> set rename_classes" using assms(7) by (cases c) (auto simp: is_blob_def in_rename_classes)
  have m: "maps_wf I ?rf (rsMaps (asRen a) 0)" "rsMaps (asRen a) 0 c = rsCommit (asRen a) 0 c"
    using a(2) c by (auto simp: restored_def ren_inv_def thread_ok_def)
  have cm: "rsCommit (asRen a) 0 c = map Some (take (numArchRegs I c) (regIds ?rf c))"
    using a(2) c by (auto simp: restored_def)
  have len: "numArchRegs I c \<le> length (regIds ?rf c)" using m cm c by (auto simp: maps_wf_def)
  have iw: "ids_wf ?rf" "rf_wf ?rf" using a(2) by (auto simp: restored_def rf_wf_def)
  have p: "regIds ?rf c ! i = \<lparr>prClass = c, prIndex = i, prFlat = flat_base (numPhys ?rf) c + i\<rparr>"
    using iw(1) c len assms(8) by (simp add: ids_wf_def mk_ids_def)
  have l: "i < length (vecVals ?rf c)"
    using iw c assms(7,8) len ids_len[OF iw(1) c] by (auto simp: rf_wf_def)
  have "urm_lookup I ?rf (rsCommit (asRen a) 0) (arch_reg c i) = Inr (Some (regIds ?rf c ! i))"
    using cm c assms(8) len by (simp add: urm_lookup_def srm_lookup_def arch_reg_def in_rename_classes)
  then have "getArchRegAny I ?rf (asRen a) (arch_reg c i) 0 = Inr (Blob (vecVals ?rf c ! i))"
    using p l assms(7) by (cases c) (simp_all add: getArchRegAny_def getRegAny_def is_blob_def)
  moreover have "vecVals ?rf = vecVals (asFile b)" using a(2) by (simp add: restored_def)
  ultimately show ?thesis using a(1) by auto
qed

lemma restore_loses_vector_registers_witness:
  "\<exists>a. restoreCheckpointState small_isa (Inr ()) 0 small_runahead = Inr a
     \<and> getArchRegAny small_isa (asFile a) (asRen a) (arch_reg VecRegClass 0) 0
       = Inr (Blob (vecVals (asFile small_runahead) VecRegClass ! 0))"
proof -
  obtain a1 where a1: "save_arch_state small_isa (\<lambda>_. True) (\<lambda>_. 0) 0 small_arch_state = Inr a1"
     "runahead_frame small_isa a1 small_runahead"
    using small_save by blast
  have h: "ren_env small_isa (asFile small_arch_state)"
    "commit_wf small_isa (asFile small_arch_state) (asRen small_arch_state) 0"
    "ckpt_wf small_isa (asCkpt small_arch_state)"
    using small_env small_commit_wf by (simp_all add: small_arch_state_def new_ckpt_wf)
  have f: "numArchRegs small_isa c \<le> numPhys (asFile small_arch_state) c" if "c \<in> set rename_classes" for c
    using small_fits[OF that] by (simp add: small_arch_state_def)
  show ?thesis
    by (rule restore_loses_vector_registers[OF h(1) f h(2,3) a1])
      (simp_all add: is_blob_def small_isa_def small_arch_def)
qed

end
