(* ===== verification/RunaheadCache.thy ===== *)
theory RunaheadCache
  imports Prelude
begin

unbundle bit_operations_syntax

text \<open>
  The runahead cache (\<open>runahead_cache.hh\<close>, \<open>runahead_cache.cc\<close>): a direct-mapped array of
  blocks for the data of runahead stores.  Addresses and tags are 64-bit words, bytes are 8-bit
  words.  \<open>ceilLog2\<close> and the packet operations are gem5's and are arguments: \<open>pkPoison\<close> is
  the poison flag of the \<open>LSQRequest\<close> that sent the packet, \<open>None\<close> if the sender is not one.
  The bytes that \<open>new uint8_t[blockSize]\<close> leaves in a block are an argument of the
  constructor.  The counters of \<open>RCacheStats\<close> are kept.
\<close>

type_synonym addr = "64 word"
type_synonym byte = "8 word"

record cache_block =
  cbData :: "byte list"
  cbTag :: "64 word"
  cbValid :: bool
  cbPoisoned :: bool

record rcache_stats =
  stLookups :: nat
  stWrites :: nat
  stWriteConflicts :: nat
  stPoisonedWrites :: nat
  stWriteCleanses :: nat
  stReadMisses :: nat
  stReadHits :: nat
  stPoisons :: nat
  stInvalidations :: nat
  stPackets :: nat

record rcache =
  rcSize :: nat
  rcBlockSize :: nat
  rcNumBlocks :: nat
  rcEntries :: "cache_block list"
  rcIndexShift :: nat
  rcIndexMask :: "64 word"
  rcTagShift :: nat
  rcStats :: rcache_stats

record packet =
  pkAddr :: addr
  pkWrite :: bool
  pkRead :: bool
  pkNeedsResponse :: bool
  pkData :: "byte list"
  pkPoison :: "bool option"
  pkStatic :: bool

record packet_ops =
  poCopy :: "packet \<Rightarrow> packet"
  poOffset :: "packet \<Rightarrow> nat \<Rightarrow> nat"
  poWriteToBlock :: "packet \<Rightarrow> byte list \<Rightarrow> nat \<Rightarrow> byte list"
  poSetFromBlock :: "packet \<Rightarrow> byte list \<Rightarrow> nat \<Rightarrow> packet"
  poSetData :: "packet \<Rightarrow> byte list \<Rightarrow> packet"
  poMakeResponse :: "packet \<Rightarrow> packet"

section \<open>Operations\<close>

definition no_stats :: rcache_stats where
  "no_stats = \<lparr>stLookups = 0, stWrites = 0, stWriteConflicts = 0, stPoisonedWrites = 0,
     stWriteCleanses = 0, stReadMisses = 0, stReadHits = 0, stPoisons = 0, stInvalidations = 0,
     stPackets = 0\<rparr>"

text \<open>\<open>blockSize\<close> is a \<open>uint8_t\<close>, \<open>indexMask\<close> a 32-bit \<open>uint\<close>.\<close>

definition new_RunaheadCache :: "(nat \<Rightarrow> nat) \<Rightarrow> (nat \<Rightarrow> byte list) \<Rightarrow> nat \<Rightarrow> nat \<Rightarrow> rcache res" where
  "new_RunaheadCache ceilLog2 junk bytes blockSize =
     (let bs = blockSize mod 2 ^ 8; n = bytes div bs in
      if bs = 0 then Inl DivByZero
      else Inr \<lparr>rcSize = bytes, rcBlockSize = bs, rcNumBlocks = n,
        rcEntries = map (\<lambda>k. \<lparr>cbData = junk k, cbTag = 0, cbValid = False, cbPoisoned = False\<rparr>) [0..<n],
        rcIndexShift = ceilLog2 bs,
        rcIndexMask = ucast (push_bit (ceilLog2 n) 1 - 1 :: 32 word),
        rcTagShift = ceilLog2 bs + ceilLog2 n, rcStats = no_stats\<rparr>)"

definition rc_getIndex :: "rcache \<Rightarrow> addr \<Rightarrow> 64 word" where
  "rc_getIndex rc a = drop_bit (rcIndexShift rc) a AND rcIndexMask rc"

definition rc_getTag :: "rcache \<Rightarrow> addr \<Rightarrow> 64 word" where
  "rc_getTag rc a = drop_bit (rcTagShift rc) a"

definition rc_align :: "rcache \<Rightarrow> addr \<Rightarrow> addr" where
  "rc_align rc a = a - a mod of_nat (rcBlockSize rc)"

definition rc_entry :: "rcache \<Rightarrow> addr \<Rightarrow> cache_block res" where
  "rc_entry rc a = vecGet (rcEntries rc) (unat (rc_getIndex rc a))"

definition rc_put :: "rcache \<Rightarrow> addr \<Rightarrow> cache_block \<Rightarrow> rcache" where
  "rc_put rc a b = rc\<lparr>rcEntries := (rcEntries rc)[unat (rc_getIndex rc a) := b]\<rparr>"

definition rc_count :: "(rcache_stats \<Rightarrow> rcache_stats) \<Rightarrow> rcache \<Rightarrow> rcache" where
  "rc_count f rc = rc\<lparr>rcStats := f (rcStats rc)\<rparr>"

text \<open>\<open>getBlock\<close>: the index of the entry that the returned pointer points to.\<close>

definition rc_getBlock :: "rcache \<Rightarrow> addr \<Rightarrow> nat option res" where
  "rc_getBlock rc a =
     bindE (rc_entry rc a) (\<lambda>b.
       Inr (if cbTag b = rc_getTag rc a then Some (unat (rc_getIndex rc a)) else None))"

definition rc_lookup :: "rcache \<Rightarrow> addr \<Rightarrow> (bool \<times> rcache) res" where
  "rc_lookup rc a =
     bindE (rc_entry rc a) (\<lambda>b.
       Inr (cbTag b = rc_getTag rc a \<and> cbValid b, rc_count (\<lambda>s. s\<lparr>stLookups := stLookups s + 1\<rparr>) rc))"

definition rc_write :: "packet_ops \<Rightarrow> packet \<Rightarrow> rcache \<Rightarrow> (packet \<times> rcache) res" where
  "rc_write ops p rc =
     bindE (assertE (pkWrite p)) (\<lambda>_.
     bindE (rc_entry rc (pkAddr p)) (\<lambda>b.
       let conflict = (cbTag b \<noteq> rc_getTag rc (pkAddr p) \<and> cbValid b);
           rc1 = (if conflict
                  then rc_count (\<lambda>s. s\<lparr>stWriteConflicts := stWriteConflicts s + 1,
                         stWriteCleanses := stWriteCleanses s + (if cbPoisoned b then 1 else 0)\<rparr>) rc
                  else rc);
           rc2 = rc_count (\<lambda>s. s\<lparr>stWrites := stWrites s + 1\<rparr>) rc1;
           b1 = b\<lparr>cbTag := rc_getTag rc (pkAddr p), cbValid := True, cbPoisoned := False\<rparr>
       in
       case pkPoison p of
         None \<Rightarrow> Inl NullDeref
       | Some poisoned \<Rightarrow>
           let rc3 = (if poisoned
                      then rc_count (\<lambda>s. s\<lparr>stPoisonedWrites := stPoisonedWrites s + 1\<rparr>) rc2 else rc2);
               b2 = (if poisoned then b1\<lparr>cbPoisoned := True\<rparr> else b1);
               b3 = b2\<lparr>cbData := poWriteToBlock ops p (cbData b2) (rcBlockSize rc)\<rparr>
           in Inr (poSetData ops p (drop (poOffset ops p (rcBlockSize rc)) (cbData b3)),
                   rc_put rc3 (pkAddr p) b3)))"

text \<open>\<open>read\<close>; \<open>None\<close> is the null pointer.\<close>

definition rc_read :: "packet_ops \<Rightarrow> packet \<Rightarrow> rcache \<Rightarrow> (byte list option \<times> packet \<times> rcache) res" where
  "rc_read ops p rc =
     bindE (assertE (pkRead p)) (\<lambda>_.
     bindE (rc_lookup rc (pkAddr p)) (\<lambda>(hit, rc1).
       if \<not> hit then Inr (None, p, rc_count (\<lambda>s. s\<lparr>stReadMisses := stReadMisses s + 1\<rparr>) rc1)
       else
         let rc2 = rc_count (\<lambda>s. s\<lparr>stReadHits := stReadHits s + 1\<rparr>) rc1 in
         bindE (rc_entry rc2 (pkAddr p)) (\<lambda>b.
           let p1 = poSetFromBlock ops p (cbData b) (rcBlockSize rc) in
           if cbPoisoned b then
             (case pkPoison p1 of None \<Rightarrow> Inl NullDeref
              | Some _ \<Rightarrow> Inr (Some (cbData b), p1\<lparr>pkPoison := Some True\<rparr>, rc2))
           else Inr (Some (cbData b), p1, rc2))))"

text \<open>\<open>poisonBlock\<close> as written: \<open>block\<close> is a copy of the entry, and only the copy is changed.\<close>

definition rc_poisonBlock :: "addr \<Rightarrow> rcache \<Rightarrow> rcache res" where
  "rc_poisonBlock a rc =
     bindE (rc_entry rc a) (\<lambda>block.
       let copy = (if cbTag block = rc_getTag rc a then block\<lparr>cbPoisoned := True\<rparr> else block)
       in Inr (rc_count (\<lambda>s. s\<lparr>stPoisons := stPoisons s + 1\<rparr>) rc))"

definition rc_invalidateCache :: "rcache \<Rightarrow> rcache" where
  "rc_invalidateCache rc =
     rc_count (\<lambda>s. s\<lparr>stInvalidations := stInvalidations s + 1\<rparr>)
       (rc\<lparr>rcEntries := map (\<lambda>b. b\<lparr>cbValid := False, cbPoisoned := False\<rparr>) (rcEntries rc)\<rparr>)"

text \<open>\<open>handlePacket\<close>; \<open>None\<close> says that the lookup of a read failed.\<close>

definition rc_respond :: "packet_ops \<Rightarrow> packet \<Rightarrow> packet res" where
  "rc_respond ops p =
     (if pkNeedsResponse p
      then bindE (assertE (\<not> pkNeedsResponse (poMakeResponse ops p))) (\<lambda>_. Inr (poMakeResponse ops p))
      else Inr p)"

definition rc_handlePacket :: "packet_ops \<Rightarrow> packet \<Rightarrow> rcache \<Rightarrow> (packet option \<times> rcache) res" where
  "rc_handlePacket ops pkt rc =
     (let rc1 = rc_count (\<lambda>s. s\<lparr>stPackets := stPackets s + 1\<rparr>) rc; resp = poCopy ops pkt in
      if pkWrite resp then
        bindE (rc_write ops resp rc1) (\<lambda>(p, rc2).
        bindE (rc_respond ops p) (\<lambda>p'. Inr (Some p', rc2)))
      else if pkRead resp then
        bindE (rc_read ops resp rc1) (\<lambda>(data, p, rc2).
          if data = None then Inr (None, rc2)
          else bindE (rc_respond ops p) (\<lambda>p'. Inr (Some p', rc2)))
      else Inl PanicCall)"

section \<open>Geometry\<close>

text \<open>
  A cache of \<open>2 ^ k\<close> blocks of \<open>2 ^ b\<close> bytes; the block of an address is the address without its
  offset bits.
\<close>

definition rc_wf :: "nat \<Rightarrow> nat \<Rightarrow> rcache \<Rightarrow> bool" where
  "rc_wf b k rc \<longleftrightarrow> b + k < 64 \<and> k < 32 \<and> rcIndexShift rc = b \<and> rcTagShift rc = b + k
     \<and> rcIndexMask rc = mask k \<and> length (rcEntries rc) = 2 ^ k \<and> rcBlockSize rc = 2 ^ b"

definition block_of :: "nat \<Rightarrow> addr \<Rightarrow> 64 word" where
  "block_of b a = drop_bit b a"

definition slot_of :: "nat \<Rightarrow> nat \<Rightarrow> addr \<Rightarrow> nat" where
  "slot_of b k a = unat (take_bit k (drop_bit b a))"

lemma rc_wf_index: "rc_wf b k rc \<Longrightarrow> unat (rc_getIndex rc a) = slot_of b k a"
  by (simp add: rc_wf_def rc_getIndex_def slot_of_def take_bit_eq_mask)

lemma slot_less: "k < 64 \<Longrightarrow> slot_of b k a < 2 ^ k"
  unfolding slot_of_def unsigned_take_bit_eq by (rule take_bit_nat_less_exp)

lemma same_block:
  assumes "rc_wf b k rc"
  shows "block_of b a = block_of b a' \<longleftrightarrow> slot_of b k a = slot_of b k a' \<and> rc_getTag rc a = rc_getTag rc a'"
proof -
  have tag: "rc_getTag rc x = drop_bit k (drop_bit b x)" for x
    using assms by (simp add: rc_wf_def rc_getTag_def add.commute)
  have split: "drop_bit b x = push_bit k (rc_getTag rc x) OR take_bit k (drop_bit b x)" for x :: addr
    unfolding tag by (rule bit_eqI) (auto simp: bit_simps)
  show ?thesis
  proof
    assume "block_of b a = block_of b a'"
    then show "slot_of b k a = slot_of b k a' \<and> rc_getTag rc a = rc_getTag rc a'"
      unfolding block_of_def slot_of_def tag by (simp only: simp_thms)
  next
    assume e: "slot_of b k a = slot_of b k a' \<and> rc_getTag rc a = rc_getTag rc a'"
    then have "take_bit k (drop_bit b a) = take_bit k (drop_bit b a')"
      unfolding slot_of_def using unsigned_word_eqI by blast
    then show "block_of b a = block_of b a'"
      using e split[of a] split[of a'] unfolding block_of_def by simp
  qed
qed

lemma ucast_mask32:
  assumes "k < 32"
  shows "(ucast (push_bit k 1 - 1 :: 32 word) :: 64 word) = mask k"
proof -
  have "(push_bit k 1 - 1 :: 32 word) = mask k" by (simp add: mask_eq_exp_minus_1)
  moreover have "(ucast (mask k :: 32 word) :: 64 word) = mask k"
    using assms by (intro bit_word_eqI) (auto simp: bit_simps)
  ultimately show ?thesis by (simp only:)
qed

lemma new_RunaheadCache_wf:
  assumes "ceilLog2 (2 ^ b) = b" "ceilLog2 (2 ^ k) = k" "b < 8" "k < 32"
  shows "\<exists>rc. new_RunaheadCache ceilLog2 junk (2 ^ (b + k)) (2 ^ b) = Inr rc \<and> rc_wf b k rc
     \<and> (\<forall>e \<in> set (rcEntries rc). \<not> cbValid e)"
proof -
  have bs: "(2 :: nat) ^ b mod 2 ^ 8 = 2 ^ b"
    using assms(3) power_strict_increasing[of b 8 "2::nat"] by simp
  have n: "(2 :: nat) ^ (b + k) div 2 ^ b = 2 ^ k" by (simp add: power_add)
  show ?thesis
    using assms(3,4)
    unfolding new_RunaheadCache_def Let_def bs n assms(1,2)
    using assms(3,4) by (simp add: rc_wf_def ucast_mask32 del: push_bit_of_1)
qed

section \<open>What gem5 says of packets\<close>

text \<open>
  The documented behaviour of the packet operations.  A copy has the command, the address, the
  sender and the size of the original; \<open>getOffset\<close> is the offset in the block;
  \<open>writeDataToBlock\<close> and \<open>setDataFromBlock\<close> copy the packet's bytes to and from the block at
  that offset; \<open>setData\<close> copies as many bytes as the packet holds; \<open>makeResponse\<close> turns the
  packet into one that needs no response.
\<close>

definition packet_laws :: "packet_ops \<Rightarrow> bool" where
  "packet_laws ops \<longleftrightarrow>
     (\<forall>p. \<exists>d. poCopy ops p = p\<lparr>pkData := d\<rparr> \<and> length d = length (pkData p))
     \<and> (\<forall>p n. poOffset ops p n = unat (pkAddr p) mod n)
     \<and> (\<forall>p blk. poWriteToBlock ops p blk (length blk) =
          (let off = unat (pkAddr p) mod length blk in
           take off blk @ pkData p @ drop (off + length (pkData p)) blk))
     \<and> (\<forall>p blk. poSetFromBlock ops p blk (length blk) =
          p\<lparr>pkData := take (length (pkData p)) (drop (unat (pkAddr p) mod length blk) blk)\<rparr>)
     \<and> (\<forall>p bytes. poSetData ops p bytes = p\<lparr>pkData := take (length (pkData p)) bytes\<rparr>)
     \<and> (\<forall>p. poMakeResponse ops p = p\<lparr>pkNeedsResponse := False\<rparr>)"

lemma packet_lawsD:
  assumes "packet_laws ops"
  shows "pkAddr (poCopy ops p) = pkAddr p" "pkWrite (poCopy ops p) = pkWrite p"
    "pkRead (poCopy ops p) = pkRead p" "pkPoison (poCopy ops p) = pkPoison p"
    "length (pkData (poCopy ops p)) = length (pkData p)"
    "poOffset ops p n = unat (pkAddr p) mod n"
    "poMakeResponse ops p = p\<lparr>pkNeedsResponse := False\<rparr>"
    "poSetData ops p bytes = p\<lparr>pkData := take (length (pkData p)) bytes\<rparr>"
    "n = length blk \<Longrightarrow> poSetFromBlock ops p blk n =
          p\<lparr>pkData := take (length (pkData p)) (drop (unat (pkAddr p) mod length blk) blk)\<rparr>"
    "n = length blk \<Longrightarrow> poWriteToBlock ops p blk n =
          (take (unat (pkAddr p) mod length blk) blk @ pkData p
            @ drop (unat (pkAddr p) mod length blk + length (pkData p)) blk)"
proof -
  obtain d where "poCopy ops p = p\<lparr>pkData := d\<rparr>" "length d = length (pkData p)"
    using assms unfolding packet_laws_def by blast
  then show "pkAddr (poCopy ops p) = pkAddr p" "pkWrite (poCopy ops p) = pkWrite p"
    "pkRead (poCopy ops p) = pkRead p" "pkPoison (poCopy ops p) = pkPoison p"
    "length (pkData (poCopy ops p)) = length (pkData p)" by simp_all
qed (use assms in \<open>auto simp: packet_laws_def Let_def\<close>)

lemma respond_ok:
  assumes "packet_laws ops"
  shows "rc_respond ops p = Inr (p\<lparr>pkNeedsResponse := False\<rparr>)"
  using packet_lawsD(7)[OF assms] by (auto simp: rc_respond_def intro!: packet.equality)

text \<open>
  A packet whose data are static (\<open>dataStatic\<close>, as \<open>SingleDataRequest\<close> makes them) shares the data
  with its copy.  The copy of any other packet, such as the stores of a \<open>SplitDataRequest\<close>
  (\<open>dataDynamic\<close>), gets fresh memory, about whose content nothing is assumed.
\<close>

definition static_copies :: "packet_ops \<Rightarrow> bool" where
  "static_copies ops \<longleftrightarrow> (\<forall>p. pkStatic p \<longrightarrow> pkData (poCopy ops p) = pkData p)"

section \<open>One packet\<close>

definition rc_full :: "nat \<Rightarrow> nat \<Rightarrow> rcache \<Rightarrow> bool" where
  "rc_full b k rc \<longleftrightarrow> rc_wf b k rc \<and> (\<forall>e \<in> set (rcEntries rc). length (cbData e) = 2 ^ b)"

lemma count_simps [simp]:
  "rcEntries (rc_count f rc) = rcEntries rc" "rc_wf b k (rc_count f rc) = rc_wf b k rc"
  "rc_getTag (rc_count f rc) a = rc_getTag rc a" "rc_getIndex (rc_count f rc) a = rc_getIndex rc a"
  "rcBlockSize (rc_count f rc) = rcBlockSize rc" "rc_entry (rc_count f rc) a = rc_entry rc a"
  by (simp_all add: rc_count_def rc_wf_def rc_getTag_def rc_getIndex_def rc_entry_def)

lemma put_simps [simp]:
  "rcEntries (rc_put rc a e) = (rcEntries rc)[unat (rc_getIndex rc a) := e]"
  "rc_wf b k (rc_put rc a e) = rc_wf b k rc"
  "rc_getTag (rc_put rc a e) a' = rc_getTag rc a'" "rc_getIndex (rc_put rc a e) a' = rc_getIndex rc a'"
  "rcBlockSize (rc_put rc a e) = rcBlockSize rc"
  by (simp_all add: rc_put_def rc_wf_def rc_getTag_def rc_getIndex_def)

lemma entry_ok:
  assumes "rc_wf b k rc"
  shows "rc_entry rc a = Inr (rcEntries rc ! slot_of b k a)" "slot_of b k a < length (rcEntries rc)"
proof -
  show l: "slot_of b k a < length (rcEntries rc)"
    using assms slot_less[of k b a] by (simp add: rc_wf_def)
  then show "rc_entry rc a = Inr (rcEntries rc ! slot_of b k a)"
    using rc_wf_index[OF assms] by (simp add: rc_entry_def)
qed

text \<open>The entry that a store leaves behind.\<close>

definition stored :: "nat \<Rightarrow> nat \<Rightarrow> packet_ops \<Rightarrow> packet \<Rightarrow> bool \<Rightarrow> cache_block \<Rightarrow> cache_block" where
  "stored b k ops p poisoned e = e\<lparr>cbTag := drop_bit (b + k) (pkAddr p), cbValid := True,
     cbPoisoned := poisoned, cbData := poWriteToBlock ops p (cbData e) (2 ^ b)\<rparr>"

lemma write_ok:
  assumes "rc_wf b k rc" "pkWrite p" "pkPoison p = Some poisoned"
  shows "\<exists>rc'. rc_write ops p rc = Inr (poSetData ops p (drop (poOffset ops p (2 ^ b))
        (poWriteToBlock ops p (cbData (rcEntries rc ! slot_of b k (pkAddr p))) (2 ^ b))), rc')
     \<and> rc_wf b k rc' \<and> rcEntries rc' = (rcEntries rc)[slot_of b k (pkAddr p) :=
        stored b k ops p poisoned (rcEntries rc ! slot_of b k (pkAddr p))]"
proof -
  have T: "rc_getTag rc (pkAddr p) = drop_bit (b + k) (pkAddr p)" "rcBlockSize rc = 2 ^ b"
    using assms(1) by (simp_all add: rc_wf_def rc_getTag_def)
  show ?thesis
    using assms entry_ok[OF assms(1), of "pkAddr p"] rc_wf_index[OF assms(1), of "pkAddr p"]
    by (cases poisoned) (simp_all add: rc_write_def Let_def T stored_def)
qed

lemma handle_store:
  assumes "packet_laws ops" "rc_wf b k rc" "pkWrite p" "pkPoison p = Some poisoned"
  shows "\<exists>p' rc'. rc_handlePacket ops p rc = Inr (Some p', rc') \<and> rc_wf b k rc'
     \<and> rcEntries rc' = (rcEntries rc)[slot_of b k (pkAddr p) :=
        stored b k ops (poCopy ops p) poisoned (rcEntries rc ! slot_of b k (pkAddr p))]"
proof -
  let ?rc = "rc_count (\<lambda>s. s\<lparr>stPackets := stPackets s + 1\<rparr>) rc"
  note C = packet_lawsD(1-4)[OF assms(1)]
  have "rc_wf b k ?rc" "pkWrite (poCopy ops p)" "pkPoison (poCopy ops p) = Some poisoned"
    using assms by (simp_all add: C)
  from write_ok[OF this, of ops] show ?thesis
    using assms(3) respond_ok[OF assms(1)]
    by (auto simp: rc_handlePacket_def C Let_def)
qed

text \<open>What a load of \<open>p\<close> from entry \<open>e\<close> answers.\<close>

definition answer :: "nat \<Rightarrow> packet_ops \<Rightarrow> packet \<Rightarrow> cache_block \<Rightarrow> packet" where
  "answer b ops p e = (let q = poSetFromBlock ops p (cbData e) (2 ^ b) in
     (if cbPoisoned e then q\<lparr>pkPoison := Some True\<rparr> else q)\<lparr>pkNeedsResponse := False\<rparr>)"

lemma handle_load:
  assumes "packet_laws ops" "rc_full b k rc" "pkRead p" "\<not> pkWrite p" "pkPoison p = Some was"
    "e = rcEntries rc ! slot_of b k (pkAddr p)"
  shows "\<exists>rc'. rc_handlePacket ops p rc =
      Inr (if cbTag e = drop_bit (b + k) (pkAddr p) \<and> cbValid e then Some (answer b ops (poCopy ops p) e) else None, rc')
     \<and> rc_wf b k rc' \<and> rcEntries rc' = rcEntries rc"
proof -
  have wf: "rc_wf b k rc" using assms(2) by (simp add: rc_full_def)
  note C = packet_lawsD(1-4)[OF assms(1)]
  have T: "rc_getTag rc (pkAddr p) = drop_bit (b + k) (pkAddr p)" "rcBlockSize rc = 2 ^ b"
    using wf by (simp_all add: rc_wf_def rc_getTag_def)
  have len: "2 ^ b = length (cbData e)"
    using assms(2,6) entry_ok(2)[OF wf, of "pkAddr p"] by (simp add: rc_full_def)
  note S = packet_lawsD(9)[OF assms(1) len]
  show ?thesis
    using assms(3-5) entry_ok(1)[OF wf, of "pkAddr p"] respond_ok[OF assms(1)] wf
    by (auto simp: rc_handlePacket_def rc_read_def rc_lookup_def C T S Let_def answer_def assms(6)[symmetric])
qed


section \<open>Sequences of packets\<close>

datatype rc_event = RcPacket packet | RcInvalidate

definition rc_event_ok :: "rc_event \<Rightarrow> bool" where
  "rc_event_ok e = (case e of RcInvalidate \<Rightarrow> True
     | RcPacket p \<Rightarrow> (pkWrite p \<or> pkRead p) \<and> pkPoison p \<noteq> None)"

fun rc_event_step :: "packet_ops \<Rightarrow> rc_event \<Rightarrow> rcache \<Rightarrow> rcache res" where
  "rc_event_step ops (RcPacket p) rc = bindE (rc_handlePacket ops p rc) (\<lambda>(_, rc'). Inr rc')"
| "rc_event_step ops RcInvalidate rc = Inr (rc_invalidateCache rc)"

definition rc_run :: "packet_ops \<Rightarrow> rc_event list \<Rightarrow> rcache \<Rightarrow> rcache res" where
  "rc_run ops es rc = foldE (rc_event_step ops) es rc"

text \<open>
  The abstract view: the youngest store to the slot since the last invalidation; the newest event
  comes first in the list.
\<close>

fun youngest_store :: "nat \<Rightarrow> nat \<Rightarrow> nat \<Rightarrow> rc_event list \<Rightarrow> packet option" where
  "youngest_store b k s [] = None"
| "youngest_store b k s (RcInvalidate # es) = None"
| "youngest_store b k s (RcPacket p # es) =
     (if pkWrite p \<and> slot_of b k (pkAddr p) = s then Some p else youngest_store b k s es)"

lemma youngest_slot: "youngest_store b k s es = Some q \<Longrightarrow> slot_of b k (pkAddr q) = s"
  by (induction b k s es rule: youngest_store.induct) (auto split: if_splits)

definition shows_store :: "nat \<Rightarrow> nat \<Rightarrow> packet option \<Rightarrow> cache_block \<Rightarrow> bool" where
  "shows_store b k q e = (case q of None \<Rightarrow> \<not> cbValid e
     | Some p \<Rightarrow> cbValid e \<and> cbTag e = drop_bit (b + k) (pkAddr p) \<and> pkPoison p = Some (cbPoisoned e))"

definition rc_shows :: "nat \<Rightarrow> nat \<Rightarrow> rc_event list \<Rightarrow> rcache \<Rightarrow> bool" where
  "rc_shows b k es rc \<longleftrightarrow> rc_full b k rc
     \<and> (\<forall>s<2 ^ k. shows_store b k (youngest_store b k s es) (rcEntries rc ! s))"

lemma stored_len:
  assumes "packet_laws ops" "length (cbData e) = 2 ^ b" "unat (pkAddr p) mod 2 ^ b + length (pkData p) \<le> 2 ^ b"
  shows "length (cbData (stored b k ops (poCopy ops p) poisoned e)) = 2 ^ b"
  using packet_lawsD(10)[OF assms(1) assms(2)[symmetric], of "poCopy ops p"] packet_lawsD(1,5)[OF assms(1), of p] assms(2,3)
  by (simp add: stored_def)

text \<open>A packet that stays inside one block, as the LSQ sends them.\<close>

definition in_block :: "nat \<Rightarrow> packet \<Rightarrow> bool" where
  "in_block b p \<longleftrightarrow> unat (pkAddr p) mod 2 ^ b + length (pkData p) \<le> 2 ^ b"

definition event_in_block :: "nat \<Rightarrow> rc_event \<Rightarrow> bool" where
  "event_in_block b e = (case e of RcInvalidate \<Rightarrow> True | RcPacket p \<Rightarrow> in_block b p)"

lemma store_step:
  assumes "packet_laws ops" "rc_full b k rc" "pkWrite p" "pkPoison p = Some poisoned" "in_block b p"
  shows "\<exists>rc'. rc_event_step ops (RcPacket p) rc = Inr rc' \<and> rc_full b k rc'
     \<and> rcEntries rc' = (rcEntries rc)[slot_of b k (pkAddr p) :=
        stored b k ops (poCopy ops p) poisoned (rcEntries rc ! slot_of b k (pkAddr p))]"
proof -
  have wf: "rc_wf b k rc" using assms(2) by (simp add: rc_full_def)
  have "slot_of b k (pkAddr p) < length (rcEntries rc)" by (rule entry_ok(2)[OF wf])
  then have "length (cbData (rcEntries rc ! slot_of b k (pkAddr p))) = 2 ^ b"
    using assms(2) by (simp add: rc_full_def)
  then have l: "length (cbData (stored b k ops (poCopy ops p) poisoned (rcEntries rc ! slot_of b k (pkAddr p)))) = 2 ^ b"
    using stored_len[OF assms(1)] assms(5) by (simp add: in_block_def)
  obtain p' rc' where h: "rc_handlePacket ops p rc = Inr (Some p', rc')" "rc_wf b k rc'"
    "rcEntries rc' = (rcEntries rc)[slot_of b k (pkAddr p) :=
        stored b k ops (poCopy ops p) poisoned (rcEntries rc ! slot_of b k (pkAddr p))]"
    using handle_store[OF assms(1) wf assms(3,4)] by blast
  then have "rc_full b k rc'"
    using assms(2) l by (auto simp: rc_full_def dest!: set_update_subset_insert[THEN subsetD])
  then show ?thesis using h by simp
qed

lemma load_step:
  assumes "packet_laws ops" "rc_full b k rc" "pkRead p" "\<not> pkWrite p" "pkPoison p = Some was"
  shows "\<exists>rc'. rc_event_step ops (RcPacket p) rc = Inr rc' \<and> rc_full b k rc' \<and> rcEntries rc' = rcEntries rc"
  using handle_load[OF assms refl] assms(2) by (auto simp: rc_full_def)

lemma invalidate_step:
  assumes "rc_full b k rc"
  shows "rc_full b k (rc_invalidateCache rc)"
    "i < 2 ^ k \<Longrightarrow> \<not> cbValid (rcEntries (rc_invalidateCache rc) ! i)"
  using assms by (auto simp: rc_full_def rc_invalidateCache_def rc_wf_def rc_count_def)

lemma rc_shows_step:
  assumes "packet_laws ops" "rc_shows b k es rc" "rc_event_ok e" "event_in_block b e"
  shows "\<exists>rc'. rc_event_step ops e rc = Inr rc' \<and> rc_shows b k (e # es) rc'"
proof (cases e)
  case RcInvalidate
  have full: "rc_full b k rc" using assms(2) by (simp add: rc_shows_def)
  show ?thesis
    using invalidate_step[OF full] RcInvalidate by (simp add: rc_shows_def shows_store_def)
next
  case (RcPacket p)
  have full: "rc_full b k rc" using assms(2) by (simp add: rc_shows_def)
  then have wf: "rc_wf b k rc" by (simp add: rc_full_def)
  obtain was where was: "pkPoison p = Some was" using assms(3) RcPacket by (auto simp: rc_event_ok_def)
  show ?thesis
  proof (cases "pkWrite p")
    case True
    have "in_block b p" using assms(4) RcPacket by (simp add: event_in_block_def)
    then obtain rc' where r: "rc_event_step ops e rc = Inr rc'" "rc_full b k rc'"
      "rcEntries rc' = (rcEntries rc)[slot_of b k (pkAddr p) :=
        stored b k ops (poCopy ops p) was (rcEntries rc ! slot_of b k (pkAddr p))]"
      using store_step[OF assms(1) full True was] RcPacket by auto
    have "shows_store b k (youngest_store b k s (e # es)) (rcEntries rc' ! s)" if "s < 2 ^ k" for s
    proof (cases "s = slot_of b k (pkAddr p)")
      case here: True
      then have "rcEntries rc' ! s = stored b k ops (poCopy ops p) was (rcEntries rc ! s)"
        using r(3) entry_ok(2)[OF wf, of "pkAddr p"] by simp
      then show ?thesis
        using here True RcPacket was by (simp add: shows_store_def stored_def packet_lawsD(1)[OF assms(1)])
    next
      case elsewhere: False
      then have "rcEntries rc' ! s = rcEntries rc ! s" using r(3) by simp
      then show ?thesis using elsewhere that assms(2) RcPacket by (simp add: rc_shows_def)
    qed
    then show ?thesis using r by (auto simp: rc_shows_def)
  next
    case False
    then have "pkRead p" using assms(3) RcPacket by (simp add: rc_event_ok_def)
    then obtain rc' where "rc_event_step ops e rc = Inr rc'" "rc_full b k rc'" "rcEntries rc' = rcEntries rc"
      using load_step[OF assms(1) full _ False was] RcPacket by auto
    then show ?thesis using assms(2) False RcPacket by (auto simp: rc_shows_def)
  qed
qed

lemma rc_shows_run:
  assumes "packet_laws ops" "rc_shows b k es0 rc" "list_all rc_event_ok es" "list_all (event_in_block b) es"
  shows "\<exists>rc'. rc_run ops es rc = Inr rc' \<and> rc_shows b k (rev es @ es0) rc'"
  using assms(2-4)
proof (induction es arbitrary: rc es0)
  case Nil
  then show ?case by (simp add: rc_run_def)
next
  case (Cons e es)
  obtain rc1 where r1: "rc_event_step ops e rc = Inr rc1" "rc_shows b k (e # es0) rc1"
    using rc_shows_step[OF assms(1) Cons.prems(1)] Cons.prems(2,3) by auto
  then show ?case using Cons.IH[OF r1(2)] Cons.prems(2,3) by (simp add: rc_run_def)
qed

lemma new_shows:
  assumes "ceilLog2 (2 ^ b) = b" "ceilLog2 (2 ^ k) = k" "b < 8" "k < 32" "\<And>i. length (junk i) = 2 ^ b"
    "new_RunaheadCache ceilLog2 junk (2 ^ (b + k)) (2 ^ b) = Inr rc"
  shows "rc_shows b k [] rc"
proof -
  have wf: "rc_wf b k rc" "\<forall>e \<in> set (rcEntries rc). \<not> cbValid e"
    using new_RunaheadCache_wf[of ceilLog2 b k junk, OF assms(1-4)] assms(6) by auto
  moreover have "\<forall>e \<in> set (rcEntries rc). length (cbData e) = 2 ^ b"
    using assms(5,6) by (auto simp: new_RunaheadCache_def Let_def split: if_splits)
  ultimately show ?thesis by (auto simp: rc_shows_def rc_full_def shows_store_def rc_wf_def)
qed


section \<open>Properties\<close>

text \<open>A concrete geometry and concrete packets for the witnesses: 4 blocks of 16 bytes.\<close>

definition std_ops :: packet_ops where
  "std_ops = \<lparr>poCopy = (\<lambda>p. p), poOffset = (\<lambda>p n. unat (pkAddr p) mod n),
     poWriteToBlock = (\<lambda>p blk n. take (unat (pkAddr p) mod n) blk @ pkData p
        @ drop (unat (pkAddr p) mod n + length (pkData p)) blk),
     poSetFromBlock = (\<lambda>p blk n. p\<lparr>pkData := take (length (pkData p)) (drop (unat (pkAddr p) mod n) blk)\<rparr>),
     poSetData = (\<lambda>p bytes. p\<lparr>pkData := take (length (pkData p)) bytes\<rparr>),
     poMakeResponse = (\<lambda>p. p\<lparr>pkNeedsResponse := False\<rparr>)\<rparr>"

lemma std_ops_laws: "packet_laws std_ops"
proof -
  have "poCopy std_ops p = p\<lparr>pkData := pkData p\<rparr>" for p by (simp add: std_ops_def)
  then have "\<forall>p. \<exists>d. poCopy std_ops p = p\<lparr>pkData := d\<rparr> \<and> length d = length (pkData p)" by blast
  then show ?thesis unfolding packet_laws_def by (simp add: std_ops_def Let_def)
qed

definition small_log :: "nat \<Rightarrow> nat" where
  "small_log n = (if n = 16 then 4 else if n = 1 then 0 else 2)"

definition store_at :: "addr \<Rightarrow> byte list \<Rightarrow> bool \<Rightarrow> packet" where
  "store_at a d poisoned = \<lparr>pkAddr = a, pkWrite = True, pkRead = False, pkNeedsResponse = False,
     pkData = d, pkPoison = Some poisoned, pkStatic = True\<rparr>"

definition load_at :: "addr \<Rightarrow> nat \<Rightarrow> packet" where
  "load_at a n = \<lparr>pkAddr = a, pkWrite = False, pkRead = True, pkNeedsResponse = True,
     pkData = replicate n 0, pkPoison = Some False, pkStatic = True\<rparr>"

text \<open>
  C25: The runahead cache of \<open>2 ^ k\<close> blocks implements this abstract store.  After any sequence
  of packets and invalidations that starts with the constructor, none of them fails, and a load
  is answered if and only if the youngest store to its slot since the last invalidation was to
  the load's own block; the answer is poisoned exactly if that store was poisoned (or the load's
  own request was already).  A load that is not answered leaves the blocks as they are.
\<close>

theorem rcache_answers_follow_the_youngest_store:
  assumes "packet_laws ops" "ceilLog2 (2 ^ b) = b" "ceilLog2 (2 ^ k) = k" "b < 8" "k < 32"
    "\<And>i. length (junk i) = 2 ^ b"
    "new_RunaheadCache ceilLog2 junk (2 ^ (b + k)) (2 ^ b) = Inr rc0"
    "list_all rc_event_ok es" "list_all (event_in_block b) es"
    "pkRead p" "\<not> pkWrite p" "pkPoison p = Some was"
  shows "\<exists>rc rc' r. rc_run ops es rc0 = Inr rc \<and> rc_handlePacket ops p rc = Inr (r, rc') \<and> rcEntries rc' = rcEntries rc
     \<and> (case youngest_store b k (slot_of b k (pkAddr p)) (rev es) of
          None \<Rightarrow> r = None
        | Some q \<Rightarrow> if block_of b (pkAddr q) = block_of b (pkAddr p)
                   then \<exists>a. r = Some a \<and> pkPoison a = Some (pkPoison q = Some True \<or> was)
                   else r = None)"
proof -
  obtain rc where run: "rc_run ops es rc0 = Inr rc" "rc_shows b k (rev es) rc"
    using rc_shows_run[OF assms(1) new_shows[OF assms(2-7)] assms(8,9)] by auto
  let ?s = "slot_of b k (pkAddr p)"
  let ?e = "rcEntries rc ! ?s"
  have full: "rc_full b k rc" and wf: "rc_wf b k rc" using run(2) by (auto simp: rc_shows_def rc_full_def)
  have s: "?s < 2 ^ k" using slot_less assms(5) by simp
  have len: "2 ^ b = length (cbData ?e)"
    using full entry_ok(2)[OF wf, of "pkAddr p"] by (simp add: rc_full_def)
  obtain rc' where h: "rc_handlePacket ops p rc =
      Inr (if cbTag ?e = drop_bit (b + k) (pkAddr p) \<and> cbValid ?e then Some (answer b ops (poCopy ops p) ?e) else None, rc')"
    "rcEntries rc' = rcEntries rc"
    using handle_load[OF assms(1) full assms(10-12) refl] by blast
  have tag: "rc_getTag rc a = drop_bit (b + k) a" for a using wf by (simp add: rc_wf_def rc_getTag_def)
  have sh: "shows_store b k (youngest_store b k ?s (rev es)) ?e" using run(2) s by (simp add: rc_shows_def)
  have slot: "slot_of b k (pkAddr q) = ?s" if "youngest_store b k ?s (rev es) = Some q" for q
    by (rule youngest_slot[OF that])
  have ans: "pkPoison (answer b ops (poCopy ops p) ?e) = Some (cbPoisoned ?e \<or> was)"
    using packet_lawsD(9)[OF assms(1) len, of "poCopy ops p"] packet_lawsD(4)[OF assms(1), of p] assms(12)
    by (simp add: answer_def Let_def)
  show ?thesis
  proof (cases "youngest_store b k ?s (rev es)")
    case None
    then show ?thesis using run(1) h sh by (auto simp: shows_store_def)
  next
    case (Some q)
    have "block_of b (pkAddr q) = block_of b (pkAddr p)
        \<longleftrightarrow> drop_bit (b + k) (pkAddr q) = drop_bit (b + k) (pkAddr p)"
      using same_block[OF wf, of "pkAddr q" "pkAddr p"] slot[OF Some] by (simp add: tag)
    then show ?thesis using run(1) h sh Some ans by (auto simp: shows_store_def)
  qed
qed


definition small_rc :: rcache where
  "small_rc = \<lparr>rcSize = 64, rcBlockSize = 16, rcNumBlocks = 4,
      rcEntries = replicate 4 \<lparr>cbData = replicate 16 7, cbTag = 0, cbValid = False, cbPoisoned = False\<rparr>,
      rcIndexShift = 4, rcIndexMask = 3, rcTagShift = 6, rcStats = no_stats\<rparr>"

lemma small_rc_new:
  "new_RunaheadCache small_log (\<lambda>_. replicate 16 7) (2 ^ (4 + 2)) (2 ^ 4) = Inr small_rc"
  by (simp add: new_RunaheadCache_def small_log_def Let_def map_replicate_const small_rc_def)

lemma small_rc_full: "rc_full 4 2 small_rc"
  by (simp add: rc_full_def rc_wf_def small_rc_def mask_eq_exp_minus_1)

theorem rcache_answers_follow_the_youngest_store_witness:
  "\<exists>rc rc' a. rc_run std_ops [RcPacket (store_at 0x12 [1, 2] True)] small_rc = Inr rc
     \<and> rc_handlePacket std_ops (load_at 0x14 1) rc = Inr (Some a, rc') \<and> pkPoison a = Some True"
proof -
  have "block_of 4 0x12 = block_of 4 0x14" "slot_of 4 2 0x12 = slot_of 4 2 0x14"
    by (simp_all add: block_of_def slot_of_def drop_bit_eq_div)
  then show ?thesis
    using rcache_answers_follow_the_youngest_store[OF std_ops_laws _ _ _ _ _ small_rc_new,
      where es = "[RcPacket (store_at 0x12 [1, 2] True)]" and p = "load_at 0x14 1" and was = False]
    by (auto simp: small_log_def rc_event_ok_def event_in_block_def in_block_def store_at_def load_at_def)
qed

text \<open>The events between a store and a load that leave the store's slot alone.\<close>

definition slot_untouched :: "nat \<Rightarrow> nat \<Rightarrow> nat \<Rightarrow> rc_event \<Rightarrow> bool" where
  "slot_untouched b k s e = (case e of RcInvalidate \<Rightarrow> False
     | RcPacket p \<Rightarrow> \<not> (pkWrite p \<and> slot_of b k (pkAddr p) = s))"

lemma untouched_run:
  assumes "packet_laws ops" "rc_full b k rc" "list_all rc_event_ok es" "list_all (event_in_block b) es"
    "list_all (slot_untouched b k s) es"
  shows "\<exists>rc'. rc_run ops es rc = Inr rc' \<and> rc_full b k rc' \<and> rcEntries rc' ! s = rcEntries rc ! s"
  using assms(2-)
proof (induction es arbitrary: rc)
  case Nil
  then show ?case by (simp add: rc_run_def)
next
  case (Cons e es)
  obtain p where p: "e = RcPacket p" "\<not> (pkWrite p \<and> slot_of b k (pkAddr p) = s)"
    using Cons.prems(4) by (cases e) (auto simp: slot_untouched_def)
  obtain was where was: "pkPoison p = Some was" using Cons.prems(2) p by (auto simp: rc_event_ok_def)
  have "\<exists>rc1. rc_event_step ops e rc = Inr rc1 \<and> rc_full b k rc1 \<and> rcEntries rc1 ! s = rcEntries rc ! s"
  proof (cases "pkWrite p")
    case True
    then show ?thesis
      using store_step[OF assms(1) Cons.prems(1) True was] Cons.prems(3) p by (auto simp: event_in_block_def)
  next
    case False
    then show ?thesis
      using load_step[OF assms(1) Cons.prems(1) _ False was] Cons.prems(2) p by (auto simp: rc_event_ok_def)
  qed
  then obtain rc1 where r1: "rc_event_step ops e rc = Inr rc1" "rc_full b k rc1" "rcEntries rc1 ! s = rcEntries rc ! s"
    by blast
  then show ?case using Cons.IH[OF r1(2)] Cons.prems(2-4) by (simp add: rc_run_def)
qed

definition offset_in :: "nat \<Rightarrow> packet \<Rightarrow> nat" where
  "offset_in b p = unat (pkAddr p) mod 2 ^ b"

text \<open>The bytes of a load from the block of an earlier store.\<close>

lemma load_after_store:
  assumes "packet_laws ops" "rc_full b k rc" "pkWrite p" "pkPoison p = Some poisoned" "in_block b p"
    "list_all rc_event_ok es" "list_all (event_in_block b) es"
    "list_all (slot_untouched b k (slot_of b k (pkAddr p))) es"
    "pkRead q" "\<not> pkWrite q" "pkPoison q = Some was" "block_of b (pkAddr q) = block_of b (pkAddr p)"
  shows "\<exists>rc' a rc''. rc_run ops (RcPacket p # es) rc = Inr rc' \<and> rc_handlePacket ops q rc' = Inr (Some a, rc'')
     \<and> pkPoison a = Some (poisoned \<or> was)
     \<and> pkData a = take (length (pkData q)) (drop (offset_in b q)
          (take (offset_in b p) (cbData (rcEntries rc ! slot_of b k (pkAddr p))) @ pkData (poCopy ops p)
            @ drop (offset_in b p + length (pkData p)) (cbData (rcEntries rc ! slot_of b k (pkAddr p)))))"
proof -
  let ?s = "slot_of b k (pkAddr p)"
  let ?old = "rcEntries rc ! ?s"
  have wf: "rc_wf b k rc" using assms(2) by (simp add: rc_full_def)
  have len: "length (cbData ?old) = 2 ^ b" using assms(2) entry_ok(2)[OF wf, of "pkAddr p"] by (simp add: rc_full_def)
  obtain rc1 where r1: "rc_event_step ops (RcPacket p) rc = Inr rc1" "rc_full b k rc1"
    "rcEntries rc1 = (rcEntries rc)[?s := stored b k ops (poCopy ops p) poisoned ?old]"
    using store_step[OF assms(1-5)] by blast
  obtain rc2 where r2: "rc_run ops es rc1 = Inr rc2" "rc_full b k rc2" "rcEntries rc2 ! ?s = rcEntries rc1 ! ?s"
    using untouched_run[OF assms(1) r1(2) assms(6-8)] by blast
  have slot: "slot_of b k (pkAddr q) = ?s" and tag: "drop_bit (b + k) (pkAddr q) = drop_bit (b + k) (pkAddr p)"
    using same_block[OF wf, of "pkAddr q" "pkAddr p"] assms(12) wf by (auto simp: rc_wf_def rc_getTag_def)
  let ?e = "stored b k ops (poCopy ops p) poisoned ?old"
  have e: "?e = rcEntries rc2 ! slot_of b k (pkAddr q)"
    using r1(3) r2(3) entry_ok(2)[OF wf, of "pkAddr p"] slot by simp
  obtain rc3 where h: "rc_handlePacket ops q rc2 =
      Inr (if cbTag ?e = drop_bit (b + k) (pkAddr q) \<and> cbValid ?e then Some (answer b ops (poCopy ops q) ?e) else None, rc3)"
    using handle_load[OF assms(1) r2(2) assms(9-11) e] by blast
  have hit: "cbTag ?e = drop_bit (b + k) (pkAddr q)" "cbValid ?e" "cbPoisoned ?e = poisoned"
    using tag packet_lawsD(1)[OF assms(1)] by (simp_all add: stored_def)
  have d: "cbData ?e = take (offset_in b p) (cbData ?old) @ pkData (poCopy ops p)
            @ drop (offset_in b p + length (pkData p)) (cbData ?old)"
    using packet_lawsD(10)[OF assms(1) len[symmetric], of "poCopy ops p"] packet_lawsD(1,5)[OF assms(1), of p] len
    by (simp add: stored_def offset_in_def)
  have le: "2 ^ b = length (cbData ?e)"
    using stored_len[OF assms(1) len] assms(5) by (simp add: in_block_def)
  have "pkPoison (answer b ops (poCopy ops q) ?e) = Some (poisoned \<or> was)"
    "pkData (answer b ops (poCopy ops q) ?e) = take (length (pkData q)) (drop (offset_in b q) (cbData ?e))"
    using packet_lawsD(9)[OF assms(1) le, of "poCopy ops q"] packet_lawsD(1,4,5)[OF assms(1), of q] assms(11) hit(3) le
    by (simp_all add: answer_def Let_def offset_in_def)
  then show ?thesis
    using r1(1) r2(1) h hit d by (auto simp: rc_run_def)
qed

text \<open>
  C26: A load gets the bytes of the store.  After a store with static data, and then any packets
  that do not store to its slot, a load of bytes inside the stored range is answered with exactly
  those bytes of the store's packet, and with the store's poison.
\<close>

theorem rcache_load_returns_stored_bytes:
  assumes "packet_laws ops" "rc_full b k rc" "pkWrite p" "pkPoison p = Some poisoned" "in_block b p"
    "list_all rc_event_ok es" "list_all (event_in_block b) es"
    "list_all (slot_untouched b k (slot_of b k (pkAddr p))) es"
    "pkRead q" "\<not> pkWrite q" "pkPoison q = Some was" "block_of b (pkAddr q) = block_of b (pkAddr p)"
    "offset_in b p \<le> offset_in b q" "offset_in b q + length (pkData q) \<le> offset_in b p + length (pkData p)"
    "static_copies ops" "pkStatic p"
  shows "\<exists>rc' a rc''. rc_run ops (RcPacket p # es) rc = Inr rc' \<and> rc_handlePacket ops q rc' = Inr (Some a, rc'')
     \<and> pkPoison a = Some (poisoned \<or> was)
     \<and> pkData a = take (length (pkData q)) (drop (offset_in b q - offset_in b p) (pkData p))"
proof -
  have copy: "pkData (poCopy ops p) = pkData p" using assms(15,16) by (simp add: static_copies_def)
  have wf: "rc_wf b k rc" using assms(2) by (simp add: rc_full_def)
  have "length (cbData (rcEntries rc ! slot_of b k (pkAddr p))) = 2 ^ b"
    using assms(2) entry_ok(2)[OF wf, of "pkAddr p"] by (simp add: rc_full_def)
  then show ?thesis
    using load_after_store[OF assms(1-12)] packet_lawsD(5)[OF assms(1), of p] assms(5,13,14) copy
    by (auto simp: in_block_def offset_in_def[symmetric])
qed

theorem rcache_load_returns_stored_bytes_witness:
  "\<exists>rc' a rc''. rc_run std_ops [RcPacket (store_at 0x12 [1, 2, 3] False)] small_rc = Inr rc'
     \<and> rc_handlePacket std_ops (load_at 0x13 2) rc' = Inr (Some a, rc'')
     \<and> pkPoison a = Some False \<and> pkData a = [2, 3]"
proof -
  have o: "offset_in 4 (store_at 0x12 [1, 2, 3] False) = 2" "offset_in 4 (load_at 0x13 2) = 3"
    by (simp_all add: offset_in_def store_at_def load_at_def)
  have blk: "block_of 4 (pkAddr (load_at 0x13 2)) = block_of 4 (pkAddr (store_at 0x12 [1, 2, 3] False))"
    by (simp add: block_of_def store_at_def load_at_def drop_bit_eq_div)
  have inb: "in_block 4 (store_at 0x12 [1, 2, 3] False)" by (simp add: in_block_def store_at_def)
  have copy: "poCopy std_ops p = p" for p by (simp add: std_ops_def)
  show ?thesis
    using rcache_load_returns_stored_bytes[OF std_ops_laws small_rc_full _ _ inb _ _ _ _ _ _ blk,
      where es = "[]" and poisoned = False and was = False] o
    by (simp add: static_copies_def copy store_at_def load_at_def)
qed

text \<open>
  C27: The block of a store becomes valid as a whole: a later load of other bytes of that block is
  answered from the runahead cache with whatever the slot held before the store, also when that
  was another block or the initial content of the memory.
\<close>

theorem rcache_load_of_unwritten_bytes_is_stale:
  assumes "packet_laws ops" "rc_full b k rc" "pkWrite p" "pkPoison p = Some poisoned" "in_block b p"
    "pkRead q" "\<not> pkWrite q" "pkPoison q = Some was" "block_of b (pkAddr q) = block_of b (pkAddr p)"
    "offset_in b p + length (pkData p) \<le> offset_in b q"
  shows "\<exists>rc' a rc''. rc_run ops [RcPacket p] rc = Inr rc' \<and> rc_handlePacket ops q rc' = Inr (Some a, rc'')
     \<and> pkData a = take (length (pkData q)) (drop (offset_in b q) (cbData (rcEntries rc ! slot_of b k (pkAddr p))))"
proof -
  have wf: "rc_wf b k rc" using assms(2) by (simp add: rc_full_def)
  have "length (cbData (rcEntries rc ! slot_of b k (pkAddr p))) = 2 ^ b"
    using assms(2) entry_ok(2)[OF wf, of "pkAddr p"] by (simp add: rc_full_def)
  then show ?thesis
    using load_after_store[OF assms(1-5), of "[]" q was] packet_lawsD(5)[OF assms(1), of p] assms(5-10)
    by (auto simp: in_block_def offset_in_def[symmetric])
qed

theorem rcache_load_of_unwritten_bytes_is_stale_witness:
  "\<exists>rc' a rc''. rc_run std_ops [RcPacket (store_at 0x12 [1, 2, 3] False)] small_rc = Inr rc'
     \<and> rc_handlePacket std_ops (load_at 0x16 2) rc' = Inr (Some a, rc'') \<and> pkData a = [7, 7]"
proof -
  have o: "offset_in 4 (store_at 0x12 [1, 2, 3] False) = 2" "offset_in 4 (load_at 0x16 2) = 6"
    by (simp_all add: offset_in_def store_at_def load_at_def)
  have blk: "block_of 4 (pkAddr (load_at 0x16 2)) = block_of 4 (pkAddr (store_at 0x12 [1, 2, 3] False))"
    by (simp add: block_of_def store_at_def load_at_def drop_bit_eq_div)
  have inb: "in_block 4 (store_at 0x12 [1, 2, 3] False)" by (simp add: in_block_def store_at_def)
  have "slot_of 4 2 (pkAddr (store_at 0x12 [1, 2, 3] False)) < 2 ^ 2" by (rule slot_less) simp
  then have old: "cbData (rcEntries small_rc ! slot_of 4 2 (pkAddr (store_at 0x12 [1, 2, 3] False))) = replicate 16 7"
    by (simp add: small_rc_def)
  show ?thesis
    using rcache_load_of_unwritten_bytes_is_stale[OF std_ops_laws small_rc_full _ _ inb _ _ _ blk,
      where poisoned = False and was = False] o
    unfolding old by (simp add: store_at_def load_at_def take_replicate drop_replicate numeral_2_eq_2)
qed

text \<open>
  When the number of blocks is not a power of two, an index can point past the end of the
  array: a store to the block address \<open>numBlocks\<close> reads outside the vector.  (\<open>ceilLog2\<close> is the
  rounded up logarithm, so the mask covers more than \<open>numBlocks\<close> indices.)
\<close>

theorem rcache_index_past_the_end:
  assumes "new_RunaheadCache ceilLog2 junk bytes blockSize = Inr rc"
    "rcNumBlocks rc < 2 ^ ceilLog2 (rcNumBlocks rc)" "ceilLog2 (rcNumBlocks rc) < 32"
    "ceilLog2 (rcNumBlocks rc) + rcIndexShift rc < 64"
    "pkWrite p" "pkAddr p = push_bit (rcIndexShift rc) (of_nat (rcNumBlocks rc))"
  shows "rc_write ops p rc = Inl OutOfRange"
proof -
  let ?n = "rcNumBlocks rc" and ?s = "rcIndexShift rc"
  let ?k = "ceilLog2 ?n"
  have rc: "length (rcEntries rc) = ?n" "rcIndexMask rc = mask ?k"
    using assms(1) ucast_mask32[OF assms(3)]
    by (auto simp: new_RunaheadCache_def Let_def simp del: push_bit_of_1 split: if_splits)
  have "rc_getIndex rc (pkAddr p) = take_bit ?k (of_nat ?n)"
    unfolding rc_getIndex_def assms(6) rc(2) using assms(4)
    by (intro bit_word_eqI) (auto simp: bit_simps)
  also have "\<dots> = of_nat ?n" using assms(2) by (simp add: take_bit_of_nat take_bit_nat_eq_self)
  finally have i: "rc_getIndex rc (pkAddr p) = of_nat ?n" .
  have "(2 :: nat) ^ ?k < 2 ^ 64" using assms(3) by (intro power_strict_increasing) auto
  then have "?n < 2 ^ 64" using assms(2) by linarith
  then have "unat (rc_getIndex rc (pkAddr p)) = ?n"
    unfolding i by (simp add: unsigned_of_nat take_bit_nat_eq_self)
  then show ?thesis using assms(5) rc(1) by (simp add: rc_write_def rc_entry_def vecGet_def)
qed


text \<open>Three blocks of 16 bytes: the address 48 has index 3.\<close>

theorem rcache_index_past_the_end_witness:
  "\<exists>rc. new_RunaheadCache small_log (\<lambda>_. replicate 16 7) 48 16 = Inr rc
     \<and> rc_write std_ops (store_at 48 [1] False) rc = Inl OutOfRange"
proof -
  obtain rc where rc: "new_RunaheadCache small_log (\<lambda>_. replicate 16 7) 48 16 = Inr rc"
    "rcNumBlocks rc = 3" "rcIndexShift rc = 4"
    by (simp add: new_RunaheadCache_def small_log_def Let_def)
  have "rc_write std_ops (store_at 48 [1] False) rc = Inl OutOfRange"
    by (rule rcache_index_past_the_end[OF rc(1)])
      (simp_all add: rc(2,3) small_log_def store_at_def push_bit_eq_mult)
  with rc(1) show ?thesis by blast
qed

end
