(* ===== verification/DynInst.thy ===== *)
theory DynInst
  imports RenameMap
begin

text \<open>
  The dynamic instruction (\<open>dyn_inst.hh\<close>, \<open>dyn_inst.cc\<close>): its status and flag bits, its
  renamed registers, and the operations on them that the pipeline uses.  The static
  instruction is gem5's; what the sources ask of it is a set of properties.  Of the saved
  memory request the runahead flag, the state and the access depths of its parts are kept
  (\<open>None\<close> when there is no request).  A program counter is the pair of instruction address and
  micro-op counter that \<open>PCPair\<close> keeps.  Faults are gem5's; the sources tell apart the two
  named ones.
\<close>

datatype inst_status =
    IqEntry | RobEntry | LsqEntry | Completed | ResultReady | CanIssue | Issued | Executed
  | CanCommit | AtCommit | Committed | Squashed | SquashedInIQ | SquashedInLSQ | SquashedInROB
  | PinnedRegsRenamed | PinnedRegsWritten | PinnedRegsSquashDone | RecoverInst | BlockingInst
  | ThreadsyncWait | SerializeBefore | SerializeAfter | SerializeHandled

datatype inst_flag =
    RemovePending | NotAnInst | TranslationStarted | TranslationCompleted | PossibleLoadViolation
  | HitExternalSnoop | EffAddrValid | RecordResult | Predicate | MemAccPredicate | PredTaken
  | IsStrictlyOrdered | ReqMade | MemOpDone | HtmFromTransaction | Poisoned | Runahead
  | ForgedResponse

datatype static_prop =
    IsLoad | IsStore | IsAtomic | IsControl | IsNonSpeculative | IsReadBarrier | IsWriteBarrier
  | IsSerializeBefore | IsSerializeAfter | IsNop | IsMicroop | IsLastMicroop | IsHtmStart
  | IsHtmStop | IsStoreConditional | IsDelayedCommit | IsSquashAfter | IsReturn | IsMemRef
  | IsInstPrefetch | IsUncondCtrl | IsSyscall | IsCondCtrl | IsHtmCmd | IsFullMemBarrier

datatype fault = SyscallRetryFault | GenericHtmFailureFault | OtherFault nat

type_synonym pc_pair = "nat \<times> nat"

record lsq_req =
  rqRunahead :: bool
  rqComplete :: bool
  rqSent :: bool
  rqDepths :: "int list"

record dyn_inst =
  diSeq :: nat
  diTid :: nat
  diPC :: pc_pair
  diProps :: "static_prop set"
  diStatus :: "inst_status set"
  diFlags :: "inst_flag set"
  diSrcs :: "phys_reg list"
  diDests :: "phys_reg list"
  diReadyRegs :: nat
  diReadySrc :: "bool list"
  diSavedReq :: "lsq_req option"
  diFault :: "fault option"
  diFlatDests :: "reg_id list"
  diFirstIssue :: nat

definition has_prop :: "static_prop \<Rightarrow> dyn_inst \<Rightarrow> bool" where
  "has_prop p i \<longleftrightarrow> p \<in> diProps i"

definition has_status :: "inst_status \<Rightarrow> dyn_inst \<Rightarrow> bool" where
  "has_status b i \<longleftrightarrow> b \<in> diStatus i"

definition has_flag :: "inst_flag \<Rightarrow> dyn_inst \<Rightarrow> bool" where
  "has_flag b i \<longleftrightarrow> b \<in> diFlags i"

definition set_status :: "inst_status \<Rightarrow> dyn_inst \<Rightarrow> dyn_inst" where
  "set_status b i = i\<lparr>diStatus := insert b (diStatus i)\<rparr>"

definition reset_status :: "inst_status \<Rightarrow> dyn_inst \<Rightarrow> dyn_inst" where
  "reset_status b i = i\<lparr>diStatus := diStatus i - {b}\<rparr>"

definition set_flag :: "inst_flag \<Rightarrow> dyn_inst \<Rightarrow> dyn_inst" where
  "set_flag b i = i\<lparr>diFlags := insert b (diFlags i)\<rparr>"

text \<open>\<open>setPoisoned\<close>, \<open>setRunahead\<close> (\<open>inRun\<close> is the CPU's flag) and \<open>setForgedResponse\<close>.\<close>

definition setPoisoned :: "dyn_inst \<Rightarrow> dyn_inst res" where
  "setPoisoned i = bindE (assertE (has_flag Runahead i)) (\<lambda>_. Inr (set_flag Poisoned i))"

definition setRunahead :: "bool \<Rightarrow> dyn_inst \<Rightarrow> dyn_inst res" where
  "setRunahead inRun i = bindE (assertE inRun) (\<lambda>_.
     let i = set_flag Runahead i in
     Inr (if has_flag ReqMade i
          then i\<lparr>diSavedReq := map_option (\<lambda>r. r\<lparr>rqRunahead := True\<rparr>) (diSavedReq i)\<rparr> else i))"

definition setForgedResponse :: "dyn_inst \<Rightarrow> dyn_inst res" where
  "setForgedResponse i =
     bindE (assertE (has_flag Runahead i \<and> has_prop IsLoad i)) (\<lambda>_. Inr (set_flag ForgedResponse i))"

definition setPinnedRegsRenamed :: "dyn_inst \<Rightarrow> dyn_inst res" where
  "setPinnedRegsRenamed i =
     bindE (assertE (\<not> has_status PinnedRegsSquashDone i)) (\<lambda>_.
     bindE (assertE (\<not> has_status PinnedRegsWritten i)) (\<lambda>_. Inr (set_status PinnedRegsRenamed i)))"

definition setPinnedRegsWritten :: "dyn_inst \<Rightarrow> dyn_inst res" where
  "setPinnedRegsWritten i =
     bindE (assertE (\<not> has_status PinnedRegsSquashDone i)) (\<lambda>_.
     bindE (assertE (has_status PinnedRegsRenamed i)) (\<lambda>_. Inr (set_status PinnedRegsWritten i)))"

text \<open>
  \<open>setSquashed\<close>.  \<open>isPinned\<close> is \<open>PhysRegId::isPinned\<close>.  The assertion inside
  \<open>setPinnedRegsSquashDone\<close> cannot fail here, because the code returned before if the bit was
  set.
\<close>

definition setSquashed ::
  "(phys_reg \<Rightarrow> bool) \<Rightarrow> dyn_inst \<times> pin_counts \<Rightarrow> dyn_inst \<times> pin_counts"
where
  "setSquashed isPinned = (\<lambda>(i, pc).
     let i = set_status Squashed i in
     if \<not> has_status PinnedRegsRenamed i \<or> has_status PinnedRegsSquashDone i then (i, pc)
     else
       (set_status PinnedRegsSquashDone i,
        fold (\<lambda>r pc.
          if isPinned r then
            let pc = pc\<lparr>numPinned := (numPinned pc)(r := numPinned pc r + 1)\<rparr> in
            if has_status PinnedRegsWritten i
            then pc\<lparr>pinnedToComplete := (pinnedToComplete pc)(r := pinnedToComplete pc r + 1)\<rparr>
            else pc
          else pc) (diDests i) pc))"

text \<open>\<open>markSrcRegReady(src_idx)\<close>.\<close>

definition markSrcRegReady :: "nat \<Rightarrow> dyn_inst \<Rightarrow> dyn_inst res" where
  "markSrcRegReady k i =
     bindE (vecSet (diReadySrc i) k True) (\<lambda>rs.
       let i = i\<lparr>diReadySrc := rs, diReadyRegs := diReadyRegs i + 1\<rparr> in
       Inr (if diReadyRegs i = length (diSrcs i) then set_status CanIssue i else i))"

lemma status_simps [simp]:
  "has_status b (set_status c i) \<longleftrightarrow> b = c \<or> has_status b i"
  "has_status b (reset_status c i) \<longleftrightarrow> b \<noteq> c \<and> has_status b i"
  "has_status b (set_flag f i) = has_status b i"
  "has_flag f (set_flag g i) \<longleftrightarrow> f = g \<or> has_flag f i"
  "has_flag f (set_status b i) = has_flag f i"
  "has_flag f (reset_status b i) = has_flag f i"
  "has_prop p (set_status b i) = has_prop p i"
  "has_prop p (reset_status b i) = has_prop p i"
  "has_prop p (set_flag f i) = has_prop p i"
  by (auto simp: has_status_def has_flag_def has_prop_def set_status_def reset_status_def set_flag_def)

lemma inst_frame [simp]:
  "diSeq (set_status b i) = diSeq i" "diSeq (reset_status b i) = diSeq i" "diSeq (set_flag f i) = diSeq i"
  "diTid (set_status b i) = diTid i" "diTid (reset_status b i) = diTid i" "diTid (set_flag f i) = diTid i"
  "diPC (set_status b i) = diPC i" "diPC (reset_status b i) = diPC i" "diPC (set_flag f i) = diPC i"
  "diSrcs (set_status b i) = diSrcs i" "diSrcs (reset_status b i) = diSrcs i" "diSrcs (set_flag f i) = diSrcs i"
  "diDests (set_status b i) = diDests i" "diDests (reset_status b i) = diDests i" "diDests (set_flag f i) = diDests i"
  by (simp_all add: set_status_def reset_status_def set_flag_def)

text \<open>The instruction part of \<open>setSquashed\<close> does not depend on the counters.\<close>

definition squash_mark :: "dyn_inst \<Rightarrow> dyn_inst" where
  "squash_mark i = (let i = set_status Squashed i in
     if \<not> has_status PinnedRegsRenamed i \<or> has_status PinnedRegsSquashDone i then i
     else set_status PinnedRegsSquashDone i)"

lemma setSquashed_fst: "fst (setSquashed isPinned (i, pc)) = squash_mark i"
  by (simp add: setSquashed_def squash_mark_def Let_def)

lemma squash_mark_simps [simp]:
  "diSeq (squash_mark i) = diSeq i" "diTid (squash_mark i) = diTid i"
  "has_status Squashed (squash_mark i)" "has_status Committed (squash_mark i) = has_status Committed i"
  "has_status RobEntry (squash_mark i) = has_status RobEntry i"
  "has_status CanCommit (squash_mark i) = has_status CanCommit i"
  by (simp_all add: squash_mark_def Let_def)

end
