(* ===== verification/ROB.thy ===== *)
theory ROB
  imports DynInst
begin

text \<open>
  The reorder buffer (\<open>rob.hh\<close>, \<open>rob.cc\<close>).  Each thread has a list of instructions, oldest
  first.  A \<open>std::list\<close> iterator points at a node, so it is written as the sequence number of
  the instruction there (sequence numbers are unique), or \<open>None\<close> for \<open>end()\<close>; following an
  iterator whose node is gone, or moving before \<open>begin()\<close>, is the failure \<open>BadIterator\<close>.
  \<open>head\<close> and \<open>tail\<close> also carry the thread whose list they point into.
\<close>

datatype smt_policy = DynamicPolicy | PartitionedPolicy | ThresholdPolicy

datatype rob_status = RobRunning | RobIdle | RobSquashing

record rob =
  instList :: "nat \<Rightarrow> dyn_inst list"
  threadEntries :: "nat \<Rightarrow> nat"
  maxEntries :: "nat \<Rightarrow> nat"
  numEntries :: nat
  squashWidth :: nat
  robThreads :: nat
  numInstsInROB :: int
  squashIt :: "nat \<Rightarrow> nat option"
  squashedSeqNum :: "nat \<Rightarrow> nat"
  doneSquashing :: "nat \<Rightarrow> bool"
  robStatus :: "nat \<Rightarrow> rob_status"
  robPolicy :: smt_policy
  robHead :: "nat \<times> nat option"
  robTail :: "nat \<times> nat option"

definition maxThreads :: nat where
  "maxThreads = 4"

section \<open>Iterators\<close>

fun pos_of :: "dyn_inst list \<Rightarrow> nat \<Rightarrow> nat option" where
  "pos_of [] q = None"
| "pos_of (i # is) q = (if diSeq i = q then Some 0 else map_option Suc (pos_of is q))"

definition it_get :: "dyn_inst list \<Rightarrow> nat option \<Rightarrow> dyn_inst res" where
  "it_get l it = (case it of None \<Rightarrow> Inl BadIterator
     | Some q \<Rightarrow> (case pos_of l q of None \<Rightarrow> Inl BadIterator | Some k \<Rightarrow> Inr (l ! k)))"

definition it_set :: "dyn_inst list \<Rightarrow> nat option \<Rightarrow> dyn_inst \<Rightarrow> dyn_inst list res" where
  "it_set l it i = (case it of None \<Rightarrow> Inl BadIterator
     | Some q \<Rightarrow> (case pos_of l q of None \<Rightarrow> Inl BadIterator | Some k \<Rightarrow> Inr (l[k := i])))"

definition it_begin :: "dyn_inst list \<Rightarrow> nat option" where
  "it_begin l = (case l of [] \<Rightarrow> None | i # _ \<Rightarrow> Some (diSeq i))"

text \<open>\<open>--it\<close>, where decrementing \<open>end()\<close> of a non-empty list gives its last element.\<close>

definition it_dec :: "dyn_inst list \<Rightarrow> nat option \<Rightarrow> nat option res" where
  "it_dec l it = (case it of
     None \<Rightarrow> if l = [] then Inl BadIterator else Inr (Some (diSeq (last l)))
   | Some q \<Rightarrow> (case pos_of l q of
        None \<Rightarrow> Inl BadIterator
      | Some 0 \<Rightarrow> Inl BadIterator
      | Some (Suc k) \<Rightarrow> Inr (Some (diSeq (l ! k)))))"

section \<open>Operations\<close>

definition rob_resetState :: "rob \<Rightarrow> rob" where
  "rob_resetState r = r\<lparr>
     threadEntries := (\<lambda>t. if t < maxThreads then 0 else threadEntries r t),
     squashIt := (\<lambda>t. if t < maxThreads then None else squashIt r t),
     squashedSeqNum := (\<lambda>t. if t < maxThreads then 0 else squashedSeqNum r t),
     doneSquashing := (\<lambda>t. if t < maxThreads then True else doneSquashing r t),
     numInstsInROB := 0, robHead := (0, None), robTail := (0, None)\<rparr>"

definition new_ROB :: "smt_policy \<Rightarrow> nat \<Rightarrow> nat \<Rightarrow> nat \<Rightarrow> nat \<Rightarrow> rob res" where
  "new_ROB policy entries width threads threshold =
     (if policy = PartitionedPolicy \<and> threads = 0 then Inl DivByZero
      else Inr (rob_resetState \<lparr>instList = (\<lambda>_. []), threadEntries = (\<lambda>_. 0),
        maxEntries = (\<lambda>t. if t < threads then
            (case policy of DynamicPolicy \<Rightarrow> entries
             | PartitionedPolicy \<Rightarrow> entries div threads
             | ThresholdPolicy \<Rightarrow> threshold) else 0),
        numEntries = entries, squashWidth = width, robThreads = threads, numInstsInROB = 0,
        squashIt = (\<lambda>_. None), squashedSeqNum = (\<lambda>_. 0), doneSquashing = (\<lambda>_. True),
        robStatus = (\<lambda>_. RobRunning), robPolicy = policy,
        robHead = (0, None), robTail = (0, None)\<rparr>))"

definition rob_resetEntries :: "nat list \<Rightarrow> rob \<Rightarrow> rob" where
  "rob_resetEntries active r =
     (if robPolicy r \<noteq> DynamicPolicy \<or> robThreads r > 1 then
        fold (\<lambda>t r.
          if robPolicy r = PartitionedPolicy
          then r\<lparr>maxEntries := (maxEntries r)(t := numEntries r div length active)\<rparr>
          else if robPolicy r = ThresholdPolicy \<and> length active = 1
          then r\<lparr>maxEntries := (maxEntries r)(t := numEntries r)\<rparr>
          else r) active r
      else r)"

definition rob_entryAmount :: "rob \<Rightarrow> nat \<Rightarrow> nat res" where
  "rob_entryAmount r n =
     (if robPolicy r = PartitionedPolicy
      then (if n = 0 then Inl DivByZero else Inr (numEntries r div n))
      else Inr 0)"

definition rob_countInstsOf :: "rob \<Rightarrow> nat \<Rightarrow> nat" where
  "rob_countInstsOf r t = length (instList r t)"

definition rob_countInsts :: "rob \<Rightarrow> nat" where
  "rob_countInsts r = sum_list (map (rob_countInstsOf r) [0..<robThreads r])"

definition rob_isEmpty :: "rob \<Rightarrow> bool" where
  "rob_isEmpty r \<longleftrightarrow> numInstsInROB r = 0"

definition rob_isEmptyOf :: "rob \<Rightarrow> nat \<Rightarrow> bool" where
  "rob_isEmptyOf r t \<longleftrightarrow> threadEntries r t = 0"

definition rob_isFull :: "rob \<Rightarrow> bool" where
  "rob_isFull r \<longleftrightarrow> numInstsInROB r = int (numEntries r)"

text \<open>As written: the thread's count is compared with the size of the whole buffer.\<close>

definition rob_isFullOf :: "rob \<Rightarrow> nat \<Rightarrow> bool" where
  "rob_isFullOf r t \<longleftrightarrow> threadEntries r t = numEntries r"

text \<open>The two counts are \<open>unsigned\<close> differences.\<close>

definition rob_numFreeEntries :: "rob \<Rightarrow> nat" where
  "rob_numFreeEntries r = nat ((int (numEntries r) - numInstsInROB r) mod 2 ^ 32)"

definition rob_numFreeEntriesOf :: "rob \<Rightarrow> nat \<Rightarrow> nat" where
  "rob_numFreeEntriesOf r t = nat ((int (maxEntries r t) - int (threadEntries r t)) mod 2 ^ 32)"

definition rob_isDoneSquashing :: "rob \<Rightarrow> bool" where
  "rob_isDoneSquashing r \<longleftrightarrow> list_all (doneSquashing r) [0..<maxThreads]"

definition rob_drainSanityCheck :: "rob \<Rightarrow> unit res" where
  "rob_drainSanityCheck r =
     bindE (foldE (\<lambda>t u. assertE (instList r t = [])) [0..<robThreads r] ()) (\<lambda>_.
       assertE (rob_isEmpty r))"

definition rob_archRestoreSanityCheck :: "rob \<Rightarrow> nat \<Rightarrow> unit res" where
  "rob_archRestoreSanityCheck r t =
     assertE (\<not> rob_isDoneSquashing r \<or> rob_isEmpty r \<or> list_all (has_status Squashed) (instList r t))"

text \<open>\<open>updateHead\<close> and \<open>updateTail\<close> over the active threads.\<close>

definition rob_updateHead :: "nat list \<Rightarrow> rob \<Rightarrow> rob" where
  "rob_updateHead active r =
     (case fold (\<lambda>t best. case instList r t of
                   [] \<Rightarrow> best
                 | i # _ \<Rightarrow> (case best of None \<Rightarrow> Some (t, diSeq i)
                            | Some (u, q) \<Rightarrow> if diSeq i < q then Some (t, diSeq i) else best))
             active None of
        None \<Rightarrow> r\<lparr>robHead := (0, None)\<rparr>
      | Some (t, q) \<Rightarrow> r\<lparr>robHead := (t, Some q)\<rparr>)"

definition rob_updateTail :: "nat list \<Rightarrow> rob \<Rightarrow> rob" where
  "rob_updateTail active r =
     (case fold (\<lambda>t best. if instList r t = [] then best
                 else (case best of None \<Rightarrow> Some (t, diSeq (last (instList r t)))
                       | Some (u, q) \<Rightarrow> if diSeq (last (instList r t)) > q
                                       then Some (t, diSeq (last (instList r t))) else best))
             active None of
        None \<Rightarrow> r\<lparr>robTail := (0, None)\<rparr>
      | Some (t, q) \<Rightarrow> r\<lparr>robTail := (t, Some q)\<rparr>)"

definition rob_insertInst :: "dyn_inst \<Rightarrow> rob \<Rightarrow> rob res" where
  "rob_insertInst i r =
     bindE (assertE (numInstsInROB r \<noteq> int (numEntries r))) (\<lambda>_.
       let t = diTid i; l = instList r t @ [set_status RobEntry i] in
       bindE (if numInstsInROB r = 0
              then bindE (assertE (it_begin l = Some (diSeq i))) (\<lambda>_. Inr (t, it_begin l))
              else Inr (robHead r)) (\<lambda>h.
         Inr (r\<lparr>instList := (instList r)(t := l), robHead := h, robTail := (t, Some (diSeq i)),
                numInstsInROB := numInstsInROB r + 1,
                threadEntries := (threadEntries r)(t := threadEntries r t + 1)\<rparr>)))"

text \<open>\<open>retireHead\<close> returns the instruction that it hands to \<open>CPU::removeFrontInst\<close>.\<close>

definition rob_retireHead :: "nat list \<Rightarrow> nat \<Rightarrow> rob \<Rightarrow> (dyn_inst \<times> rob) res" where
  "rob_retireHead active t r =
     bindE (assertE (numInstsInROB r > 0)) (\<lambda>_.
       case instList r t of
         [] \<Rightarrow> Inl BadIterator
       | i # is \<Rightarrow>
           bindE (assertE (has_status CanCommit i)) (\<lambda>_.
             Inr (set_status Committed (reset_status RobEntry i),
                  rob_updateHead active
                    (r\<lparr>instList := (instList r)(t := is), numInstsInROB := numInstsInROB r - 1,
                       threadEntries := (threadEntries r)(t := threadEntries r t - 1)\<rparr>))))"

definition rob_isHeadReady :: "rob \<Rightarrow> nat \<Rightarrow> bool res" where
  "rob_isHeadReady r t =
     (if threadEntries r t \<noteq> 0
      then (case instList r t of [] \<Rightarrow> Inl BadIterator | i # _ \<Rightarrow> Inr (has_status CanCommit i))
      else Inr False)"

fun rob_canCommit :: "nat list \<Rightarrow> rob \<Rightarrow> bool res" where
  "rob_canCommit [] r = Inr False"
| "rob_canCommit (t # ts) r =
     bindE (rob_isHeadReady r t) (\<lambda>b. if b then Inr True else rob_canCommit ts r)"

text \<open>\<open>readHeadInst\<close>; \<open>None\<close> is the dummy instruction.\<close>

definition rob_readHeadInst :: "rob \<Rightarrow> nat \<Rightarrow> dyn_inst option res" where
  "rob_readHeadInst r t =
     (if threadEntries r t \<noteq> 0
      then (case instList r t of [] \<Rightarrow> Inl BadIterator
            | i # _ \<Rightarrow> bindE (assertE (has_status RobEntry i)) (\<lambda>_. Inr (Some i)))
      else Inr None)"

definition rob_readTailInst :: "rob \<Rightarrow> nat \<Rightarrow> dyn_inst res" where
  "rob_readTailInst r t = bindE (it_dec (instList r t) None) (\<lambda>it. it_get (instList r t) it)"

definition rob_findInst :: "rob \<Rightarrow> nat \<Rightarrow> nat \<Rightarrow> dyn_inst option" where
  "rob_findInst r t q = find (\<lambda>i. diSeq i = q) (instList r t)"

section \<open>Squashing\<close>

text \<open>What the loop of \<open>doSquash\<close> does to the instruction under the iterator.\<close>

definition rob_mark :: "dyn_inst \<Rightarrow> dyn_inst" where
  "rob_mark i = set_status CanCommit (squash_mark i)"

text \<open>
  The loop; the result says where the iterator stopped and whether the loop ended in the early
  \<open>return\<close> at the head of the list, and whether the youngest instruction was squashed.
\<close>

fun squash_loop ::
  "(phys_reg \<Rightarrow> bool) \<Rightarrow> nat \<Rightarrow> nat \<Rightarrow> dyn_inst list \<Rightarrow> nat option \<Rightarrow> pin_counts \<Rightarrow> bool
     \<Rightarrow> (dyn_inst list \<times> nat option \<times> pin_counts \<times> bool \<times> bool) res"
where
  "squash_loop isPinned 0 sq l it pc upd = Inr (l, it, pc, upd, False)"
| "squash_loop isPinned (Suc n) sq l it pc upd =
     (if it = None then Inr (l, it, pc, upd, False)
      else
        bindE (it_get l it) (\<lambda>i.
          if \<not> diSeq i > sq then Inr (l, it, pc, upd, False)
          else
            let (i', pc') = setSquashed isPinned (i, pc) in
            bindE (it_set l it (set_status CanCommit i')) (\<lambda>l'.
              if it = it_begin l' then Inr (l', None, pc', upd, True)
              else
                bindE (it_dec l' it) (\<lambda>it'.
                  squash_loop isPinned n sq l' it' pc' (upd \<or> diSeq i = diSeq (last l'))))))"

text \<open>\<open>doSquash\<close>; \<open>exiting\<close> is \<open>CPU::isThreadExiting\<close> of the thread.\<close>

definition rob_doSquash ::
  "(phys_reg \<Rightarrow> bool) \<Rightarrow> bool \<Rightarrow> nat list \<Rightarrow> nat \<Rightarrow> rob \<times> pin_counts \<Rightarrow> (rob \<times> pin_counts) res"
where
  "rob_doSquash isPinned exiting active t = (\<lambda>(r, pc).
     bindE (assertE (squashIt r t \<noteq> None)) (\<lambda>_.
     bindE (it_get (instList r t) (squashIt r t)) (\<lambda>cur.
       if diSeq cur < squashedSeqNum r t then
         Inr (r\<lparr>squashIt := (squashIt r)(t := None), doneSquashing := (doneSquashing r)(t := True)\<rparr>, pc)
       else
         bindE (squash_loop isPinned (if exiting then numEntries r else squashWidth r)
                  (squashedSeqNum r t) (instList r t) (squashIt r t) pc False)
           (\<lambda>(l, it, pc', upd, ret).
              let r1 = r\<lparr>instList := (instList r)(t := l), squashIt := (squashIt r)(t := it)\<rparr> in
              if ret then Inr (r1\<lparr>doneSquashing := (doneSquashing r1)(t := True)\<rparr>, pc')
              else
                bindE (it_get l it) (\<lambda>i.
                  let r2 = (if diSeq i \<le> squashedSeqNum r t
                            then r1\<lparr>squashIt := (squashIt r1)(t := None),
                                    doneSquashing := (doneSquashing r1)(t := True)\<rparr>
                            else r1)
                  in Inr (if upd then rob_updateTail active r2 else r2, pc'))))))"

definition rob_squash ::
  "(phys_reg \<Rightarrow> bool) \<Rightarrow> bool \<Rightarrow> nat list \<Rightarrow> nat \<Rightarrow> nat \<Rightarrow> rob \<times> pin_counts \<Rightarrow> (rob \<times> pin_counts) res"
where
  "rob_squash isPinned exiting active q t = (\<lambda>(r, pc).
     if rob_isEmptyOf r t then Inr (r, pc)
     else
       let r1 = r\<lparr>robStatus := (robStatus r)(t := RobSquashing),
                  doneSquashing := (doneSquashing r)(t := False),
                  squashedSeqNum := (squashedSeqNum r)(t := q)\<rparr> in
       if instList r t \<noteq> [] then
         rob_doSquash isPinned exiting active t
           (r1\<lparr>squashIt := (squashIt r1)(t := Some (diSeq (last (instList r t))))\<rparr>, pc)
       else Inr (r1, pc))"

section \<open>Lists in order of sequence numbers\<close>

definition seq_sorted :: "dyn_inst list \<Rightarrow> bool" where
  "seq_sorted l \<longleftrightarrow> sorted_wrt (<) (map diSeq l)"

lemma seq_sorted_nth:
  "seq_sorted l \<Longrightarrow> j < k \<Longrightarrow> k < length l \<Longrightarrow> diSeq (l ! j) < diSeq (l ! k)"
  using sorted_wrt_nth_less[of "(<)" "map diSeq l" j k] by (simp add: seq_sorted_def)

lemma seq_sorted_inj:
  assumes "seq_sorted l" "j < length l" "k < length l" "diSeq (l ! j) = diSeq (l ! k)"
  shows "j = k"
proof (rule linorder_cases[of j k])
  assume "j < k"
  with seq_sorted_nth[OF assms(1) this assms(3)] assms(4) show ?thesis by simp
next
  assume "k < j"
  with seq_sorted_nth[OF assms(1) this assms(2)] assms(4) show ?thesis by simp
qed

lemma pos_of_Some: "pos_of l q = Some k \<Longrightarrow> k < length l \<and> diSeq (l ! k) = q"
  by (induction l q arbitrary: k rule: pos_of.induct) (auto split: if_splits)

lemma pos_of_None: "pos_of l q = None \<longleftrightarrow> q \<notin> diSeq ` set l"
  by (induction l q rule: pos_of.induct) auto

lemma pos_of_nth:
  assumes "seq_sorted l" "k < length l"
  shows "pos_of l (diSeq (l ! k)) = Some k"
proof (cases "pos_of l (diSeq (l ! k))")
  case None
  then show ?thesis using assms(2) by (simp add: pos_of_None)
next
  case (Some j)
  then have "j < length l" "diSeq (l ! j) = diSeq (l ! k)" using pos_of_Some by blast+
  then show ?thesis using Some seq_sorted_inj[OF assms(1)] assms(2) by blast
qed

lemma pos_of_cong: "map diSeq l = map diSeq l' \<Longrightarrow> pos_of l q = pos_of l' q"
proof (induction l arbitrary: l')
  case (Cons i l)
  then show ?case by (cases l') auto
qed simp

section \<open>The squash loop\<close>

text \<open>
  After \<open>n\<close> marks from the young end: the instructions from position \<open>k\<close> on that are younger
  than \<open>sq\<close> are marked.
\<close>

definition marked_from :: "nat \<Rightarrow> nat \<Rightarrow> dyn_inst list \<Rightarrow> dyn_inst list" where
  "marked_from sq k l = map (\<lambda>j. if k \<le> j \<and> diSeq (l ! j) > sq then rob_mark (l ! j) else l ! j) [0..<length l]"

definition marked :: "nat \<Rightarrow> dyn_inst list \<Rightarrow> dyn_inst list" where
  "marked sq l = map (\<lambda>i. if diSeq i > sq then rob_mark i else i) l"

lemma rob_mark_seq [simp]: "diSeq (rob_mark i) = diSeq i" "diTid (rob_mark i) = diTid i"
  by (simp_all add: rob_mark_def)

lemma marked_from_simps [simp]:
  "length (marked_from sq k l) = length l" "map diSeq (marked_from sq k l) = map diSeq l"
  by (auto simp: marked_from_def intro!: nth_equalityI)

lemma marked_from_0: "marked_from sq 0 l = marked sq l"
  by (rule nth_equalityI) (simp_all add: marked_from_def marked_def)

lemma marked_from_end: "length l \<le> k \<Longrightarrow> marked_from sq k l = l"
  by (rule nth_equalityI) (simp_all add: marked_from_def)

lemma marked_from_seq: "j < length l \<Longrightarrow> diSeq (marked_from sq k l ! j) = diSeq (l ! j)"
  by (simp add: marked_from_def)

lemma marked_from_sorted: "seq_sorted l \<Longrightarrow> seq_sorted (marked_from sq k l)"
  by (simp add: seq_sorted_def)

lemma marked_from_nth: "j < length l \<Longrightarrow>
    marked_from sq k l ! j = (if k \<le> j \<and> diSeq (l ! j) > sq then rob_mark (l ! j) else l ! j)"
  by (simp add: marked_from_def)

text \<open>Below the first younger instruction nothing is left to mark.\<close>

lemma marked_from_done:
  assumes "seq_sorted l" "k < length l" "\<not> diSeq (l ! k) > sq"
  shows "marked_from sq (Suc k) l = marked sq l"
proof -
  have "diSeq (l ! j) \<le> sq" if "j \<le> k" for j
    using assms seq_sorted_nth[OF assms(1), of j k] that by (cases "j = k") auto
  then have "diSeq (l ! j) > sq \<Longrightarrow> Suc k \<le> j" for j by (meson not_less not_less_eq_eq)
  then show ?thesis
    by (intro nth_equalityI) (simp_all add: marked_from_def marked_def)
qed

lemma marked_from_step:
  assumes "k < length l" "diSeq (l ! k) > sq"
  shows "(marked_from sq (Suc k) l)[k := rob_mark (l ! k)] = marked_from sq k l"
  using assms by (intro nth_equalityI) (auto simp: marked_from_nth nth_list_update)

lemma it_at:
  assumes "seq_sorted l" "k < length l"
  shows "it_get l (Some (diSeq (l ! k))) = Inr (l ! k)"
    "it_set l (Some (diSeq (l ! k))) i = Inr (l[k := i])"
    "0 < k \<Longrightarrow> it_dec l (Some (diSeq (l ! k))) = Inr (Some (diSeq (l ! (k - 1))))"
    "it_begin l = Some (diSeq (l ! k)) \<longleftrightarrow> k = 0"
proof -
  show "it_get l (Some (diSeq (l ! k))) = Inr (l ! k)"
    "it_set l (Some (diSeq (l ! k))) i = Inr (l[k := i])"
    using pos_of_nth[OF assms] by (simp_all add: it_get_def it_set_def)
  show "0 < k \<Longrightarrow> it_dec l (Some (diSeq (l ! k))) = Inr (Some (diSeq (l ! (k - 1))))"
    using pos_of_nth[OF assms] by (cases k) (simp_all add: it_dec_def)
  have "it_begin l = Some (diSeq (l ! 0))" using assms(2) by (cases l) (auto simp: it_begin_def)
  then show "it_begin l = Some (diSeq (l ! k)) \<longleftrightarrow> k = 0"
    using seq_sorted_inj[OF assms(1), of 0 k] assms(2) by (cases l) auto
qed

text \<open>
  The loop from position \<open>k\<close>: it either marks everything that is younger and reaches the head
  of the list, or stops at a position \<open>m\<close> with everything above it done, having moved down by
  its whole allowance unless it met an instruction that is not younger.
\<close>

definition loop_result ::
  "nat \<Rightarrow> dyn_inst list \<Rightarrow> nat \<Rightarrow> nat \<Rightarrow> (dyn_inst list \<times> nat option \<times> pin_counts \<times> bool \<times> bool) res \<Rightarrow> bool"
where
  "loop_result sq l k n x \<longleftrightarrow>
     (\<exists>pc upd. x = Inr (marked sq l, None, pc, upd, True) \<and> diSeq (l ! 0) > sq \<and> k < n)
     \<or> (\<exists>m pc upd. m \<le> k \<and> x = Inr (marked_from sq (Suc m) l, Some (diSeq (l ! m)), pc, upd, False)
          \<and> (m + n = k \<or> \<not> diSeq (l ! m) > sq))"

lemma loop_result_head:
  "diSeq (l ! 0) > sq \<Longrightarrow> k < n \<Longrightarrow> loop_result sq l k n (Inr (marked sq l, None, pc, upd, True))"
  by (simp add: loop_result_def)

lemma loop_result_stop:
  "m \<le> k \<Longrightarrow> m + n = k \<or> \<not> diSeq (l ! m) > sq \<Longrightarrow>
     loop_result sq l k n (Inr (marked_from sq (Suc m) l, Some (diSeq (l ! m)), pc, upd, False))"
  unfolding loop_result_def by blast

lemma loop_resultE:
  assumes "loop_result sq l k n x"
  obtains (at_head) pc upd where "x = Inr (marked sq l, None, pc, upd, True)" "diSeq (l ! 0) > sq" "k < n"
  | (stopped) m pc upd where "m \<le> k"
      "x = Inr (marked_from sq (Suc m) l, Some (diSeq (l ! m)), pc, upd, False)"
      "m + n = k \<or> \<not> diSeq (l ! m) > sq"
  using assms unfolding loop_result_def by blast

lemma loop_result_step:
  assumes "0 < k" "loop_result sq l (k - 1) n x"
  shows "loop_result sq l k (Suc n) x"
  using assms(2)
proof (cases rule: loop_resultE)
  case (at_head pc upd)
  then show ?thesis using assms(1) by (simp add: loop_result_head)
next
  case (stopped m pc upd)
  have "m \<le> k" "m + Suc n = k \<or> \<not> diSeq (l ! m) > sq" using stopped(1,3) assms(1) by auto
  then show ?thesis unfolding stopped(2) by (rule loop_result_stop)
qed

lemma squash_loop_spec:
  assumes "seq_sorted l" "k < length l"
  shows "loop_result sq l k n
    (squash_loop isPinned n sq (marked_from sq (Suc k) l) (Some (diSeq (l ! k))) pc upd)"
  using assms(2)
proof (induction n arbitrary: k pc upd)
  case 0
  show ?case by (simp add: loop_result_stop)
next
  case (Suc n)
  let ?L = "marked_from sq (Suc k) l"
  have srt: "seq_sorted ?L" by (rule marked_from_sorted[OF assms(1)])
  have at: "?L ! k = l ! k" using Suc.prems by (simp add: marked_from_nth)
  have kL: "k < length ?L" using Suc.prems by simp
  note I = it_at[OF srt kL, unfolded at]
  show ?case
  proof (cases "diSeq (l ! k) > sq")
    case False
    then show ?thesis using I(1) by (simp add: loop_result_stop)
  next
    case True
    obtain i' pc1 where sq: "setSquashed isPinned (l ! k, pc) = (i', pc1)" by force
    have i': "set_status CanCommit i' = rob_mark (l ! k)"
      using sq setSquashed_fst[of isPinned "l ! k" pc] by (simp add: rob_mark_def)
    have upd1: "it_set ?L (Some (diSeq (l ! k))) (set_status CanCommit i') = Inr (marked_from sq k l)"
      using I(2) i' marked_from_step[OF Suc.prems True] by simp
    have srt': "seq_sorted (marked_from sq k l)" by (rule marked_from_sorted[OF assms(1)])
    have kl': "k < length (marked_from sq k l)" using Suc.prems by simp
    have seqk: "diSeq (marked_from sq k l ! k) = diSeq (l ! k)"
      using Suc.prems by (rule marked_from_seq)
    note J = it_at[OF srt' kl', unfolded seqk]
    show ?thesis
    proof (cases "k = 0")
      case True
      then have "it_begin (marked_from sq k l) = Some (diSeq (l ! k))" using J(4) by simp
      then show ?thesis
        using I(1) \<open>diSeq (l ! k) > sq\<close> sq upd1 True marked_from_0[of sq l]
        by (simp add: loop_result_head)
    next
      case False
      have nb: "it_begin (marked_from sq k l) \<noteq> Some (diSeq (l ! k))" using J(4) False by simp
      have seqk1: "diSeq (marked_from sq k l ! (k - 1)) = diSeq (l ! (k - 1))"
        using Suc.prems by (intro marked_from_seq) simp
      have dec: "it_dec (marked_from sq k l) (Some (diSeq (l ! k))) = Inr (Some (diSeq (l ! (k - 1))))"
        using J(3) False seqk1 by simp
      let ?u = "upd \<or> diSeq (l ! k) = diSeq (last (marked_from sq k l))"
      have step: "squash_loop isPinned (Suc n) sq ?L (Some (diSeq (l ! k))) pc upd
          = squash_loop isPinned n sq (marked_from sq (Suc (k - 1)) l) (Some (diSeq (l ! (k - 1)))) pc1 ?u"
        using I(1) True sq upd1 nb dec False by simp
      have "k - 1 < length l" using Suc.prems by simp
      from Suc.IH[OF this, of pc1 ?u] show ?thesis
        unfolding step using loop_result_step False by blast
    qed
  qed
qed

section \<open>One cycle of squashing\<close>

definition squash_allowance :: "bool \<Rightarrow> rob \<Rightarrow> nat" where
  "squash_allowance exiting r = (if exiting then numEntries r else squashWidth r)"

text \<open>The thread is squashing to \<open>sq\<close>, everything above position \<open>k\<close> of \<open>l\<close> is done.\<close>

definition squashing_at :: "nat \<Rightarrow> nat \<Rightarrow> dyn_inst list \<Rightarrow> nat \<Rightarrow> rob \<Rightarrow> bool" where
  "squashing_at t sq l k r \<longleftrightarrow> k < length l \<and> instList r t = marked_from sq (Suc k) l
     \<and> squashIt r t = Some (diSeq (l ! k)) \<and> squashedSeqNum r t = sq"

definition squash_done :: "nat \<Rightarrow> nat \<Rightarrow> dyn_inst list \<Rightarrow> rob \<Rightarrow> bool" where
  "squash_done t sq l r \<longleftrightarrow> instList r t = marked sq l \<and> squashIt r t = None \<and> doneSquashing r t"

text \<open>What squashing a thread leaves alone.\<close>

definition squash_frame :: "nat \<Rightarrow> rob \<Rightarrow> rob \<Rightarrow> bool" where
  "squash_frame t r r' \<longleftrightarrow>
     (\<forall>u. u \<noteq> t \<longrightarrow> instList r' u = instList r u \<and> doneSquashing r' u = doneSquashing r u)
     \<and> threadEntries r' = threadEntries r \<and> numInstsInROB r' = numInstsInROB r
     \<and> maxEntries r' = maxEntries r \<and> numEntries r' = numEntries r \<and> squashWidth r' = squashWidth r
     \<and> robThreads r' = robThreads r \<and> robHead r' = robHead r"

lemma squash_frame_trans: "squash_frame t a b \<Longrightarrow> squash_frame t b c \<Longrightarrow> squash_frame t a c"
  by (auto simp: squash_frame_def)

lemma updateTail_fields [simp]:
  "instList (rob_updateTail active r) = instList r" "squashIt (rob_updateTail active r) = squashIt r"
  "squashedSeqNum (rob_updateTail active r) = squashedSeqNum r"
  "doneSquashing (rob_updateTail active r) = doneSquashing r"
  "threadEntries (rob_updateTail active r) = threadEntries r"
  "numInstsInROB (rob_updateTail active r) = numInstsInROB r"
  "maxEntries (rob_updateTail active r) = maxEntries r" "numEntries (rob_updateTail active r) = numEntries r"
  "squashWidth (rob_updateTail active r) = squashWidth r" "robThreads (rob_updateTail active r) = robThreads r"
  "robHead (rob_updateTail active r) = robHead r"
  by (simp_all add: rob_updateTail_def split: option.splits prod.splits)

lemma doSquash_step:
  assumes "seq_sorted l" "squashing_at t sq l k r" "\<not> doneSquashing r t"
  shows "\<exists>r' pc'. rob_doSquash isPinned exiting active t (r, pc) = Inr (r', pc') \<and> squash_frame t r r'
     \<and> (squash_done t sq l r' \<or>
        (\<exists>m. m + squash_allowance exiting r = k \<and> diSeq (l ! m) > sq
           \<and> squashing_at t sq l m r' \<and> \<not> doneSquashing r' t))"
proof -
  let ?n = "squash_allowance exiting r"
  have S: "k < length l" "instList r t = marked_from sq (Suc k) l" "squashIt r t = Some (diSeq (l ! k))"
    "squashedSeqNum r t = sq" using assms(2) by (auto simp: squashing_at_def)
  have srt: "seq_sorted (marked_from sq (Suc k) l)" by (rule marked_from_sorted[OF assms(1)])
  have at: "marked_from sq (Suc k) l ! k = l ! k" using S(1) by (simp add: marked_from_nth)
  have get: "it_get (instList r t) (squashIt r t) = Inr (l ! k)"
    using it_at(1)[OF srt, of k] S at by simp
  show ?thesis
  proof (cases "diSeq (l ! k) < sq")
    case True
    have "marked_from sq (Suc k) l = marked sq l" using marked_from_done[OF assms(1) S(1)] True by simp
    with True get S show ?thesis
      by (auto simp: rob_doSquash_def squash_frame_def squash_done_def)
  next
    case False
    have "loop_result sq l k ?n
        (squash_loop isPinned ?n sq (instList r t) (squashIt r t) pc False)"
      unfolding S by (rule squash_loop_spec[OF assms(1) S(1)])
    then show ?thesis
    proof (cases rule: loop_resultE)
      case (at_head pc' upd)
      then show ?thesis
        using False get S(3,4)
        by (auto simp: rob_doSquash_def squash_allowance_def[symmetric] Let_def squash_frame_def squash_done_def)
    next
      case (stopped m pc' upd)
      have m: "m < length l" using stopped(1) S(1) by simp
      have "marked_from sq (Suc m) l ! m = l ! m" using m by (simp add: marked_from_nth)
      then have gm: "it_get (marked_from sq (Suc m) l) (Some (diSeq (l ! m))) = Inr (l ! m)"
        using it_at(1)[OF marked_from_sorted[OF assms(1)], of m sq "Suc m"] m by simp
      have run: "rob_doSquash isPinned exiting active t (r, pc) =
         (let r1 = r\<lparr>instList := (instList r)(t := marked_from sq (Suc m) l),
                     squashIt := (squashIt r)(t := Some (diSeq (l ! m)))\<rparr>;
              r2 = (if diSeq (l ! m) \<le> sq
                    then r1\<lparr>squashIt := (squashIt r1)(t := None), doneSquashing := (doneSquashing r1)(t := True)\<rparr>
                    else r1)
          in Inr (if upd then rob_updateTail active r2 else r2, pc'))"
        using False get S(3,4) stopped(2) gm
        by (simp add: rob_doSquash_def squash_allowance_def[symmetric] Let_def)
      show ?thesis
      proof (cases "diSeq (l ! m) \<le> sq")
        case True
        then show ?thesis
          unfolding run using marked_from_done[OF assms(1) m]
          by (auto simp: Let_def squash_frame_def squash_done_def)
      next
        case False
        then have "m + ?n = k" using stopped(3) by simp
        then show ?thesis
          unfolding run using False m S(4) assms(3)
          by (auto simp: Let_def squash_frame_def squashing_at_def)
      qed
    qed
  qed
qed

text \<open>Commit calls \<open>doSquash\<close> once a cycle until the thread is done.\<close>

fun squash_run ::
  "(phys_reg \<Rightarrow> bool) \<Rightarrow> bool \<Rightarrow> nat list \<Rightarrow> nat \<Rightarrow> nat \<Rightarrow> rob \<times> pin_counts \<Rightarrow> (rob \<times> pin_counts) res"
where
  "squash_run isPinned exiting active t 0 s = Inr s"
| "squash_run isPinned exiting active t (Suc n) s =
     (if doneSquashing (fst s) t then Inr s
      else bindE (rob_doSquash isPinned exiting active t s) (squash_run isPinned exiting active t n))"

lemma squash_run_done: "doneSquashing (fst s) t \<Longrightarrow> squash_run isPinned exiting active t n s = Inr s"
  by (cases n) simp_all

lemma younger_count:
  assumes "seq_sorted l" "k < length l" "diSeq (l ! k) > sq"
  shows "length l - k \<le> length (filter (\<lambda>i. diSeq i > sq) l)"
proof -
  have "sq < diSeq (l ! j)" if "k \<le> j" "j < length l" for j
    using seq_sorted_nth[OF assms(1), of k j] that assms(3) by (cases "j = k") auto
  then have "filter (\<lambda>i. diSeq i > sq) (drop k l) = drop k l"
    by (auto simp: filter_id_conv in_set_conv_nth)
  then have "length (drop k l) \<le> length (filter (\<lambda>i. diSeq i > sq) (take k l) @ filter (\<lambda>i. diSeq i > sq) (drop k l))"
    by simp
  also have "\<dots> = length (filter (\<lambda>i. diSeq i > sq) l)"
    by (metis append_take_drop_id filter_append)
  finally show ?thesis by simp
qed

lemma squash_run_completes:
  assumes "seq_sorted l" "squashing_at t sq l k r" "\<not> doneSquashing r t"
    "0 < squash_allowance exiting r"
    "length (filter (\<lambda>i. diSeq i > sq) l) + k < length l + n * squash_allowance exiting r"
    "0 < n"
  shows "\<exists>r' pc'. squash_run isPinned exiting active t n (r, pc) = Inr (r', pc')
     \<and> squash_frame t r r' \<and> squash_done t sq l r'"
  using assms(2-6)
proof (induction n arbitrary: k r pc)
  case 0
  then show ?case by simp
next
  case (Suc n)
  let ?w = "squash_allowance exiting r"
  obtain r1 pc1 where r1: "rob_doSquash isPinned exiting active t (r, pc) = Inr (r1, pc1)" "squash_frame t r r1"
    "squash_done t sq l r1 \<or> (\<exists>m. m + ?w = k \<and> diSeq (l ! m) > sq
       \<and> squashing_at t sq l m r1 \<and> \<not> doneSquashing r1 t)"
    using doSquash_step[OF assms(1) Suc.prems(1,2)] by blast
  show ?case
    using r1(3)
  proof (elim disjE exE conjE)
    assume "squash_done t sq l r1"
    then show ?thesis
      using r1(1,2) Suc.prems(2) squash_run_done[of "(r1, pc1)" t] by (simp add: squash_done_def)
  next
    fix m assume m: "m + ?w = k" "diSeq (l ! m) > sq" "squashing_at t sq l m r1" "\<not> doneSquashing r1 t"
    have w: "squash_allowance exiting r1 = ?w" using r1(2) by (simp add: squash_frame_def squash_allowance_def)
    have ml: "m < length l" using m(3) by (simp add: squashing_at_def)
    have y: "length l - m \<le> length (filter (\<lambda>i. diSeq i > sq) l)" by (rule younger_count[OF assms(1) ml m(2)])
    have lt: "length (filter (\<lambda>i. diSeq i > sq) l) + m < length l + n * ?w"
      using Suc.prems(4) m(1) by simp
    then have "0 < n" using y ml by (cases n) auto
    then obtain r' pc' where "squash_run isPinned exiting active t n (r1, pc1) = Inr (r', pc')"
      "squash_frame t r1 r'" "squash_done t sq l r'"
      using Suc.IH[OF m(3,4), of pc1] Suc.prems(3) w lt by metis
    then show ?thesis using r1(1,2) Suc.prems(2) squash_frame_trans by fastforce
  qed
qed

section \<open>Occupancy and the oldest instruction\<close>

definition rob_insts :: "rob \<Rightarrow> dyn_inst set" where
  "rob_insts r = (\<Union>t<robThreads r. set (instList r t))"

definition rob_total :: "rob \<Rightarrow> nat" where
  "rob_total r = (\<Sum>t<robThreads r. length (instList r t))"

definition head_ok :: "rob \<Rightarrow> bool" where
  "head_ok r \<longleftrightarrow> (rob_insts r = {} \<and> robHead r = (0, None))
     \<or> (\<exists>t<robThreads r. \<exists>i is. instList r t = i # is \<and> robHead r = (t, Some (diSeq i))
          \<and> (\<forall>j \<in> rob_insts r. diSeq i \<le> diSeq j))"

definition rob_inv :: "rob \<Rightarrow> bool" where
  "rob_inv r \<longleftrightarrow>
     (\<forall>t<robThreads r. threadEntries r t = length (instList r t) \<and> seq_sorted (instList r t)
        \<and> (\<forall>i \<in> set (instList r t). diTid i = t \<and> has_status RobEntry i))
     \<and> numInstsInROB r = int (rob_total r)
     \<and> numInstsInROB r \<le> int (numEntries r)
     \<and> head_ok r"

lemma sum_upd_len:
  fixes f :: "nat \<Rightarrow> nat"
  assumes "t < n"
  shows "(\<Sum>u<n. (f(t := x)) u) + f t = (\<Sum>u<n. f u) + x"
proof -
  have eq: "(\<Sum>u \<in> {..<n} - {t}. (f(t := x)) u) = (\<Sum>u \<in> {..<n} - {t}. f u)"
    by (rule sum.cong) auto
  have "(\<Sum>u<n. (f(t := x)) u) = (f(t := x)) t + (\<Sum>u \<in> {..<n} - {t}. (f(t := x)) u)"
    using assms by (intro sum.remove) auto
  moreover have "(\<Sum>u<n. f u) = f t + (\<Sum>u \<in> {..<n} - {t}. f u)"
    using assms by (intro sum.remove) auto
  ultimately show ?thesis using eq by simp
qed

lemma sum_lens_upd:
  assumes "t < (n :: nat)"
  shows "(\<Sum>u<n. length ((L(t := l)) u)) + length (L t) = (\<Sum>u<n. length (L u)) + length l"
proof -
  have "(\<Sum>u<n. length ((L(t := l)) u)) = (\<Sum>u<n. ((\<lambda>u. length (L u))(t := length l)) u)"
    by (rule sum.cong) auto
  then show ?thesis using sum_upd_len[where f = "\<lambda>u. length (L u)" and x = "length l", OF assms] by simp
qed

lemma sum_lens_0: "(\<Sum>t<(n :: nat). length (L t)) = 0 \<longleftrightarrow> (\<forall>t<n. L t = [])"
  by (auto simp: sum_eq_0_iff)

lemma rob_total_0: "rob_total r = 0 \<longleftrightarrow> (\<forall>t<robThreads r. instList r t = [])"
  unfolding rob_total_def by (rule sum_lens_0)

lemma rob_total_upd:
  assumes "t < robThreads r" "instList r' = (instList r)(t := l)" "robThreads r' = robThreads r"
  shows "rob_total r' + length (instList r t) = rob_total r + length l"
  using sum_lens_upd[OF assms(1), of "instList r" l] by (simp add: rob_total_def assms(2,3))

text \<open>\<open>updateHead\<close> finds the oldest head of the active threads.\<close>

lemma updateHead_fold:
  assumes "\<And>t. t \<in> set ts \<Longrightarrow> seq_sorted (L t)"
  shows "case fold (\<lambda>t best. case L t of [] \<Rightarrow> best
            | i # _ \<Rightarrow> (case best of None \<Rightarrow> Some (t, diSeq i)
                       | Some (u, q) \<Rightarrow> if diSeq i < q then Some (t, diSeq i) else best)) ts b of
      None \<Rightarrow> b = None \<and> (\<forall>t \<in> set ts. L t = [])
    | Some (u, q) \<Rightarrow> (b = Some (u, q) \<or> (u \<in> set ts \<and> (\<exists>i is. L u = i # is \<and> q = diSeq i)))
        \<and> (\<forall>t \<in> set ts. \<forall>j \<in> set (L t). q \<le> diSeq j) \<and> (\<forall>v p. b = Some (v, p) \<longrightarrow> q \<le> p)"
  using assms
proof (induction ts arbitrary: b)
  case Nil
  then show ?case by (cases b) auto
next
  case (Cons t ts)
  let ?step = "\<lambda>t best. case L t of [] \<Rightarrow> best
            | i # _ \<Rightarrow> (case best of None \<Rightarrow> Some (t, diSeq i)
                       | Some (u, q) \<Rightarrow> if diSeq i < q then Some (t, diSeq i) else best)"
  have IH: "case fold ?step ts c of
      None \<Rightarrow> c = None \<and> (\<forall>t \<in> set ts. L t = [])
    | Some (u, q) \<Rightarrow> (c = Some (u, q) \<or> (u \<in> set ts \<and> (\<exists>i is. L u = i # is \<and> q = diSeq i)))
        \<and> (\<forall>t \<in> set ts. \<forall>j \<in> set (L t). q \<le> diSeq j) \<and> (\<forall>v p. c = Some (v, p) \<longrightarrow> q \<le> p)" for c
    by (rule Cons.IH) (use Cons.prems in simp)
  show ?case
  proof (cases "L t")
    case Nil
    then show ?thesis using IH[of b] by (auto split: option.splits)
  next
    case (Cons i "is")
    have old: "diSeq i \<le> diSeq j" if "j \<in> set (L t)" for j
      using Cons.prems[of t] Cons that by (auto simp: seq_sorted_def less_imp_le)
    have "\<exists>u q. ?step t b = Some (u, q)"
      using Cons by (cases b) (auto split: if_splits)
    then obtain u q where c: "?step t b = Some (u, q)" by blast
    have c': "(b = Some (u, q) \<and> q \<le> diSeq i) \<or> (u = t \<and> q = diSeq i \<and> (\<forall>v p. b = Some (v, p) \<longrightarrow> q \<le> p))"
      using c Cons by (auto split: option.splits if_splits)
    have ex: "fold ?step ts (Some (u, q)) \<noteq> None"
      using IH[of "Some (u, q)"] by (auto split: option.splits)
    then obtain v p where vp: "fold ?step ts (Some (u, q)) = Some (v, p)" by auto
    have r: "Some (u, q) = Some (v, p) \<or> (v \<in> set ts \<and> (\<exists>i is. L v = i # is \<and> p = diSeq i))"
      "\<forall>t \<in> set ts. \<forall>j \<in> set (L t). p \<le> diSeq j" "p \<le> q"
      using IH[of "Some (u, q)"] vp by auto
    have "p \<le> diSeq i" using r(3) c' by auto
    then have "\<forall>t' \<in> set (t # ts). \<forall>j \<in> set (L t'). p \<le> diSeq j"
      using r(2) old by (auto intro: order_trans)
    moreover have "\<forall>w x. b = Some (w, x) \<longrightarrow> p \<le> x" using c' r(3) by auto
    moreover have "b = Some (v, p) \<or> (v \<in> set (t # ts) \<and> (\<exists>i is. L v = i # is \<and> p = diSeq i))"
      using r(1) c' Cons by auto
    moreover have "fold ?step (t # ts) b = Some (v, p)" using c vp by simp
    ultimately show ?thesis by simp
  qed
qed

lemma updateHead_fields [simp]:
  "instList (rob_updateHead active r) = instList r" "squashIt (rob_updateHead active r) = squashIt r"
  "doneSquashing (rob_updateHead active r) = doneSquashing r"
  "threadEntries (rob_updateHead active r) = threadEntries r"
  "numInstsInROB (rob_updateHead active r) = numInstsInROB r"
  "numEntries (rob_updateHead active r) = numEntries r" "robThreads (rob_updateHead active r) = robThreads r"
  "maxEntries (rob_updateHead active r) = maxEntries r"
  by (simp_all add: rob_updateHead_def split: option.splits prod.splits)

text \<open>The active threads; a thread that is not active has no instruction in the buffer.\<close>

definition active_ok :: "nat list \<Rightarrow> rob \<Rightarrow> bool" where
  "active_ok active r \<longleftrightarrow> set active \<subseteq> {..<robThreads r}
     \<and> (\<forall>t<robThreads r. t \<notin> set active \<longrightarrow> instList r t = [])"

lemma updateHead_ok:
  assumes "active_ok active r" "\<And>t. t < robThreads r \<Longrightarrow> seq_sorted (instList r t)"
  shows "head_ok (rob_updateHead active r)"
proof -
  let ?f = "fold (\<lambda>t best. case instList r t of [] \<Rightarrow> best
            | i # _ \<Rightarrow> (case best of None \<Rightarrow> Some (t, diSeq i)
                       | Some (u, q) \<Rightarrow> if diSeq i < q then Some (t, diSeq i) else best)) active None"
  note F = updateHead_fold[where L = "instList r" and ts = active and b = None]
  have srt: "\<And>t. t \<in> set active \<Longrightarrow> seq_sorted (instList r t)"
    using assms by (auto simp: active_ok_def)
  have un: "rob_insts r = (\<Union>t \<in> set active. set (instList r t))"
  proof -
    have "t \<in> set active" if "t < robThreads r" "i \<in> set (instList r t)" for t i
      using assms(1) that unfolding active_ok_def by (cases "t \<in> set active") auto
    then show ?thesis using assms(1) by (auto simp: rob_insts_def active_ok_def)
  qed
  show ?thesis
  proof (cases ?f)
    case None
    then have "rob_insts r = {}" using F[OF srt] un by auto
    moreover have "rob_updateHead active r = r\<lparr>robHead := (0, None)\<rparr>"
      using None by (simp add: rob_updateHead_def)
    ultimately show ?thesis by (simp add: head_ok_def rob_insts_def)
  next
    case (Some x)
    obtain u q where x: "x = (u, q)" by (cases x)
    have f: "u \<in> set active" "\<exists>i is. instList r u = i # is \<and> q = diSeq i"
      "\<forall>j \<in> rob_insts r. q \<le> diSeq j"
      using F[OF srt] Some x un by auto
    have "u < robThreads r" using f(1) assms(1) by (auto simp: active_ok_def)
    moreover have h: "rob_updateHead active r = r\<lparr>robHead := (u, Some q)\<rparr>"
      using Some x by (simp add: rob_updateHead_def)
    ultimately show ?thesis
      using f(2,3) unfolding head_ok_def h rob_insts_def by (intro disjI2 exI[of _ u]) auto
  qed
qed

text \<open>What the squash leaves as it is of an instruction: its number, its thread, its entry.\<close>

definition rob_key :: "dyn_inst \<Rightarrow> nat \<times> nat \<times> bool" where
  "rob_key i = (diSeq i, diTid i, has_status RobEntry i)"

definition same_keys :: "dyn_inst list \<Rightarrow> dyn_inst list \<Rightarrow> bool" where
  "same_keys l l' \<longleftrightarrow> map rob_key l' = map rob_key l"

lemma it_set_keys:
  assumes "it_get l it = Inr i" "rob_key j = rob_key i" "it_set l it j = Inr l'"
  shows "same_keys l l'"
proof -
  obtain q k where "it = Some q" "pos_of l q = Some k" "i = l ! k" "l' = l[k := j]"
    using assms(1,3) by (auto simp: it_get_def it_set_def split: option.splits)
  moreover have "(map rob_key l)[k := rob_key (l ! k)] = map rob_key l"
    by (metis calculation(2) list_update_id map_update pos_of_Some)
  ultimately show ?thesis using assms(2) by (simp add: same_keys_def map_update)
qed

lemma squash_key: "setSquashed isPinned (i, pc) = (i', pc') \<Longrightarrow> rob_key (set_status CanCommit i') = rob_key i"
  using setSquashed_fst[of isPinned i pc]
  by (simp add: rob_key_def)


lemma same_keys_simps [simp]: "same_keys l l"
  by (simp add: same_keys_def)

lemma same_keys_trans: "same_keys a b \<Longrightarrow> same_keys b c \<Longrightarrow> same_keys a c"
  by (simp add: same_keys_def)

lemma squash_loop_keys:
  "squash_loop isPinned n sq l it pc upd = Inr (l', it', pc', upd', ret) \<Longrightarrow> same_keys l l'"
proof (induction isPinned n sq l it pc upd rule: squash_loop.induct)
  case (2 isPinned n sq l it pc upd)
  show ?case
  proof (cases "it = None \<or> (\<exists>i. it_get l it = Inr i \<and> \<not> diSeq i > sq)")
    case True
    then show ?thesis using 2(2) by (auto split: if_splits)
  next
    case False
    then obtain i where i: "it_get l it = Inr i" "diSeq i > sq"
      using 2(2) by (cases "it_get l it") auto
    obtain i1 pc1 where s: "setSquashed isPinned (i, pc) = (i1, pc1)" by force
    obtain l1 where l1: "it_set l it (set_status CanCommit i1) = Inr l1"
      using 2(2) False i s by (cases "it_set l it (set_status CanCommit i1)") auto
    have k: "same_keys l l1" by (rule it_set_keys[OF i(1) squash_key[OF s] l1])
    show ?thesis
    proof (cases "it = it_begin l1")
      case True
      then show ?thesis using 2(2) False i s l1 k by (auto split: if_splits)
    next
      case False
      then obtain it1 where it1: "it_dec l1 it = Inr it1"
        using 2(2) i s l1 \<open>\<not> (it = None \<or> (\<exists>i. it_get l it = Inr i \<and> \<not> diSeq i > sq))\<close>
        by (cases "it_dec l1 it") auto
      have "same_keys l1 l'"
        by (rule 2(1)[of i "(i1, pc1)" i1 pc1 l1 it1])
          (use 2(2) i s l1 it1 False \<open>\<not> (it = None \<or> (\<exists>i. it_get l it = Inr i \<and> \<not> diSeq i > sq))\<close> in auto)
      with k show ?thesis by (rule same_keys_trans)
    qed
  qed
qed simp

lemma doSquash_keys:
  assumes "rob_doSquash isPinned exiting active t (r, pc) = Inr (r', pc')"
  shows "squash_frame t r r' \<and> same_keys (instList r t) (instList r' t)"
proof -
  obtain cur where cur: "it_get (instList r t) (squashIt r t) = Inr cur"
    using assms by (cases "it_get (instList r t) (squashIt r t)") (auto simp: rob_doSquash_def assertE_def split: if_splits)
  show ?thesis
  proof (cases "diSeq cur < squashedSeqNum r t")
    case True
    then show ?thesis
      using assms cur by (auto simp: rob_doSquash_def squash_frame_def assertE_def split: if_splits)
  next
    case False
    then obtain l it pc1 upd ret where L:
      "squash_loop isPinned (if exiting then numEntries r else squashWidth r)
         (squashedSeqNum r t) (instList r t) (squashIt r t) pc False = Inr (l, it, pc1, upd, ret)"
      using assms cur
      by (cases "squash_loop isPinned (if exiting then numEntries r else squashWidth r)
         (squashedSeqNum r t) (instList r t) (squashIt r t) pc False")
        (auto simp: rob_doSquash_def assertE_def split: if_splits)
    have k: "same_keys (instList r t) l" by (rule squash_loop_keys[OF L])
    show ?thesis
    proof (cases ret)
      case True
      then show ?thesis
        using assms cur False L k by (auto simp: rob_doSquash_def squash_frame_def assertE_def Let_def split: if_splits)
    next
      case f: False
      obtain i where "it_get l it = Inr i"
        using assms cur False L f
        by (cases "it_get l it") (auto simp: rob_doSquash_def assertE_def Let_def split: if_splits)
      then show ?thesis
        using assms cur False L f k
        by (auto simp: rob_doSquash_def squash_frame_def assertE_def Let_def split: if_splits)
    qed
  qed
qed

lemma squash_keys:
  assumes "rob_squash isPinned exiting active q t (r, pc) = Inr (r', pc')"
  shows "squash_frame t r r' \<and> same_keys (instList r t) (instList r' t)"
proof (cases "rob_isEmptyOf r t \<or> instList r t = []")
  case True
  then show ?thesis
    using assms by (auto simp: rob_squash_def squash_frame_def Let_def split: if_splits)
next
  case False
  let ?r1 = "r\<lparr>robStatus := (robStatus r)(t := RobSquashing),
    doneSquashing := (doneSquashing r)(t := False), squashedSeqNum := (squashedSeqNum r)(t := q)\<rparr>"
  have "rob_doSquash isPinned exiting active t
      (?r1\<lparr>squashIt := (squashIt ?r1)(t := Some (diSeq (last (instList r t))))\<rparr>, pc) = Inr (r', pc')"
    using assms False by (simp add: rob_squash_def Let_def)
  from doSquash_keys[OF this] show ?thesis by (auto simp: squash_frame_def)
qed


section \<open>The invariant of the reorder buffer\<close>

lemma same_keys_parts:
  assumes "same_keys l l'"
  shows "map diSeq l' = map diSeq l" "length l' = length l" "l' = [] \<longleftrightarrow> l = []"
    "rob_key ` set l' = rob_key ` set l" "seq_sorted l' = seq_sorted l"
    "l' \<noteq> [] \<Longrightarrow> diSeq (hd l') = diSeq (hd l)"
proof -
  have m: "map rob_key l' = map rob_key l" using assms by (simp add: same_keys_def)
  have "map diSeq xs = map fst (map rob_key xs)" for xs by (simp add: rob_key_def comp_def)
  then show q: "map diSeq l' = map diSeq l" using m by metis
  show "length l' = length l" using map_eq_imp_length_eq[OF m] .
  show e: "l' = [] \<longleftrightarrow> l = []" using m by (metis map_is_Nil_conv)
  show "rob_key ` set l' = rob_key ` set l" using m by (metis set_map)
  show "seq_sorted l' = seq_sorted l" using q by (simp add: seq_sorted_def)
  show "l' \<noteq> [] \<Longrightarrow> diSeq (hd l') = diSeq (hd l)" using q e by (metis hd_map)
qed

lemma rob_key_ball:
  assumes "rob_key ` A' = rob_key ` A" "\<forall>i \<in> A. P (rob_key i)"
  shows "\<forall>i \<in> A'. P (rob_key i)"
  using assms by (metis imageE image_eqI)

lemma rob_inv_squash:
  assumes "rob_inv r" "squash_frame t r r'" "same_keys (instList r t) (instList r' t)"
  shows "rob_inv r'"
proof -
  have k: "same_keys (instList r u) (instList r' u)" for u
    using assms(2,3) by (cases "u = t") (auto simp: squash_frame_def)
  note K = same_keys_parts[OF k]
  have F: "threadEntries r' = threadEntries r" "numInstsInROB r' = numInstsInROB r"
    "numEntries r' = numEntries r" "robThreads r' = robThreads r" "robHead r' = robHead r"
    using assms(2) by (auto simp: squash_frame_def)
  have ents: "\<forall>i \<in> set (instList r' u). diTid i = u \<and> has_status RobEntry i" if "u < robThreads r" for u
    using rob_key_ball[OF K(4)[of u], of "\<lambda>(q, v, e). v = u \<and> e"] assms(1) that
    by (auto simp: rob_inv_def rob_key_def)
  have keys: "rob_key ` rob_insts r' = rob_key ` rob_insts r"
    using K(4) F(4) by (auto simp: rob_insts_def image_UN)
  have "head_ok r'"
  proof (cases "rob_insts r = {}")
    case True
    moreover have "rob_insts r' = {}" using keys True by simp
    moreover have "robHead r = (0, None)"
      using assms(1) True unfolding rob_inv_def head_ok_def rob_insts_def by auto
    ultimately show ?thesis using F by (simp add: head_ok_def)
  next
    case False
    then obtain u i "is" where h: "u < robThreads r" "instList r u = i # is" "robHead r = (u, Some (diSeq i))"
      "\<forall>j \<in> rob_insts r. diSeq i \<le> diSeq j"
      using assms(1) by (auto simp: rob_inv_def head_ok_def)
    have "instList r' u \<noteq> []" using K(3)[of u] h(2) by simp
    then obtain i' is' where i': "instList r' u = i' # is'" by (cases "instList r' u") auto
    have s: "diSeq i' = diSeq i" using K(6)[of u] i' h(2) by simp
    have "\<forall>j \<in> rob_insts r'. diSeq i \<le> diSeq j"
      using rob_key_ball[OF keys, of "\<lambda>(q, _). diSeq i \<le> q"] h(4) by (auto simp: rob_key_def)
    then show ?thesis unfolding head_ok_def using h(1,3) i' s F by auto
  qed
  moreover have "\<forall>t<robThreads r. threadEntries r t = length (instList r' t) \<and> seq_sorted (instList r' t)"
    using assms(1) K(2,5) by (auto simp: rob_inv_def)
  moreover have "rob_total r' = rob_total r"
    unfolding rob_total_def F by (rule sum.cong) (auto simp: K(2))
  ultimately show ?thesis using assms(1) F ents unfolding rob_inv_def by simp
qed

lemma seq_sorted_snoc: "seq_sorted (l @ [i]) \<longleftrightarrow> seq_sorted l \<and> (\<forall>j \<in> set l. diSeq j < diSeq i)"
  by (auto simp: seq_sorted_def sorted_wrt_append)

lemma rob_inv_insert:
  assumes "rob_inv r" "rob_insertInst i r = Inr r'" "diTid i < robThreads r"
    "\<forall>j \<in> rob_insts r. diSeq j < diSeq i"
  shows "rob_inv r'"
proof -
  let ?t = "diTid i"
  let ?i = "set_status RobEntry i"
  have full: "numInstsInROB r \<noteq> int (numEntries r)"
    using assms(2) by (auto simp: rob_insertInst_def assertE_def split: if_splits)
  have r': "instList r' = (instList r)(?t := instList r ?t @ [?i])"
    "numInstsInROB r' = numInstsInROB r + 1" "numEntries r' = numEntries r" "robThreads r' = robThreads r"
    "threadEntries r' = (threadEntries r)(?t := threadEntries r ?t + 1)"
    "robHead r' = (if numInstsInROB r = 0 then (?t, it_begin (instList r ?t @ [?i])) else robHead r)"
    using assms(2) full by (auto simp: rob_insertInst_def assertE_def Let_def split: if_splits)
  have young: "\<forall>j \<in> set (instList r ?t). diSeq j < diSeq i"
    using assms(3,4) by (auto simp: rob_insts_def)
  have T: "threadEntries r u = length (instList r u)" "seq_sorted (instList r u)"
    "\<forall>j \<in> set (instList r u). diTid j = u \<and> has_status RobEntry j" if "u < robThreads r" for u
    using assms(1) that by (auto simp: rob_inv_def)
  have n: "numInstsInROB r = int (rob_total r)"
    using assms(1) by (simp add: rob_inv_def)
  have lens: "rob_total r' = rob_total r + 1"
    using rob_total_upd[OF assms(3) r'(1,4)] by simp
  have insts: "rob_insts r' = insert ?i (rob_insts r)"
    using assms(3) unfolding rob_insts_def r' by (auto split: if_splits)
  have "head_ok r'"
  proof (cases "numInstsInROB r = 0")
    case True
    then have e: "instList r t = []" if "t < robThreads r" for t
      using that n by (simp add: rob_total_0)
    then have "rob_insts r = {}" by (auto simp: rob_insts_def)
    then show ?thesis
      unfolding head_ok_def using e[OF assms(3)] True assms(3) insts r' by (auto simp: it_begin_def)
  next
    case False
    have "rob_insts r \<noteq> {}"
    proof
      assume "rob_insts r = {}"
      then have "\<forall>t<robThreads r. instList r t = []" by (auto simp: rob_insts_def)
      then have "rob_total r = 0" by (simp add: rob_total_0)
      with n False show False by simp
    qed
    then obtain u j js where h: "u < robThreads r" "instList r u = j # js" "robHead r = (u, Some (diSeq j))"
      "\<forall>k \<in> rob_insts r. diSeq j \<le> diSeq k"
      using assms(1) by (auto simp: rob_inv_def head_ok_def)
    have "j \<in> rob_insts r" using h(1,2) unfolding rob_insts_def by (intro UN_I[of u]) auto
    then have "diSeq j \<le> diSeq ?i" using assms(4) by (simp add: less_imp_le)
    then show ?thesis
      unfolding head_ok_def using h False insts r' by (intro disjI2 exI[of _ u]) auto
  qed
  moreover have "numInstsInROB r' \<le> int (numEntries r')"
    using assms(1) full r' by (auto simp: rob_inv_def)
  moreover have "threadEntries r' u = length (instList r' u) \<and> seq_sorted (instList r' u)
      \<and> (\<forall>j \<in> set (instList r' u). diTid j = u \<and> has_status RobEntry j)" if "u < robThreads r" for u
  proof (cases "u = ?t")
    case True
    have "instList r' u = instList r ?t @ [?i]" "threadEntries r' u = threadEntries r ?t + 1"
      using True r'(1,5) by simp_all
    then show ?thesis
      using T(1,2)[OF assms(3)] T(3)[OF assms(3)] young True by (simp add: seq_sorted_snoc ball_Un)
  next
    case False
    then have "instList r' u = instList r u" "threadEntries r' u = threadEntries r u"
      using r'(1,5) by simp_all
    then show ?thesis using T[OF that] by simp
  qed
  moreover have "numInstsInROB r' = int (rob_total r')" using n lens r'(2) by simp
  ultimately show ?thesis unfolding rob_inv_def r'(4) by blast
qed

lemma rob_inv_retire:
  assumes "rob_inv r" "rob_retireHead active t r = Inr (i, r')" "t < robThreads r" "active_ok active r"
  shows "rob_inv r'"
proof -
  obtain h "is" where l: "instList r t = h # is"
    using assms(2) by (cases "instList r t") (auto simp: rob_retireHead_def assertE_def split: if_splits)
  let ?r1 = "r\<lparr>instList := (instList r)(t := is), numInstsInROB := numInstsInROB r - 1,
    threadEntries := (threadEntries r)(t := threadEntries r t - 1)\<rparr>"
  have r': "r' = rob_updateHead active ?r1"
    using assms(2) l by (auto simp: rob_retireHead_def assertE_def split: if_splits)
  have lens: "rob_total r' + 1 = rob_total r"
    using rob_total_upd[OF assms(3), of r' "is"] l r' by simp
  have T: "threadEntries r u = length (instList r u)" "seq_sorted (instList r u)"
    "\<forall>j \<in> set (instList r u). diTid j = u \<and> has_status RobEntry j" if "u < robThreads r" for u
    using assms(1) that by (auto simp: rob_inv_def)
  have srt: "seq_sorted is" using T(2)[OF assms(3)] l by (simp add: seq_sorted_def)
  have srt1: "seq_sorted (instList ?r1 u)" if "u < robThreads ?r1" for u
    using srt T(2) that by simp
  have a1: "active_ok active ?r1" using assms(4) l assms(3) by (auto simp: active_ok_def)
  have "head_ok r'" unfolding r' by (rule updateHead_ok[OF a1 srt1])
  moreover have "threadEntries r' u = length (instList r' u) \<and> seq_sorted (instList r' u)
      \<and> (\<forall>j \<in> set (instList r' u). diTid j = u \<and> has_status RobEntry j)" if "u < robThreads r" for u
    using T[OF that] srt l unfolding r' by auto
  moreover have "numInstsInROB r' = int (rob_total r')"
    "numInstsInROB r' \<le> int (numEntries r)" "robThreads r' = robThreads r" "numEntries r' = numEntries r"
    using assms(1) lens by (auto simp: rob_inv_def r')
  ultimately show ?thesis unfolding rob_inv_def by simp
qed

text \<open>
  The steps of the buffer.  Rename numbers instructions in increasing order, so an inserted one
  is younger than everything inside.
\<close>

inductive rob_step :: "(phys_reg \<Rightarrow> bool) \<Rightarrow> rob \<times> pin_counts \<Rightarrow> rob \<times> pin_counts \<Rightarrow> bool"
  for isPinned :: "phys_reg \<Rightarrow> bool"
where
  insert: "rob_insertInst i r = Inr r' \<Longrightarrow> diTid i < robThreads r \<Longrightarrow> \<forall>j \<in> rob_insts r. diSeq j < diSeq i
     \<Longrightarrow> rob_step isPinned (r, pc) (r', pc)"
| retire: "rob_retireHead active t r = Inr (i, r') \<Longrightarrow> t < robThreads r \<Longrightarrow> active_ok active r
     \<Longrightarrow> rob_step isPinned (r, pc) (r', pc)"
| squash: "rob_squash isPinned exiting active q t (r, pc) = Inr (r', pc')
     \<Longrightarrow> rob_step isPinned (r, pc) (r', pc')"
| doSquash: "rob_doSquash isPinned exiting active t (r, pc) = Inr (r', pc')
     \<Longrightarrow> rob_step isPinned (r, pc) (r', pc')"

lemma rob_step_inv: "rob_step isPinned s s' \<Longrightarrow> rob_inv (fst s) \<Longrightarrow> rob_inv (fst s')"
proof (induction rule: rob_step.induct)
  case (insert i r r' pc)
  then show ?case using rob_inv_insert by simp
next
  case (retire active t r i r' pc)
  then show ?case using rob_inv_retire by simp
next
  case (squash exiting active q t r pc r' pc')
  then show ?case using rob_inv_squash[of r t r'] squash_keys[OF squash.hyps] by simp
next
  case (doSquash exiting active t r pc r' pc')
  then show ?case using rob_inv_squash[of r t r'] doSquash_keys[OF doSquash.hyps] by simp
qed

lemma rob_steps_inv:
  assumes "(rob_step isPinned)\<^sup>*\<^sup>* s s'" "rob_inv (fst s)"
  shows "rob_inv (fst s')"
  using assms(1) by (induction rule: rtranclp_induct) (simp_all add: assms(2) rob_step_inv)

lemma new_ROB_inv: "new_ROB policy entries width threads threshold = Inr r \<Longrightarrow> rob_inv r"
  by (auto simp: new_ROB_def rob_inv_def rob_resetState_def head_ok_def rob_insts_def seq_sorted_def rob_total_def split: if_splits)


section \<open>Properties\<close>

lemma insert_iff:
  assumes "rob_inv r" "diTid i < robThreads r"
  shows "(\<exists>r'. rob_insertInst i r = Inr r') \<longleftrightarrow> \<not> rob_isFull r"
proof (cases "numInstsInROB r = 0")
  case True
  have "numInstsInROB r = int (rob_total r)" using assms(1) unfolding rob_inv_def by blast
  then have "rob_total r = 0" using True by simp
  then have "instList r (diTid i) = []" using assms(2) by (simp add: rob_total_0)
  then have b: "it_begin (instList r (diTid i) @ [set_status RobEntry i]) = Some (diSeq i)"
    by (simp add: it_begin_def)
  show ?thesis
    unfolding rob_insertInst_def rob_isFull_def Let_def b by (simp add: assertE_def True)
next
  case False
  then show ?thesis by (simp add: rob_insertInst_def rob_isFull_def assertE_def Let_def)
qed

lemma squash_from_start:
  assumes "rob_inv r" "t < robThreads r" "instList r t \<noteq> []" "0 < squash_allowance exiting r"
    "length (filter (\<lambda>i. diSeq i > q) (instList r t)) \<le> n * squash_allowance exiting r" "0 < n"
  shows "\<exists>r' pc'. bindE (rob_squash isPinned exiting active q t (r, pc)) (squash_run isPinned exiting active t (n - 1))
      = Inr (r', pc') \<and> squash_frame t r r' \<and> squash_done t q (instList r t) r'"
proof -
  let ?l = "instList r t"
  let ?k = "length ?l - 1"
  let ?r1 = "r\<lparr>robStatus := (robStatus r)(t := RobSquashing),
    doneSquashing := (doneSquashing r)(t := False), squashedSeqNum := (squashedSeqNum r)(t := q),
    squashIt := (squashIt r)(t := Some (diSeq (last ?l)))\<rparr>"
  have srt: "seq_sorted ?l" and te: "threadEntries r t \<noteq> 0"
    using assms(1-3) by (auto simp: rob_inv_def)
  have at: "squashing_at t q ?l ?k ?r1"
    using assms(3) by (simp add: squashing_at_def marked_from_end last_conv_nth)
  have allow: "squash_allowance exiting ?r1 = squash_allowance exiting r" by (simp add: squash_allowance_def)
  have "length (filter (\<lambda>i. diSeq i > q) ?l) + ?k < length ?l + n * squash_allowance exiting ?r1"
    using assms(3,5) allow by (cases ?l) auto
  then obtain r' pc' where run: "squash_run isPinned exiting active t n (?r1, pc) = Inr (r', pc')"
    "squash_frame t ?r1 r'" "squash_done t q ?l r'"
    using squash_run_completes[OF srt at, of exiting n isPinned active pc] assms(4,6) allow by auto
  obtain m where n: "n = Suc m" using assms(6) by (cases n) auto
  have "rob_squash isPinned exiting active q t (r, pc) = rob_doSquash isPinned exiting active t (?r1, pc)"
    using te assms(3) by (simp add: rob_squash_def rob_isEmptyOf_def Let_def)
  then have "bindE (rob_squash isPinned exiting active q t (r, pc)) (squash_run isPinned exiting active t (n - 1))
      = Inr (r', pc')"
    using run(1) n by simp
  moreover have "squash_frame t r r'" using run(2) by (auto simp: squash_frame_def)
  ultimately show ?thesis using run(3) by blast
qed

definition rob_inst_at :: "nat \<Rightarrow> dyn_inst" where
  "rob_inst_at q = \<lparr>diSeq = q, diTid = 0, diPC = (4 * q, 0), diProps = {}, diStatus = {CanCommit}, diFlags = {},
     diSrcs = [], diDests = [], diReadyRegs = 0, diReadySrc = [], diSavedReq = None,
     diFault = None, diFlatDests = [], diFirstIssue = 0\<rparr>"

definition no_pins :: pin_counts where
  "no_pins = \<lparr>numPinned = (\<lambda>_. 0), pinnedToComplete = (\<lambda>_. 0)\<rparr>"

definition small_rob :: "nat list \<Rightarrow> rob" where
  "small_rob qs = \<lparr>instList = (\<lambda>t. if t = 0 then map (\<lambda>q. set_status RobEntry (rob_inst_at q)) qs else []),
     threadEntries = (\<lambda>t. if t = 0 then length qs else 0),
     maxEntries = (\<lambda>t. if t < 1 then 4 else 0), numEntries = 4, squashWidth = 2, robThreads = 1,
     numInstsInROB = int (length qs), squashIt = (\<lambda>_. None), squashedSeqNum = (\<lambda>_. 0),
     doneSquashing = (\<lambda>_. True), robStatus = (\<lambda>_. RobRunning), robPolicy = DynamicPolicy,
     robHead = (0, if qs = [] then None else Some (hd qs)),
     robTail = (0, if qs = [] then None else Some (last qs))\<rparr>"

lemma small_rob_new: "new_ROB DynamicPolicy 4 2 1 0 = Inr (small_rob [])"
  by (simp add: new_ROB_def rob_resetState_def small_rob_def fun_eq_iff)

lemma small_rob_insert:
  "length qs < 4 \<Longrightarrow> rob_insertInst (rob_inst_at q) (small_rob qs) = Inr (small_rob (qs @ [q]))"
  by (cases qs) (auto simp: rob_insertInst_def small_rob_def rob_inst_at_def assertE_def it_begin_def Let_def
      fun_eq_iff set_status_def intro!: rob.equality)

lemma small_rob_step:
  assumes "length qs < 4" "\<forall>p \<in> set qs. p < q"
  shows "rob_step isPinned (small_rob qs, pc) (small_rob (qs @ [q]), pc)"
  by (rule rob_step.insert[OF small_rob_insert[OF assms(1)]])
    (use assms(2) in \<open>auto simp: rob_insts_def small_rob_def rob_inst_at_def\<close>)

lemma small_rob_steps: "(rob_step isPinned)\<^sup>*\<^sup>* (small_rob [], pc) (small_rob [1, 2, 3], pc)"
proof -
  have "rob_step isPinned (small_rob [], pc) (small_rob [1], pc)" using small_rob_step[of "[]" 1] by simp
  moreover have "rob_step isPinned (small_rob [1], pc) (small_rob [1, 2], pc)"
    using small_rob_step[of "[1]" 2] by simp
  moreover have "rob_step isPinned (small_rob [1, 2], pc) (small_rob [1, 2, 3], pc)"
    using small_rob_step[of "[1, 2]" 3] by simp
  ultimately show ?thesis by (meson rtranclp.rtrancl_into_rtrancl rtranclp.rtrancl_refl)
qed

lemma small_rob_inv: "rob_inv (small_rob [1, 2, 3])"
  using rob_steps_inv[OF small_rob_steps[of undefined undefined]] new_ROB_inv[OF small_rob_new] by simp

text \<open>
  C22: In every state that the reorder buffer reaches from its constructor by insertions of ever
  younger instructions, retirements and squash cycles, of any threads in any order,
  \<open>threadEntries\<close> and \<open>numInstsInROB\<close> are the numbers of instructions in the lists, no more than
  \<open>numEntries\<close> are inside, each thread's list is in program order and holds only its own
  instructions with the \<open>RobEntry\<close> bit, and \<open>head\<close> is the oldest instruction of all threads (or
  \<open>end()\<close> of thread 0 when the buffer is empty).
\<close>

theorem rob_invariant:
  assumes "new_ROB policy entries width threads threshold = Inr r" "(rob_step isPinned)\<^sup>*\<^sup>* (r, pc) (r', pc')"
  shows "(\<forall>t<robThreads r'. threadEntries r' t = length (instList r' t) \<and> seq_sorted (instList r' t)
        \<and> (\<forall>i \<in> set (instList r' t). diTid i = t \<and> has_status RobEntry i))
     \<and> numInstsInROB r' = int (\<Sum>t<robThreads r'. length (instList r' t))
     \<and> numInstsInROB r' \<le> int (numEntries r') \<and> head_ok r'"
  using rob_steps_inv[OF assms(2)] new_ROB_inv[OF assms(1)] unfolding rob_inv_def rob_total_def fst_conv by blast

theorem rob_invariant_witness:
  "numInstsInROB (small_rob [1, 2, 3]) = 3 \<and> head_ok (small_rob [1, 2, 3])"
  using rob_invariant[OF small_rob_new small_rob_steps[of "\<lambda>_. False" "\<lparr>numPinned = (\<lambda>_. 0), pinnedToComplete = (\<lambda>_. 0)\<rparr>"]]
  by (simp add: small_rob_def)

text \<open>
  C21: Squashing a thread ends, and in time.  With a squash width \<open>w > 0\<close> (the whole buffer when
  the thread is exiting), \<open>squash\<close> followed by one \<open>doSquash\<close> a cycle is done after
  \<open>n\<close> calls whenever \<open>n * w\<close> is at least the number of instructions younger than the squash
  point.  No iterator is ever dereferenced or moved outside the list; exactly the younger
  instructions are then marked squashed and ready to commit, the others are untouched, and so are
  the other threads and the occupancy counts.
\<close>

theorem rob_squash_marks_exactly_the_younger:
  assumes "rob_inv r" "t < robThreads r" "instList r t \<noteq> []" "0 < squash_allowance exiting r"
    "length (filter (\<lambda>i. diSeq i > q) (instList r t)) \<le> n * squash_allowance exiting r" "0 < n"
  shows "\<exists>r' pc'. bindE (rob_squash isPinned exiting active q t (r, pc)) (squash_run isPinned exiting active t (n - 1))
        = Inr (r', pc')
     \<and> instList r' t = map (\<lambda>i. if diSeq i > q then rob_mark i else i) (instList r t)
     \<and> doneSquashing r' t
     \<and> (\<forall>u. u \<noteq> t \<longrightarrow> instList r' u = instList r u)
     \<and> threadEntries r' = threadEntries r \<and> numInstsInROB r' = numInstsInROB r \<and> robHead r' = robHead r"
proof -
  obtain r' pc' where "bindE (rob_squash isPinned exiting active q t (r, pc)) (squash_run isPinned exiting active t (n - 1))
      = Inr (r', pc')" and f: "squash_frame t r r'" and d: "squash_done t q (instList r t) r'"
    using squash_from_start[OF assms] by blast
  then show ?thesis
    by (intro exI[of _ r'] exI[of _ pc']) (simp add: squash_done_def squash_frame_def marked_def)
qed

theorem rob_squash_marks_exactly_the_younger_witness:
  "\<exists>r' pc'. bindE (rob_squash (\<lambda>_. False) False [0] 1 0 (small_rob [1, 2, 3], no_pins)) (squash_run (\<lambda>_. False) False [0] 0 0)
        = Inr (r', pc')
     \<and> map (\<lambda>i. (diSeq i, has_status Squashed i)) (instList r' 0) = [(1, False), (2, True), (3, True)]"
proof -
  have l: "instList (small_rob [1, 2, 3]) 0 = map (\<lambda>q. set_status RobEntry (rob_inst_at q)) [1, 2, 3]"
    by (simp add: small_rob_def)
  have y: "length (filter (\<lambda>i. diSeq i > 1) (instList (small_rob [1, 2, 3]) 0))
      \<le> 1 * squash_allowance False (small_rob [1, 2, 3])"
    unfolding l by (simp add: rob_inst_at_def squash_allowance_def small_rob_def)
  have w: "0 < squash_allowance False (small_rob [1, 2, 3])"
    by (simp add: squash_allowance_def small_rob_def)
  obtain r' pc' where r: "bindE (rob_squash (\<lambda>_. False) False [0] 1 0 (small_rob [1, 2, 3], no_pins))
        (squash_run (\<lambda>_. False) False [0] 0 (1 - 1)) = Inr (r', pc')"
    "instList r' 0 = map (\<lambda>i. if diSeq i > 1 then rob_mark i else i) (instList (small_rob [1, 2, 3]) 0)"
    using rob_squash_marks_exactly_the_younger[OF small_rob_inv _ _ w y,
        where isPinned = "\<lambda>_. False" and active = "[0]" and pc = no_pins]
    by (auto simp: small_rob_def)
  then show ?thesis
    unfolding l by (intro exI[of _ r'] exI[of _ pc'])
      (simp add: rob_inst_at_def rob_mark_def has_status_def set_status_def squash_mark_def Let_def)
qed

text \<open>
  Inserting an instruction succeeds if and only if the buffer is not full; the assertion in
  \<open>insertInst\<close> on the new head never fails in a state that satisfies the invariant.
\<close>

theorem rob_insert_succeeds_iff_not_full:
  assumes "rob_inv r" "diTid i < robThreads r"
  shows "(\<exists>r'. rob_insertInst i r = Inr r') \<longleftrightarrow> \<not> rob_isFull r"
  by (rule insert_iff[OF assms])


theorem rob_insert_succeeds_iff_not_full_witness:
  "(\<exists>r'. rob_insertInst (rob_inst_at 4) (small_rob [1, 2, 3]) = Inr r') \<and> \<not> rob_isFull (small_rob [1, 2, 3])"
  using rob_insert_succeeds_iff_not_full[OF small_rob_inv, of "rob_inst_at 4"]
  by (simp add: small_rob_def rob_inst_at_def rob_isFull_def)

end
