(* ===== verification/DepChain.thy ===== *)
theory DepChain
  imports ROB
begin

text \<open>
  Dependence chains (\<open>ROB::generateChainBuffer\<close>, \<open>ROB::findUnsentValidLoad\<close>,
  \<open>ROB::findChainTail\<close>, \<open>pc_pair.hh\<close>, the chain queries of \<open>cpu.cc\<close> and the store search of
  \<open>lsq_unit.cc\<close>).  The reorder buffer does not change while a chain is generated, so an iterator
  is a position in the thread's list here; moving it before position 0 is \<open>BadIterator\<close>.
  \<open>samePC\<close> is gem5's equality of two \<open>pcState\<close>s; an entry of the chain keeps address and
  micro-op counter.  \<open>coverage\<close> says whether \<open>getAddrRangeCoverage\<close> of a load and a store is
  other than \<open>NoAddrRangeCoverage\<close>.
\<close>

section \<open>Operations\<close>

text \<open>Equality of physical registers is that of class and index.\<close>

definition same_phys :: "phys_reg \<Rightarrow> phys_reg \<Rightarrow> bool" where
  "same_phys r s \<longleftrightarrow> prClass r = prClass s \<and> prIndex r = prIndex s"

definition produces :: "dyn_inst \<Rightarrow> phys_reg \<Rightarrow> bool" where
  "produces i r \<longleftrightarrow> \<not> has_prop IsControl i \<and> list_ex (\<lambda>d. same_phys d r) (diDests i)"

text \<open>The source registers that are searched for.\<close>

definition chain_srcs :: "dyn_inst \<Rightarrow> phys_reg list" where
  "chain_srcs i = filter (\<lambda>r. prClass r \<noteq> InvalidRegClass \<and> prClass r \<noteq> MiscRegClass) (diSrcs i)"

text \<open>The search from a start position towards the oldest instruction, up to \<open>stop\<close>.\<close>

fun find_producer :: "dyn_inst list \<Rightarrow> phys_reg \<Rightarrow> nat \<Rightarrow> nat \<Rightarrow> nat option res" where
  "find_producer l r stop 0 =
     (if stop = 0 then Inr None
      else bindE (vecGet l 0) (\<lambda>i. if produces i r then Inr (Some 0) else Inl BadIterator))"
| "find_producer l r stop (Suc p) =
     (if stop = Suc p then Inr None
      else bindE (vecGet l (Suc p)) (\<lambda>i.
        if produces i r then Inr (Some (Suc p)) else find_producer l r stop p))"

text \<open>The entries that an instruction at position \<open>p\<close> adds to the search list.\<close>

definition push_sources :: "nat \<Rightarrow> dyn_inst \<Rightarrow> (phys_reg \<times> nat) list res" where
  "push_sources p i =
     (if chain_srcs i = [] then Inr []
      else if p = 0 then Inl BadIterator
      else Inr (map (\<lambda>r. (r, p - 1)) (chain_srcs i)))"

text \<open>\<open>std::find\<close>: the position of an instruction, the length for \<open>end()\<close>.\<close>

definition inst_pos :: "dyn_inst list \<Rightarrow> dyn_inst \<Rightarrow> nat" where
  "inst_pos l i = (case pos_of l (diSeq i) of Some k \<Rightarrow> k | None \<Rightarrow> length l)"

text \<open>One round of the loop over the search list: the new buffer and the entries that it adds.\<close>

definition chain_step ::
  "(dyn_inst \<Rightarrow> dyn_inst option) \<Rightarrow> dyn_inst list \<Rightarrow> nat \<Rightarrow> pc_pair list \<Rightarrow> phys_reg \<times> nat
     \<Rightarrow> (pc_pair list \<times> (phys_reg \<times> nat) list) res"
where
  "chain_step overlap l stop buf e =
     bindE (find_producer l (fst e) stop (snd e)) (\<lambda>found.
       case found of
         None \<Rightarrow> Inr (buf, [])
       | Some p \<Rightarrow>
           bindE (vecGet l p) (\<lambda>i.
             if diPC i \<in> set buf then Inr (buf, [])
             else
               let buf1 = buf @ [diPC i] in
               bindE (push_sources p i) (\<lambda>s1.
                 if \<not> has_prop IsLoad i then Inr (buf1, s1)
                 else
                   case overlap i of
                     None \<Rightarrow> Inr (buf1, s1)
                   | Some st \<Rightarrow>
                       bindE (push_sources (inst_pos l st) st) (\<lambda>s2.
                         Inr (if diPC st \<in> set buf1 then buf1 else buf1 @ [diPC st], s1 @ s2)))))"

lemma find_producer_in: "find_producer l r stop p = Inr (Some k) \<Longrightarrow> k < length l \<and> k \<le> p \<and> produces (l ! k) r \<and> k \<noteq> stop"
  by (induction l r stop p rule: find_producer.induct)
    (auto simp: bindE_def vecGet_def split: sum.splits if_splits)

text \<open>
  The three outcomes of a round: it only pops its entry, it adds a producer, or it adds a load and
  the store that overlaps it.
\<close>

lemma chain_stepE:
  assumes "chain_step overlap l stop buf e = Inr (buf', new)"
  obtains
    (pop) found where "find_producer l (fst e) stop (snd e) = Inr found" "buf' = buf" "new = []"
      "\<And>k. found = Some k \<Longrightarrow> diPC (l ! k) \<in> set buf"
  | (add) k where "find_producer l (fst e) stop (snd e) = Inr (Some k)" "k < length l" "diPC (l ! k) \<notin> set buf"
      "push_sources k (l ! k) = Inr new" "buf' = buf @ [diPC (l ! k)]"
      "has_prop IsLoad (l ! k) \<Longrightarrow> overlap (l ! k) = None"
  | (add_store) k st s1 s2 where "find_producer l (fst e) stop (snd e) = Inr (Some k)" "k < length l"
      "diPC (l ! k) \<notin> set buf" "push_sources k (l ! k) = Inr s1" "has_prop IsLoad (l ! k)"
      "overlap (l ! k) = Some st" "push_sources (inst_pos l st) st = Inr s2" "new = s1 @ s2"
      "buf' = (if diPC st \<in> set (buf @ [diPC (l ! k)]) then buf @ [diPC (l ! k)] else buf @ [diPC (l ! k), diPC st])"
proof -
  obtain found where f: "find_producer l (fst e) stop (snd e) = Inr found"
    using assms by (cases "find_producer l (fst e) stop (snd e)") (auto simp: chain_step_def)
  show ?thesis
  proof (cases "\<exists>k. found = Some k \<and> diPC (l ! k) \<notin> set buf")
    case False
    then have "buf' = buf" "new = []"
      using assms f find_producer_in[of l "fst e" stop "snd e"]
      by (cases found; simp add: chain_step_def)+
    then show ?thesis using pop f False by blast
  next
    case True
    then obtain k where k: "found = Some k" "diPC (l ! k) \<notin> set buf" by blast
    note fk = f[unfolded k(1)]
    have kl: "k < length l" using find_producer_in[OF fk] by blast
    obtain s1 where s1: "push_sources k (l ! k) = Inr s1"
      using assms fk k kl by (cases "push_sources k (l ! k)") (simp_all add: chain_step_def Let_def)
    show ?thesis
    proof (cases "has_prop IsLoad (l ! k) \<and> overlap (l ! k) \<noteq> None")
      case False
      have "buf' = buf @ [diPC (l ! k)]" "new = s1"
        using assms fk k kl s1 False by (cases "has_prop IsLoad (l ! k)"; simp add: chain_step_def Let_def)+
      then show ?thesis using add fk kl k(2) s1 False by simp
    next
      case True
      then obtain st where st: "overlap (l ! k) = Some st" by blast
      obtain s2 where s2: "push_sources (inst_pos l st) st = Inr s2"
        using assms fk k kl s1 True st by (cases "push_sources (inst_pos l st) st") (simp_all add: chain_step_def Let_def)
      have "buf' = (if diPC st \<in> set (buf @ [diPC (l ! k)]) then buf @ [diPC (l ! k)] else buf @ [diPC (l ! k), diPC st])"
        "new = s1 @ s2"
        using assms fk k kl s1 True st s2 by (auto simp: chain_step_def Let_def)
      then show ?thesis using add_store fk kl k(2) s1 True st s2 by blast
    qed
  qed
qed

lemma chain_step_grows: "chain_step overlap l stop buf e = Inr (buf', new) \<Longrightarrow> \<exists>xs. buf' = buf @ xs"
  by (erule chain_stepE) auto

lemma chain_step_cases:
  assumes "chain_step overlap l stop buf e = Inr (buf', s)"
  shows "(buf' = buf \<and> s = []) \<or> (\<exists>i \<in> set l. diPC i \<notin> set buf \<and> diPC i \<in> set buf' \<and> set buf \<subseteq> set buf')"
  using assms by (rule chain_stepE) (auto split: if_splits)

text \<open>
  The loop ends: a round either makes the search list shorter or adds to the buffer a PC of the
  reorder buffer that was not there.
\<close>

lemma new_pc_card:
  assumes "i \<in> set l" "diPC i \<notin> set buf" "diPC i \<in> set buf'" "set buf \<subseteq> set buf'"
  shows "card (diPC ` set l - set buf') < card (diPC ` set l - set buf)"
  by (rule psubset_card_mono) (use assms in auto)

function chain_loop ::
  "(dyn_inst \<Rightarrow> dyn_inst option) \<Rightarrow> dyn_inst list \<Rightarrow> nat \<Rightarrow> pc_pair list \<Rightarrow> (phys_reg \<times> nat) list
     \<Rightarrow> pc_pair list res"
where
  "chain_loop overlap l stop buf [] = Inr buf"
| "chain_loop overlap l stop buf (e # srsl) =
     bindE (chain_step overlap l stop buf e) (\<lambda>r.
       chain_loop overlap l stop (fst r) (srsl @ snd r))"
  by pat_completeness auto

termination
proof (relation "measures [\<lambda>(ov, l, stop, buf, srsl). card (diPC ` set l - set buf), \<lambda>(ov, l, stop, buf, srsl). length srsl]")
  fix overlap l stop buf e srsl r
  assume "chain_step overlap l stop buf e = Inr r"
  then have "chain_step overlap l stop buf e = Inr (fst r, snd r)" by simp
  from chain_step_cases[OF this]
  show "((overlap, l, stop, fst r, srsl @ snd r), overlap, l, stop, buf, e # srsl)
    \<in> measures [\<lambda>(ov, l, stop, buf, srsl). card (diPC ` set l - set buf), \<lambda>(ov, l, stop, buf, srsl). length srsl]"
    using new_pc_card by auto
qed simp

definition find_younger :: "(dyn_inst \<Rightarrow> dyn_inst \<Rightarrow> bool) \<Rightarrow> dyn_inst list \<Rightarrow> nat \<Rightarrow> dyn_inst \<Rightarrow> nat option" where
  "find_younger samePC l stop i = find (\<lambda>j. samePC (l ! j) i) [stop..<length l]"

definition generateChainBuffer ::
  "(dyn_inst \<Rightarrow> dyn_inst \<Rightarrow> bool) \<Rightarrow> (dyn_inst \<Rightarrow> dyn_inst option) \<Rightarrow> dyn_inst list \<Rightarrow> dyn_inst
     \<Rightarrow> pc_pair list \<Rightarrow> pc_pair list res"
where
  "generateChainBuffer samePC overlap l i buf =
     (let k = inst_pos l i in
      if k = length l then Inr buf
      else
        let stop = k + 1 in
        case find_younger samePC l stop i of
          None \<Rightarrow> Inr buf
        | Some y \<Rightarrow>
            bindE (push_sources y (l ! y)) (\<lambda>srsl.
            bindE (chain_loop overlap l stop (buf @ [diPC (l ! y)]) srsl) (\<lambda>b. Inr (rev b))))"

text \<open>\<open>LSQUnit::hasOverlappingStore\<close> and \<open>getOverlappingStore\<close>; the store queue, oldest first.\<close>

definition hasOverlappingStore :: "(dyn_inst \<Rightarrow> dyn_inst \<Rightarrow> bool) \<Rightarrow> dyn_inst list \<Rightarrow> dyn_inst \<Rightarrow> bool" where
  "hasOverlappingStore coverage sq ld \<longleftrightarrow>
     sq \<noteq> [] \<and> has_flag ReqMade ld \<and> diSavedReq ld \<noteq> None \<and> list_ex (coverage ld) sq"

definition getOverlappingStore :: "(dyn_inst \<Rightarrow> dyn_inst \<Rightarrow> bool) \<Rightarrow> dyn_inst list \<Rightarrow> dyn_inst \<Rightarrow> dyn_inst res" where
  "getOverlappingStore coverage sq ld =
     (case find (coverage ld) sq of None \<Rightarrow> Inl PanicCall | Some st \<Rightarrow> Inr st)"

definition overlap_in :: "(dyn_inst \<Rightarrow> dyn_inst \<Rightarrow> bool) \<Rightarrow> dyn_inst list \<Rightarrow> dyn_inst \<Rightarrow> dyn_inst option" where
  "overlap_in coverage sq ld =
     (if hasOverlappingStore coverage sq ld then find (coverage ld) sq else None)"

lemma overlap_in_get:
  "hasOverlappingStore coverage sq ld \<Longrightarrow> \<exists>st. getOverlappingStore coverage sq ld = Inr st \<and> overlap_in coverage sq ld = Some st"
  by (cases "find (coverage ld) sq")
    (auto simp: hasOverlappingStore_def getOverlappingStore_def overlap_in_def find_None_iff list_ex_iff)

text \<open>The queries on a chain.\<close>

definition inRunaheadChain :: "pc_pair list \<Rightarrow> dyn_inst \<Rightarrow> bool" where
  "inRunaheadChain chain i \<longleftrightarrow> chain = [] \<or> diPC i \<in> set chain"

definition isEndOfRunaheadChain :: "pc_pair list \<Rightarrow> pc_pair \<Rightarrow> bool" where
  "isEndOfRunaheadChain chain pc \<longleftrightarrow> chain \<noteq> [] \<and> last chain = pc"

fun unsent_loop :: "dyn_inst list \<Rightarrow> int \<Rightarrow> nat \<Rightarrow> nat" where
  "unsent_loop [] limit youngest = youngest"
| "unsent_loop (i # is) limit youngest =
     (if \<not> has_prop IsLoad i then unsent_loop is limit youngest
      else if has_flag Poisoned i then unsent_loop is limit youngest
      else
        let y = (if \<not> has_status Executed i then diSeq i else youngest) in
        if limit - 1 \<le> 0 then y else unsent_loop is (limit - 1) y)"

definition findUnsentValidLoad :: "rob \<Rightarrow> nat \<Rightarrow> int \<Rightarrow> nat" where
  "findUnsentValidLoad r t limit =
     unsent_loop (instList r t) (if limit = -1 then int (threadEntries r t) else limit) 0"

fun tail_loop :: "pc_pair list \<Rightarrow> dyn_inst list \<Rightarrow> int \<Rightarrow> nat res" where
  "tail_loop chain [] n = Inr 0"
| "tail_loop chain (i # is) n =
     (if chain = [] then Inl OutOfRange
      else if last chain = diPC i
      then (if n - 1 \<le> 0 then Inr (diSeq i) else tail_loop chain is (n - 1))
      else tail_loop chain is n)"

definition findChainTail :: "pc_pair list \<Rightarrow> rob \<Rightarrow> nat \<Rightarrow> int \<Rightarrow> nat res" where
  "findChainTail chain r t n = tail_loop chain (instList r t) n"


section \<open>The search for a producer\<close>

lemma find_producer_None:
  "find_producer l r stop p = Inr None \<Longrightarrow> stop \<le> p \<and> (\<forall>k. stop < k \<and> k \<le> p \<longrightarrow> \<not> produces (l ! k) r)"
proof (induction l r stop p rule: find_producer.induct)
  case (2 l r stop p)
  show ?case
  proof (cases "stop = Suc p")
    case False
    then have "Suc p < length l" "\<not> produces (l ! Suc p) r" "find_producer l r stop p = Inr None"
      using 2(2) by (auto simp: bindE_def vecGet_def split: if_splits)
    then show ?thesis using 2(1)[OF False] by (auto simp: le_Suc_eq)
  qed auto
qed (auto simp: bindE_def vecGet_def split: if_splits sum.splits)

text \<open>The producer that is found is the youngest one.\<close>

lemma find_producer_Some:
  "find_producer l r stop p = Inr (Some k) \<Longrightarrow> (\<forall>j. k < j \<and> j \<le> p \<longrightarrow> \<not> produces (l ! j) r) \<and> (stop \<le> p \<longrightarrow> stop < k)"
proof (induction l r stop p rule: find_producer.induct)
  case (2 l r stop p)
  have ns: "stop \<noteq> Suc p" using 2(2) by auto
  then have p: "Suc p < length l" using 2(2) by (auto simp: bindE_def vecGet_def split: if_splits)
  show ?case
  proof (cases "produces (l ! Suc p) r")
    case True
    then show ?thesis using 2(2) ns p by auto
  next
    case False
    then have "find_producer l r stop p = Inr (Some k)" using 2(2) ns p by simp
    then show ?thesis using 2(1)[OF ns _ ] False ns p by (auto simp: le_Suc_eq)
  qed
qed (auto simp: bindE_def vecGet_def split: if_splits sum.splits)

lemma find_producer_total:
  assumes "stop \<le> p" "p < length l"
  shows "\<exists>found. find_producer l r stop p = Inr found"
  using assms by (induction l r stop p rule: find_producer.induct) auto

section \<open>The slice of a load\<close>

text \<open>
  The instructions that the search can reach from the younger instance \<open>y\<close> of the load.  An
  element carries the position from which its sources are searched.
\<close>

inductive search_slice ::
  "(dyn_inst \<Rightarrow> dyn_inst option) \<Rightarrow> dyn_inst list \<Rightarrow> nat \<Rightarrow> nat \<Rightarrow> nat \<times> dyn_inst \<Rightarrow> bool"
  for overlap :: "dyn_inst \<Rightarrow> dyn_inst option" and l :: "dyn_inst list" and stop :: nat and y :: nat
where
  root: "search_slice overlap l stop y (y, l ! y)"
| producer: "search_slice overlap l stop y (p, i) \<Longrightarrow> r \<in> set (chain_srcs i)
     \<Longrightarrow> find_producer l r stop (p - 1) = Inr (Some k) \<Longrightarrow> search_slice overlap l stop y (k, l ! k)"
| store: "search_slice overlap l stop y (p, l ! p) \<Longrightarrow> p \<noteq> y \<Longrightarrow> has_prop IsLoad (l ! p) \<Longrightarrow> overlap (l ! p) = Some st
     \<Longrightarrow> search_slice overlap l stop y (inst_pos l st, st)"

text \<open>
  What the loop keeps.  \<open>E\<close> holds the instructions whose PCs are in the buffer and whose sources
  were put on the search list.
\<close>

definition chain_inv ::
  "(dyn_inst \<Rightarrow> dyn_inst option) \<Rightarrow> dyn_inst list \<Rightarrow> nat \<Rightarrow> nat \<Rightarrow> (nat \<times> dyn_inst) set \<Rightarrow> pc_pair list
     \<Rightarrow> (phys_reg \<times> nat) list \<Rightarrow> bool"
where
  "chain_inv overlap l stop y E buf q \<longleftrightarrow>
     (y, l ! y) \<in> E \<and> distinct buf \<and> set buf = (\<lambda>e. diPC (snd e)) ` E
     \<and> (\<forall>e \<in> E. search_slice overlap l stop y e)
     \<and> (\<forall>r s. (r, s) \<in> set q \<longrightarrow> (\<exists>p i. (p, i) \<in> E \<and> r \<in> set (chain_srcs i) \<and> s = p - 1))
     \<and> (\<forall>p i r k. (p, i) \<in> E \<longrightarrow> r \<in> set (chain_srcs i) \<longrightarrow> (r, p - 1) \<notin> set q
          \<longrightarrow> find_producer l r stop (p - 1) = Inr (Some k) \<longrightarrow> diPC (l ! k) \<in> set buf)
     \<and> (\<forall>p st. (p, l ! p) \<in> E \<longrightarrow> p \<noteq> y \<longrightarrow> has_prop IsLoad (l ! p) \<longrightarrow> overlap (l ! p) = Some st
          \<longrightarrow> (inst_pos l st, st) \<in> E)"

lemma push_sources_set:
  "push_sources p i = Inr s \<Longrightarrow> set s = (\<lambda>r. (r, p - 1)) ` set (chain_srcs i)"
  by (auto simp: push_sources_def split: if_splits)


lemma chain_invD:
  assumes "chain_inv overlap l stop y E buf q"
  shows "(y, l ! y) \<in> E" "distinct buf" "set buf = (\<lambda>e. diPC (snd e)) ` E"
    "e \<in> E \<Longrightarrow> search_slice overlap l stop y e"
    "(r, s) \<in> set q \<Longrightarrow> \<exists>p i. (p, i) \<in> E \<and> r \<in> set (chain_srcs i) \<and> s = p - 1"
    "(p, i) \<in> E \<Longrightarrow> r \<in> set (chain_srcs i) \<Longrightarrow> (r, p - 1) \<notin> set q
       \<Longrightarrow> find_producer l r stop (p - 1) = Inr (Some k) \<Longrightarrow> diPC (l ! k) \<in> set buf"
    "(p, l ! p) \<in> E \<Longrightarrow> p \<noteq> y \<Longrightarrow> has_prop IsLoad (l ! p) \<Longrightarrow> overlap (l ! p) = Some st \<Longrightarrow> (inst_pos l st, st) \<in> E"
  using assms unfolding chain_inv_def by blast+

lemma chain_invI:
  assumes "(y, l ! y) \<in> E" "distinct buf" "set buf = (\<lambda>e. diPC (snd e)) ` E"
    "\<And>e. e \<in> E \<Longrightarrow> search_slice overlap l stop y e"
    "\<And>r s. (r, s) \<in> set q \<Longrightarrow> \<exists>p i. (p, i) \<in> E \<and> r \<in> set (chain_srcs i) \<and> s = p - 1"
    "\<And>p i r k. (p, i) \<in> E \<Longrightarrow> r \<in> set (chain_srcs i) \<Longrightarrow> (r, p - 1) \<notin> set q
       \<Longrightarrow> find_producer l r stop (p - 1) = Inr (Some k) \<Longrightarrow> diPC (l ! k) \<in> set buf"
    "\<And>p st. (p, l ! p) \<in> E \<Longrightarrow> p \<noteq> y \<Longrightarrow> has_prop IsLoad (l ! p) \<Longrightarrow> overlap (l ! p) = Some st \<Longrightarrow> (inst_pos l st, st) \<in> E"
  shows "chain_inv overlap l stop y E buf q"
  unfolding chain_inv_def using assms by blast

text \<open>A round that only pops its entry: the entry is resolved.\<close>

lemma chain_inv_pop:
  assumes "chain_inv overlap l stop y E buf ((r, s) # q)"
    "\<And>k. find_producer l r stop s = Inr (Some k) \<Longrightarrow> diPC (l ! k) \<in> set buf"
  shows "chain_inv overlap l stop y E buf q"
proof (rule chain_invI)
  note D = chain_invD[OF assms(1)]
  show "(y, l ! y) \<in> E" "distinct buf" "set buf = (\<lambda>e. diPC (snd e)) ` E" by (rule D(1) D(2) D(3))+
  show "search_slice overlap l stop y e" if "e \<in> E" for e by (rule D(4)[OF that])
  show "\<exists>p i. (p, i) \<in> E \<and> r' \<in> set (chain_srcs i) \<and> s' = p - 1" if "(r', s') \<in> set q" for r' s'
    using D(5)[of r' s'] that by simp
  show "diPC (l ! k) \<in> set buf"
    if "(p, i) \<in> E" "r' \<in> set (chain_srcs i)" "(r', p - 1) \<notin> set q" "find_producer l r' stop (p - 1) = Inr (Some k)"
    for p i r' k
  proof (cases "(r', p - 1) = (r, s)")
    case True
    then show ?thesis using assms(2)[of k] that(4) by simp
  next
    case False
    then show ?thesis using D(6)[OF that(1,2) _ that(4)] that(3) by simp
  qed
  show "(inst_pos l st, st) \<in> E"
    if "(p, l ! p) \<in> E" "p \<noteq> y" "has_prop IsLoad (l ! p)" "overlap (l ! p) = Some st" for p st
    by (rule D(7)[OF that])
qed

text \<open>A round that adds instructions \<open>N\<close> to the buffer and their sources to the list.\<close>

lemma chain_inv_add:
  assumes "chain_inv overlap l stop y E buf ((r, s) # q)" "find_producer l r stop s = Inr (Some k)"
    "(k, l ! k) \<in> N" "\<And>e. e \<in> N \<Longrightarrow> search_slice overlap l stop y e"
    "distinct buf'" "set buf' = set buf \<union> (\<lambda>e. diPC (snd e)) ` N"
    "set new = (\<Union>(p, i) \<in> N. (\<lambda>r. (r, p - 1)) ` set (chain_srcs i))"
    "\<And>p st. (p, l ! p) \<in> N \<Longrightarrow> has_prop IsLoad (l ! p) \<Longrightarrow> overlap (l ! p) = Some st \<Longrightarrow> (inst_pos l st, st) \<in> N"
  shows "chain_inv overlap l stop y (E \<union> N) buf' (q @ new)"
proof (rule chain_invI)
  note D = chain_invD[OF assms(1)]
  show "(y, l ! y) \<in> E \<union> N" using D(1) by simp
  show "distinct buf'" by (rule assms(5))
  show "set buf' = (\<lambda>e. diPC (snd e)) ` (E \<union> N)" using D(3) assms(6) by (simp add: image_Un)
  show "search_slice overlap l stop y e" if "e \<in> E \<union> N" for e using that D(4) assms(4) by blast
  show "\<exists>p i. (p, i) \<in> E \<union> N \<and> r' \<in> set (chain_srcs i) \<and> s' = p - 1" if "(r', s') \<in> set (q @ new)" for r' s'
  proof (cases "(r', s') \<in> set q")
    case True
    then show ?thesis using D(5)[of r' s'] by auto
  next
    case False
    then have "(r', s') \<in> set new" using that by simp
    then show ?thesis unfolding assms(7) by blast
  qed
  show "diPC (l ! k') \<in> set buf'"
    if "(p, i) \<in> E \<union> N" "r' \<in> set (chain_srcs i)" "(r', p - 1) \<notin> set (q @ new)"
      "find_producer l r' stop (p - 1) = Inr (Some k')" for p i r' k'
  proof -
    have "(p, i) \<notin> N" using that(2,3) assms(7) by auto
    then have E: "(p, i) \<in> E" using that(1) by simp
    show ?thesis
    proof (cases "(r', p - 1) = (r, s)")
      case True
      then have "k' = k" using assms(2) that(4) by simp
      then show ?thesis using assms(3,6) by force
    next
      case False
      then show ?thesis using D(6)[OF E that(2) _ that(4)] that(3) assms(6) by simp
    qed
  qed
  show "(inst_pos l st, st) \<in> E \<union> N"
    if "(p, l ! p) \<in> E \<union> N" "p \<noteq> y" "has_prop IsLoad (l ! p)" "overlap (l ! p) = Some st" for p st
    using D(7)[OF _ that(2-4)] assms(8)[OF _ that(3,4)] that(1) by blast
qed

lemma chain_step_inv:
  assumes "chain_inv overlap l stop y E buf (e # q)" "chain_step overlap l stop buf e = Inr (buf', new)"
    "\<And>i st. overlap i = Some st \<Longrightarrow> \<not> has_prop IsLoad st"
  shows "\<exists>E'. chain_inv overlap l stop y E' buf' (q @ new)"
proof -
  obtain r s where e: "e = (r, s)" by (cases e)
  note inv = assms(1)[unfolded e]
  obtain p i where pi: "(p, i) \<in> E" "r \<in> set (chain_srcs i)" "s = p - 1"
    using chain_invD(5)[OF inv, of r s] by auto
  have slk: "search_slice overlap l stop y (k, l ! k)" if "find_producer l r stop s = Inr (Some k)" for k
    using search_slice.producer[OF chain_invD(4)[OF inv pi(1)] pi(2)] that pi(3) by simp
  have ny: "k \<noteq> y" if "diPC (l ! k) \<notin> set buf" for k
    using chain_invD(1,3)[OF inv] that by force
  have dist: "distinct buf" by (rule chain_invD(2)[OF inv])
  from assms(2) show ?thesis
  proof (cases rule: chain_stepE)
    case (pop found)
    then have "chain_inv overlap l stop y E buf q" by (intro chain_inv_pop[OF inv]) (simp add: e)
    then show ?thesis using pop(2,3) by auto
  next
    case (add k)
    have fk: "find_producer l r stop s = Inr (Some k)" using add(1) e by simp
    have "chain_inv overlap l stop y (E \<union> {(k, l ! k)}) buf' (q @ new)"
      by (rule chain_inv_add[OF inv fk])
        (use slk[OF fk] dist add(3,5,6) push_sources_set[OF add(4)] in simp_all)
    then show ?thesis by blast
  next
    case (add_store k st s1 s2)
    have fk: "find_producer l r stop s = Inr (Some k)" using add_store(1) e by simp
    have slst: "search_slice overlap l stop y (inst_pos l st, st)"
      by (rule search_slice.store[OF slk[OF fk] ny[OF add_store(3)] add_store(5,6)])
    have nl: "\<not> has_prop IsLoad st" by (rule assms(3)[OF add_store(6)])
    have "chain_inv overlap l stop y (E \<union> {(k, l ! k), (inst_pos l st, st)}) buf' (q @ new)"
    proof (rule chain_inv_add[OF inv fk])
      show "distinct buf'" using dist add_store(3,9) by auto
      show "set new = (\<Union>(p, i) \<in> {(k, l ! k), (inst_pos l st, st)}. (\<lambda>r. (r, p - 1)) ` set (chain_srcs i))"
        using push_sources_set[OF add_store(4)] push_sources_set[OF add_store(7)] add_store(8) by simp
      show "set buf' = set buf \<union> (\<lambda>e. diPC (snd e)) ` {(k, l ! k), (inst_pos l st, st)}"
        using add_store(9) by auto
      show "(inst_pos l st', st') \<in> {(k, l ! k), (inst_pos l st, st)}"
        if "(p, l ! p) \<in> {(k, l ! k), (inst_pos l st, st)}" "has_prop IsLoad (l ! p)" "overlap (l ! p) = Some st'" for p st'
        using that nl add_store(6) by auto
    qed (use slk[OF fk] slst in auto)
    then show ?thesis by blast
  qed
qed

lemma chain_loop_inv:
  assumes "\<And>i st. overlap i = Some st \<Longrightarrow> \<not> has_prop IsLoad st"
  shows "chain_inv overlap l stop y E buf q \<Longrightarrow> chain_loop overlap l stop buf q = Inr buf'
    \<Longrightarrow> \<exists>E'. chain_inv overlap l stop y E' buf' []"
  using assms
proof (induction overlap l stop buf q arbitrary: E rule: chain_loop.induct)
  case (2 overlap l stop buf e srsl)
  obtain b new where b: "chain_step overlap l stop buf e = Inr (b, new)"
    using 2(3) by (cases "chain_step overlap l stop buf e") auto
  obtain E' where "chain_inv overlap l stop y E' b (srsl @ new)"
    using chain_step_inv[OF 2(2) b] 2(4) by metis
  then show ?case using 2(1)[OF b, unfolded fst_conv snd_conv] 2(3,4) b by simp
qed auto

lemma chain_loop_first: "chain_loop overlap l stop buf q = Inr buf' \<Longrightarrow> buf \<noteq> [] \<Longrightarrow> hd buf' = hd buf \<and> buf' \<noteq> []"
proof (induction overlap l stop buf q rule: chain_loop.induct)
  case (2 overlap l stop buf e srsl)
  obtain b new where b: "chain_step overlap l stop buf e = Inr (b, new)"
    using 2(2) by (cases "chain_step overlap l stop buf e") auto
  have "hd b = hd buf" "b \<noteq> []" using chain_step_grows[OF b] 2(3) by auto
  then show ?case using 2(1)[OF b, unfolded fst_conv snd_conv] 2(2) b by simp
qed auto

text \<open>When no two instructions of the slice share a PC, the final buffer has the whole slice.\<close>

lemma chain_complete:
  assumes "chain_inv overlap l stop y E buf []"
    "inj_on (\<lambda>e. diPC (snd e)) {e. search_slice overlap l stop y e}"
    "search_slice overlap l stop y e"
  shows "e \<in> E"
  using assms(3)
proof (induction rule: search_slice.induct)
  case root
  show ?case by (rule chain_invD(1)[OF assms(1)])
next
  case (producer p i r k)
  have "diPC (l ! k) \<in> set buf"
    using chain_invD(6)[OF assms(1) producer.IH producer.hyps(2) _ producer.hyps(3)] by simp
  then obtain e' where e': "e' \<in> E" "diPC (snd e') = diPC (snd (k, l ! k))"
    using chain_invD(3)[OF assms(1)] by auto
  then have "e' = (k, l ! k)"
    using inj_onD[OF assms(2) e'(2)] chain_invD(4)[OF assms(1) e'(1)] search_slice.producer[OF producer.hyps] by simp
  then show ?case using e'(1) by simp
next
  case (store p st)
  then show ?case using chain_invD(7)[OF assms(1)] by blast
qed


section \<open>The loop does not fail\<close>

definition starts_ok :: "dyn_inst list \<Rightarrow> nat \<Rightarrow> (phys_reg \<times> nat) list \<Rightarrow> bool" where
  "starts_ok l stop q \<longleftrightarrow> list_all (\<lambda>(r, s). stop \<le> s \<and> s < length l) q"

definition stores_after :: "(dyn_inst \<Rightarrow> dyn_inst option) \<Rightarrow> dyn_inst list \<Rightarrow> nat \<Rightarrow> bool" where
  "stores_after overlap l stop \<longleftrightarrow>
     (\<forall>i st. overlap i = Some st \<longrightarrow> \<not> has_prop IsLoad st \<and> stop < inst_pos l st)"

lemma inst_pos_le: "inst_pos l i \<le> length l"
  using pos_of_Some[of l "diSeq i"] by (auto simp: inst_pos_def less_imp_le split: option.splits)

lemma push_sources_ok:
  assumes "stop < p" "p \<le> length l"
  shows "\<exists>s. push_sources p i = Inr s \<and> starts_ok l stop s"
  using assms by (auto simp: push_sources_def starts_ok_def list_all_iff)

lemma chain_step_ok:
  assumes "stores_after overlap l stop" "stop \<le> snd e" "snd e < length l"
  shows "\<exists>buf' new. chain_step overlap l stop buf e = Inr (buf', new) \<and> starts_ok l stop new"
proof -
  obtain found where f: "find_producer l (fst e) stop (snd e) = Inr found"
    using find_producer_total[OF assms(2,3)] by blast
  show ?thesis
  proof (cases found)
    case None
    then show ?thesis using f by (simp add: chain_step_def starts_ok_def)
  next
    case (Some k)
    have k: "stop < k" "k < length l"
      using find_producer_Some find_producer_in f Some assms(2) by blast+
    obtain s1 where s1: "push_sources k (l ! k) = Inr s1" "starts_ok l stop s1"
      using push_sources_ok[of stop k l] k by auto
    show ?thesis
    proof (cases "diPC (l ! k) \<in> set buf \<or> \<not> has_prop IsLoad (l ! k) \<or> overlap (l ! k) = None")
      case True
      then show ?thesis using f Some k s1 by (auto simp: chain_step_def Let_def starts_ok_def)
    next
      case False
      then obtain st where st: "overlap (l ! k) = Some st" by blast
      then have "stop < inst_pos l st" using assms(1) unfolding stores_after_def by blast
      then obtain s2 where s2: "push_sources (inst_pos l st) st = Inr s2" "starts_ok l stop s2"
        using push_sources_ok[of stop "inst_pos l st" l] inst_pos_le by blast
      show ?thesis using f Some k s1 s2 st False by (auto simp: chain_step_def Let_def starts_ok_def)
    qed
  qed
qed

lemma chain_loop_ok:
  "stores_after overlap l stop \<Longrightarrow> starts_ok l stop q \<Longrightarrow> \<exists>b. chain_loop overlap l stop buf q = Inr b"
proof (induction overlap l stop buf q rule: chain_loop.induct)
  case (2 overlap l stop buf e srsl)
  obtain b new where b: "chain_step overlap l stop buf e = Inr (b, new)" "starts_ok l stop new"
    using chain_step_ok[OF 2(2), of e buf] 2(3) by (auto simp: starts_ok_def)
  then show ?case using 2(1)[OF b(1), unfolded fst_conv snd_conv] 2(2,3) by (simp add: starts_ok_def)
qed simp

lemma find_younger_Some:
  "find_younger samePC l stop i = Some y \<Longrightarrow> stop \<le> y \<and> y < length l \<and> samePC (l ! y) i"
  by (auto simp: find_younger_def find_Some_iff)

text \<open>
  The dependences without the search: \<open>k\<close> is the youngest instruction older than position \<open>p\<close>, and
  younger than the instruction at \<open>stop\<close>, that produces register \<open>r\<close>.  The slice of the younger
  instance \<open>y\<close> of the load holds the producers of its source registers, the store that overlaps a
  load of the slice, and what they depend on.
\<close>

definition youngest_producer :: "dyn_inst list \<Rightarrow> phys_reg \<Rightarrow> nat \<Rightarrow> nat \<Rightarrow> nat \<Rightarrow> bool" where
  "youngest_producer l r stop p k \<longleftrightarrow> stop < k \<and> k < p \<and> produces (l ! k) r
     \<and> (\<forall>j. k < j \<and> j < p \<longrightarrow> \<not> produces (l ! j) r)"

inductive in_slice ::
  "(dyn_inst \<Rightarrow> dyn_inst option) \<Rightarrow> dyn_inst list \<Rightarrow> nat \<Rightarrow> nat \<Rightarrow> nat \<times> dyn_inst \<Rightarrow> bool"
  for overlap :: "dyn_inst \<Rightarrow> dyn_inst option" and l :: "dyn_inst list" and stop :: nat and y :: nat
where
  root: "in_slice overlap l stop y (y, l ! y)"
| producer: "in_slice overlap l stop y (p, i) \<Longrightarrow> r \<in> set (chain_srcs i)
     \<Longrightarrow> youngest_producer l r stop p k \<Longrightarrow> in_slice overlap l stop y (k, l ! k)"
| store: "in_slice overlap l stop y (p, l ! p) \<Longrightarrow> p \<noteq> y \<Longrightarrow> has_prop IsLoad (l ! p) \<Longrightarrow> overlap (l ! p) = Some st
     \<Longrightarrow> in_slice overlap l stop y (inst_pos l st, st)"

lemma find_producer_youngest:
  assumes "stop < p" "p \<le> length l"
  shows "find_producer l r stop (p - 1) = Inr (Some k) \<longleftrightarrow> youngest_producer l r stop p k"
proof
  assume f: "find_producer l r stop (p - 1) = Inr (Some k)"
  show "youngest_producer l r stop p k"
    unfolding youngest_producer_def
    using find_producer_Some[OF f] find_producer_in[OF f] assms(1) by auto
next
  assume k: "youngest_producer l r stop p k"
  have "stop \<le> p - 1" "p - 1 < length l" using assms by auto
  then obtain found where f: "find_producer l r stop (p - 1) = Inr found" using find_producer_total by blast
  show "find_producer l r stop (p - 1) = Inr (Some k)"
  proof (cases found)
    case None
    then show ?thesis using find_producer_None f k by (auto simp: youngest_producer_def)
  next
    case (Some j)
    note fj = f[unfolded Some]
    have "stop < j" "j < p" "produces (l ! j) r" "\<And>i. j < i \<Longrightarrow> i < p \<Longrightarrow> \<not> produces (l ! i) r"
      using find_producer_Some[OF fj] find_producer_in[OF fj] assms(1) by auto
    then have "j = k" using k unfolding youngest_producer_def by (metis linorder_neqE_nat)
    then show ?thesis using fj by simp
  qed
qed

lemma slice_bounds:
  assumes "stores_after overlap l stop" "stop < y" "y < length l"
  shows "search_slice overlap l stop y (p, i) \<Longrightarrow> stop < p \<and> p \<le> length l"
    "in_slice overlap l stop y (p, i) \<Longrightarrow> stop < p \<and> p \<le> length l"
proof -
  have st: "stop < inst_pos l st \<and> inst_pos l st \<le> length l" if "overlap j = Some st" for j st
    using assms(1) that inst_pos_le unfolding stores_after_def by blast
  have "search_slice overlap l stop y e \<Longrightarrow> stop < fst e \<and> fst e \<le> length l" for e
  proof (induction rule: search_slice.induct)
    case (producer p i r k)
    have "stop < p" using producer.IH by simp
    then have "stop \<le> p - 1" by simp
    then show ?case using find_producer_Some find_producer_in producer.hyps(3) by fastforce
  qed (use assms(2,3) st in auto)
  then show "search_slice overlap l stop y (p, i) \<Longrightarrow> stop < p \<and> p \<le> length l" by fastforce
  have "in_slice overlap l stop y e \<Longrightarrow> stop < fst e \<and> fst e \<le> length l" for e
    by (induction rule: in_slice.induct) (use assms(2,3) st in \<open>auto simp: youngest_producer_def\<close>)
  then show "in_slice overlap l stop y (p, i) \<Longrightarrow> stop < p \<and> p \<le> length l" by fastforce
qed

lemma search_finds_slice:
  assumes "stores_after overlap l stop" "stop < y" "y < length l"
  shows "search_slice overlap l stop y = in_slice overlap l stop y"
proof (intro ext iffI)
  fix e
  show "search_slice overlap l stop y e \<Longrightarrow> in_slice overlap l stop y e"
  proof (induction rule: search_slice.induct)
    case (producer p i r k)
    have "stop < p" "p \<le> length l" using slice_bounds(1)[OF assms producer.hyps(1)] by auto
    then show ?case using in_slice.producer[OF producer.IH producer.hyps(2)] find_producer_youngest producer.hyps(3)
      by blast
  qed (auto intro: in_slice.intros)
  show "in_slice overlap l stop y e \<Longrightarrow> search_slice overlap l stop y e"
  proof (induction rule: in_slice.induct)
    case (producer p i r k)
    have "stop < p" "p \<le> length l" using slice_bounds(2)[OF assms producer.hyps(1)] by auto
    then show ?case using search_slice.producer[OF producer.IH producer.hyps(2)] find_producer_youngest producer.hyps(3)
      by blast
  qed (auto intro: search_slice.intros)
qed

section \<open>Properties\<close>

text \<open>A reorder buffer for the witnesses: a load, two more instructions, and the load again.\<close>

definition int_phys :: "nat \<Rightarrow> phys_reg" where
  "int_phys n = \<lparr>prClass = IntRegClass, prIndex = n, prFlat = n\<rparr>"

definition chain_inst :: "nat \<Rightarrow> nat \<Rightarrow> static_prop set \<Rightarrow> nat list \<Rightarrow> nat list \<Rightarrow> dyn_inst" where
  "chain_inst q pc props srcs dests = \<lparr>diSeq = q, diTid = 0, diPC = (pc, 0), diProps = props, diStatus = {}, diFlags = {},
     diSrcs = map int_phys srcs, diDests = map int_phys dests, diReadyRegs = 0,
     diReadySrc = replicate (length srcs) False, diSavedReq = None,
     diFault = None, diFlatDests = [], diFirstIssue = 0\<rparr>"

definition loop_rob :: "dyn_inst list" where
  "loop_rob = [chain_inst 1 0 {IsLoad} [9] [1], chain_inst 2 4 {} [] [7],
     chain_inst 3 8 {} [1] [2], chain_inst 4 0 {IsLoad} [2] [3]]"

definition short_rob :: "dyn_inst list" where
  "short_rob = [chain_inst 1 0 {IsLoad} [9] [1], chain_inst 2 4 {} [1] [2],
     chain_inst 3 8 {} [] [7], chain_inst 4 0 {IsLoad} [2] [3]]"

definition pc_eq :: "dyn_inst \<Rightarrow> dyn_inst \<Rightarrow> bool" where
  "pc_eq i j \<longleftrightarrow> diPC i = diPC j"



text \<open>
  C28: The instruction directly behind the load is never searched for a producer: if no source
  register of the younger instance is produced by an instruction between that one and the younger
  instance, the chain is the load alone, although that instruction produces a source register.
\<close>

theorem chain_skips_the_instruction_after_the_load:
  assumes "inst_pos l i < length l" "find_younger samePC l (inst_pos l i + 1) i = Some y"
    "y \<noteq> inst_pos l i + 1" "r \<in> set (chain_srcs (l ! y))" "produces (l ! (inst_pos l i + 1)) r"
    "\<And>j r. inst_pos l i + 1 < j \<Longrightarrow> j < y \<Longrightarrow> r \<in> set (chain_srcs (l ! y)) \<Longrightarrow> \<not> produces (l ! j) r"
  shows "generateChainBuffer samePC overlap l i [] = Inr [diPC (l ! y)]"
proof -
  let ?stop = "inst_pos l i + 1"
  have y: "?stop < y" "y < length l" using find_younger_Some[OF assms(2)] assms(3) by auto
  have none: "find_producer l r ?stop (y - 1) = Inr None" if "r \<in> set (chain_srcs (l ! y))" for r
  proof -
    have "?stop \<le> y - 1" "y - 1 < length l" using y by auto
    then obtain found where f: "find_producer l r ?stop (y - 1) = Inr found" using find_producer_total by blast
    show ?thesis
    proof (cases found)
      case (Some k)
      then have "youngest_producer l r ?stop y k" using find_producer_youngest[of ?stop y l r k] f y by simp
      then show ?thesis using assms(6)[OF _ _ that] by (auto simp: youngest_producer_def)
    qed (use f in simp)
  qed
  have "chain_loop overlap l ?stop buf q = Inr buf" if "\<forall>(r, s) \<in> set q. r \<in> set (chain_srcs (l ! y)) \<and> s = y - 1" for buf q
    using that by (induction q) (auto simp: chain_step_def none[simplified])
  then show ?thesis
    using assms(1,2) y by (auto simp: generateChainBuffer_def Let_def push_sources_def)
qed

theorem chain_skips_the_instruction_after_the_load_witness:
  "generateChainBuffer pc_eq (\<lambda>_. None) short_rob (chain_inst 1 0 {IsLoad} [9] [1]) [] = Inr [(0, 0)]"
proof -
  have k: "inst_pos short_rob (chain_inst 1 0 {IsLoad} [9] [1]) = 0"
    by (simp add: inst_pos_def short_rob_def chain_inst_def)
  have y: "find_younger pc_eq short_rob 1 (chain_inst 1 0 {IsLoad} [9] [1]) = Some 3"
    by (simp add: find_younger_def short_rob_def chain_inst_def pc_eq_def upt_rec)
  have none: "\<not> produces (short_rob ! j) r" if "1 < j" "j < 3" "r \<in> set (chain_srcs (short_rob ! 3))" for j r
  proof -
    have "j = 2" using that(1,2) by simp
    moreover have "r = int_phys 2" using that(3) by (simp add: short_rob_def chain_inst_def chain_srcs_def int_phys_def)
    ultimately show ?thesis by (simp add: short_rob_def chain_inst_def produces_def same_phys_def int_phys_def)
  qed
  have "generateChainBuffer pc_eq (\<lambda>_. None) short_rob (chain_inst 1 0 {IsLoad} [9] [1]) [] = Inr [diPC (short_rob ! 3)]"
    by (rule chain_skips_the_instruction_after_the_load[where r = "int_phys 2"])
      (use k y none in \<open>simp_all add: short_rob_def chain_inst_def produces_def same_phys_def int_phys_def
         chain_srcs_def has_prop_def\<close>)
  then show ?thesis by (simp add: short_rob_def chain_inst_def)
qed

lemma find_producer_below:
  "p < stop \<Longrightarrow> p < length l \<Longrightarrow> (\<And>j. j \<le> p \<Longrightarrow> \<not> produces (l ! j) r) \<Longrightarrow> find_producer l r stop p = Inl BadIterator"
  by (induction l r stop p rule: find_producer.induct) auto

text \<open>
  If the younger instance of the load directly follows it, the search starts below its end
  point and walks towards the head of the list: when nothing up to the load itself produces the
  first source register, the iterator is moved before the first instruction.
\<close>

theorem chain_search_runs_off_the_list:
  assumes "inst_pos l i < length l" "find_younger samePC l (inst_pos l i + 1) i = Some (inst_pos l i + 1)"
    "chain_srcs (l ! (inst_pos l i + 1)) = r # rs" "\<And>j. j \<le> inst_pos l i \<Longrightarrow> \<not> produces (l ! j) r"
  shows "generateChainBuffer samePC overlap l i buf = Inl BadIterator"
proof -
  have "find_producer l r (inst_pos l i + 1) (inst_pos l i) = Inl BadIterator"
    by (rule find_producer_below) (use assms(1,4) in auto)
  then show ?thesis
    using assms(1-3) by (simp add: generateChainBuffer_def Let_def push_sources_def chain_step_def)
qed

theorem chain_search_runs_off_the_list_witness:
  "generateChainBuffer pc_eq (\<lambda>_. None)
     [chain_inst 1 0 {IsLoad} [9] [1], chain_inst 2 0 {IsLoad} [2] [3]] (chain_inst 1 0 {IsLoad} [9] [1]) [] = Inl BadIterator"
  by (rule chain_search_runs_off_the_list[where r = "int_phys 2" and rs = "[]"])
    (simp_all add: inst_pos_def find_younger_def pc_eq_def chain_inst_def chain_srcs_def int_phys_def
       produces_def same_phys_def)

definition valid_loads :: "dyn_inst list \<Rightarrow> dyn_inst list" where
  "valid_loads l = filter (\<lambda>i. has_prop IsLoad i \<and> \<not> has_flag Poisoned i) l"

lemma unsent_loop_spec:
  "unsent_loop l limit y =
     (case filter (\<lambda>i. \<not> has_status Executed i) (take (nat (max 1 limit)) (valid_loads l)) of
        [] \<Rightarrow> y | ms \<Rightarrow> diSeq (last ms))"
proof (induction l limit y rule: unsent_loop.induct)
  case (2 i l limit y)
  show ?case
  proof (cases "has_prop IsLoad i \<and> \<not> has_flag Poisoned i")
    case False
    then have "unsent_loop (i # l) limit y = unsent_loop l limit y" "valid_loads (i # l) = valid_loads l"
      by (auto simp: valid_loads_def)
    moreover have "unsent_loop l limit y = (case filter (\<lambda>i. \<not> has_status Executed i)
        (take (nat (max 1 limit)) (valid_loads l)) of [] \<Rightarrow> y | ms \<Rightarrow> diSeq (last ms))"
      using False 2(1,2) by blast
    ultimately show ?thesis by (simp only:)
  next
    case True
    let ?y = "if \<not> has_status Executed i then diSeq i else y"
    show ?thesis
    proof (cases "limit - 1 \<le> 0")
      case le: True
      then have "nat (max 1 limit) = Suc 0" by simp
      then show ?thesis using True le by (simp add: valid_loads_def)
    next
      case gt: False
      then have n: "nat (max 1 limit) = Suc (nat (max 1 (limit - 1)))" by simp
      have "unsent_loop (i # l) limit y = unsent_loop l (limit - 1) ?y" using True gt by (simp add: Let_def)
      also have "\<dots> = (case filter (\<lambda>i. \<not> has_status Executed i) (take (nat (max 1 (limit - 1))) (valid_loads l)) of
          [] \<Rightarrow> ?y | ms \<Rightarrow> diSeq (last ms))"
        by (rule 2(3)[OF _ _ refl]) (use True gt in auto)
      finally have run: "unsent_loop (i # l) limit y = \<dots>" .
      have v: "valid_loads (i # l) = i # valid_loads l" using True by (simp add: valid_loads_def)
      show ?thesis unfolding run v n take_Suc_Cons
        by (cases "filter (\<lambda>i. \<not> has_status Executed i) (take (nat (max 1 (limit - 1))) (valid_loads l))") simp_all
    qed
  qed
qed (simp add: valid_loads_def)

text \<open>
  \<open>findUnsentValidLoad\<close> looks at valid (not poisoned) loads only, oldest first, at most as
  many as its limit (and at least one): it returns the youngest of them that has not executed, or
  0.  The limit counts loads, not instructions.
\<close>

theorem findUnsentValidLoad_result:
  "findUnsentValidLoad r t limit =
     (let n = nat (max 1 (if limit = -1 then int (threadEntries r t) else limit));
          ms = filter (\<lambda>i. \<not> has_status Executed i) (take n (valid_loads (instList r t)))
      in if ms = [] then 0 else diSeq (last ms))"
  unfolding findUnsentValidLoad_def unsent_loop_spec by (auto simp: Let_def split: list.splits)

lemma tail_loop_spec:
  assumes "chain \<noteq> []"
  shows "tail_loop chain l n =
    (let ms = filter (\<lambda>i. diPC i = last chain) l; k = nat (max 1 n) in
     Inr (if k \<le> length ms then diSeq (ms ! (k - 1)) else 0))"
proof (induction l arbitrary: n)
  case (Cons i l)
  show ?case
  proof (cases "diPC i = last chain \<and> \<not> n - 1 \<le> 0")
    case True
    then have "nat (max 1 n) = Suc (nat (max 1 (n - 1)))" by (simp add: Suc_nat_eq_nat_zadd1)
    then show ?thesis using True Cons[of "n - 1"] assms by (auto simp: Let_def)
  next
    case False
    then show ?thesis using Cons[of n] assms by (auto simp: Let_def)
  qed
qed (simp add: assms)

text \<open>
  \<open>findChainTail\<close> returns the sequence number of the \<open>n\<close>-th instruction of the thread, from
  the oldest, whose PC is the last one of the chain (the first for \<open>n < 1\<close>), or 0.
\<close>

theorem findChainTail_result:
  assumes "chain \<noteq> []"
  shows "findChainTail chain r t n =
    (let ms = filter (\<lambda>i. diPC i = last chain) (instList r t); k = nat (max 1 n) in
     Inr (if k \<le> length ms then diSeq (ms ! (k - 1)) else 0))"
  unfolding findChainTail_def by (rule tail_loop_spec[OF assms])


theorem findChainTail_result_witness:
  "findChainTail [(8, 0), (0, 0)] ((small_rob [])\<lparr>instList := (\<lambda>_. loop_rob)\<rparr>) 0 2 = Inr 4"
  unfolding findChainTail_result[of "[(8, 0), (0, 0)]", OF list.distinct(2)]
  by (simp add: loop_rob_def chain_inst_def Let_def)

end
