(* ===== verification/CommitState.thy ===== *)
theory CommitState
  imports ArchCheckpoint RunaheadCache DepChain
begin

text \<open>
  The state of the commit stage (\<open>commit.hh\<close>) and of the runahead mode of the CPU (\<open>cpu.hh\<close>),
  the wires from commit to the other stages (\<open>comm.hh\<close>), and the parameters.  One record holds
  both, because the two classes change each other's fields.  Pointers to instructions are
  sequence numbers.  \<open>csFront\<close> is the part of \<open>CPU::instList\<close> that is not in the reorder buffer:
  the instructions of the front end and the retired ones that are not cleaned up yet.  Time is
  counted in cycles; an event of gem5's queue is a pair of its cycle and what it does.

  Not under \<open>src/\<close>, hence parameters: the interrupt controller (its state is the number
  \<open>csIntCtl\<close>), the effect of a fault on the program counter (\<open>ccInvoke\<close>; the calls of
  \<open>CPU::trap\<close> are recorded in \<open>csTraps\<close>), \<open>StaticInst::advancePC\<close>, PC events, misc registers and
  the equality of program counters.  The state of IEW, fetch and rename that commit reads in a
  cycle is the record \<open>tick_in\<close>.
\<close>

datatype commit_status =
  CommitRunning | CommitIdle | ROBSquashing | TrapPending | FetchTrapPending | SquashAfterPending

datatype exit_policy = EagerExit | MinimumWork | NLLB | DynamicDelayed

datatype commit_policy = RoundRobin | OldestReady

datatype exit_cause = CauseEager | CauseMinWork | CauseDynamic | CauseDeadline | CauseFetchFault

datatype commit_event =
  TrapEvent nat bool | DeadlineEvent nat nat | ForgedWriteback nat | ThreadExitEvent nat

record commit_info =
  ciPC :: "pc_pair option"
  ciMispredictInst :: "nat option"
  ciSquashInst :: "nat option"
  ciStrictLoad :: "nat option"
  ciNonSpecSeq :: nat
  ciDoneSeq :: nat
  ciSquashTail :: nat
  ciFreeROB :: nat
  ciSquash :: bool
  ciRobSquashing :: bool
  ciUsedROB :: bool
  ciEmptyROB :: bool
  ciBranchTaken :: bool
  ciInterruptPending :: bool
  ciClearInterrupt :: bool
  ciStrictlyOrdered :: bool

record runahead_info =
  rfExitCycles :: int
  rfEnterCycles :: int
  rfIqInsts :: nat
  rfIqSeqNum :: nat
  rfIqEmpty :: bool
  rfROBInsts :: nat

record commit_cfg =
  ccIsa :: isa
  ccPolicy :: exit_policy
  ccMinWork :: int
  ccDeadline :: nat
  ccCommitPolicy :: commit_policy
  ccThreads :: nat
  ccCommitWidth :: nat
  ccRenameWidth :: nat
  ccTrapLatency :: nat
  ccSyscallRetryLatency :: nat
  ccRunaheadEnabled :: bool
  ccEagerEntry :: bool
  ccInFlightThreshold :: nat
  ccAllowOverlap :: bool
  ccFiltered :: bool
  ccLLLDepth :: int
  ccFullSystem :: bool
  ccPinned :: "phys_reg \<Rightarrow> bool"
  ccMiscValid :: "nat \<Rightarrow> bool"
  ccReadMisc :: "nat \<Rightarrow> regval"
  ccSamePC :: "dyn_inst \<Rightarrow> dyn_inst \<Rightarrow> bool"
  ccOverlap :: "dyn_inst \<Rightarrow> dyn_inst option"
  ccAdvance :: "dyn_inst \<Rightarrow> pc_pair \<Rightarrow> pc_pair"
  ccInvoke :: "fault \<Rightarrow> pc_pair \<Rightarrow> pc_pair"
  ccIntCheck :: "nat \<Rightarrow> bool"
  ccIntGet :: "nat \<Rightarrow> fault option"
  ccIntClear :: "nat \<Rightarrow> nat"
  ccIntProcess :: "nat \<Rightarrow> nat"
  ccPCEvent :: "nat \<Rightarrow> pc_pair \<Rightarrow> pc_pair option"

record commit_state =
  csNow :: nat
  csArch :: arch_state
  csRob :: rob
  csRCache :: rcache
  csFront :: "dyn_inst list"
  csActive :: "nat list"
  csExiting :: "nat \<Rightarrow> bool"
  csInRunahead :: "nat \<Rightarrow> bool"
  csCpuCause :: "nat \<Rightarrow> nat option"
  csChain :: "pc_pair list"
  csEnteredTick :: nat
  csFetchedBetween :: "nat \<Rightarrow> nat"
  csEvents :: "(nat \<times> commit_event) list"
  csTraps :: "(nat \<times> fault) list"
  csIntCtl :: nat
  csNumInst :: "nat \<Rightarrow> nat"
  csTrapPending :: "nat \<Rightarrow> bool"
  csNoSquashTC :: "nat \<Rightarrow> bool"
  csStatus :: "nat \<Rightarrow> commit_status"
  csPC :: "nat \<Rightarrow> pc_pair"
  csStoredPC :: "nat \<Rightarrow> pc_pair"
  csPseudoretired :: "nat \<Rightarrow> nat"
  csBetween :: "nat \<Rightarrow> int"
  csWroteTB :: bool
  csChangedROB :: "nat \<Rightarrow> bool"
  csTrapSquash :: "nat \<Rightarrow> bool"
  csTcSquash :: "nat \<Rightarrow> bool"
  csExitable :: "nat \<Rightarrow> bool"
  csExitSeqNum :: nat
  csNumLLLs :: int
  csExit :: "nat \<Rightarrow> bool"
  csWasRunahead :: "nat \<Rightarrow> bool"
  csCause :: "nat \<Rightarrow> nat option"
  csInfo :: runahead_info
  csSquashAfterInst :: "nat \<Rightarrow> nat option"
  csPriority :: "nat list"
  csDrainPending :: bool
  csDrainImminent :: bool
  csInterrupt :: "fault option"
  csYoungest :: "nat \<Rightarrow> nat"
  csLastCommitted :: "nat \<Rightarrow> nat"
  csTrapInFlight :: "nat \<Rightarrow> bool"
  csCommittedStores :: "nat \<Rightarrow> bool"
  csCheckEmpty :: "nat \<Rightarrow> bool"
  csCanHandleInt :: bool
  csAvoidLiveLock :: bool
  csHtmStarts :: "nat \<Rightarrow> int"
  csHtmStops :: "nat \<Rightarrow> int"
  csExitCauses :: "exit_cause \<Rightarrow> nat"
  csStageActive :: bool
  csNextActive :: bool
  csInfoOut :: "nat \<Rightarrow> commit_info"
  csArchRestore :: "nat \<Rightarrow> bool"
  csArchRestorePrev :: "nat \<Rightarrow> bool"

record tick_in =
  tiSquash :: "nat \<Rightarrow> bool"
  tiSquashedSeq :: "nat \<Rightarrow> nat"
  tiIncludeSquash :: "nat \<Rightarrow> bool"
  tiMispredict :: "nat \<Rightarrow> dyn_inst option"
  tiBranchTaken :: "nat \<Rightarrow> bool"
  tiPC :: "nat \<Rightarrow> pc_pair"
  tiCompleted :: "nat list"
  tiFromRename :: "nat list"
  tiIqSize :: "nat \<Rightarrow> nat"
  tiIqYoungest :: "nat \<Rightarrow> nat option"
  tiStoresToWB :: "nat \<Rightarrow> bool"

section \<open>Helpers\<close>

text \<open>\<open>int\<close> converted to \<open>uint64_t\<close>, as in a comparison with a counter of that type.\<close>

definition to_u64 :: "int \<Rightarrow> nat" where
  "to_u64 i = nat (i mod 2 ^ 64)"

lemma to_u64_nat [simp]: "n < 2 ^ 64 \<Longrightarrow> to_u64 (int n) = n"
  by (simp add: to_u64_def flip: zmod_int of_nat_power)

definition empty_info :: commit_info where
  "empty_info = \<lparr>ciPC = None, ciMispredictInst = None, ciSquashInst = None, ciStrictLoad = None,
     ciNonSpecSeq = 0, ciDoneSeq = 0, ciSquashTail = 0, ciFreeROB = 0, ciSquash = False,
     ciRobSquashing = False, ciUsedROB = False, ciEmptyROB = False, ciBranchTaken = False,
     ciInterruptPending = False, ciClearInterrupt = False, ciStrictlyOrdered = False\<rparr>"

text \<open>A change of \<open>toIEW->commitInfo[tid]\<close>.\<close>

definition upd_info :: "nat \<Rightarrow> (commit_info \<Rightarrow> commit_info) \<Rightarrow> commit_state \<Rightarrow> commit_state" where
  "upd_info t f s = s\<lparr>csInfoOut := (csInfoOut s)(t := f (csInfoOut s t))\<rparr>"

text \<open>A change of an instruction of a thread in the reorder buffer.\<close>

definition put_inst :: "nat \<Rightarrow> dyn_inst \<Rightarrow> commit_state \<Rightarrow> commit_state" where
  "put_inst t i s = s\<lparr>csRob := (csRob s)\<lparr>instList := (instList (csRob s))(t :=
     map (\<lambda>j. if diSeq j = diSeq i then i else j) (instList (csRob s) t))\<rparr>\<rparr>"

definition schedule_event :: "nat \<Rightarrow> commit_event \<Rightarrow> commit_state \<Rightarrow> commit_state" where
  "schedule_event d e s = s\<lparr>csEvents := csEvents s @ [(csNow s + d, e)]\<rparr>"

definition count_cause :: "exit_cause \<Rightarrow> commit_state \<Rightarrow> commit_state" where
  "count_cause c s = s\<lparr>csExitCauses := (csExitCauses s)(c := csExitCauses s c + 1)\<rparr>"

text \<open>\<open>exitRunahead[tid] = true\<close> with the cause that is counted.\<close>

definition set_exit :: "exit_cause \<Rightarrow> nat \<Rightarrow> commit_state \<Rightarrow> commit_state" where
  "set_exit c t s = count_cause c (s\<lparr>csExit := (csExit s)(t := True)\<rparr>)"

fun mapE :: "('a \<Rightarrow> 'b res) \<Rightarrow> 'a list \<Rightarrow> 'b list res" where
  "mapE f [] = Inr []"
| "mapE f (x # xs) = bindE (f x) (\<lambda>y. bindE (mapE f xs) (\<lambda>ys. Inr (y # ys)))"

lemma mapE_Inr: "(\<And>x. x \<in> set xs \<Longrightarrow> f x = Inr (g x)) \<Longrightarrow> mapE f xs = Inr (map g xs)"
  by (induction xs) auto

definition ptr :: "'a option \<Rightarrow> 'a res" where
  "ptr p = (case p of None \<Rightarrow> Inl NullDeref | Some x \<Rightarrow> Inr x)"

lemma ptr_simps [simp]: "ptr None = Inl NullDeref" "ptr (Some x) = Inr x"
  by (simp_all add: ptr_def)

lemma ptr_ok [split_res]: "ptr p = Inr x \<longleftrightarrow> p = Some x"
  by (cases p) auto

text \<open>The reorder buffer's squash, with the pin counters of the register file.\<close>

definition cs_rob_step ::
  "(rob \<times> pin_counts \<Rightarrow> (rob \<times> pin_counts) res) \<Rightarrow> commit_state \<Rightarrow> commit_state res"
where
  "cs_rob_step f s =
     bindE (f (csRob s, rsPins (asRen (csArch s)))) (\<lambda>(r, pc).
       Inr (s\<lparr>csRob := r, csArch := (csArch s)\<lparr>asRen := (asRen (csArch s))\<lparr>rsPins := pc\<rparr>\<rparr>\<rparr>))"

end
