(* ===== verification/RunaheadMode.thy ===== *)
theory RunaheadMode
  imports CommitState
begin

text \<open>
  The runahead mode: the conditions for entering, the entry itself, the return of the load that
  caused it, the exit signal with its policies and deadline, the exit squash, and the work that
  commit does for runahead at the end of a cycle (\<open>cpu.cc\<close>: \<open>canEnterRunahead\<close> to
  \<open>handleRunaheadLLL\<close>; \<open>commit.cc\<close>: \<open>processTrapEvent\<close>, \<open>signalExitRunahead\<close>,
  \<open>dynamicDelayedRunaheadExit\<close>, \<open>squashFromRunaheadExit\<close>, \<open>updateRunaheadState\<close>;
  \<open>lsq_unit.cc\<close>: the runahead part of \<open>recvTimingResp\<close> and \<open>forgeResponse\<close>).
\<close>

section \<open>Entering\<close>

text \<open>\<open>LSQUnit::forgeResponse\<close>: the data of the load is zeroed and a writeback scheduled.\<close>

definition forgeResponse :: "nat \<Rightarrow> dyn_inst \<Rightarrow> commit_state \<Rightarrow> commit_state res" where
  "forgeResponse t i s =
     bindE (ptr (diSavedReq i)) (\<lambda>_.
       let s = schedule_event 0 (ForgedWriteback (diSeq i)) s in
       bindE (setForgedResponse i) (\<lambda>i. Inr (put_inst t i s)))"

definition handleRunaheadLLL :: "nat \<Rightarrow> dyn_inst \<Rightarrow> commit_state \<Rightarrow> commit_state res" where
  "handleRunaheadLLL t i s =
     bindE (assertE (has_prop IsLoad i \<and> has_flag ReqMade i)) (\<lambda>_.
     bindE (setPoisoned i) (\<lambda>i.
       let i = set_status Executed i in forgeResponse t i (put_inst t i s)))"

definition canEnterRunahead :: "commit_cfg \<Rightarrow> nat \<Rightarrow> dyn_inst \<Rightarrow> commit_state \<Rightarrow> bool res" where
  "canEnterRunahead C t i s =
     (if \<not> ccRunaheadEnabled C then Inr False
      else if csInRunahead s t then Inr False
      else if \<not> ccEagerEntry C \<and> rob_numFreeEntriesOf (csRob s) t > 0 then Inr False
      else
        let inFlight = usub64 (csNow s) (diFirstIssue i) in
        bindE (assertE (inFlight > 0)) (\<lambda>_.
          if inFlight > ccInFlightThreshold C then Inr False
          else Inr (\<not> (\<not> ccAllowOverlap C \<and> to_u64 (csBetween s t) < csPseudoretired s t))))"

text \<open>The loop of \<open>enterRunahead\<close> over the instructions in flight.\<close>

definition mark_runahead :: "bool \<Rightarrow> nat \<Rightarrow> dyn_inst \<Rightarrow> dyn_inst res" where
  "mark_runahead inRun t i =
     (if diTid i \<noteq> t \<or> has_status Committed i then Inr i else setRunahead inRun i)"

definition mark_all_runahead :: "nat \<Rightarrow> commit_state \<Rightarrow> commit_state res" where
  "mark_all_runahead t s =
     bindE (mapE (mark_runahead (csInRunahead s t) t) (csFront s)) (\<lambda>fr.
     bindE (mapE (mark_runahead (csInRunahead s t) t) (instList (csRob s) t)) (\<lambda>l.
       Inr (s\<lparr>csFront := fr, csRob := (csRob s)\<lparr>instList := (instList (csRob s))(t := l)\<rparr>\<rparr>)))"

definition make_chain :: "commit_cfg \<Rightarrow> nat \<Rightarrow> dyn_inst \<Rightarrow> commit_state \<Rightarrow> commit_state res" where
  "make_chain C t i s =
     (if ccFiltered C
      then bindE (generateChainBuffer (ccSamePC C) (ccOverlap C) (instList (csRob s) t) i [])
             (\<lambda>c. Inr (s\<lparr>csChain := c\<rparr>))
      else Inr s)"

definition enterRunahead :: "commit_cfg \<Rightarrow> nat \<Rightarrow> commit_state \<Rightarrow> (bool \<times> commit_state) res" where
  "enterRunahead C t s =
     bindE (rob_readHeadInst (csRob s) t) (\<lambda>h.
     bindE (ptr h) (\<lambda>i.
     bindE (assertE (has_prop IsLoad i \<and> \<not> has_status Squashed i \<and> \<not> has_flag Runahead i)) (\<lambda>_.
     bindE (canEnterRunahead C t i s) (\<lambda>can.
       if \<not> can then Inr (False, s)
       else
         bindE (save_arch_state (ccIsa C) (ccMiscValid C) (ccReadMisc C) t (csArch s)) (\<lambda>a.
           let s = s\<lparr>csArch := a, csStoredPC := (csStoredPC s)(t := csPC s t),
                     csInRunahead := (csInRunahead s)(t := True),
                     csCpuCause := (csCpuCause s)(t := Some (diSeq i))\<rparr> in
         bindE (mark_all_runahead t s) (\<lambda>s.
         let s = s\<lparr>csRCache := rc_invalidateCache (csRCache s)\<rparr> in
         bindE (ptr (rob_findInst (csRob s) t (diSeq i))) (\<lambda>i.
         bindE (handleRunaheadLLL t i s) (\<lambda>s.
         bindE (make_chain C t i s) (\<lambda>s.
           Inr (True, s\<lparr>csPseudoretired := (csPseudoretired s)(t := 0),
                        csEnteredTick := csNow s\<rparr>))))))))))"

section \<open>The exit signal\<close>

definition dynamicDelayedRunaheadExit :: "commit_cfg \<Rightarrow> nat \<Rightarrow> commit_state \<Rightarrow> commit_state" where
  "dynamicDelayedRunaheadExit C t s =
     (if csPseudoretired s t < rfROBInsts (csInfo s) then set_exit CauseEager t s
      else if findUnsentValidLoad (csRob s) t (ccMinWork C) = 0 then set_exit CauseEager t s
      else if \<not> (if ccFiltered C then length (csChain s) > 0 else True) then set_exit CauseEager t s
      else s)"

text \<open>The policy part of \<open>signalExitRunahead\<close>; \<open>-1\<close> is the default limit of the load search.\<close>

definition exit_by_policy :: "commit_cfg \<Rightarrow> nat \<Rightarrow> commit_state \<Rightarrow> commit_state res" where
  "exit_by_policy C t s =
     (case ccPolicy C of
        EagerExit \<Rightarrow> Inr (set_exit CauseEager t s)
      | MinimumWork \<Rightarrow>
          Inr (if csPseudoretired s t \<ge> to_u64 (ccMinWork C) then set_exit CauseMinWork t s else s)
      | NLLB \<Rightarrow>
          (let sn = findUnsentValidLoad (csRob s) t (-1) in
           if sn \<noteq> 0 then
             bindE (rob_readHeadInst (csRob s) t) (\<lambda>h.
             bindE (ptr h) (\<lambda>_. Inr (s\<lparr>csExitSeqNum := sn\<rparr>)))
           else Inr (set_exit CauseEager t s))
      | DynamicDelayed \<Rightarrow> Inr (dynamicDelayedRunaheadExit C t s))"

definition signalExitRunahead :: "commit_cfg \<Rightarrow> nat \<Rightarrow> nat \<Rightarrow> commit_state \<Rightarrow> commit_state res" where
  "signalExitRunahead C t q s =
     (if csExitable s t then Inr s
      else
        bindE (exit_by_policy C t (s\<lparr>csExitable := (csExitable s)(t := True),
                                     csCause := (csCause s)(t := Some q)\<rparr>)) (\<lambda>s.
          Inr (if \<not> csExit s t then schedule_event (ccDeadline C) (DeadlineEvent t q) s else s)))"

definition runaheadLLLReturn :: "commit_cfg \<Rightarrow> nat \<Rightarrow> commit_state \<Rightarrow> commit_state res" where
  "runaheadLLLReturn C t s =
     bindE (ptr (csCpuCause s t)) (\<lambda>q. signalExitRunahead C t q s)"

definition instCausedRunahead :: "dyn_inst \<Rightarrow> commit_state \<Rightarrow> bool" where
  "instCausedRunahead i s \<longleftrightarrow>
     csInRunahead s (diTid i) \<and> csCpuCause s (diTid i) = Some (diSeq i)"

text \<open>
  The runahead part of \<open>recvTimingResp\<close>; the flag says whether the packet goes on to the request
  (or is discarded), \<open>rcPacket\<close> whether it comes from the runahead cache.
\<close>

definition recv_runahead_resp ::
  "commit_cfg \<Rightarrow> dyn_inst \<Rightarrow> bool \<Rightarrow> commit_state \<Rightarrow> (bool \<times> commit_state) res"
where
  "recv_runahead_resp C i rcPacket s =
     bindE (if has_flag Runahead i \<and> instCausedRunahead i s then runaheadLLLReturn C (diTid i) s
            else Inr s) (\<lambda>s.
       if has_flag ForgedResponse i then Inr (False, s)
       else
         bindE (assertE (has_prop IsStore i \<and> has_flag Runahead i \<longrightarrow> rcPacket)) (\<lambda>_. Inr (True, s)))"

section \<open>Events\<close>

definition processTrapEvent :: "nat \<Rightarrow> bool \<Rightarrow> commit_state \<Rightarrow> commit_state" where
  "processTrapEvent t wasRun s =
     (if wasRun \<and> \<not> csInRunahead s t then s else s\<lparr>csTrapSquash := (csTrapSquash s)(t := True)\<rparr>)"

definition deadline_event :: "nat \<Rightarrow> nat \<Rightarrow> commit_state \<Rightarrow> commit_state res" where
  "deadline_event t q s =
     (if \<not> csInRunahead s t \<or> csExit s t then Inr s
      else bindE (ptr (csCause s t)) (\<lambda>c.
        if c \<noteq> q then Inr s else Inr (set_exit CauseDeadline t s)))"

definition run_event :: "commit_event \<Rightarrow> commit_state \<Rightarrow> commit_state res" where
  "run_event e s = (case e of
     TrapEvent t w \<Rightarrow> Inr (processTrapEvent t w s)
   | DeadlineEvent t q \<Rightarrow> deadline_event t q s
   | ForgedWriteback q \<Rightarrow> Inr s
   | ThreadExitEvent t \<Rightarrow> Inr s)"

text \<open>The events that are due, in the order in which they were scheduled.\<close>

definition run_due_events :: "commit_state \<Rightarrow> commit_state res" where
  "run_due_events s =
     foldE (\<lambda>(d, e). run_event e) (filter (\<lambda>(d, e). d \<le> csNow s) (csEvents s))
       (s\<lparr>csEvents := filter (\<lambda>(d, e). csNow s < d) (csEvents s)\<rparr>)"

definition generateTrapEvent :: "commit_cfg \<Rightarrow> nat \<Rightarrow> fault option \<Rightarrow> commit_state \<Rightarrow> commit_state" where
  "generateTrapEvent C t f s =
     (schedule_event (if f = Some SyscallRetryFault then ccSyscallRetryLatency C else ccTrapLatency C)
        (TrapEvent t (csInRunahead s t)) s)
       \<lparr>csTrapInFlight := (csTrapInFlight s)(t := True), csTrapPending := (csTrapPending s)(t := True)\<rparr>"

definition generateTCEvent :: "nat \<Rightarrow> commit_state \<Rightarrow> commit_state res" where
  "generateTCEvent t s =
     bindE (assertE (\<not> csTrapInFlight s t)) (\<lambda>_. Inr (s\<lparr>csTcSquash := (csTcSquash s)(t := True)\<rparr>))"

text \<open>The next cycle: the wires advance.\<close>

definition advance_cycle :: "commit_state \<Rightarrow> commit_state" where
  "advance_cycle s = s\<lparr>csNow := csNow s + 1, csInfoOut := (\<lambda>_. empty_info),
     csArchRestorePrev := csArchRestore s, csArchRestore := (\<lambda>_. False)\<rparr>"

section \<open>Leaving\<close>

definition exitRunahead :: "nat \<Rightarrow> commit_state \<Rightarrow> commit_state" where
  "exitRunahead t s = s\<lparr>csInRunahead := (csInRunahead s)(t := False),
     csFetchedBetween := (csFetchedBetween s)(t := 0), csBetween := (csBetween s)(t := 0)\<rparr>"

definition squash_tail :: "nat \<Rightarrow> nat \<Rightarrow> commit_state \<Rightarrow> nat res" where
  "squash_tail t q s =
     (if rob_isEmptyOf (csRob s) t then Inr q
      else bindE (rob_readTailInst (csRob s) t) (\<lambda>i. Inr (diSeq i)))"

definition squash_rob :: "commit_cfg \<Rightarrow> nat \<Rightarrow> nat \<Rightarrow> commit_state \<Rightarrow> commit_state res" where
  "squash_rob C q t s = cs_rob_step (rob_squash (ccPinned C) (csExiting s t) (csActive s) q t) s"

definition squashFromRunaheadExit ::
  "commit_cfg \<Rightarrow> tick_in \<Rightarrow> nat \<Rightarrow> commit_state \<Rightarrow> commit_state res"
where
  "squashFromRunaheadExit C J t s =
     (let s = s\<lparr>csExit := (csExit s)(t := False),
                csInfo := (csInfo s)\<lparr>rfExitCycles := 0,
                   rfIqSeqNum := (case tiIqYoungest J t of None \<Rightarrow> 0 | Some q \<Rightarrow> q)\<rparr>,
                csArchRestore := (csArchRestore s)(t := True)\<rparr>;
          s = upd_info t (\<lambda>c. c\<lparr>ciSquash := True\<rparr>) s in
      bindE (ptr (csCause s t)) (\<lambda>lll.
        let q = usub64 lll 1; s = s\<lparr>csYoungest := (csYoungest s)(t := q)\<rparr> in
      bindE (squash_tail t q s) (\<lambda>tl.
        let s = upd_info t (\<lambda>c. c\<lparr>ciDoneSeq := q, ciSquashTail := tl\<rparr>) s;
            s = s\<lparr>csStatus := (csStatus s)(t := ROBSquashing)\<rparr> in
      bindE (squash_rob C q t s) (\<lambda>s.
        let s = s\<lparr>csChangedROB := (csChangedROB s)(t := True),
                  csPC := (csPC s)(t := csStoredPC s t)\<rparr>;
            s = upd_info t (\<lambda>c. c\<lparr>ciRobSquashing := True, ciMispredictInst := None,
                   ciSquashInst := map_option diSeq (rob_findInst (csRob s) t q),
                   ciPC := Some (csPC s t)\<rparr>) s;
            s = s\<lparr>csTrapInFlight := (csTrapInFlight s)(t := False),
                  csTrapPending := (csTrapPending s)(t := False)\<rparr>;
            s = exitRunahead t s in
        Inr (s\<lparr>csExitable := (csExitable s)(t := False)\<rparr>)))))"

section \<open>The end of a cycle\<close>

definition do_arch_restore :: "commit_cfg \<Rightarrow> nat \<Rightarrow> commit_state \<Rightarrow> commit_state res" where
  "do_arch_restore C t s =
     (if csArchRestorePrev s t
      then bindE (restoreCheckpointState (ccIsa C) (rob_archRestoreSanityCheck (csRob s) t) t (csArch s))
             (\<lambda>a. Inr (s\<lparr>csArch := a\<rparr>))
      else Inr s)"

definition check_min_work :: "commit_cfg \<Rightarrow> nat \<Rightarrow> commit_state \<Rightarrow> commit_state" where
  "check_min_work C t s =
     (if ccPolicy C = MinimumWork \<and> csExitable s t \<and> \<not> csExit s t
        \<and> csPseudoretired s t \<ge> to_u64 (ccMinWork C)
      then set_exit CauseMinWork t s else s)"

definition check_nllb :: "commit_cfg \<Rightarrow> nat \<Rightarrow> commit_state \<Rightarrow> commit_state res" where
  "check_nllb C t s =
     (if ccPolicy C = NLLB \<and> csExitable s t \<and> \<not> csExit s t \<and> csExitSeqNum s \<noteq> 0
      then
        let s = (case rob_findInst (csRob s) t (csExitSeqNum s) of
                   None \<Rightarrow> set_exit CauseDynamic t s
                 | Some i \<Rightarrow> if has_status Executed i then set_exit CauseDynamic t s else s) in
        if rob_countInstsOf (csRob s) t > 0 then
          bindE (rob_readHeadInst (csRob s) t) (\<lambda>h.
          bindE (ptr h) (\<lambda>i.
            Inr (if diSeq i > csExitSeqNum s then set_exit CauseDynamic t s else s)))
        else Inr (set_exit CauseDynamic t s)
      else Inr s)"

text \<open>The part that only counts cycles until the instruction queue has filled again.\<close>

definition track_overhead :: "tick_in \<Rightarrow> nat \<Rightarrow> commit_state \<Rightarrow> commit_state" where
  "track_overhead J t s =
     (let f = csInfo s in
      if \<not> rfIqEmpty f \<and> rfExitCycles f \<noteq> -1 then
        if rfIqInsts f = 0 then s\<lparr>csInfo := f\<lparr>rfExitCycles := -1\<rparr>\<rparr>
        else
          case tiIqYoungest J t of
            None \<Rightarrow> s
          | Some y \<Rightarrow>
              let pass = usub64 y (rfIqSeqNum f);
                  f = (if rfIqSeqNum f > 0
                       then f\<lparr>rfIqInsts := (if pass > rfIqInsts f then 0 else rfIqInsts f - pass)\<rparr>
                       else f) in
              s\<lparr>csInfo := f\<lparr>rfIqSeqNum := y\<rparr>\<rparr>
      else s)"

definition updateRunaheadState ::
  "commit_cfg \<Rightarrow> tick_in \<Rightarrow> nat \<Rightarrow> commit_state \<Rightarrow> commit_state res"
where
  "updateRunaheadState C J t s =
     bindE (do_arch_restore C t (s\<lparr>csWasRunahead := (csWasRunahead s)(t := csInRunahead s t)\<rparr>)) (\<lambda>s.
     bindE (check_nllb C t (check_min_work C t s)) (\<lambda>s. Inr (track_overhead J t s)))"

end
