(* ===== verification/CommitStage.thy ===== *)
theory CommitStage
  imports RunaheadMode
begin

text \<open>
  The commit stage of a cycle (\<open>commit.cc\<close>): the squashes it starts, interrupts, the choice of
  the committing thread, the head of the reorder buffer (\<open>commitHead\<close>, \<open>commitInsts\<close>), the
  instructions that arrive from rename and IEW, and the stage's status.  The checker CPU, probes
  and traces are left out.
\<close>

section \<open>Squashes\<close>

definition squashAll :: "commit_cfg \<Rightarrow> nat \<Rightarrow> commit_state \<Rightarrow> commit_state res" where
  "squashAll C t s =
     bindE (if rob_isEmptyOf (csRob s) t then Inr (csLastCommitted s t)
            else bindE (rob_readHeadInst (csRob s) t) (\<lambda>h. bindE (ptr h) (\<lambda>i. Inr (usub64 (diSeq i) 1)))) (\<lambda>q.
     bindE (squash_rob C q t (s\<lparr>csYoungest := (csYoungest s)(t := csLastCommitted s t)\<rparr>)) (\<lambda>s.
       let s = s\<lparr>csChangedROB := (csChangedROB s)(t := True)\<rparr> in
     bindE (squash_tail t q s) (\<lambda>tail.
       Inr (upd_info t (\<lambda>c. c\<lparr>ciDoneSeq := q, ciSquashTail := tail, ciSquash := True, ciRobSquashing := True,
              ciMispredictInst := None, ciSquashInst := None, ciPC := Some (csPC s t)\<rparr>) s))))"

definition squashFromTrap :: "commit_cfg \<Rightarrow> nat \<Rightarrow> commit_state \<Rightarrow> commit_state res" where
  "squashFromTrap C t s =
     bindE (squashAll C t s) (\<lambda>s.
       Inr (s\<lparr>csTrapPending := (csTrapPending s)(t := False), csNoSquashTC := (csNoSquashTC s)(t := False),
              csTrapInFlight := (csTrapInFlight s)(t := False), csTrapSquash := (csTrapSquash s)(t := False),
              csStatus := (csStatus s)(t := ROBSquashing)\<rparr>))"

definition squashFromTC :: "commit_cfg \<Rightarrow> nat \<Rightarrow> commit_state \<Rightarrow> commit_state res" where
  "squashFromTC C t s =
     bindE (squashAll C t s) (\<lambda>s.
       let s = s\<lparr>csNoSquashTC := (csNoSquashTC s)(t := False)\<rparr> in
       bindE (assertE (\<not> csTrapPending s t)) (\<lambda>_.
         Inr (s\<lparr>csStatus := (csStatus s)(t := ROBSquashing), csTcSquash := (csTcSquash s)(t := False)\<rparr>)))"

definition squashFromSquashAfter :: "commit_cfg \<Rightarrow> nat \<Rightarrow> commit_state \<Rightarrow> commit_state res" where
  "squashFromSquashAfter C t s =
     bindE (squashAll C t s) (\<lambda>s.
       let s = upd_info t (\<lambda>c. c\<lparr>ciSquashInst := csSquashAfterInst s t\<rparr>) s in
       Inr (s\<lparr>csSquashAfterInst := (csSquashAfterInst s)(t := None),
              csStatus := (csStatus s)(t := ROBSquashing)\<rparr>))"

definition squashAfter :: "nat \<Rightarrow> dyn_inst \<Rightarrow> commit_state \<Rightarrow> commit_state res" where
  "squashAfter t i s =
     bindE (assertE (csSquashAfterInst s t = None \<or> csSquashAfterInst s t = Some (diSeq i))) (\<lambda>_.
       Inr (s\<lparr>csStatus := (csStatus s)(t := SquashAfterPending),
              csSquashAfterInst := (csSquashAfterInst s)(t := Some (diSeq i))\<rparr>))"

text \<open>The squash that IEW asks for (a misprediction or an order violation).\<close>

definition squashFromIEW :: "commit_cfg \<Rightarrow> tick_in \<Rightarrow> nat \<Rightarrow> commit_state \<Rightarrow> commit_state res" where
  "squashFromIEW C J t s =
     (if tiSquash J t \<and> csStatus s t \<noteq> TrapPending \<and> tiSquashedSeq J t \<le> csYoungest s t then
        let q = (if tiIncludeSquash J t then usub64 (tiSquashedSeq J t) 1 else tiSquashedSeq J t);
            s = s\<lparr>csStatus := (csStatus s)(t := ROBSquashing), csYoungest := (csYoungest s)(t := q)\<rparr> in
        bindE (squash_rob C q t s) (\<lambda>s.
          let s = s\<lparr>csChangedROB := (csChangedROB s)(t := True)\<rparr> in
        bindE (squash_tail t q s) (\<lambda>tail.
          Inr (upd_info t (\<lambda>c. c\<lparr>ciDoneSeq := q, ciSquashTail := tail, ciSquash := True, ciRobSquashing := True,
                 ciMispredictInst := map_option diSeq (tiMispredict J t),
                 ciBranchTaken := (case tiMispredict J t of
                    None \<Rightarrow> tiBranchTaken J t
                  | Some m \<Rightarrow> has_prop IsUncondCtrl m \<or> tiBranchTaken J t),
                 ciSquashInst := map_option diSeq (rob_findInst (csRob s) t q),
                 ciPC := Some (tiPC J t)\<rparr>) s)))
      else Inr s)"

definition squash_thread :: "commit_cfg \<Rightarrow> tick_in \<Rightarrow> nat \<Rightarrow> commit_state \<Rightarrow> commit_state res" where
  "squash_thread C J t s =
     bindE
       (if csTrapSquash s t then
          bindE (assertE (\<not> csTcSquash s t)) (\<lambda>_.
          bindE (squashFromTrap C t s) (\<lambda>s.
            Inr (if csExiting s t then schedule_event 1 (ThreadExitEvent t) s else s)))
        else if csTcSquash s t then
          bindE (assertE (csStatus s t \<noteq> TrapPending)) (\<lambda>_. squashFromTC C t s)
        else if csStatus s t = SquashAfterPending then
          (if \<not> (csWasRunahead s t \<and> \<not> csInRunahead s t) then squashFromSquashAfter C t s
           else Inr (s\<lparr>csStatus := (csStatus s)(t := CommitRunning)\<rparr>))
        else if csExit s t then squashFromRunaheadExit C J t s
        else Inr s)
       (squashFromIEW C J t)"

section \<open>Interrupts\<close>

definition executingHtmTransaction :: "nat option \<Rightarrow> commit_state \<Rightarrow> bool" where
  "executingHtmTransaction ot s = (case ot of None \<Rightarrow> False | Some t \<Rightarrow> csHtmStarts s t > csHtmStops s t)"

definition runahead_hazard :: "commit_state \<Rightarrow> bool" where
  "runahead_hazard s \<longleftrightarrow> csInRunahead s 0 \<or> csArchRestore s 0 \<or> csArchRestorePrev s 0"

definition no_insts :: "commit_state \<Rightarrow> bool" where
  "no_insts s \<longleftrightarrow> csFront s = [] \<and> list_all (\<lambda>t. instList (csRob s) t = []) [0..<robThreads (csRob s)]"

text \<open>The trap of the interrupt is taken on the fault that the controller returns now.\<close>

definition cpu_trap :: "commit_cfg \<Rightarrow> fault \<Rightarrow> nat \<Rightarrow> commit_state \<Rightarrow> commit_state" where
  "cpu_trap C f t s = s\<lparr>csTraps := csTraps s @ [(t, f)], csPC := (csPC s)(t := ccInvoke C f (csPC s t))\<rparr>"

definition processInterrupts :: "commit_cfg \<Rightarrow> fault option \<Rightarrow> commit_state \<Rightarrow> commit_state res" where
  "processInterrupts C f s =
     bindE (assertE (f \<noteq> None)) (\<lambda>_.
       Inr (cpu_trap C (the f) 0 (s\<lparr>csIntCtl := ccIntProcess C (csIntCtl s)\<rparr>)))"

definition handleInterrupt :: "commit_cfg \<Rightarrow> commit_state \<Rightarrow> commit_state res" where
  "handleInterrupt C s =
     (if \<not> ccIntCheck C (csIntCtl s) then
        Inr ((upd_info 0 (\<lambda>c. c\<lparr>ciClearInterrupt := True\<rparr>) s)\<lparr>csInterrupt := None, csAvoidLiveLock := True\<rparr>)
      else if csCanHandleInt s \<and> \<not> runahead_hazard s \<and> no_insts s then
        let s = upd_info 0 (\<lambda>c. c\<lparr>ciClearInterrupt := True\<rparr>) s in
        bindE (assertE (\<not> csNoSquashTC s 0)) (\<lambda>_.
        bindE (processInterrupts C (ccIntGet C (csIntCtl s)) (s\<lparr>csNoSquashTC := (csNoSquashTC s)(0 := True)\<rparr>)) (\<lambda>s.
          let s = s\<lparr>csNoSquashTC := (csNoSquashTC s)(0 := False), csStatus := (csStatus s)(0 := TrapPending),
                    csInterrupt := None\<rparr> in
          Inr ((generateTrapEvent C 0 (csInterrupt s) s)\<lparr>csAvoidLiveLock := False\<rparr>)))
      else Inr s)"

definition propagateInterrupt :: "commit_cfg \<Rightarrow> commit_state \<Rightarrow> commit_state" where
  "propagateInterrupt C s =
     (if csStatus s 0 = TrapPending \<or> csInterrupt s \<noteq> None \<or> csTrapSquash s 0 \<or> csTcSquash s 0
        \<or> csDrainImminent s \<or> csInRunahead s 0 \<or> csArchRestorePrev s 0 \<or> csArchRestore s 0 then s
      else
        let s = s\<lparr>csInterrupt := ccIntGet C (csIntCtl s)\<rparr> in
        if csInterrupt s \<noteq> None then upd_info 0 (\<lambda>c. c\<lparr>ciInterruptPending := True\<rparr>) s else s)"

section \<open>The committing thread\<close>

definition can_commit_now :: "commit_state \<Rightarrow> nat \<Rightarrow> bool" where
  "can_commit_now s t \<longleftrightarrow> csStatus s t \<in> {CommitRunning, CommitIdle, FetchTrapPending}"

text \<open>The scan of the priority list: the first thread that is running with a ready head.\<close>

fun rr_scan :: "commit_state \<Rightarrow> nat list \<Rightarrow> nat option res" where
  "rr_scan s [] = Inr None"
| "rr_scan s (t # ts) =
     (if can_commit_now s t
      then bindE (rob_isHeadReady (csRob s) t) (\<lambda>b. if b then Inr (Some t) else rr_scan s ts)
      else rr_scan s ts)"

definition roundRobin :: "commit_state \<Rightarrow> (nat option \<times> commit_state) res" where
  "roundRobin s =
     bindE (rr_scan s (csPriority s)) (\<lambda>r. case r of
       None \<Rightarrow> Inr (None, s)
     | Some t \<Rightarrow> Inr (Some t, s\<lparr>csPriority := remove1 t (csPriority s) @ [t]\<rparr>))"

text \<open>The oldest sequence number so far is kept in an \<open>unsigned\<close> of 32 bits.\<close>

definition oldest_step ::
  "commit_state \<Rightarrow> nat \<Rightarrow> (nat \<times> nat) option \<Rightarrow> (nat \<times> nat) option res"
where
  "oldest_step s t best =
     (if \<not> rob_isEmptyOf (csRob s) t \<and> can_commit_now s t
      then bindE (rob_isHeadReady (csRob s) t) (\<lambda>b.
        if b then
          bindE (rob_readHeadInst (csRob s) t) (\<lambda>h.
          bindE (ptr h) (\<lambda>i. case best of
             None \<Rightarrow> Inr (Some (t, diSeq i mod 2 ^ 32))
           | Some (u, q) \<Rightarrow> Inr (if diSeq i < q then Some (t, diSeq i mod 2 ^ 32) else best)))
        else Inr best)
      else Inr best)"

definition oldestReady :: "commit_state \<Rightarrow> nat option res" where
  "oldestReady s = bindE (foldE (oldest_step s) (csActive s) None) (\<lambda>b. Inr (map_option fst b))"

definition getCommittingThread :: "commit_cfg \<Rightarrow> commit_state \<Rightarrow> (nat option \<times> commit_state) res" where
  "getCommittingThread C s =
     (if ccThreads C > 1 then
        (case ccCommitPolicy C of
           RoundRobin \<Rightarrow> roundRobin s
         | OldestReady \<Rightarrow> bindE (oldestReady s) (\<lambda>r. Inr (r, s)))
      else
        (case csActive s of
           [] \<Rightarrow> Inl AssertFail
         | t # _ \<Rightarrow> Inr (if can_commit_now s t then Some t else None, s)))"

section \<open>The head of the reorder buffer\<close>

text \<open>
  \<open>instDone\<close> of the CPU: the instruction count of the thread.  The counters of the statistics
  (\<open>numOp\<close>, \<open>committedOps\<close>) and the events scheduled at an instruction count
  (\<open>comInstEventQueue\<close>) are left out.
\<close>

definition instDone :: "nat \<Rightarrow> dyn_inst \<Rightarrow> commit_state \<Rightarrow> commit_state" where
  "instDone t i s =
     (if (\<not> has_prop IsMicroop i \<or> has_prop IsLastMicroop i) \<and> \<not> has_flag Runahead i
      then s\<lparr>csNumInst := (csNumInst s)(t := csNumInst s t + 1)\<rparr> else s)"

definition updateComInstStats :: "nat \<Rightarrow> dyn_inst \<Rightarrow> commit_state \<Rightarrow> commit_state" where
  "updateComInstStats t i s =
     (let whole = \<not> has_prop IsMicroop i \<or> has_prop IsLastMicroop i;
          s = (if whole \<and> \<not> csInRunahead s t
               then s\<lparr>csBetween := (csBetween s)(t := csBetween s t + 1)\<rparr> else s);
          s = (if whole \<and> has_flag Runahead i
               then s\<lparr>csPseudoretired := (csPseudoretired s)(t := csPseudoretired s t + 1)\<rparr> else s) in
      if \<not> has_prop IsNop i \<and> \<not> has_prop IsInstPrefetch i then instDone t i s else s)"

text \<open>
  \<open>ROB::retireHead\<close> as commit calls it: the instruction leaves the reorder buffer and stays in
  \<open>instList\<close>, marked for removal (\<open>CPU::removeFrontInst\<close>).
\<close>

definition retire_head :: "nat \<Rightarrow> commit_state \<Rightarrow> commit_state res" where
  "retire_head t s =
     bindE (rob_retireHead (csActive s) t (csRob s)) (\<lambda>(i, r).
       Inr (s\<lparr>csRob := r, csFront := csFront s @ [set_flag RemovePending i]\<rparr>))"

definition may_wait_for_head :: "dyn_inst \<Rightarrow> bool" where
  "may_wait_for_head i \<longleftrightarrow> has_prop IsNonSpeculative i \<or> has_prop IsStoreConditional i
     \<or> has_prop IsReadBarrier i \<or> has_prop IsWriteBarrier i \<or> has_prop IsAtomic i
     \<or> (has_prop IsLoad i \<and> has_flag IsStrictlyOrdered i)"

text \<open>The first part: a head that is not executed yet.\<close>

definition commit_unexecuted ::
  "tick_in \<Rightarrow> nat \<Rightarrow> dyn_inst \<Rightarrow> nat \<Rightarrow> commit_state \<Rightarrow> commit_state res"
where
  "commit_unexecuted J t i n s =
     bindE (assertE (may_wait_for_head i)) (\<lambda>_.
       if n > 0 \<or> tiStoresToWB J t then Inr s
       else
         let s = upd_info t (\<lambda>c. c\<lparr>ciNonSpecSeq := diSeq i\<rparr>) s;
             s = put_inst t (reset_status CanCommit i) s in
         Inr (if has_prop IsLoad i \<and> has_flag IsStrictlyOrdered i
              then upd_info t (\<lambda>c. c\<lparr>ciStrictlyOrdered := True, ciStrictLoad := Some (diSeq i)\<rparr>) s
              else s))"

text \<open>The second part: a head with a fault.\<close>

definition commit_fault ::
  "commit_cfg \<Rightarrow> tick_in \<Rightarrow> nat \<Rightarrow> dyn_inst \<Rightarrow> fault \<Rightarrow> nat \<Rightarrow> commit_state \<Rightarrow> commit_state res"
where
  "commit_fault C J t i f n s =
     (if \<not> has_flag Runahead i \<and> (tiStoresToWB J t \<or> n > 0) then Inr s
      else
        let i = set_status Completed i; s = put_inst t i s in
        bindE (assertE (\<not> csNoSquashTC s t)) (\<lambda>_.
          if \<not> has_flag Runahead i then
            let s = cpu_trap C f t (s\<lparr>csNoSquashTC := (csNoSquashTC s)(t := True)\<rparr>);
                s = s\<lparr>csNoSquashTC := (csNoSquashTC s)(t := False), csStatus := (csStatus s)(t := TrapPending)\<rparr> in
            Inr (generateTrapEvent C t (Some f) s)
          else
            bindE (setPoisoned i) (\<lambda>i.
              let s = put_inst t i s in
              Inr (if has_flag NotAnInst i
                   then set_exit CauseFetchFault t (s\<lparr>csCause := (csCause s)(t := csCpuCause s t)\<rparr>)
                   else s))))"

text \<open>The update of the commit map, or the check of the poisoned destinations.\<close>

definition commit_dests :: "commit_cfg \<Rightarrow> nat \<Rightarrow> dyn_inst \<Rightarrow> commit_state \<Rightarrow> commit_state res" where
  "commit_dests C t i s =
     (let a = csArch s in
      if \<not> has_flag Runahead i then
        bindE (foldE (\<lambda>(x, p) m. urm_setEntry (ccIsa C) (asFile a) m x (Some p))
                 (zip (diFlatDests i) (diDests i)) (rsCommit (asRen a) t)) (\<lambda>m.
          Inr (s\<lparr>csArch := a\<lparr>asRen := (asRen a)\<lparr>rsCommit := (rsCommit (asRen a))(t := m)\<rparr>\<rparr>\<rparr>))
      else if has_flag Poisoned i then
        bindE (foldE (\<lambda>p u. bindE (regPoisoned (asFile a) p) (\<lambda>b.
                 assertE (b \<or> prClass p = InvalidRegClass \<or> prClass p = MiscRegClass))) (diDests i) ()) (\<lambda>_. Inr s)
      else Inr s)"

definition commitHead ::
  "commit_cfg \<Rightarrow> tick_in \<Rightarrow> nat \<Rightarrow> dyn_inst \<Rightarrow> nat \<Rightarrow> commit_state \<Rightarrow> (bool \<times> commit_state) res"
where
  "commitHead C J t i n s =
     (if \<not> has_status Executed i then bindE (commit_unexecuted J t i n s) (\<lambda>s. Inr (False, s))
      else
        let f = (case diFault i of
                   Some g \<Rightarrow> if has_flag HtmFromTransaction i \<and> g \<noteq> GenericHtmFailureFault
                            then Some GenericHtmFailureFault else Some g
                 | None \<Rightarrow> None);
            i = (if \<not> has_prop IsStore i \<and> f = None then set_status Completed i else i);
            s = put_inst t i s in
        case f of
          Some g \<Rightarrow> bindE (commit_fault C J t i g n s) (\<lambda>s. Inr (False, s))
        | None \<Rightarrow>
            bindE (commit_dests C t i (updateComInstStats t i s)) (\<lambda>s.
            bindE (retire_head t s) (\<lambda>s.
              Inr (True, if has_prop IsStore i \<or> has_prop IsAtomic i
                         then s\<lparr>csCommittedStores := (csCommittedStores s)(t := True)\<rparr> else s))))"


section \<open>The commit loop\<close>

text \<open>
  A head that is not ready may be a load that runahead is for: its request was sent to memory, is
  not complete, and all its parts missed.
\<close>

definition lll_at_head :: "commit_cfg \<Rightarrow> dyn_inst \<Rightarrow> bool" where
  "lll_at_head C i \<longleftrightarrow> has_prop IsLoad i \<and> has_flag ReqMade i \<and> (case diSavedReq i of
     None \<Rightarrow> False
   | Some rq \<Rightarrow> \<not> rqComplete rq \<and> rqSent rq \<and> list_all (\<lambda>d. \<not> d < ccLLLDepth C) (rqDepths rq))"

definition note_entry :: "tick_in \<Rightarrow> nat \<Rightarrow> commit_state \<Rightarrow> commit_state" where
  "note_entry J t s = s\<lparr>csInfo := (csInfo s)\<lparr>rfIqInsts := tiIqSize J t, rfIqEmpty := tiIqYoungest J t = None,
     rfROBInsts := rob_countInstsOf (csRob s) t, rfEnterCycles := 0\<rparr>, csNumLLLs := 0\<rparr>"

definition inspect_unready_head ::
  "commit_cfg \<Rightarrow> tick_in \<Rightarrow> nat \<Rightarrow> dyn_inst \<Rightarrow> commit_state \<Rightarrow> commit_state res"
where
  "inspect_unready_head C J t i s =
     (if \<not> lll_at_head C i then Inr s
      else if \<not> csInRunahead s t then
        bindE (enterRunahead C t s) (\<lambda>(entered, s). Inr (if entered then note_entry J t s else s))
      else if \<not> has_flag Poisoned i then
        bindE (assertE (has_flag Runahead i)) (\<lambda>_.
        bindE (handleRunaheadLLL t i s) (\<lambda>s. Inr (s\<lparr>csNumLLLs := csNumLLLs s + 1\<rparr>)))
      else Inr s)"

text \<open>After a head has committed; the flag says whether the loop goes on.\<close>

definition track_commit :: "dyn_inst \<Rightarrow> commit_state \<Rightarrow> commit_state" where
  "track_commit i s =
     (let f = csInfo s;
          f = (if has_flag Runahead i \<and> rfEnterCycles f \<noteq> -1 then f\<lparr>rfEnterCycles := -1\<rparr> else f);
          f = (if rfExitCycles f \<noteq> -1 \<and> rfIqEmpty f then f\<lparr>rfExitCycles := -1\<rparr> else f) in
      s\<lparr>csInfo := f\<rparr>)"

definition commit_htm :: "nat \<Rightarrow> dyn_inst \<Rightarrow> commit_state \<Rightarrow> commit_state res" where
  "commit_htm t i s =
     (let s = (if has_prop IsHtmStart i then s\<lparr>csHtmStarts := (csHtmStarts s)(t := csHtmStarts s t + 1)\<rparr> else s) in
      bindE (assertE (has_flag HtmFromTransaction i \<longleftrightarrow> executingHtmTransaction (Some t) s)) (\<lambda>_.
        Inr (if has_prop IsHtmStop i then s\<lparr>csHtmStops := (csHtmStops s)(t := csHtmStops s t + 1)\<rparr> else s)))"

definition commit_boundary ::
  "commit_cfg \<Rightarrow> nat \<Rightarrow> dyn_inst \<Rightarrow> commit_state \<Rightarrow> (bool \<times> commit_state) res"
where
  "commit_boundary C t i s =
     (let bnd = \<not> has_prop IsMicroop i \<or> has_prop IsLastMicroop i \<or> \<not> has_prop IsDelayedCommit i in
      bindE (assertE (bnd \<longrightarrow> \<not> csNoSquashTC s t \<and> \<not> csTrapPending s t)) (\<lambda>_.
        case (if bnd then ccPCEvent C t (csPC s t) else None) of
          Some p \<Rightarrow> Inr (False, s\<lparr>csPC := (csPC s)(t := p)\<rparr>)
        | None \<Rightarrow>
            if csInterrupt s = None \<and> csAvoidLiveLock s \<and> bnd \<and> ccIntCheck C (csIntCtl s)
            then bindE (squashAfter t i s) (\<lambda>s. Inr (True, s))
            else Inr (True, s)))"

definition record_commit :: "commit_cfg \<Rightarrow> nat \<Rightarrow> dyn_inst \<Rightarrow> nat \<Rightarrow> commit_state \<Rightarrow> commit_state" where
  "record_commit C t i tail s =
     (let s = upd_info t (\<lambda>c. c\<lparr>ciDoneSeq := diSeq i, ciSquashTail := tail\<rparr>) s;
          s = (if t = 0 then s\<lparr>csCanHandleInt := \<not> has_prop IsDelayedCommit i\<rparr> else s) in
      s\<lparr>csPC := (csPC s)(t := ccAdvance C i (csPC s t)),
        csLastCommitted := (csLastCommitted s)(t := diSeq i)\<rparr>)"

definition commit_drains :: "nat \<Rightarrow> dyn_inst \<Rightarrow> commit_state \<Rightarrow> commit_state res" where
  "commit_drains t i s =
     (if csDrainPending s \<and> snd (csPC s t) = 0 \<and> csInterrupt s = None \<and> \<not> csTrapPending s t
      then bindE (squashAfter t i s) (\<lambda>s. Inr (s\<lparr>csDrainImminent := True\<rparr>))
      else Inr s)"

definition after_commit ::
  "commit_cfg \<Rightarrow> nat \<Rightarrow> dyn_inst \<Rightarrow> commit_state \<Rightarrow> (bool \<times> commit_state) res"
where
  "after_commit C t i s =
     bindE (commit_htm t i (track_commit i s)) (\<lambda>s.
     let s = s\<lparr>csChangedROB := (csChangedROB s)(t := True)\<rparr> in
     bindE (squash_tail t (diSeq i) s) (\<lambda>tail.
     bindE (assertE (\<not> has_prop IsStoreConditional i \<or> has_status Completed i \<or> \<not> has_prop IsStore i
                     \<or> \<not> has_flag Predicate i)) (\<lambda>_.
     let s = record_commit C t i tail s in
     bindE (if has_prop IsSquashAfter i then squashAfter t i s else Inr s) (\<lambda>s.
     bindE (commit_drains t i s) (\<lambda>s.
       commit_boundary C t i s)))))"

text \<open>The interrupt that a round of the loop looks at first.\<close>

definition commit_interrupt :: "commit_cfg \<Rightarrow> nat option \<Rightarrow> commit_state \<Rightarrow> commit_state res" where
  "commit_interrupt C ot s =
     (if csInterrupt s = None then Inr s
      else if executingHtmTransaction ot s then
        Inr ((upd_info 0 (\<lambda>c. c\<lparr>ciClearInterrupt := True\<rparr>) (s\<lparr>csIntCtl := ccIntClear C (csIntCtl s)\<rparr>))
               \<lparr>csInterrupt := None, csAvoidLiveLock := True\<rparr>)
      else handleInterrupt C s)"

text \<open>One round: whether the loop goes on, and the number committed so far.\<close>

definition commit_ready_head ::
  "commit_cfg \<Rightarrow> tick_in \<Rightarrow> nat \<Rightarrow> dyn_inst \<Rightarrow> nat \<Rightarrow> commit_state \<Rightarrow> (bool \<times> nat \<times> commit_state) res"
where
  "commit_ready_head C J t i n s =
     (if has_status Squashed i then
        bindE (retire_head t s) (\<lambda>s. Inr (True, n, s\<lparr>csChangedROB := (csChangedROB s)(t := True)\<rparr>))
      else
        bindE (commitHead C J t i n (s\<lparr>csPC := (csPC s)(t := diPC i)\<rparr>)) (\<lambda>(ok, s).
          if ok then bindE (after_commit C t i s) (\<lambda>(go, s). Inr (go, n + 1, s))
          else Inr (False, n, s)))"

definition commit_round ::
  "commit_cfg \<Rightarrow> tick_in \<Rightarrow> nat \<Rightarrow> commit_state \<Rightarrow> (bool \<times> nat \<times> commit_state) res"
where
  "commit_round C J n s =
     bindE (getCommittingThread C s) (\<lambda>(ot, s).
     bindE (commit_interrupt C ot s) (\<lambda>s.
       case ot of
         None \<Rightarrow> Inr (False, n, s)
       | Some t \<Rightarrow>
           bindE (rob_readHeadInst (csRob s) t) (\<lambda>h. case h of
             None \<Rightarrow> Inr (False, n, s)
           | Some i \<Rightarrow>
               bindE (assertE (diTid i = t)) (\<lambda>_.
               bindE (rob_isHeadReady (csRob s) t) (\<lambda>ready.
                 if \<not> ready then bindE (inspect_unready_head C J t i s) (\<lambda>s. Inr (False, n, s))
                 else commit_ready_head C J t i n s)))))"

text \<open>The ways a round can end, for the proofs about it.\<close>

lemma round_cases:
  assumes "commit_round C J n s = Inr (b, m, s')"
  obtains (stop) ot v where "getCommittingThread C s = Inr (ot, v)" "commit_interrupt C ot v = Inr s'" "\<not> b" "m = n"
  | (unready) t v u i where "getCommittingThread C s = Inr (Some t, v)" "commit_interrupt C (Some t) v = Inr u"
      "rob_readHeadInst (csRob u) t = Inr (Some i)" "diTid i = t" "rob_isHeadReady (csRob u) t = Inr False"
      "inspect_unready_head C J t i u = Inr s'" "\<not> b" "m = n"
  | (ready) t v u i where "getCommittingThread C s = Inr (Some t, v)" "commit_interrupt C (Some t) v = Inr u"
      "rob_readHeadInst (csRob u) t = Inr (Some i)" "diTid i = t" "rob_isHeadReady (csRob u) t = Inr True"
      "commit_ready_head C J t i n u = Inr (b, m, s')"
proof -
  obtain ot v where v: "getCommittingThread C s = Inr (ot, v)"
    using assms by (cases "getCommittingThread C s") (auto simp: commit_round_def)
  obtain u where u: "commit_interrupt C ot v = Inr u"
    using assms v by (cases "commit_interrupt C ot v") (simp_all add: commit_round_def)
  have r: "(case ot of None \<Rightarrow> Inr (False, n, u)
       | Some t \<Rightarrow> bindE (rob_readHeadInst (csRob u) t) (\<lambda>h. case h of
             None \<Rightarrow> Inr (False, n, u)
           | Some i \<Rightarrow> bindE (assertE (diTid i = t)) (\<lambda>_.
               bindE (rob_isHeadReady (csRob u) t) (\<lambda>ready.
                 if \<not> ready then bindE (inspect_unready_head C J t i u) (\<lambda>s. Inr (False, n, s))
                 else commit_ready_head C J t i n u)))) = Inr (b, m, s')"
    using assms v u by (simp only: commit_round_def bindE_Inr prod.case)
  show thesis
  proof (cases ot)
    case None
    then show thesis using r v u stop by simp
  next
    case (Some t)
    obtain h where h: "rob_readHeadInst (csRob u) t = Inr h" using r Some by (auto simp: bindE_ok)
    show thesis
    proof (cases h)
      case None
      then have "s' = u" "\<not> b" "m = n" using r Some h by simp_all
      then show thesis using v u stop by simp
    next
      case i: (Some i)
      have hd: "rob_readHeadInst (csRob u) t = Inr (Some i)" using h i by simp
      let ?k = "\<lambda>ready. if \<not> ready then bindE (inspect_unready_head C J t i u) (\<lambda>s. Inr (False, n, s))
          else commit_ready_head C J t i n u"
      have b: "bindE (assertE (diTid i = t)) (\<lambda>_. bindE (rob_isHeadReady (csRob u) t) ?k) = Inr (b, m, s')"
        using r unfolding Some h i bindE_Inr option.case .
      then obtain rdy where rdy: "rob_isHeadReady (csRob u) t = Inr rdy" "?k rdy = Inr (b, m, s')"
        unfolding bindE_ok by blast
      have tid: "diTid i = t" using b by (cases "diTid i = t") simp_all
      show thesis
      proof (cases rdy)
        case True
        then show thesis using ready[of t v u i] v u Some hd tid rdy by simp
      next
        case False
        then have k: "bindE (inspect_unready_head C J t i u) (\<lambda>s. Inr (False, n, s)) = Inr (b, m, s')"
          using rdy(2) by simp
        have "inspect_unready_head C J t i u = Inr s'" "\<not> b" "m = n"
          using k by (cases "inspect_unready_head C J t i u", simp_all)+
        then show thesis using unready[of t v u i] v u Some hd tid rdy(1) False by simp
      qed
    qed
  qed
qed

text \<open>Every round that goes on takes an instruction out of the reorder buffer.\<close>

definition rob_count :: "commit_state \<Rightarrow> nat" where
  "rob_count s = nat (numInstsInROB (csRob s))"


lemma count_frame [simp]:
  "csRob (upd_info t f s) = csRob s" "csRob (schedule_event d e s) = csRob s"
  "csRob (set_exit c t s) = csRob s" "csRob (count_cause c s) = csRob s"
  "csRob (cpu_trap C g t s) = csRob s" "csRob (generateTrapEvent C t h s) = csRob s"
  "csRob (track_commit i s) = csRob s" "csRob (updateComInstStats t i s) = csRob s"
  "numInstsInROB (csRob (put_inst t i s)) = numInstsInROB (csRob s)"
  by (simp_all add: upd_info_def schedule_event_def set_exit_def count_cause_def cpu_trap_def
      generateTrapEvent_def track_commit_def updateComInstStats_def instDone_def put_inst_def Let_def)

lemma squashAfter_rob: "squashAfter t i s = Inr s' \<Longrightarrow> csRob s' = csRob s"
  by (auto simp: squashAfter_def split_res)

lemma interrupt_rob: "commit_interrupt C ot s = Inr s' \<Longrightarrow> csRob s' = csRob s"
  by (auto simp: commit_interrupt_def handleInterrupt_def processInterrupts_def split_res Let_def
      split: if_splits)

lemma committing_rob: "getCommittingThread C s = Inr (ot, s') \<Longrightarrow> csRob s' = csRob s"
  by (auto simp: getCommittingThread_def roundRobin_def split_res
      split: if_splits commit_policy.splits option.splits list.splits)

lemma commit_dests_rob: "commit_dests C t i s = Inr s' \<Longrightarrow> csRob s' = csRob s"
  by (auto simp: commit_dests_def split_res Let_def split: if_splits)

lemma boundary_rob: "commit_boundary C t i s = Inr (b, s') \<Longrightarrow> csRob s' = csRob s"
  by (auto simp: commit_boundary_def split_res Let_def squashAfter_rob split: if_splits option.splits)

lemma htm_rob: "commit_htm t i s = Inr s' \<Longrightarrow> csRob s' = csRob s"
  by (auto simp: commit_htm_def split_res Let_def split: if_splits)

lemma drains_rob: "commit_drains t i s = Inr s' \<Longrightarrow> csRob s' = csRob s"
  by (auto simp: commit_drains_def split_res squashAfter_rob split: if_splits)

lemma record_commit_rob [simp]: "csRob (record_commit C t i tail s) = csRob s"
  by (simp add: record_commit_def Let_def)

text \<open>The steps of \<open>after_commit\<close>, for the proofs about it.\<close>

lemma after_commit_steps:
  assumes "after_commit C t i s = Inr (b, s')"
  obtains u tail v w where "commit_htm t i (track_commit i s) = Inr u"
    "(if has_prop IsSquashAfter i
      then squashAfter t i (record_commit C t i tail (u\<lparr>csChangedROB := (csChangedROB u)(t := True)\<rparr>))
      else Inr (record_commit C t i tail (u\<lparr>csChangedROB := (csChangedROB u)(t := True)\<rparr>))) = Inr v"
    "commit_drains t i v = Inr w" "commit_boundary C t i w = Inr (b, s')"
  using assms unfolding after_commit_def Let_def bindE_ok assertE_ok by blast

lemma after_commit_rob:
  assumes "after_commit C t i s = Inr (b, s')"
  shows "csRob s' = csRob s"
proof -
  obtain u tail v w where u: "commit_htm t i (track_commit i s) = Inr u"
    "(if has_prop IsSquashAfter i
      then squashAfter t i (record_commit C t i tail (u\<lparr>csChangedROB := (csChangedROB u)(t := True)\<rparr>))
      else Inr (record_commit C t i tail (u\<lparr>csChangedROB := (csChangedROB u)(t := True)\<rparr>))) = Inr v"
    "commit_drains t i v = Inr w" "commit_boundary C t i w = Inr (b, s')"
    using after_commit_steps[OF assms] .
  have "csRob v = csRob u" using u(2) squashAfter_rob by (auto split: if_splits)
  then show ?thesis using htm_rob[OF u(1)] drains_rob[OF u(3)] boundary_rob[OF u(4)] by simp
qed

lemma retire_head_counts:
  "retire_head t s = Inr s' \<Longrightarrow> numInstsInROB (csRob s') = numInstsInROB (csRob s) - 1
     \<and> numInstsInROB (csRob s) > 0"
  by (auto simp: retire_head_def rob_retireHead_def rob_updateHead_def split_res
      split: list.splits option.splits)

lemma commitHead_success:
  assumes "commitHead C J t i n s = Inr (True, s')"
  shows "has_status Executed i \<and> diFault i = None
    \<and> (\<exists>j u v. j = (if has_prop IsStore i then i else set_status Completed i)
       \<and> commit_dests C t j (updateComInstStats t j (put_inst t j s)) = Inr u
       \<and> retire_head t u = Inr v
       \<and> s' = (if has_prop IsStore i \<or> has_prop IsAtomic i
               then v\<lparr>csCommittedStores := (csCommittedStores v)(t := True)\<rparr> else v))"
proof -
  have e: "has_status Executed i" using assms by (auto simp: commitHead_def split_res split: if_splits)
  have f: "diFault i = None"
    using assms e by (auto simp: commitHead_def Let_def split_res split: if_splits option.splits)
  show ?thesis using assms e f by (auto simp: commitHead_def Let_def bindE_ok has_prop_def set_status_def)
qed

lemma commitHead_counts:
  assumes "commitHead C J t i n s = Inr (True, s')"
  shows "numInstsInROB (csRob s') = numInstsInROB (csRob s) - 1 \<and> numInstsInROB (csRob s) > 0"
proof -
  from commitHead_success[OF assms] obtain j u v where
    d: "commit_dests C t j (updateComInstStats t j (put_inst t j s)) = Inr u" "retire_head t u = Inr v"
    and "csRob s' = csRob v" by force
  moreover have "numInstsInROB (csRob u) = numInstsInROB (csRob s)"
    using commit_dests_rob[OF d(1)] by simp
  ultimately show ?thesis using retire_head_counts[OF d(2)] by simp
qed

lemma ready_head_counts:
  assumes "commit_ready_head C J t i n s = Inr (True, m, s')"
  shows "numInstsInROB (csRob s') = numInstsInROB (csRob s) - 1 \<and> numInstsInROB (csRob s) > 0"
proof (cases "has_status Squashed i")
  case True
  then obtain u where "retire_head t s = Inr u" "csRob s' = csRob u"
    using assms by (auto simp: commit_ready_head_def bindE_ok)
  then show ?thesis using retire_head_counts[of t s u] by simp
next
  case False
  then obtain u where u: "commitHead C J t i n (s\<lparr>csPC := (csPC s)(t := diPC i)\<rparr>) = Inr (True, u)"
    "after_commit C t i u = Inr (True, s')"
    using assms by (auto simp: commit_ready_head_def bindE_ok split: if_splits)
  then show ?thesis using commitHead_counts[OF u(1)] after_commit_rob[OF u(2)] by simp
qed

lemma round_counts:
  assumes "commit_round C J n s = Inr (True, m, s')"
  shows "rob_count s' < rob_count s"
proof -
  from assms obtain u t i where "csRob u = csRob s" "commit_ready_head C J t i n u = Inr (True, m, s')"
    by (auto simp: commit_round_def split_res dest!: committing_rob interrupt_rob
        split: if_splits option.splits)
  then show ?thesis using ready_head_counts[of C J t i n u m s'] by (simp add: rob_count_def)
qed

function commit_loop ::
  "commit_cfg \<Rightarrow> tick_in \<Rightarrow> nat \<Rightarrow> commit_state \<Rightarrow> commit_state res"
where
  "commit_loop C J n s =
     (if n < ccCommitWidth C then
        bindE (commit_round C J n s) (\<lambda>x.
          if fst x then commit_loop C J (fst (snd x)) (snd (snd x)) else Inr (snd (snd x)))
      else Inr s)"
  by pat_completeness auto
termination
  by (relation "measure (\<lambda>(C, J, n, s). rob_count s)") (auto dest: round_counts)

declare commit_loop.simps [simp del]

definition commitInsts :: "commit_cfg \<Rightarrow> tick_in \<Rightarrow> commit_state \<Rightarrow> commit_state res" where
  "commitInsts C J s = commit_loop C J 0 s"

end
