(* ===== verification/CommitTick.thy ===== *)
theory CommitTick
  imports CommitStage
begin

text \<open>
  A whole cycle of the commit stage (\<open>commit.cc\<close>: \<open>getInsts\<close>, \<open>markCompletedInsts\<close>, \<open>commit\<close>,
  \<open>tick\<close>, \<open>updateStatus\<close>) and its life cycle (constructor, \<open>clearStates\<close>, drain, take-over).
\<close>

section \<open>One cycle\<close>

text \<open>Rename hands over pointers: the instructions are those of \<open>csFront\<close>.\<close>

definition getInsts :: "commit_cfg \<Rightarrow> tick_in \<Rightarrow> commit_state \<Rightarrow> commit_state res" where
  "getInsts C J s =
     foldE (\<lambda>q s.
       bindE (ptr (find (\<lambda>i. diSeq i = q) (csFront s))) (\<lambda>i.
       let t = diTid i in
       if \<not> has_status Squashed i \<and> csStatus s t \<noteq> ROBSquashing \<and> csStatus s t \<noteq> TrapPending then
         bindE (rob_insertInst i (csRob s)) (\<lambda>r.
         bindE (assertE (threadEntries r t \<le> maxEntries r t)) (\<lambda>_.
           Inr (s\<lparr>csChangedROB := (csChangedROB s)(t := True), csRob := r,
                  csFront := filter (\<lambda>j. diSeq j \<noteq> q) (csFront s),
                  csYoungest := (csYoungest s)(t := diSeq i)\<rparr>)))
       else Inr s)) (take (ccRenameWidth C) (tiFromRename J)) s"

text \<open>IEW reports instructions by pointer: a squashed one is left alone.\<close>

definition mark_completed :: "nat \<Rightarrow> dyn_inst \<Rightarrow> dyn_inst" where
  "mark_completed q i = (if diSeq i = q \<and> \<not> has_status Squashed i then set_status CanCommit i else i)"

definition markCompletedInsts :: "tick_in \<Rightarrow> commit_state \<Rightarrow> commit_state" where
  "markCompletedInsts J s =
     fold (\<lambda>q s. s\<lparr>csRob := (csRob s)\<lparr>instList := (\<lambda>t. map (mark_completed q) (instList (csRob s) t))\<rparr>,
                   csFront := map (mark_completed q) (csFront s)\<rparr>) (tiCompleted J) s"

text \<open>The last part of \<open>commit\<close>: free entries and an empty buffer are reported to rename.\<close>

definition report_rob :: "tick_in \<Rightarrow> nat \<Rightarrow> commit_state \<Rightarrow> commit_state" where
  "report_rob J t s =
     (let s = (if csChangedROB s t then
                 let s = upd_info t (\<lambda>c. c\<lparr>ciUsedROB := True, ciFreeROB := rob_numFreeEntriesOf (csRob s) t\<rparr>) s;
                     s = s\<lparr>csWroteTB := True, csChangedROB := (csChangedROB s)(t := False)\<rparr> in
                 if rob_isEmptyOf (csRob s) t then s\<lparr>csCheckEmpty := (csCheckEmpty s)(t := True)\<rparr> else s
               else s) in
      if csCheckEmpty s t \<and> rob_isEmptyOf (csRob s) t \<and> \<not> tiStoresToWB J t \<and> \<not> csCommittedStores s t
      then (upd_info t (\<lambda>c. c\<lparr>ciUsedROB := True, ciEmptyROB := True,
              ciFreeROB := rob_numFreeEntriesOf (csRob s) t\<rparr>) s)
             \<lparr>csCheckEmpty := (csCheckEmpty s)(t := False), csWroteTB := True\<rparr>
      else s)"

definition squashing_threads :: "commit_state \<Rightarrow> nat" where
  "squashing_threads s = length (filter (\<lambda>t. csStatus s t = ROBSquashing) (csActive s))"

definition commit :: "commit_cfg \<Rightarrow> tick_in \<Rightarrow> commit_state \<Rightarrow> commit_state res" where
  "commit C J s =
     (let s = (if ccFullSystem C \<and> ccIntCheck C (csIntCtl s) then propagateInterrupt C s else s) in
      bindE (foldE (squash_thread C J) (csActive s) s) (\<lambda>s.
        let s = (if squashing_threads s \<noteq> 0 then s\<lparr>csNextActive := True\<rparr> else s) in
      bindE (if squashing_threads s \<noteq> ccThreads C
             then bindE (getInsts C J s) (commitInsts C J) else Inr s) (\<lambda>s.
        Inr (fold (report_rob J) (csActive s) s))))"

definition continue_squash :: "commit_cfg \<Rightarrow> nat \<Rightarrow> commit_state \<Rightarrow> commit_state res" where
  "continue_squash C t s =
     (let s = s\<lparr>csCommittedStores := (csCommittedStores s)(t := False)\<rparr> in
      if csStatus s t = ROBSquashing then
        (if doneSquashing (csRob s) t then Inr (s\<lparr>csStatus := (csStatus s)(t := CommitRunning)\<rparr>)
         else
           bindE (cs_rob_step (rob_doSquash (ccPinned C) (csExiting s t) (csActive s) t) s) (\<lambda>s.
             Inr ((upd_info t (\<lambda>c. c\<lparr>ciRobSquashing := True\<rparr>) s)\<lparr>csWroteTB := True\<rparr>)))
      else Inr s)"

definition check_head :: "nat \<Rightarrow> commit_state \<Rightarrow> commit_state res" where
  "check_head t s =
     (if rob_isEmptyOf (csRob s) t then Inr s
      else
        bindE (rob_readHeadInst (csRob s) t) (\<lambda>_.
        bindE (rob_isHeadReady (csRob s) t) (\<lambda>b. Inr (if b then s\<lparr>csNextActive := True\<rparr> else s))))"

definition updateStatus :: "commit_state \<Rightarrow> commit_state" where
  "updateStatus s =
     (let n = csNextActive s \<or> list_ex (\<lambda>t. csStatus s t = TrapPending \<or> csStatus s t = FetchTrapPending) (csActive s) in
      s\<lparr>csChangedROB := (\<lambda>t. if t \<in> set (csActive s) then False else csChangedROB s t),
        csNextActive := n, csStageActive := n\<rparr>)"

definition count_mode_cycles :: "commit_state \<Rightarrow> commit_state" where
  "count_mode_cycles s =
     (let f = csInfo s;
          f = (if rfEnterCycles f \<ge> 0 then f\<lparr>rfEnterCycles := rfEnterCycles f + 1\<rparr> else f);
          f = (if rfExitCycles f \<ge> 0 then f\<lparr>rfExitCycles := rfExitCycles f + 1\<rparr> else f) in
      s\<lparr>csInfo := f\<rparr>)"

definition commit_tick :: "commit_cfg \<Rightarrow> tick_in \<Rightarrow> commit_state \<Rightarrow> commit_state res" where
  "commit_tick C J s =
     (let s = s\<lparr>csWroteTB := False, csNextActive := False\<rparr> in
      if csActive s = [] then Inr s
      else
        bindE (foldE (continue_squash C) (csActive s) (count_mode_cycles s)) (\<lambda>s.
        bindE (commit C J s) (\<lambda>s.
        let s = markCompletedInsts J s in
        bindE (foldE check_head (csActive s) s) (\<lambda>s.
        bindE (foldE (updateRunaheadState C J) (csActive s) s) (\<lambda>s.
          Inr (updateStatus s))))))"

section \<open>Life cycle\<close>

text \<open>What \<open>Commit::Commit\<close> sets; \<open>pc0\<close> is gem5's fresh PC state.\<close>

definition set4 :: "(nat \<Rightarrow> 'a) \<Rightarrow> 'a \<Rightarrow> nat \<Rightarrow> 'a" where
  "set4 f v t = (if t < maxThreads then v else f t)"

definition commit_init :: "commit_cfg \<Rightarrow> pc_pair \<Rightarrow> commit_state \<Rightarrow> commit_state res" where
  "commit_init C pc0 s =
     bindE (if ccCommitWidth C > 12 then Inl FatalCall else Inr ()) (\<lambda>_.
       Inr (s\<lparr>csDrainPending := False, csDrainImminent := False, csCanHandleInt := True,
         csAvoidLiveLock := False, csStageActive := True, csNextActive := False,
         csPriority := (if ccCommitPolicy C = RoundRobin then csPriority s @ [0..<ccThreads C] else csPriority s),
         csStatus := set4 (csStatus s) CommitIdle, csChangedROB := set4 (csChangedROB s) False,
         csTrapSquash := set4 (csTrapSquash s) False, csTcSquash := set4 (csTcSquash s) False,
         csSquashAfterInst := set4 (csSquashAfterInst s) None, csPC := set4 (csPC s) pc0,
         csYoungest := set4 (csYoungest s) 0, csLastCommitted := set4 (csLastCommitted s) 0,
         csTrapInFlight := set4 (csTrapInFlight s) False,
         csCommittedStores := set4 (csCommittedStores s) False,
         csCheckEmpty := set4 (csCheckEmpty s) False,
         csHtmStarts := set4 (csHtmStarts s) 0, csHtmStops := set4 (csHtmStops s) 0,
         csInterrupt := None\<rparr>))"

text \<open>The policy parameter; the second value is \<open>minRunaheadWork\<close>, which starts at 0.\<close>

definition exit_policy_of :: "string \<Rightarrow> int \<Rightarrow> exit_policy \<times> int" where
  "exit_policy_of name w =
     (if name = ''Eager'' then (EagerExit, 0)
      else if name = ''MinimumWork'' then (MinimumWork, w)
      else if name = ''NLLB'' then (NLLB, 0)
      else if name = ''DynamicDelayed'' then (DynamicDelayed, 0)
      else (EagerExit, 0))"

definition commit_clearStates :: "nat \<Rightarrow> pc_pair \<Rightarrow> commit_state \<Rightarrow> commit_state" where
  "commit_clearStates t pc0 s = s\<lparr>csStatus := (csStatus s)(t := CommitIdle),
     csChangedROB := (csChangedROB s)(t := False), csCheckEmpty := (csCheckEmpty s)(t := False),
     csTrapInFlight := (csTrapInFlight s)(t := False), csCommittedStores := (csCommittedStores s)(t := False),
     csTrapSquash := (csTrapSquash s)(t := False), csTcSquash := (csTcSquash s)(t := False),
     csPC := (csPC s)(t := pc0), csLastCommitted := (csLastCommitted s)(t := 0),
     csSquashAfterInst := (csSquashAfterInst s)(t := None)\<rparr>"

definition commit_startupStage :: "commit_cfg \<Rightarrow> commit_state \<Rightarrow> commit_state" where
  "commit_startupStage C s =
     (let s = s\<lparr>csRob := rob_resetEntries (csActive s) (csRob s)\<rparr> in
      fold (\<lambda>t s. upd_info t (\<lambda>c. c\<lparr>ciUsedROB := True, ciFreeROB := rob_numFreeEntriesOf (csRob s) t,
                               ciEmptyROB := True\<rparr>) s) [0..<ccThreads C] s)"

definition commit_drain :: "commit_state \<Rightarrow> commit_state" where
  "commit_drain s = s\<lparr>csDrainPending := True\<rparr>"

definition commit_drainResume :: "commit_state \<Rightarrow> commit_state" where
  "commit_drainResume s = s\<lparr>csDrainPending := False, csDrainImminent := False\<rparr>"

definition commit_isDrained :: "commit_cfg \<Rightarrow> commit_state \<Rightarrow> bool" where
  "commit_isDrained C s \<longleftrightarrow> list_all (\<lambda>t. snd (csPC s t) = 0) [0..<ccThreads C]
     \<and> rob_isEmpty (csRob s) \<and> csInterrupt s = None"

definition commit_drainSanityCheck :: "commit_cfg \<Rightarrow> commit_state \<Rightarrow> unit res" where
  "commit_drainSanityCheck C s =
     bindE (assertE (commit_isDrained C s)) (\<lambda>_.
     bindE (rob_drainSanityCheck (csRob s)) (\<lambda>_.
       if list_ex (\<lambda>t. executingHtmTransaction (Some t) s) [0..<ccThreads C] then Inl PanicCall else Inr ()))"

definition commit_takeOverFrom :: "commit_cfg \<Rightarrow> commit_state \<Rightarrow> commit_state" where
  "commit_takeOverFrom C s = s\<lparr>csStageActive := True, csNextActive := False,
     csStatus := (\<lambda>t. if t < ccThreads C then CommitIdle else csStatus s t),
     csChangedROB := (\<lambda>t. if t < ccThreads C then False else csChangedROB s t),
     csTrapSquash := (\<lambda>t. if t < ccThreads C then False else csTrapSquash s t),
     csTcSquash := (\<lambda>t. if t < ccThreads C then False else csTcSquash s t),
     csSquashAfterInst := (\<lambda>t. if t < ccThreads C then None else csSquashAfterInst s t),
     csRob := rob_resetState (csRob s)\<rparr>"

definition deactivateThread :: "nat \<Rightarrow> commit_state \<Rightarrow> commit_state" where
  "deactivateThread t s = s\<lparr>csPriority := remove1 t (csPriority s)\<rparr>"

definition resetHtmStartsStops :: "nat option \<Rightarrow> commit_state \<Rightarrow> commit_state" where
  "resetHtmStartsStops ot s = (case ot of None \<Rightarrow> s
     | Some t \<Rightarrow> s\<lparr>csHtmStarts := (csHtmStarts s)(t := 0), csHtmStops := (csHtmStops s)(t := 0)\<rparr>)"

definition changedROBEntries :: "commit_state \<Rightarrow> bool" where
  "changedROBEntries s \<longleftrightarrow> list_ex (csChangedROB s) (csActive s)"

end
