(* ===== verification/RunaheadPeriod.thy ===== *)
theory RunaheadPeriod
  imports CommitTick
begin

text \<open>
  A runahead period of a single-threaded CPU, from the cycle that enters it to the restore: what
  each operation of the commit stage leaves alone (\<open>arch_view\<close>), the invariant of a period, and
  the theorem that a period of any length is invisible to the program.
\<close>

section \<open>What a period must not touch\<close>

definition arch_view where
  "arch_view s = (asFile (csArch s), asCkpt (csArch s), asDebug (csArch s),
     (rsMaps (asRen (csArch s)), rsCommit (asRen (csArch s)), rsFree (asRen (csArch s)),
      rsHist (asRen (csArch s)), rsBoard (asRen (csArch s))),
     csTraps s, csNumInst s, csStoredPC s, csActive s, csArchRestorePrev s)"

text \<open>All instructions of thread 0 in flight carry the runahead flag.\<close>

definition all_flagged :: "commit_state \<Rightarrow> bool" where
  "all_flagged s \<longleftrightarrow> (\<forall>i \<in> set (instList (csRob s) 0). has_flag Runahead i)
     \<and> (\<forall>i \<in> set (csFront s). diTid i = 0 \<longrightarrow> \<not> has_status Committed i \<longrightarrow> has_flag Runahead i)"

text \<open>What an operation outside the commit loop does to all this; a squash also keeps \<open>csFront\<close>.\<close>

definition calm :: "commit_state \<Rightarrow> commit_state \<Rightarrow> bool" where
  "calm s s' \<longleftrightarrow> arch_view s' = arch_view s \<and> csArchRestore s' = csArchRestore s
     \<and> csInRunahead s' = csInRunahead s \<and> (all_flagged s \<longrightarrow> all_flagged s')"

definition quiet :: "commit_state \<Rightarrow> commit_state \<Rightarrow> bool" where
  "quiet s s' \<longleftrightarrow> calm s s' \<and> csFront s' = csFront s"

named_theorems quiet_intros \<open>operations that are quiet\<close>

lemma calm_refl [simp]: "calm s s"
  by (simp add: calm_def)

lemma calm_trans [trans]: "calm s u \<Longrightarrow> calm u v \<Longrightarrow> calm s v"
  by (auto simp: calm_def)

lemma quiet_calm: "quiet s s' \<Longrightarrow> calm s s'"
  by (simp add: quiet_def)

lemma quiet_refl [simp, quiet_intros]: "quiet s s"
  by (simp add: quiet_def)

lemma quiet_trans [trans]: "quiet s u \<Longrightarrow> quiet u v \<Longrightarrow> quiet s v"
  by (auto simp: quiet_def intro: calm_trans)

lemma quiet_foldE:
  assumes "foldE f xs s = Inr s'" "\<And>x u v. x \<in> set xs \<Longrightarrow> f x u = Inr v \<Longrightarrow> quiet u v"
  shows "quiet s s'"
  by (rule foldE_inv[where P = "quiet s", OF assms(1)]) (auto intro: quiet_trans assms(2))

text \<open>A change of fields that none of the notions reads.\<close>

lemma quiet_same:
  assumes "csArch s' = csArch s" "csRob s' = csRob s" "csFront s' = csFront s" "csTraps s' = csTraps s"
    "csNumInst s' = csNumInst s" "csStoredPC s' = csStoredPC s" "csActive s' = csActive s"
    "csArchRestorePrev s' = csArchRestorePrev s" "csArchRestore s' = csArchRestore s"
    "csInRunahead s' = csInRunahead s"
  shows "quiet s s'"
  using assms by (simp add: quiet_def calm_def arch_view_def all_flagged_def)

lemma upd_info_quiet [simp]: "quiet s (upd_info t f s)"
  by (rule quiet_same) (simp_all add: upd_info_def)

section \<open>Squashing\<close>

definition flags_of :: "dyn_inst list \<Rightarrow> bool list" where
  "flags_of l = map (has_flag Runahead) l"

lemma flags_all: "flags_of l = flags_of k \<Longrightarrow> (\<forall>i \<in> set l. has_flag Runahead i) \<longleftrightarrow> (\<forall>i \<in> set k. has_flag Runahead i)"
proof -
  have e: "(\<forall>i \<in> set l. has_flag Runahead i) \<longleftrightarrow> (\<forall>b \<in> set (flags_of l). b)" for l
    by (simp add: flags_of_def)
  show "flags_of l = flags_of k \<Longrightarrow> ?thesis" unfolding e by simp
qed

lemma pos_of_lt: "pos_of l q = Some k \<Longrightarrow> k < length l"
  by (induction l arbitrary: k) (auto split: if_splits)

lemma squash_flag: "has_flag f (fst (setSquashed isPinned (i, pc))) = has_flag f i"
  by (simp add: setSquashed_fst squash_mark_def Let_def)

lemma it_set_flags:
  assumes "it_get l it = Inr i" "it_set l it j = Inr l'" "has_flag Runahead j = has_flag Runahead i"
  shows "flags_of l' = flags_of l"
  using assms by (auto simp: it_get_def it_set_def flags_of_def map_update list_update_same_conv
      dest!: pos_of_lt split: option.splits)

lemma squash_loop_flags:
  "squash_loop isPinned n sq l it pc upd = Inr (l', it', pc', upd', ret) \<Longrightarrow> flags_of l' = flags_of l"
proof (induction isPinned n sq l it pc upd rule: squash_loop.induct)
  case (2 isPinned n sq l it pc upd)
  show ?case
  proof (cases "it = None")
    case False
    then obtain i where i: "it_get l it = Inr i" using 2(2) by (auto simp: bindE_ok)
    show ?thesis
    proof (cases "diSeq i > sq")
      case True
      obtain j pc2 where j: "setSquashed isPinned (i, pc) = (j, pc2)" by fastforce
      obtain l2 where l2: "it_set l it (set_status CanCommit j) = Inr l2"
        using 2(2) False i True j by (auto simp: bindE_ok)
      have f: "flags_of l2 = flags_of l"
        using it_set_flags[OF i l2] squash_flag[of Runahead isPinned i pc] j by simp
      show ?thesis
      proof (cases "it = it_begin l2")
        case True
        have "squash_loop isPinned (Suc n) sq l it pc upd = Inr (l2, None, pc2, upd, True)"
          using False i \<open>diSeq i > sq\<close> j l2 by (simp add: True[symmetric])
        then show ?thesis using 2(2) f by simp
      next
        case nb: False
        then obtain it2 where it2: "it_dec l2 it = Inr it2"
          using 2(2) False i True j l2 by (auto simp: bindE_ok)
        show ?thesis
          using 2(1)[OF False i _ j[symmetric] refl l2 nb it2] 2(2) False i True j l2 nb it2 f by simp
      qed
    qed (use 2(2) False i in simp)
  qed (use 2(2) in simp)
qed simp

lemma updateTail_lists [simp]: "instList (rob_updateTail active r) = instList r"
  by (simp add: rob_updateTail_def split: option.splits)

lemma doSquash_flags:
  assumes "rob_doSquash isPinned ex active t (r, pc) = Inr (r', pc')"
  shows "flags_of (instList r' u) = flags_of (instList r u)"
proof -
  obtain cur where cur: "it_get (instList r t) (squashIt r t) = Inr cur"
    using assms by (auto simp: rob_doSquash_def split_res)
  show ?thesis
  proof (cases "diSeq cur < squashedSeqNum r t")
    case True
    then show ?thesis using assms cur by (auto simp: rob_doSquash_def split_res)
  next
    case False
    then obtain l it pc2 up rt where L: "squash_loop isPinned (if ex then numEntries r else squashWidth r)
        (squashedSeqNum r t) (instList r t) (squashIt r t) pc False = Inr (l, it, pc2, up, rt)"
      using assms cur by (auto simp: rob_doSquash_def split_res)
    note F = squash_loop_flags[OF L]
    show ?thesis
      using assms cur False L F by (auto simp: rob_doSquash_def split_res Let_def split: if_splits)
  qed
qed

lemma squash_flags:
  "rob_squash isPinned ex active q t (r, pc) = Inr (r', pc') \<Longrightarrow>
     flags_of (instList r' u) = flags_of (instList r u)"
  by (auto simp: rob_squash_def Let_def dest: doSquash_flags split: if_splits)

lemma rob_step_quiet:
  assumes "cs_rob_step f s = Inr s'"
    "\<And>r pc r' pc'. f (r, pc) = Inr (r', pc') \<Longrightarrow> flags_of (instList r' 0) = flags_of (instList r 0)"
  shows "quiet s s'"
proof -
  obtain r pc where r: "f (csRob s, rsPins (asRen (csArch s))) = Inr (r, pc)"
    "s' = s\<lparr>csRob := r, csArch := (csArch s)\<lparr>asRen := (asRen (csArch s))\<lparr>rsPins := pc\<rparr>\<rparr>\<rparr>"
    using assms(1) by (auto simp: cs_rob_step_def split_res)
  show ?thesis
    using flags_all[OF assms(2)[OF r(1)]]
    by (simp add: r(2) quiet_def calm_def arch_view_def all_flagged_def)
qed

lemma squash_rob_quiet [quiet_intros]: "squash_rob C q t s = Inr s' \<Longrightarrow> quiet s s'"
  unfolding squash_rob_def by (erule rob_step_quiet) (rule squash_flags)

lemma do_squash_quiet [quiet_intros]:
  "cs_rob_step (rob_doSquash isPinned ex active t) s = Inr s' \<Longrightarrow> quiet s s'"
  by (erule rob_step_quiet) (rule doSquash_flags)

lemma squashAll_quiet [quiet_intros]:
  assumes "squashAll C t s = Inr s'"
  shows "quiet s s'"
proof -
  obtain q u tail where q: "squash_rob C q t (s\<lparr>csYoungest := (csYoungest s)(t := csLastCommitted s t)\<rparr>) = Inr u"
    "s' = upd_info t (\<lambda>c. c\<lparr>ciDoneSeq := q, ciSquashTail := tail, ciSquash := True, ciRobSquashing := True,
       ciMispredictInst := None, ciSquashInst := None, ciPC := Some (csPC u t)\<rparr>)
       (u\<lparr>csChangedROB := (csChangedROB u)(t := True)\<rparr>)"
    using assms by (auto simp: squashAll_def split_res Let_def)
  have "quiet s (s\<lparr>csYoungest := (csYoungest s)(t := csLastCommitted s t)\<rparr>)" by (rule quiet_same) simp_all
  also have "quiet \<dots> u" by (rule squash_rob_quiet[OF q(1)])
  also have "quiet u s'" unfolding q(2) by (rule quiet_same) (simp_all add: upd_info_def)
  finally show ?thesis .
qed

lemma quiet_bind:
  "bindE m f = Inr s' \<Longrightarrow> (\<And>u. m = Inr u \<Longrightarrow> quiet s u) \<Longrightarrow> (\<And>u. f u = Inr s' \<Longrightarrow> quiet u s') \<Longrightarrow> quiet s s'"
  by (auto simp: bindE_ok intro: quiet_trans)

lemma squashFromTrap_quiet [quiet_intros]: "squashFromTrap C t s = Inr s' \<Longrightarrow> quiet s s'"
  unfolding squashFromTrap_def by (erule quiet_bind, erule squashAll_quiet) (clarsimp, rule quiet_same, simp_all)

lemma squashFromTC_quiet [quiet_intros]: "squashFromTC C t s = Inr s' \<Longrightarrow> quiet s s'"
  unfolding squashFromTC_def Let_def
  by (erule quiet_bind, erule squashAll_quiet) (clarsimp simp: split_res, rule quiet_same, simp_all)

lemma squashFromSquashAfter_quiet [quiet_intros]: "squashFromSquashAfter C t s = Inr s' \<Longrightarrow> quiet s s'"
  unfolding squashFromSquashAfter_def Let_def upd_info_def
  by (erule quiet_bind, erule squashAll_quiet) (clarsimp, rule quiet_same, simp_all)

lemma squashFromIEW_quiet [quiet_intros]:
  assumes "squashFromIEW C J t s = Inr s'"
  shows "quiet s s'"
proof (cases "s' = s")
  case False
  then obtain q u f where q: "squash_rob C q t (s\<lparr>csStatus := (csStatus s)(t := ROBSquashing),
       csYoungest := (csYoungest s)(t := q)\<rparr>) = Inr u"
    "s' = upd_info t f (u\<lparr>csChangedROB := (csChangedROB u)(t := True)\<rparr>)"
    using assms by (auto simp: squashFromIEW_def split_res Let_def split: if_splits)
  have "quiet s (s\<lparr>csStatus := (csStatus s)(t := ROBSquashing), csYoungest := (csYoungest s)(t := q)\<rparr>)"
    by (rule quiet_same) simp_all
  also have "quiet \<dots> u" by (rule squash_rob_quiet[OF q(1)])
  also have "quiet u s'" unfolding q(2) by (rule quiet_same) (simp_all add: upd_info_def)
  finally show ?thesis .
qed simp

text \<open>
  The exit squash.  \<open>exits\<close> is what it does to the notions above, \<open>left\<close> what it establishes and
  the rest of the cycle keeps.
\<close>

definition exits :: "nat \<Rightarrow> commit_state \<Rightarrow> commit_state \<Rightarrow> bool" where
  "exits t s s' \<longleftrightarrow> arch_view s' = arch_view s \<and> csFront s' = csFront s
     \<and> csArchRestore s' = (csArchRestore s)(t := True) \<and> csInRunahead s' = (csInRunahead s)(t := False)
     \<and> (all_flagged s \<longrightarrow> all_flagged s')"

definition left :: "nat \<Rightarrow> commit_state \<Rightarrow> bool" where
  "left t s \<longleftrightarrow> \<not> csExit s t \<and> \<not> csExitable s t \<and> csStatus s t = ROBSquashing \<and> csPC s t = csStoredPC s t
     \<and> \<not> csTrapInFlight s t \<and> \<not> csTrapPending s t"

lemma exit_squash:
  assumes "squashFromRunaheadExit C J t s = Inr s'"
  shows "exits t s s' \<and> left t s' \<and> ciPC (csInfoOut s' t) = Some (csStoredPC s t) \<and> ciSquash (csInfoOut s' t)
    \<and> (\<exists>lll. csCause s t = Some lll \<and> csYoungest s' t = usub64 lll 1 \<and> ciDoneSeq (csInfoOut s' t) = usub64 lll 1)"
proof -
  define s1 where "s1 = s\<lparr>csExit := (csExit s)(t := False),
      csInfo := (csInfo s)\<lparr>rfExitCycles := 0, rfIqSeqNum := (case tiIqYoungest J t of None \<Rightarrow> 0 | Some q \<Rightarrow> q)\<rparr>,
      csArchRestore := (csArchRestore s)(t := True)\<rparr>"
  obtain lll tail u where c: "csCause s t = Some lll"
    "squash_rob C (usub64 lll 1) t ((upd_info t (\<lambda>c. c\<lparr>ciDoneSeq := usub64 lll 1, ciSquashTail := tail\<rparr>)
        ((upd_info t (\<lambda>c. c\<lparr>ciSquash := True\<rparr>) s1)\<lparr>csYoungest := (csYoungest s)(t := usub64 lll 1)\<rparr>))
        \<lparr>csStatus := (csStatus s)(t := ROBSquashing)\<rparr>) = Inr u" (is "squash_rob C _ t ?s2 = _")
    "s' = (exitRunahead t ((upd_info t (\<lambda>c. c\<lparr>ciRobSquashing := True, ciMispredictInst := None,
                   ciSquashInst := map_option diSeq (rob_findInst (csRob u) t (usub64 lll 1)),
                   ciPC := Some (csStoredPC u t)\<rparr>) (u\<lparr>csChangedROB := (csChangedROB u)(t := True),
                  csPC := (csPC u)(t := csStoredPC u t)\<rparr>))\<lparr>csTrapInFlight := (csTrapInFlight u)(t := False),
                  csTrapPending := (csTrapPending u)(t := False)\<rparr>))\<lparr>csExitable := (csExitable u)(t := False)\<rparr>"
    using assms unfolding s1_def
    by (auto simp: squashFromRunaheadExit_def split_res Let_def upd_info_def exitRunahead_def)
  obtain r pc where u: "u = ?s2\<lparr>csRob := r, csArch := (csArch ?s2)\<lparr>asRen := (asRen (csArch ?s2))\<lparr>rsPins := pc\<rparr>\<rparr>\<rparr>"
    using c(2) by (auto simp: squash_rob_def cs_rob_step_def split_res)
  have q: "quiet ?s2 u" by (rule squash_rob_quiet[OF c(2)])
  have a: "arch_view ?s2 = arch_view s" "all_flagged ?s2 = all_flagged s"
    by (simp_all add: s1_def upd_info_def arch_view_def all_flagged_def)
  have b: "arch_view s' = arch_view u" "all_flagged s' = all_flagged u"
    by (simp_all add: c(3) upd_info_def arch_view_def all_flagged_def exitRunahead_def)
  have "csFront s' = csFront s \<and> csArchRestore s' = (csArchRestore s)(t := True)
      \<and> csInRunahead s' = (csInRunahead s)(t := False)"
    by (simp add: c(3) u s1_def upd_info_def exitRunahead_def)
  then have "exits t s s'"
    using q a b by (simp add: quiet_def calm_def exits_def)
  moreover have "left t s'" by (simp add: left_def c(3) u s1_def upd_info_def exitRunahead_def)
  moreover have "ciPC (csInfoOut s' t) = Some (csStoredPC s t) \<and> ciSquash (csInfoOut s' t)
    \<and> csYoungest s' t = usub64 lll 1 \<and> ciDoneSeq (csInfoOut s' t) = usub64 lll 1"
    by (simp add: c(3) u s1_def upd_info_def exitRunahead_def)
  ultimately show ?thesis using c(1) by blast
qed

lemma IEW_squash_left:
  assumes "squashFromIEW C J t s = Inr s'" "left u s"
  shows "left u s'"
proof (cases "s' = s")
  case False
  then obtain q f v where q: "squash_rob C q t (s\<lparr>csStatus := (csStatus s)(t := ROBSquashing),
       csYoungest := (csYoungest s)(t := q)\<rparr>) = Inr v"
    "s' = upd_info t f (v\<lparr>csChangedROB := (csChangedROB v)(t := True)\<rparr>)"
    using assms by (auto simp: squashFromIEW_def split_res Let_def split: if_splits)
  then show ?thesis
    using assms(2) by (auto simp: squash_rob_def cs_rob_step_def split_res left_def upd_info_def)
qed (use assms in simp)

lemma exits_quiet: "exits t s u \<Longrightarrow> quiet u v \<Longrightarrow> exits t s v"
  by (auto simp: exits_def quiet_def calm_def)

definition exit_turn :: "nat \<Rightarrow> commit_state \<Rightarrow> bool" where
  "exit_turn t s \<longleftrightarrow>
     \<not> csTrapSquash s t \<and> \<not> csTcSquash s t \<and> csStatus s t \<noteq> SquashAfterPending \<and> csExit s t"

lemma squash_thread_quiet:
  assumes "squash_thread C J t s = Inr s'"
  shows "if exit_turn t s then exits t s s' \<and> left t s' else quiet s s'"
proof -
  obtain u where u: "(if csTrapSquash s t then
          bindE (assertE (\<not> csTcSquash s t)) (\<lambda>_.
          bindE (squashFromTrap C t s) (\<lambda>s.
            Inr (if csExiting s t then schedule_event 1 (ThreadExitEvent t) s else s)))
        else if csTcSquash s t then
          bindE (assertE (csStatus s t \<noteq> TrapPending)) (\<lambda>_. squashFromTC C t s)
        else if csStatus s t = SquashAfterPending then
          (if \<not> (csWasRunahead s t \<and> \<not> csInRunahead s t) then squashFromSquashAfter C t s
           else Inr (s\<lparr>csStatus := (csStatus s)(t := CommitRunning)\<rparr>))
        else if csExit s t then squashFromRunaheadExit C J t s
        else Inr s) = Inr u" "squashFromIEW C J t u = Inr s'"
    using assms by (auto simp: squash_thread_def bindE_ok)
  note q = squashFromIEW_quiet[OF u(2)]
  show ?thesis
  proof (cases "exit_turn t s")
    case True
    then have e: "squashFromRunaheadExit C J t s = Inr u" using u(1) by (simp add: exit_turn_def)
    have "exits t s s' \<and> left t s'"
      using exit_squash[OF e] IEW_squash_left[OF u(2)] exits_quiet[OF _ q] by blast
    with True show ?thesis by simp
  next
    case False
    have ev: "quiet v (schedule_event d e v)" for v d e by (rule quiet_same) (simp_all add: schedule_event_def)
    have st: "quiet s (s\<lparr>csStatus := (csStatus s)(t := CommitRunning)\<rparr>)" by (rule quiet_same) simp_all
    have "quiet s u"
      using u(1) ev st False unfolding exit_turn_def
      by (auto simp: split_res intro: quiet_trans[OF squashFromTrap_quiet] quiet_intros split: if_splits)
    then show ?thesis using q quiet_trans False by presburger
  qed
qed

section \<open>The rest of a cycle\<close>

lemma calm_same:
  assumes "csArch s' = csArch s" "csRob s' = csRob s" "csFront s' = csFront s" "csTraps s' = csTraps s"
    "csNumInst s' = csNumInst s" "csStoredPC s' = csStoredPC s" "csActive s' = csActive s"
    "csArchRestorePrev s' = csArchRestorePrev s" "csArchRestore s' = csArchRestore s"
    "csInRunahead s' = csInRunahead s"
  shows "calm s s'"
  by (rule quiet_calm) (rule quiet_same[OF assms])

lemma continue_squash_quiet: "continue_squash C t s = Inr s' \<Longrightarrow> quiet s s'"
proof -
  assume a: "continue_squash C t s = Inr s'"
  let ?s = "s\<lparr>csCommittedStores := (csCommittedStores s)(t := False)\<rparr>"
  have q: "quiet s ?s" by (rule quiet_same) simp_all
  show ?thesis
  proof (cases "csStatus ?s t = ROBSquashing \<and> \<not> doneSquashing (csRob ?s) t")
    case True
    then obtain u where u: "cs_rob_step (rob_doSquash (ccPinned C) (csExiting ?s t) (csActive ?s) t) ?s = Inr u"
      "s' = (upd_info t (\<lambda>c. c\<lparr>ciRobSquashing := True\<rparr>) u)\<lparr>csWroteTB := True\<rparr>"
      using a by (auto simp: continue_squash_def split_res Let_def)
    have "quiet u s'" unfolding u(2) upd_info_def by (rule quiet_same) simp_all
    with q do_squash_quiet[OF u(1)] show ?thesis by (blast intro: quiet_trans)
  next
    case False
    then have "continue_squash C t s = (if csStatus ?s t = ROBSquashing
        then Inr (?s\<lparr>csStatus := (csStatus ?s)(t := CommitRunning)\<rparr>) else Inr ?s)"
      by (simp add: continue_squash_def Let_def)
    then have "s' = ?s \<or> s' = ?s\<lparr>csStatus := (csStatus ?s)(t := CommitRunning)\<rparr>"
      using a by (metis sum.inject(2))
    moreover have "quiet ?s (?s\<lparr>csStatus := (csStatus ?s)(t := CommitRunning)\<rparr>)" by (rule quiet_same) simp_all
    ultimately show ?thesis using q by (blast intro: quiet_trans)
  qed
qed

lemma report_rob_quiet: "quiet s (report_rob J t s)"
  by (rule quiet_same) (simp_all add: report_rob_def Let_def upd_info_def)

lemma fold_quiet: "(\<And>x u. quiet u (f x u)) \<Longrightarrow> quiet s (fold f xs s)"
  by (induction xs arbitrary: s) (auto intro: quiet_trans)

lemma check_head_quiet: "check_head t s = Inr s' \<Longrightarrow> quiet s s'"
proof -
  assume "check_head t s = Inr s'"
  then have "s' = s \<or> s' = s\<lparr>csNextActive := True\<rparr>"
    by (auto simp: check_head_def split_res split: if_splits)
  moreover have "quiet s (s\<lparr>csNextActive := True\<rparr>)" by (rule quiet_same) simp_all
  ultimately show ?thesis by auto
qed

lemma updateStatus_quiet: "quiet s (updateStatus s)"
  by (rule quiet_same) (simp_all add: updateStatus_def Let_def)

lemma count_mode_quiet: "quiet s (count_mode_cycles s)"
  by (rule quiet_same) (simp_all add: count_mode_cycles_def Let_def)

lemma mark_completed_flag [simp]:
  "has_flag f (mark_completed q i) = has_flag f i" "diTid (mark_completed q i) = diTid i"
  "has_status Committed (mark_completed q i) = has_status Committed i"
  by (simp_all add: mark_completed_def)

lemma markCompleted_calm: "calm s (markCompletedInsts J s)"
proof -
  have "calm s (fold (\<lambda>q s. s\<lparr>csRob := (csRob s)\<lparr>instList := (\<lambda>t. map (mark_completed q) (instList (csRob s) t))\<rparr>,
                   csFront := map (mark_completed q) (csFront s)\<rparr>) qs s)" for qs
  proof (induction qs arbitrary: s)
    case (Cons q qs)
    have "calm s (s\<lparr>csRob := (csRob s)\<lparr>instList := (\<lambda>t. map (mark_completed q) (instList (csRob s) t))\<rparr>,
                   csFront := map (mark_completed q) (csFront s)\<rparr>)"
      by (simp add: calm_def arch_view_def all_flagged_def)
    then show ?case using Cons.IH by (auto intro: calm_trans)
  qed simp
  then show ?thesis by (simp add: markCompletedInsts_def)
qed

lemma set_exit_quiet [simp]: "quiet s (set_exit c t s)"
  by (rule quiet_same) (simp_all add: set_exit_def count_cause_def)

lemma min_work_quiet: "quiet s (check_min_work C t s)"
  by (simp add: check_min_work_def)

lemma nllb_quiet: "check_nllb C t s = Inr s' \<Longrightarrow> quiet s s'"
  by (auto simp: check_nllb_def Let_def split_res intro: quiet_trans[OF set_exit_quiet set_exit_quiet]
      split: if_splits option.splits)

lemma overhead_quiet: "quiet s (track_overhead J t s)"
  by (rule quiet_same) (simp_all add: track_overhead_def Let_def split: option.splits)

text \<open>The end of a cycle without a restore, and with one.\<close>

lemma end_of_cycle_quiet:
  assumes "updateRunaheadState C J t s = Inr s'" "\<not> csArchRestorePrev s t"
  shows "quiet s s'"
proof -
  let ?s = "s\<lparr>csWasRunahead := (csWasRunahead s)(t := csInRunahead s t)\<rparr>"
  obtain u where u: "check_nllb C t (check_min_work C t ?s) = Inr u" "s' = track_overhead J t u"
    using assms by (auto simp: updateRunaheadState_def do_arch_restore_def split_res)
  have "quiet s ?s" by (rule quiet_same) simp_all
  with min_work_quiet[of ?s C t] nllb_quiet[OF u(1)] overhead_quiet[of u J t] u(2)
  show ?thesis by (blast intro: quiet_trans)
qed

lemma end_of_cycle_restores:
  assumes "updateRunaheadState C J t s = Inr s'" "csArchRestorePrev s t"
  shows "\<exists>a. restoreCheckpointState (ccIsa C) (rob_archRestoreSanityCheck (csRob s) t) t (csArch s) = Inr a
     \<and> csArch s' = a \<and> csTraps s' = csTraps s \<and> csNumInst s' = csNumInst s"
proof -
  let ?s = "s\<lparr>csWasRunahead := (csWasRunahead s)(t := csInRunahead s t)\<rparr>"
  obtain a u where u: "restoreCheckpointState (ccIsa C) (rob_archRestoreSanityCheck (csRob s) t) t (csArch s) = Inr a"
    "check_nllb C t (check_min_work C t (?s\<lparr>csArch := a\<rparr>)) = Inr u" "s' = track_overhead J t u"
    using assms by (auto simp: updateRunaheadState_def do_arch_restore_def split_res)
  let ?same = "\<lambda>v w :: commit_state. csArch w = csArch v \<and> csTraps w = csTraps v \<and> csNumInst w = csNumInst v"
  have "?same v (check_min_work C t v)" for v
    by (simp add: check_min_work_def set_exit_def count_cause_def)
  moreover have "?same v u" if "check_nllb C t v = Inr u" for v
    using that by (auto simp: check_nllb_def Let_def split_res set_exit_def count_cause_def
        split: if_splits option.splits)
  moreover have "?same u (track_overhead J t u)"
    by (simp add: track_overhead_def Let_def split: option.splits)
  ultimately show ?thesis using u by simp
qed

text \<open>Rename hands over instructions that are still in flight.\<close>

definition rename_ok :: "tick_in \<Rightarrow> commit_state \<Rightarrow> bool" where
  "rename_ok J s \<longleftrightarrow> (\<forall>i \<in> set (csFront s). diSeq i \<in> set (tiFromRename J) \<longrightarrow> \<not> has_status Committed i)"

lemma insert_lists:
  "rob_insertInst i r = Inr r' \<Longrightarrow> instList r' = (instList r)(diTid i := instList r (diTid i) @ [set_status RobEntry i])"
  by (auto simp: rob_insertInst_def split_res Let_def split: if_splits)

lemma getInsts_calm:
  assumes "getInsts C J s = Inr s'" "rename_ok J s"
  shows "calm s s'"
proof -
  let ?f = "\<lambda>q s. bindE (ptr (find (\<lambda>i. diSeq i = q) (csFront s))) (\<lambda>i.
       let t = diTid i in
       if \<not> has_status Squashed i \<and> csStatus s t \<noteq> ROBSquashing \<and> csStatus s t \<noteq> TrapPending then
         bindE (rob_insertInst i (csRob s)) (\<lambda>r.
         bindE (assertE (threadEntries r t \<le> maxEntries r t)) (\<lambda>_.
           Inr (s\<lparr>csChangedROB := (csChangedROB s)(t := True), csRob := r,
                  csFront := filter (\<lambda>j. diSeq j \<noteq> q) (csFront s),
                  csYoungest := (csYoungest s)(t := diSeq i)\<rparr>)))
       else Inr s)"
  have step: "calm s v \<and> rename_ok J v"
    if q: "q \<in> set (take (ccRenameWidth C) (tiFromRename J))" and inv: "calm s u \<and> rename_ok J u" and v: "?f q u = Inr v"
    for q u v
  proof (cases "v = u")
    case False
    then obtain i r where i: "find (\<lambda>i. diSeq i = q) (csFront u) = Some i" "rob_insertInst i (csRob u) = Inr r"
      "v = u\<lparr>csChangedROB := (csChangedROB u)(diTid i := True), csRob := r,
             csFront := filter (\<lambda>j. diSeq j \<noteq> q) (csFront u), csYoungest := (csYoungest u)(diTid i := diSeq i)\<rparr>"
      using v by (auto simp: split_res Let_def split: if_splits)
    have m: "i \<in> set (csFront u)" "diSeq i = q" using i(1) by (auto simp: find_Some_iff)
    have "\<not> has_status Committed i" using m inv q by (auto simp: rename_ok_def dest: in_set_takeD)
    then have "calm u v"
      using m insert_lists[OF i(2)]
      by (auto simp: i(3) calm_def arch_view_def all_flagged_def)
    moreover have "rename_ok J v" using inv by (auto simp: i(3) rename_ok_def)
    ultimately show ?thesis using inv calm_trans by blast
  qed (use inv in simp)
  have "calm s s' \<and> rename_ok J s'"
  proof (rule foldE_inv[where P = "\<lambda>u. calm s u \<and> rename_ok J u", OF assms(1)[unfolded getInsts_def]])
    show "calm s s \<and> rename_ok J s" using assms(2) by simp
  qed (rule step)
  then show ?thesis by simp
qed

section \<open>The commit loop in a period\<close>

lemma hazard_calm: "calm s s' \<Longrightarrow> runahead_hazard s \<Longrightarrow> runahead_hazard s'"
  by (auto simp: calm_def runahead_hazard_def arch_view_def)

lemma put_inst_calm [simp]: "has_flag Runahead i \<Longrightarrow> calm s (put_inst t i s)"
  by (auto simp: calm_def arch_view_def all_flagged_def put_inst_def)

lemma info_calm [simp]: "calm s (upd_info t f s)"
  by (rule quiet_calm) simp

lemma event_calm [simp]: "calm s (schedule_event d e s)"
  by (rule calm_same) (simp_all add: schedule_event_def)

lemma exit_calm [simp]: "calm s (set_exit c t s)"
  by (rule quiet_calm) simp

lemma interrupt_calm:
  assumes "commit_interrupt C ot s = Inr s'" "runahead_hazard s"
  shows "calm s s'"
proof -
  let ?a = "(upd_info 0 (\<lambda>c. c\<lparr>ciClearInterrupt := True\<rparr>) (s\<lparr>csIntCtl := ccIntClear C (csIntCtl s)\<rparr>))
               \<lparr>csInterrupt := None, csAvoidLiveLock := True\<rparr>"
  let ?b = "(upd_info 0 (\<lambda>c. c\<lparr>ciClearInterrupt := True\<rparr>) s)\<lparr>csInterrupt := None, csAvoidLiveLock := True\<rparr>"
  have "commit_interrupt C ot s = Inr s \<or> commit_interrupt C ot s = Inr ?a \<or> commit_interrupt C ot s = Inr ?b"
    using assms(2) by (simp add: commit_interrupt_def handleInterrupt_def)
  moreover have "calm s ?a" "calm s ?b" by (rule calm_same, simp_all add: upd_info_def)+
  ultimately show ?thesis using assms(1) by auto
qed

lemma setPoisoned_flag: "setPoisoned i = Inr j \<Longrightarrow> has_flag Runahead i \<and> j = set_flag Poisoned i"
  by (auto simp: setPoisoned_def split_res)

lemma setForged_flag: "setForgedResponse i = Inr j \<Longrightarrow> j = set_flag ForgedResponse i"
  by (auto simp: setForgedResponse_def split_res)

lemma handleLLL_result:
  assumes "handleRunaheadLLL t i s = Inr s'"
  shows "has_prop IsLoad i \<and> has_flag ReqMade i \<and> has_flag Runahead i \<and> diSavedReq i \<noteq> None
    \<and> s' = put_inst t (set_flag ForgedResponse (set_status Executed (set_flag Poisoned i)))
             (schedule_event 0 (ForgedWriteback (diSeq i))
                (put_inst t (set_status Executed (set_flag Poisoned i)) s))"
  using assms
  by (auto simp: handleRunaheadLLL_def forgeResponse_def split_res Let_def set_status_def set_flag_def
      dest!: setPoisoned_flag setForged_flag)

lemma handleLLL_calm:
  assumes "handleRunaheadLLL t i s = Inr s'"
  shows "calm s s'"
proof -
  note R = handleLLL_result[OF assms]
  let ?i = "set_status Executed (set_flag Poisoned i)"
  have f: "has_flag Runahead ?i" "has_flag Runahead (set_flag ForgedResponse ?i)" using R by simp_all
  have "calm s (put_inst t ?i s)" by (rule put_inst_calm[OF f(1)])
  also have "calm \<dots> (schedule_event 0 (ForgedWriteback (diSeq i)) (put_inst t ?i s))" by (rule event_calm)
  also have "calm \<dots> s'" using R put_inst_calm[OF f(2)] by simp
  finally show ?thesis .
qed

lemma unready_calm:
  assumes "inspect_unready_head C J 0 i s = Inr s'" "has_flag Runahead i" "rob_readHeadInst (csRob s) 0 = Inr (Some i)"
  shows "calm s s'"
proof -
  have "enterRunahead C 0 s = Inl AssertFail"
    using assms(2,3) by (simp add: enterRunahead_def)
  then have "s' = s \<or> (\<exists>u. handleRunaheadLLL 0 i s = Inr u \<and> s' = u\<lparr>csNumLLLs := csNumLLLs u + 1\<rparr>)"
    using assms(1) by (auto simp: inspect_unready_head_def split_res split: if_splits)
  moreover have "calm u (u\<lparr>csNumLLLs := csNumLLLs u + 1\<rparr>)" for u by (rule calm_same) simp_all
  ultimately show ?thesis using handleLLL_calm calm_trans by (metis calm_refl)
qed

lemma unexecuted_calm:
  assumes "commit_unexecuted J t i n s = Inr s'" "has_flag Runahead i"
  shows "calm s s'"
proof -
  let ?u = "put_inst t (reset_status CanCommit i) (upd_info t (\<lambda>c. c\<lparr>ciNonSpecSeq := diSeq i\<rparr>) s)"
  have "s' = s \<or> s' = ?u \<or> s' = upd_info t (\<lambda>c. c\<lparr>ciStrictlyOrdered := True, ciStrictLoad := Some (diSeq i)\<rparr>) ?u"
    using assms(1) by (auto simp: commit_unexecuted_def split_res Let_def split: if_splits)
  moreover have "calm s ?u" using assms(2) by (intro calm_trans[OF info_calm put_inst_calm]) simp
  ultimately show ?thesis using calm_trans[OF _ info_calm] by (metis calm_refl)
qed

lemma assertE_value: "bindE (assertE p) (\<lambda>_. Inr x) = Inr y \<Longrightarrow> x = y"
  by (simp add: bindE_ok)

lemma fault_calm:
  assumes "commit_fault C J t i f n s = Inr s'" "has_flag Runahead i"
  shows "calm s s'"
proof -
  let ?j = "set_flag Poisoned (set_status Completed i)"
  let ?u = "put_inst t ?j (put_inst t (set_status Completed i) s)"
  have p: "setPoisoned (set_status Completed i) = Inr ?j"
    using assms(2) by (simp add: setPoisoned_def)
  let ?v = "set_exit CauseFetchFault t (?u\<lparr>csCause := (csCause ?u)(t := csCpuCause ?u t)\<rparr>)"
  have "commit_fault C J t i f n s = bindE (assertE (\<not> csNoSquashTC (put_inst t (set_status Completed i) s) t))
     (\<lambda>_. Inr (if has_flag NotAnInst ?j then ?v else ?u))"
    using assms(2) by (simp add: commit_fault_def Let_def p)
  then have "(if has_flag NotAnInst ?j then ?v else ?u) = s'"
    by (rule assertE_value[OF trans[OF sym assms(1)]])
  then have r: "s' = ?u \<or> s' = ?v" by (cases "has_flag NotAnInst ?j") (simp_all only: if_True if_False simp_thms)
  have c: "calm s ?u" using assms(2) by (intro calm_trans[OF put_inst_calm put_inst_calm]) simp_all
  have "calm ?u (?u\<lparr>csCause := (csCause ?u)(t := csCpuCause ?u t)\<rparr>)" by (rule calm_same) simp_all
  then have "calm s ?v" by (rule calm_trans[OF calm_trans[OF c] exit_calm])
  with c r show ?thesis by (elim disjE) (simp_all only:)
qed

lemma stats_calm: "has_flag Runahead i \<Longrightarrow> calm s (updateComInstStats t i s)"
  by (rule calm_same) (simp_all add: updateComInstStats_def instDone_def Let_def)

lemma dests_same: "commit_dests C t i s = Inr s' \<Longrightarrow> has_flag Runahead i \<Longrightarrow> s' = s"
  by (auto simp: commit_dests_def Let_def split_res split: if_splits)

lemma updateHead_lists [simp]: "instList (rob_updateHead active r) = instList r"
  by (simp add: rob_updateHead_def split: option.splits)

lemma retire_calm: "retire_head t s = Inr s' \<Longrightarrow> calm s s'"
  by (auto simp: retire_head_def rob_retireHead_def split_res calm_def arch_view_def
      all_flagged_def split: list.splits if_splits)

lemma commitHead_calm:
  assumes "commitHead C J t i n s = Inr (b, s')" "has_flag Runahead i"
  shows "calm s s'"
proof (cases "has_status Executed i")
  case False
  then show ?thesis using assms unexecuted_calm by (auto simp: commitHead_def split_res)
next
  case exe: True
  show ?thesis
  proof (cases "diFault i")
    case (Some g)
    then obtain h where "commit_fault C J t i h n (put_inst t i s) = Inr s'"
      using assms exe by (auto simp: commitHead_def split_res Let_def split: if_splits)
    with assms(2) show ?thesis using fault_calm put_inst_calm calm_trans by blast
  next
    case None
    then have b: "b" using assms exe by (auto simp: commitHead_def split_res Let_def)
    have ok: "commitHead C J t i n s = Inr (True, s')" using assms(1) b by simp
    obtain j u v where j0: "j = (if has_prop IsStore i then i else set_status Completed i)"
      and j: "commit_dests C t j (updateComInstStats t j (put_inst t j s)) = Inr u" "retire_head t u = Inr v"
      "s' = v \<or> s' = v\<lparr>csCommittedStores := (csCommittedStores v)(t := True)\<rparr>"
      using commitHead_success[OF ok] by metis
    have jf: "has_flag Runahead j" using j0 assms(2) by simp
    note j = jf j
    have "calm s u" unfolding dests_same[OF j(2,1)]
      by (rule calm_trans[OF put_inst_calm[OF j(1)] stats_calm[OF j(1)]])
    also note retire_calm[OF j(3)]
    also have "calm v s'"
    proof -
      have "calm v (v\<lparr>csCommittedStores := (csCommittedStores v)(t := True)\<rparr>)" by (rule calm_same) simp_all
      then show ?thesis using j(4) by auto
    qed
    finally show ?thesis .
  qed
qed

lemma squashAfter_calm: "squashAfter t i s = Inr s' \<Longrightarrow> calm s s'"
proof -
  assume "squashAfter t i s = Inr s'"
  then have "s' = s\<lparr>csStatus := (csStatus s)(t := SquashAfterPending),
      csSquashAfterInst := (csSquashAfterInst s)(t := Some (diSeq i))\<rparr>"
    by (auto simp: squashAfter_def split_res)
  then show ?thesis by (auto intro: calm_same)
qed

lemma calm_bind:
  "bindE m f = Inr s' \<Longrightarrow> (\<And>u. m = Inr u \<Longrightarrow> calm s u) \<Longrightarrow> (\<And>u. f u = Inr s' \<Longrightarrow> calm u s') \<Longrightarrow> calm s s'"
  by (auto simp: bindE_ok intro: calm_trans)

lemma track_calm: "calm s (track_commit i s)"
  by (rule calm_same) (simp_all add: track_commit_def Let_def)

lemma htm_calm: "commit_htm t i s = Inr s' \<Longrightarrow> calm s s'"
proof -
  let ?a = "\<lambda>s. if has_prop IsHtmStart i then s\<lparr>csHtmStarts := (csHtmStarts s)(t := csHtmStarts s t + 1)\<rparr> else s"
  let ?b = "\<lambda>s. if has_prop IsHtmStop i then s\<lparr>csHtmStops := (csHtmStops s)(t := csHtmStops s t + 1)\<rparr> else s"
  assume "commit_htm t i s = Inr s'"
  then have "bindE (assertE (has_flag HtmFromTransaction i \<longleftrightarrow> executingHtmTransaction (Some t) (?a s)))
      (\<lambda>_. Inr (?b (?a s))) = Inr s'"
    by (simp add: commit_htm_def Let_def)
  then have "?b (?a s) = s'" by (rule assertE_value)
  moreover have "calm u (?a u)" for u by (rule calm_same) simp_all
  moreover have "calm u (?b u)" for u by (rule calm_same) simp_all
  ultimately show ?thesis using calm_trans by blast
qed

lemma boundary_calm: "commit_boundary C t i s = Inr (b, s') \<Longrightarrow> calm s s'"
proof -
  assume a: "commit_boundary C t i s = Inr (b, s')"
  have "calm s (s\<lparr>csPC := (csPC s)(t := p)\<rparr>)" for p by (rule calm_same) simp_all
  with a show ?thesis
    by (auto simp: commit_boundary_def split_res Let_def squashAfter_calm split: if_splits option.splits)
qed

lemma record_calm: "calm s (record_commit C t i tail s)"
  by (rule calm_same) (simp_all add: record_commit_def upd_info_def Let_def)

lemma drains_calm: "commit_drains t i s = Inr s' \<Longrightarrow> calm s s'"
proof -
  assume a: "commit_drains t i s = Inr s'"
  have "calm u (u\<lparr>csDrainImminent := True\<rparr>)" for u by (rule calm_same) simp_all
  with a show ?thesis
    by (auto simp: commit_drains_def split_res dest!: squashAfter_calm intro: calm_trans split: if_splits)
qed

lemma after_commit_calm:
  assumes "after_commit C t i s = Inr (b, s')"
  shows "calm s s'"
proof -
  obtain u tail v w where u: "commit_htm t i (track_commit i s) = Inr u"
    "(if has_prop IsSquashAfter i
      then squashAfter t i (record_commit C t i tail (u\<lparr>csChangedROB := (csChangedROB u)(t := True)\<rparr>))
      else Inr (record_commit C t i tail (u\<lparr>csChangedROB := (csChangedROB u)(t := True)\<rparr>))) = Inr v"
    "commit_drains t i v = Inr w" "commit_boundary C t i w = Inr (b, s')"
    using after_commit_steps[OF assms] .
  let ?u = "u\<lparr>csChangedROB := (csChangedROB u)(t := True)\<rparr>"
  have "calm s u" using track_calm htm_calm[OF u(1)] by (rule calm_trans)
  also have "calm u ?u" by (rule calm_same) simp_all
  also have "calm ?u (record_commit C t i tail ?u)" by (rule record_calm)
  also have "calm \<dots> v" using u(2) squashAfter_calm by (auto split: if_splits)
  also note drains_calm[OF u(3)]
  also note boundary_calm[OF u(4)]
  finally show ?thesis .
qed

lemma ready_head_calm:
  assumes "commit_ready_head C J t i n s = Inr (b, m, s')" "has_flag Runahead i"
  shows "calm s s'"
proof (cases "has_status Squashed i")
  case True
  then obtain u where u: "retire_head t s = Inr u" "s' = u\<lparr>csChangedROB := (csChangedROB u)(t := True)\<rparr>"
    using assms(1) by (auto simp: commit_ready_head_def bindE_ok)
  have "calm u s'" unfolding u(2) by (rule calm_same) simp_all
  with retire_calm[OF u(1)] show ?thesis by (rule calm_trans)
next
  case False
  let ?s = "s\<lparr>csPC := (csPC s)(t := diPC i)\<rparr>"
  obtain ok u where u: "commitHead C J t i n ?s = Inr (ok, u)"
    "u = s' \<or> after_commit C t i u = Inr (b, s')"
    using assms(1) False by (auto simp: commit_ready_head_def bindE_ok split: if_splits)
  have "calm s ?s" by (rule calm_same) simp_all
  also note commitHead_calm[OF u(1) assms(2)]
  also have "calm u s'" using u(2) after_commit_calm by auto
  finally show ?thesis .
qed

lemma single_thread:
  "getCommittingThread C s = Inr (ot, s') \<Longrightarrow> ccThreads C \<le> 1 \<Longrightarrow> csActive s = [0] \<Longrightarrow>
     s' = s \<and> (ot = None \<or> ot = Some 0 \<and> can_commit_now s 0)"
  by (auto simp: getCommittingThread_def split: if_splits)

lemma head_in_list: "rob_readHeadInst r t = Inr (Some i) \<Longrightarrow> i \<in> set (instList r t)"
  by (auto simp: rob_readHeadInst_def split_res split: if_splits list.splits)

lemma active_calm: "calm s s' \<Longrightarrow> csActive s' = csActive s"
  by (simp add: calm_def arch_view_def)

lemma flagged_calm: "calm s s' \<Longrightarrow> all_flagged s \<Longrightarrow> all_flagged s'"
  by (simp add: calm_def)

lemma round_calm:
  assumes "commit_round C J n s = Inr (b, m, s')" "ccThreads C \<le> 1" "csActive s = [0]"
    "runahead_hazard s" "all_flagged s"
  shows "calm s s'"
  using assms(1)
proof (cases rule: round_cases)
  case (stop ot v)
  then show ?thesis using single_thread[OF stop(1) assms(2,3)] interrupt_calm[OF _ assms(4)] by blast
next
  case (unready t v u i)
  have t: "v = s" "t = 0" using single_thread[OF unready(1) assms(2,3)] by auto
  have c: "calm s u" using interrupt_calm[OF _ assms(4)] unready(2) t(1) by blast
  have "has_flag Runahead i"
    using head_in_list[OF unready(3)] flagged_calm[OF c assms(5)] t(2) by (simp add: all_flagged_def)
  then show ?thesis using c unready_calm[of C J i u s'] unready(3,6) t(2) calm_trans by blast
next
  case (ready t v u i)
  have t: "v = s" "t = 0" using single_thread[OF ready(1) assms(2,3)] by auto
  have c: "calm s u" using interrupt_calm[OF _ assms(4)] ready(2) t(1) by blast
  have "has_flag Runahead i"
    using head_in_list[OF ready(3)] flagged_calm[OF c assms(5)] t(2) by (simp add: all_flagged_def)
  then show ?thesis using c ready_head_calm[OF ready(6)] calm_trans by blast
qed

lemma loop_calm:
  assumes "commit_loop C J n s = Inr s'" "ccThreads C \<le> 1" "csActive s = [0]" "runahead_hazard s" "all_flagged s"
  shows "calm s s'"
  using assms
proof (induction C J n s rule: commit_loop.induct)
  case (1 C J n s)
  show ?case
  proof (cases "n < ccCommitWidth C")
    case True
    then obtain b m u where u: "commit_round C J n s = Inr (b, m, u)"
      "if b then commit_loop C J m u = Inr s' else s' = u"
      using 1(2) by (subst (asm) commit_loop.simps) (auto simp: bindE_ok split: if_splits)
    have c: "calm s u" by (rule round_calm[OF u(1) 1(3-6)])
    have "calm u s'"
    proof (cases b)
      case True
      have "csActive u = [0]" "runahead_hazard u" "all_flagged u"
        using active_calm[OF c] hazard_calm[OF c] flagged_calm[OF c] 1(4-6) by simp_all
      then show ?thesis
        using 1(1)[OF \<open>n < ccCommitWidth C\<close> u(1)] u(2) True 1(3) by simp
    qed (use u in simp)
    with c show ?thesis by (rule calm_trans)
  next
    case False
    then show ?thesis using 1(2) by (simp add: commit_loop.simps)
  qed
qed

section \<open>A cycle of a period\<close>

lemma exits_calm: "exits t s u \<Longrightarrow> calm u v \<Longrightarrow> exits t s v \<or> csFront v \<noteq> csFront u"
  by (auto simp: exits_def calm_def)

text \<open>What a cycle of a period that does not restore amounts to.\<close>

definition period_effect :: "commit_state \<Rightarrow> commit_state \<Rightarrow> bool" where
  "period_effect s s' \<longleftrightarrow> arch_view s' = arch_view s \<and> (all_flagged s \<longrightarrow> all_flagged s')
     \<and> (if exit_turn 0 s then csInRunahead s' = (csInRunahead s)(0 := False)
                             \<and> csArchRestore s' = (csArchRestore s)(0 := True) \<and> left 0 s'
        else csInRunahead s' = csInRunahead s \<and> csArchRestore s' = csArchRestore s)"

lemma period_hazard: "period_effect s s' \<Longrightarrow> runahead_hazard s \<Longrightarrow> runahead_hazard s'"
  by (auto simp: period_effect_def runahead_hazard_def arch_view_def split: if_splits)

lemma propagate_hazard: "runahead_hazard s \<Longrightarrow> propagateInterrupt C s = s"
  by (auto simp: propagateInterrupt_def runahead_hazard_def)

lemma left_same:
  assumes "csExit s' = csExit s" "csExitable s' = csExitable s" "csStatus s' = csStatus s" "csPC s' = csPC s"
    "csStoredPC s' = csStoredPC s" "csTrapInFlight s' = csTrapInFlight s" "csTrapPending s' = csTrapPending s"
  shows "left t s' = left t s"
  using assms by (simp add: left_def)

lemma report_left [simp]: "left u (report_rob J t s) = left u s"
  by (rule left_same) (simp_all add: report_rob_def Let_def upd_info_def)

lemma fold_left: "(\<And>x v. left u (f x v) = left u v) \<Longrightarrow> left u (fold f xs s) = left u s"
  by (induction xs arbitrary: s) simp_all

lemma mark_left [simp]: "left u (markCompletedInsts J s) = left u s"
  unfolding markCompletedInsts_def by (rule fold_left) (rule left_same, simp_all)

lemma check_head_left: "check_head t s = Inr s' \<Longrightarrow> left u s' = left u s"
proof -
  assume "check_head t s = Inr s'"
  then have "s' = s \<or> s' = s\<lparr>csNextActive := True\<rparr>"
    by (auto simp: check_head_def split_res split: if_splits)
  moreover have "left u (s\<lparr>csNextActive := True\<rparr>) = left u s" by (rule left_same) simp_all
  ultimately show ?thesis by auto
qed

lemma updateStatus_left [simp]: "left u (updateStatus s) = left u s"
  by (rule left_same) (simp_all add: updateStatus_def Let_def)

lemma overhead_left [simp]: "left u (track_overhead J t s) = left u s"
  by (rule left_same) (simp_all add: track_overhead_def Let_def split: option.splits)

lemma end_of_cycle_left:
  assumes "updateRunaheadState C J t s = Inr s'" "left t s"
  shows "left t s'"
proof -
  let ?s = "s\<lparr>csWasRunahead := (csWasRunahead s)(t := csInRunahead s t)\<rparr>"
  obtain v u where u: "do_arch_restore C t ?s = Inr v" "check_nllb C t (check_min_work C t v) = Inr u"
    "s' = track_overhead J t u"
    using assms by (auto simp: updateRunaheadState_def split_res)
  have "v = ?s \<or> (\<exists>a. v = ?s\<lparr>csArch := a\<rparr>)"
    using u(1) by (auto simp: do_arch_restore_def split_res split: if_splits)
  moreover have "left t ?s = left t s" "left t (?s\<lparr>csArch := a\<rparr>) = left t s" for a
    by (rule left_same, simp_all)+
  ultimately have v: "left t v" using assms(2) by auto
  then have "u = v" using u(2) by (simp add: check_min_work_def check_nllb_def left_def)
  then show ?thesis using u(3) v by simp
qed

lemma propagate_quiet: "quiet s (propagateInterrupt C s)"
  by (rule quiet_same) (simp_all add: propagateInterrupt_def Let_def upd_info_def)

text \<open>The parts of \<open>commit\<close> when thread 0 is the active one.\<close>

definition propagated :: "commit_cfg \<Rightarrow> commit_state \<Rightarrow> commit_state" where
  "propagated C s = (if ccFullSystem C \<and> ccIntCheck C (csIntCtl s) then propagateInterrupt C s else s)"

definition noted :: "commit_state \<Rightarrow> commit_state" where
  "noted u = (if squashing_threads u \<noteq> 0 then u\<lparr>csNextActive := True\<rparr> else u)"

lemma noted_quiet: "quiet u (noted u)"
  by (simp add: noted_def quiet_same)

lemma commit_split:
  assumes "commit C J s = Inr s'" "csActive s = [0]"
  obtains u w where "squash_thread C J 0 (propagated C s) = Inr u"
    "(if squashing_threads (noted u) \<noteq> ccThreads C
      then bindE (getInsts C J (noted u)) (commitInsts C J) else Inr (noted u)) = Inr w"
    "s' = fold (report_rob J) (csActive w) w"
proof -
  let ?w = "\<lambda>v. if squashing_threads v \<noteq> ccThreads C
      then bindE (getInsts C J v) (commitInsts C J) else Inr v"
  have act: "csActive (propagated C s) = [0]"
    using assms(2) by (simp add: propagated_def propagateInterrupt_def Let_def upd_info_def)
  have eq: "commit C J s = bindE (squash_thread C J 0 (propagated C s)) (\<lambda>u. bindE (?w (noted u)) (\<lambda>w.
      Inr (fold (report_rob J) (csActive w) w)))"
    unfolding commit_def Let_def propagated_def[symmetric] act noted_def by (simp add: bindE_assoc)
  obtain u where u: "squash_thread C J 0 (propagated C s) = Inr u"
    and e: "bindE (?w (noted u)) (\<lambda>w. Inr (fold (report_rob J) (csActive w) w)) = Inr s'"
    by (rule bindE_elim[OF assms(1)[unfolded eq]])
  obtain w where w: "?w (noted u) = Inr w" "Inr (fold (report_rob J) (csActive w) w) = (Inr s' :: commit_state res)"
    by (rule bindE_elim[OF e])
  show ?thesis by (rule that[OF u w(1)]) (use w(2) in simp)
qed

lemma commit_period:
  assumes "commit C J s = Inr s'" "ccThreads C = 1" "csActive s = [0]" "runahead_hazard s"
    "all_flagged s" "rename_ok J s"
  shows "period_effect s s'"
proof -
  have p: "propagated C s = s"
    using propagate_hazard[OF assms(4)] by (simp add: propagated_def)
  obtain u w where u: "squash_thread C J 0 s = Inr u"
    "(if squashing_threads (noted u) \<noteq> ccThreads C
      then bindE (getInsts C J (noted u)) (commitInsts C J) else Inr (noted u)) = Inr w"
    "s' = fold (report_rob J) (csActive w) w"
    by (rule commit_split[OF assms(1,3), unfolded p])
  let ?n = noted
  have n: "quiet u (?n u)" by (rule noted_quiet)
  have r: "quiet w s'" unfolding u(3) by (rule fold_quiet) (rule report_rob_quiet)
  note sq = squash_thread_quiet[OF u(1)]
  show ?thesis
  proof (cases "exit_turn 0 s")
    case True
    then have e: "exits 0 s u" "left 0 u" using sq by auto
    have "csActive u = [0]" using e(1) assms(3) by (simp add: exits_def arch_view_def)
    then have "squashing_threads (?n u) = 1"
      using e(2) by (simp add: noted_def squashing_threads_def left_def)
    then have w: "w = ?n u" using u(2) assms(2) by simp
    have "left 0 (?n u)" using e(2) left_same[of "u\<lparr>csNextActive := True\<rparr>" u 0] by (simp add: noted_def)
    moreover have "left 0 s' = left 0 w" unfolding u(3) by (rule fold_left) simp
    ultimately have "left 0 s'" using w by simp
    moreover have "exits 0 s s'" using exits_quiet[OF exits_quiet[OF e(1) n]] r w by simp
    ultimately show ?thesis using True by (simp add: period_effect_def exits_def)
  next
    case False
    then have qu: "quiet s u" using sq by simp
    have q: "quiet s (?n u)" by (rule quiet_trans[OF qu n])
    have c: "calm s (?n u)" by (rule quiet_calm[OF q])
    have ok: "rename_ok J (?n u)" using q assms(6) by (simp add: rename_ok_def quiet_def)
    have "calm (?n u) w"
    proof (cases "squashing_threads (?n u) \<noteq> ccThreads C")
      case True
      then obtain v where v: "getInsts C J (?n u) = Inr v" "commit_loop C J 0 v = Inr w"
        using u(2) by (auto simp: bindE_ok commitInsts_def)
      have g: "calm (?n u) v" by (rule getInsts_calm[OF v(1) ok])
      then have "calm s v" using c calm_trans by blast
      then have "csActive v = [0]" "runahead_hazard v" "all_flagged v"
        using active_calm[of s v] hazard_calm[of s v] flagged_calm[of s v] assms(3-5) by simp_all
      then have "calm v w" using loop_calm[OF v(2)] assms(2) by simp
      with g show ?thesis by (rule calm_trans)
    qed (use u(2) in simp)
    then have "calm s s'" using c quiet_calm[OF r] calm_trans by blast
    then show ?thesis using False by (simp add: period_effect_def calm_def)
  qed
qed

lemma continue_exit_turn: "continue_squash C t s = Inr s' \<Longrightarrow> exit_turn u s' = exit_turn u s"
proof -
  assume a: "continue_squash C t s = Inr s'"
  have same: "exit_turn u v = exit_turn u s"
    if "csTrapSquash v = csTrapSquash s" "csTcSquash v = csTcSquash s" "csExit v = csExit s"
      "csStatus v = csStatus s \<or> csStatus v = (csStatus s)(t := CommitRunning) \<and> csStatus s t = ROBSquashing" for v
    using that by (auto simp: exit_turn_def split: if_splits)
  show ?thesis
  proof (rule same)
    have "csTrapSquash s' = csTrapSquash s \<and> csTcSquash s' = csTcSquash s \<and> csExit s' = csExit s
      \<and> (csStatus s' = csStatus s \<or> csStatus s' = (csStatus s)(t := CommitRunning) \<and> csStatus s t = ROBSquashing)"
      using a by (auto simp: continue_squash_def cs_rob_step_def upd_info_def Let_def split_res split: if_splits)
    then show "csTrapSquash s' = csTrapSquash s" "csTcSquash s' = csTcSquash s" "csExit s' = csExit s"
      "csStatus s' = csStatus s \<or> csStatus s' = (csStatus s)(t := CommitRunning) \<and> csStatus s t = ROBSquashing"
      by blast+
  qed
qed

lemma period_quiet: "quiet s u \<Longrightarrow> exit_turn 0 u = exit_turn 0 s \<Longrightarrow> period_effect u v \<Longrightarrow> period_effect s v"
  by (auto simp: period_effect_def quiet_def calm_def)

lemma period_then:
  assumes "period_effect s u" "calm u v" "left 0 u \<Longrightarrow> left 0 v"
  shows "period_effect s v"
  using assms by (auto simp: period_effect_def calm_def split: if_splits)

text \<open>The parts of a cycle when thread 0 is the active one.\<close>

lemma tick_parts:
  assumes "commit_tick C J s = Inr s'" "csActive s = [0]"
  obtains s2 s3 s5 s6 where "quiet s s2" "exit_turn 0 s2 = exit_turn 0 s" "commit C J s2 = Inr s3"
    "foldE check_head (csActive (markCompletedInsts J s3)) (markCompletedInsts J s3) = Inr s5"
    "foldE (updateRunaheadState C J) (csActive s5) s5 = Inr s6" "s' = updateStatus s6"
    "continue_squash C 0 (count_mode_cycles (s\<lparr>csWroteTB := False, csNextActive := False\<rparr>)) = Inr s2"
proof -
  let ?s1 = "s\<lparr>csWroteTB := False, csNextActive := False\<rparr>"
  let ?k2 = "\<lambda>s. bindE (foldE (updateRunaheadState C J) (csActive s) s) (\<lambda>s. Inr (updateStatus s))"
  let ?k1 = "\<lambda>s. bindE (foldE check_head (csActive (markCompletedInsts J s)) (markCompletedInsts J s)) ?k2"
  have "csActive ?s1 = [0]" "csActive (count_mode_cycles ?s1) = [0]"
    using assms(2) by (simp_all add: count_mode_cycles_def Let_def)
  then have eq: "commit_tick C J s = bindE (bindE (continue_squash C 0 (count_mode_cycles ?s1)) (foldE (continue_squash C) []))
      (\<lambda>s. bindE (commit C J s) ?k1)"
    by (simp add: commit_tick_def Let_def)
  obtain s2 where s2: "bindE (continue_squash C 0 (count_mode_cycles ?s1)) (foldE (continue_squash C) []) = Inr s2"
    and e2: "bindE (commit C J s2) ?k1 = Inr s'"
    by (rule bindE_elim[OF assms(1)[unfolded eq]])
  have c2: "continue_squash C 0 (count_mode_cycles ?s1) = Inr s2" using s2 by (auto simp: bindE_ok)
  obtain s3 where s3: "commit C J s2 = Inr s3" and e3: "?k1 s3 = Inr s'" by (rule bindE_elim[OF e2])
  let ?s4 = "markCompletedInsts J s3"
  obtain s5 where s5: "foldE check_head (csActive ?s4) ?s4 = Inr s5" and e5: "?k2 s5 = Inr s'"
    by (rule bindE_elim[OF e3])
  obtain s6 where s6: "foldE (updateRunaheadState C J) (csActive s5) s5 = Inr s6"
    and e6: "Inr (updateStatus s6) = (Inr s' :: commit_state res)" by (rule bindE_elim[OF e5])
  have "quiet s ?s1" by (rule quiet_same) simp_all
  also note count_mode_quiet
  also note continue_squash_quiet[OF c2]
  finally have q: "quiet s s2" .
  have et: "exit_turn 0 s2 = exit_turn 0 s"
    using continue_exit_turn[OF c2, of 0] by (simp add: exit_turn_def count_mode_cycles_def Let_def)
  show ?thesis by (rule that[OF q et s3 s5 s6 _ c2]) (use e6 in simp)
qed

lemma tick_split:
  assumes "commit_tick C J s = Inr s'" "csActive s = [0]"
  obtains s2 s3 s5 s6 where "quiet s s2" "exit_turn 0 s2 = exit_turn 0 s" "commit C J s2 = Inr s3"
    "foldE check_head (csActive (markCompletedInsts J s3)) (markCompletedInsts J s3) = Inr s5"
    "foldE (updateRunaheadState C J) (csActive s5) s5 = Inr s6" "s' = updateStatus s6"
  by (rule tick_parts[OF assms]) (rule that)

lemma tick_period:
  assumes "commit_tick C J s = Inr s'" "ccThreads C = 1" "csActive s = [0]" "runahead_hazard s"
    "all_flagged s" "rename_ok J s"
  obtains u v where "period_effect s u" "updateRunaheadState C J 0 u = Inr v" "s' = updateStatus v"
proof -
  obtain s2 s3 s5 s6 where q: "quiet s s2" and et: "exit_turn 0 s2 = exit_turn 0 s" and s3: "commit C J s2 = Inr s3"
    and s5: "foldE check_head (csActive (markCompletedInsts J s3)) (markCompletedInsts J s3) = Inr s5"
    and s6: "foldE (updateRunaheadState C J) (csActive s5) s5 = Inr s6" and s': "s' = updateStatus s6"
    by (rule tick_split[OF assms(1,3)])
  let ?s4 = "markCompletedInsts J s3"
  have c: "calm s s2" by (rule quiet_calm[OF q])
  have g: "csActive s2 = [0]" "runahead_hazard s2" "all_flagged s2" "rename_ok J s2"
    using active_calm[OF c] hazard_calm[OF c] flagged_calm[OF c] assms(3-6) q
    by (simp_all add: rename_ok_def quiet_def)
  have p3: "period_effect s s3" by (rule period_quiet[OF q et commit_period[OF s3 assms(2) g]])
  have p4: "period_effect s ?s4" by (rule period_then[OF p3 markCompleted_calm]) simp
  have act: "csActive ?s4 = [0]" using p4 assms(3) by (simp add: period_effect_def arch_view_def)
  have s5': "check_head 0 ?s4 = Inr s5" using s5 act by (auto simp: bindE_ok)
  have p5: "period_effect s s5"
    by (rule period_then[OF p4 quiet_calm[OF check_head_quiet[OF s5']]]) (simp add: check_head_left[OF s5'])
  have "csActive s5 = [0]" using p5 assms(3) by (simp add: period_effect_def arch_view_def)
  then have s6': "updateRunaheadState C J 0 s5 = Inr s6" using s6 by (auto simp: bindE_ok)
  show ?thesis by (rule that[OF p5 s6' s'])
qed

lemma tick_in_period:
  assumes "commit_tick C J s = Inr s'" "ccThreads C = 1" "csActive s = [0]" "runahead_hazard s"
    "all_flagged s" "rename_ok J s" "\<not> csArchRestorePrev s 0"
  shows "period_effect s s'"
proof -
  obtain u v where u: "period_effect s u" "updateRunaheadState C J 0 u = Inr v" "s' = updateStatus v"
    by (rule tick_period[OF assms(1-6)])
  have "\<not> csArchRestorePrev u 0" using u(1) assms(7) by (simp add: period_effect_def arch_view_def)
  then have q: "quiet u v" by (rule end_of_cycle_quiet[OF u(2)])
  have "period_effect s v"
    by (rule period_then[OF u(1) quiet_calm[OF q] end_of_cycle_left[OF u(2)]])
  then show ?thesis unfolding u(3) by (rule period_then[OF _ quiet_calm[OF updateStatus_quiet]]) simp
qed

end
