(* ===== verification/RunaheadEntry.thy ===== *)
theory RunaheadEntry
  imports RunaheadPeriod
begin

text \<open>
  Entering runahead: the result of \<open>enterRunahead\<close>, and that a cycle of commit which enters
  does so with its last action, after whatever it committed before.
\<close>

section \<open>The result of an entry\<close>

definition runahead_mark :: "nat \<Rightarrow> dyn_inst \<Rightarrow> dyn_inst" where
  "runahead_mark t i = (if diTid i \<noteq> t \<or> has_status Committed i then i
     else let i = set_flag Runahead i in
          if has_flag ReqMade i then i\<lparr>diSavedReq := map_option (\<lambda>r. r\<lparr>rqRunahead := True\<rparr>) (diSavedReq i)\<rparr> else i)"

definition lll_mark :: "dyn_inst \<Rightarrow> dyn_inst" where
  "lll_mark i = set_flag ForgedResponse (set_status Executed (set_flag Poisoned i))"

lemma mark_eq: "mark_runahead True t i = Inr (runahead_mark t i)"
  by (simp add: mark_runahead_def setRunahead_def runahead_mark_def Let_def)

lemma runahead_mark_simps [simp]:
  "diSeq (runahead_mark t i) = diSeq i" "diTid (runahead_mark t i) = diTid i"
  "has_status b (runahead_mark t i) = has_status b i" "has_prop p (runahead_mark t i) = has_prop p i"
  "diPC (runahead_mark t i) = diPC i"
  by (auto simp: runahead_mark_def Let_def set_flag_def has_status_def has_prop_def)

lemma runahead_mark_flag:
  "diTid i = t \<Longrightarrow> \<not> has_status Committed i \<Longrightarrow> has_flag Runahead (runahead_mark t i)"
  by (auto simp: runahead_mark_def Let_def set_flag_def has_flag_def)

lemma lll_mark_simps [simp]:
  "diSeq (lll_mark i) = diSeq i" "diTid (lll_mark i) = diTid i"
  "has_flag f (lll_mark i) \<longleftrightarrow> f = ForgedResponse \<or> f = Poisoned \<or> has_flag f i"
  "has_status b (lll_mark i) \<longleftrightarrow> b = Executed \<or> has_status b i"
  by (auto simp: lll_mark_def)

definition lll_update :: "nat \<Rightarrow> dyn_inst \<Rightarrow> commit_state \<Rightarrow> commit_state" where
  "lll_update t i s = (let s = put_inst t (lll_mark i) s in
     s\<lparr>csEvents := csEvents s @ [(csNow s, ForgedWriteback (diSeq i))]\<rparr>)"

lemma handleLLL_update:
  assumes "handleRunaheadLLL t i s = Inr s'"
  shows "s' = lll_update t i s"
proof -
  have "s' = put_inst t (lll_mark i) (schedule_event 0 (ForgedWriteback (diSeq i))
      (put_inst t (set_status Executed (set_flag Poisoned i)) s))"
    using handleLLL_result[OF assms] by (simp add: lll_mark_def)
  then show ?thesis
    by (simp add: lll_update_def put_inst_def schedule_event_def Let_def comp_def if_distrib cong: if_cong)
qed

lemma mapE_marks: "mapE (mark_runahead True t) l = Inr (map (runahead_mark t) l)"
  by (rule mapE_Inr) (rule mark_eq)

definition entered :: "nat \<Rightarrow> dyn_inst \<Rightarrow> arch_state \<Rightarrow> pc_pair list \<Rightarrow> commit_state \<Rightarrow> commit_state" where
  "entered t i a c s = (let j = runahead_mark t i in
     (lll_update t j (s\<lparr>csArch := a, csStoredPC := (csStoredPC s)(t := csPC s t),
         csInRunahead := (csInRunahead s)(t := True), csCpuCause := (csCpuCause s)(t := Some (diSeq i)),
         csFront := map (runahead_mark t) (csFront s),
         csRob := (csRob s)\<lparr>instList := (instList (csRob s))(t := map (runahead_mark t) (instList (csRob s) t))\<rparr>,
         csRCache := rc_invalidateCache (csRCache s)\<rparr>))
       \<lparr>csChain := c, csPseudoretired := (csPseudoretired s)(t := 0), csEnteredTick := csNow s\<rparr>)"

lemma head_first: "rob_readHeadInst r t = Inr (Some i) \<Longrightarrow> \<exists>l. instList r t = i # l"
  by (auto simp: rob_readHeadInst_def split_res split: if_splits list.splits)

lemma enter_result:
  assumes "enterRunahead C t s = Inr (True, s')"
  shows "\<exists>i a c. rob_readHeadInst (csRob s) t = Inr (Some i)
     \<and> has_prop IsLoad i \<and> has_flag ReqMade i \<and> \<not> has_status Squashed i \<and> \<not> has_flag Runahead i
     \<and> canEnterRunahead C t i s = Inr True \<and> diTid i = t \<and> \<not> has_status Committed i
     \<and> save_arch_state (ccIsa C) (ccMiscValid C) (ccReadMisc C) t (csArch s) = Inr a
     \<and> s' = entered t i a c s"
proof -
  let ?U = "\<lambda>i a. s\<lparr>csArch := a, csStoredPC := (csStoredPC s)(t := csPC s t),
     csInRunahead := (csInRunahead s)(t := True), csCpuCause := (csCpuCause s)(t := Some (diSeq i))\<rparr>"
  obtain i where i: "rob_readHeadInst (csRob s) t = Inr (Some i)"
    using assms by (auto simp: enterRunahead_def split_res)
  let ?K = "\<lambda>a. bindE (mark_all_runahead t (?U i a)) (\<lambda>s.
         bindE (ptr (rob_findInst (csRob (s\<lparr>csRCache := rc_invalidateCache (csRCache s)\<rparr>)) t (diSeq i))) (\<lambda>i.
         bindE (handleRunaheadLLL t i (s\<lparr>csRCache := rc_invalidateCache (csRCache s)\<rparr>)) (\<lambda>s.
         bindE (make_chain C t i s) (\<lambda>s.
           Inr (True, s\<lparr>csPseudoretired := (csPseudoretired s)(t := 0), csEnteredTick := csNow s\<rparr>)))))"
  let ?S = "save_arch_state (ccIsa C) (ccMiscValid C) (ccReadMisc C) t (csArch s)"
  have eq: "enterRunahead C t s = bindE (assertE (has_prop IsLoad i \<and> \<not> has_status Squashed i \<and> \<not> has_flag Runahead i))
     (\<lambda>_. bindE (canEnterRunahead C t i s) (\<lambda>can. if \<not> can then Inr (False, s) else bindE ?S ?K))"
    unfolding enterRunahead_def i bindE_Inr ptr_simps Let_def ..
  obtain u where g: "has_prop IsLoad i \<and> \<not> has_status Squashed i \<and> \<not> has_flag Runahead i"
    and e1: "bindE (canEnterRunahead C t i s) (\<lambda>can. if \<not> can then Inr (False, s) else bindE ?S ?K) = Inr (True, s')"
    by (rule bindE_elim[OF assms[unfolded eq]]) (simp add: assertE_ok)
  obtain can where can: "canEnterRunahead C t i s = Inr can"
    and e2: "(if \<not> can then Inr (False, s) else bindE ?S ?K) = Inr (True, s')"
    by (rule bindE_elim[OF e1])
  have ct: "can" using e2 by (cases can) simp_all
  then have e3: "bindE ?S ?K = Inr (True, s')" using e2 by simp
  obtain a where a: "?S = Inr a" and e4: "?K a = Inr (True, s')" by (rule bindE_elim[OF e3])
  let ?m = "runahead_mark t i"
  let ?V = "(?U i a)\<lparr>csFront := map (runahead_mark t) (csFront s),
      csRob := (csRob s)\<lparr>instList := (instList (csRob s))(t := map (runahead_mark t) (instList (csRob s) t))\<rparr>\<rparr>"
  let ?W = "?V\<lparr>csRCache := rc_invalidateCache (csRCache s)\<rparr>"
  have m: "mark_all_runahead t (?U i a) = Inr ?V"
    by (simp add: mark_all_runahead_def mapE_marks)
  have f: "rob_findInst (csRob ?W) t (diSeq i) = Some ?m"
    using head_first[OF i] by (auto simp: rob_findInst_def)
  have e5: "bindE (handleRunaheadLLL t ?m ?W) (\<lambda>s. bindE (make_chain C t ?m s) (\<lambda>s.
           Inr (True, s\<lparr>csPseudoretired := (csPseudoretired s)(t := 0), csEnteredTick := csNow s\<rparr>))) = Inr (True, s')"
    using e4 f by (simp add: m)
  obtain x where x: "handleRunaheadLLL t ?m ?W = Inr x"
    and e6: "bindE (make_chain C t ?m x) (\<lambda>s.
           Inr (True, s\<lparr>csPseudoretired := (csPseudoretired s)(t := 0), csEnteredTick := csNow s\<rparr>)) = Inr (True, s')"
    by (rule bindE_elim[OF e5])
  obtain y where y: "make_chain C t ?m x = Inr y"
    "s' = y\<lparr>csPseudoretired := (csPseudoretired y)(t := 0), csEnteredTick := csNow y\<rparr>"
    using e6 by (auto simp: bindE_ok)
  obtain c where c: "y = x\<lparr>csChain := c\<rparr>"
  proof (cases "ccFiltered C")
    case True
    then show ?thesis using y(1) that by (auto simp: make_chain_def bindE_ok)
  next
    case False
    then have "y = x\<lparr>csChain := csChain x\<rparr>" using y(1) by (simp add: make_chain_def)
    then show ?thesis by (rule that)
  qed
  note xl = handleLLL_update[OF x]
  have "s' = entered t i a c s"
    by (simp add: y(2) c xl entered_def lll_update_def put_inst_def Let_def)
  moreover have fl: "has_flag Runahead ?m" "has_flag ReqMade ?m" using handleLLL_result[OF x] by simp_all
  moreover have tid: "diTid i = t \<and> \<not> has_status Committed i"
    using fl(1) g by (auto simp: runahead_mark_def split: if_splits)
  moreover have "has_flag ReqMade i"
    using fl(2) by (auto simp: runahead_mark_def Let_def has_flag_def set_flag_def split: if_splits)
  moreover have "canEnterRunahead C t i s = Inr True" using can ct by simp
  ultimately show ?thesis using i g a by blast
qed

lemma entered_fields [simp]:
  "csArch (entered t i a c s) = a" "csStoredPC (entered t i a c s) = (csStoredPC s)(t := csPC s t)"
  "csInRunahead (entered t i a c s) = (csInRunahead s)(t := True)" "csPC (entered t i a c s) = csPC s"
  "csCpuCause (entered t i a c s) = (csCpuCause s)(t := Some (diSeq i))"
  "csArchRestore (entered t i a c s) = csArchRestore s" "csArchRestorePrev (entered t i a c s) = csArchRestorePrev s"
  "csActive (entered t i a c s) = csActive s" "csTraps (entered t i a c s) = csTraps s"
  "csFront (entered t i a c s) = map (runahead_mark t) (csFront s)"
  "csPseudoretired (entered t i a c s) = (csPseudoretired s)(t := 0)"
  "csRCache (entered t i a c s) = rc_invalidateCache (csRCache s)"
  "csExit (entered t i a c s) = csExit s" "csExitable (entered t i a c s) = csExitable s"
  "csChain (entered t i a c s) = c"
  "csEvents (entered t i a c s) = csEvents s @ [(csNow s, ForgedWriteback (diSeq i))]"
  by (simp_all add: entered_def lll_update_def put_inst_def Let_def)

lemma entered_list:
  "instList (csRob (entered t i a c s)) u = (if u = t then map (\<lambda>j. if diSeq j = diSeq i
      then lll_mark (runahead_mark t i) else runahead_mark t j) (instList (csRob s) t) else instList (csRob s) u)"
  by (simp add: entered_def lll_update_def put_inst_def Let_def comp_def if_distrib cong: if_cong)

text \<open>Conversely, an entry whose conditions hold succeeds (a chain buffer apart).\<close>


lemma handleLLL_succeeds:
  assumes "has_prop IsLoad i" "has_flag ReqMade i" "has_flag Runahead i" "diSavedReq i \<noteq> None"
  shows "handleRunaheadLLL t i s = Inr (lll_update t i s)"
proof -
  have "\<exists>s'. handleRunaheadLLL t i s = Inr s'"
    using assms by (auto simp: handleRunaheadLLL_def forgeResponse_def setPoisoned_def setForgedResponse_def
        Let_def set_status_def set_flag_def has_prop_def has_flag_def)
  then show ?thesis using handleLLL_update by metis
qed

lemma enter_succeeds:
  assumes "rob_readHeadInst (csRob s) t = Inr (Some i)" "has_prop IsLoad i" "has_flag ReqMade i"
    "\<not> has_status Squashed i" "\<not> has_flag Runahead i" "diTid i = t" "\<not> has_status Committed i"
    "diSavedReq i \<noteq> None" "canEnterRunahead C t i s = Inr True"
    "save_arch_state (ccIsa C) (ccMiscValid C) (ccReadMisc C) t (csArch s) = Inr a" "\<not> ccFiltered C"
  shows "enterRunahead C t s = Inr (True, entered t i a (csChain s) s)"
proof -
  let ?U = "s\<lparr>csArch := a, csStoredPC := (csStoredPC s)(t := csPC s t),
     csInRunahead := (csInRunahead s)(t := True), csCpuCause := (csCpuCause s)(t := Some (diSeq i))\<rparr>"
  let ?m = "runahead_mark t i"
  let ?V = "?U\<lparr>csFront := map (runahead_mark t) (csFront s),
      csRob := (csRob s)\<lparr>instList := (instList (csRob s))(t := map (runahead_mark t) (instList (csRob s) t))\<rparr>\<rparr>"
  let ?W = "?V\<lparr>csRCache := rc_invalidateCache (csRCache ?V)\<rparr>"
  have m: "mark_all_runahead t ?U = Inr ?V"
    by (simp add: mark_all_runahead_def mapE_marks)
  have f: "rob_findInst (csRob ?W) t (diSeq i) = Some ?m"
    using head_first[OF assms(1)] by (auto simp: rob_findInst_def)
  have h: "handleRunaheadLLL t ?m ?W = Inr (lll_update t ?m ?W)"
  proof (rule handleLLL_succeeds)
    show "has_prop IsLoad ?m" using assms(2) by simp
    show "has_flag ReqMade ?m" "has_flag Runahead ?m" "diSavedReq ?m \<noteq> None"
      using assms(3,6-8) by (simp_all add: runahead_mark_def Let_def has_flag_def set_flag_def has_status_def)
  qed
  have c: "make_chain C t ?m x = Inr x" for x using assms(11) by (simp add: make_chain_def)
  have g: "assertE (has_prop IsLoad i \<and> \<not> has_status Squashed i \<and> \<not> has_flag Runahead i) = Inr ()"
    using assms(2,4,5) by simp
  have e: "enterRunahead C t s = Inr (True, (lll_update t ?m ?W)\<lparr>csPseudoretired :=
      (csPseudoretired (lll_update t ?m ?W))(t := 0), csEnteredTick := csNow (lll_update t ?m ?W)\<rparr>)"
    unfolding enterRunahead_def assms(1) bindE_Inr ptr_simps g assms(9,10) Let_def not_True_eq_False if_False m f h c ..
  show ?thesis unfolding e by (simp add: entered_def lll_update_def put_inst_def Let_def)
qed

section \<open>A cycle that enters\<close>

text \<open>What the commit stage keeps outside runahead, up to the entry.\<close>

definition pre :: "commit_state \<Rightarrow> commit_state \<Rightarrow> bool" where
  "pre s s' \<longleftrightarrow> asCkpt (csArch s') = asCkpt (csArch s) \<and> csActive s' = csActive s
     \<and> csArchRestore s' = csArchRestore s \<and> csArchRestorePrev s' = csArchRestorePrev s
     \<and> csInRunahead s' = csInRunahead s"

lemma pre_refl [simp]: "pre s s"
  by (simp add: pre_def)

lemma pre_trans [trans]: "pre s u \<Longrightarrow> pre u v \<Longrightarrow> pre s v"
  by (simp add: pre_def)

lemma calm_pre: "calm s s' \<Longrightarrow> pre s s'"
  by (simp add: pre_def calm_def arch_view_def)

lemma pre_same:
  assumes "asCkpt (csArch s') = asCkpt (csArch s)" "csActive s' = csActive s" "csArchRestore s' = csArchRestore s"
    "csArchRestorePrev s' = csArchRestorePrev s" "csInRunahead s' = csInRunahead s"
  shows "pre s s'"
  using assms by (simp add: pre_def)

lemma put_pre [simp]: "pre s (put_inst t i s)"
  by (rule pre_same) (simp_all add: put_inst_def)

lemma info_pre [simp]: "pre s (upd_info t f s)"
  by (rule calm_pre) simp

lemma trap_event_pre [simp]: "pre s (generateTrapEvent C t f s)"
  by (rule pre_same) (simp_all add: generateTrapEvent_def schedule_event_def)

lemma processInt_pre:
  assumes "processInterrupts C f s = Inr s'"
  shows "pre s s'"
proof -
  have "s' = cpu_trap C (the f) 0 (s\<lparr>csIntCtl := ccIntProcess C (csIntCtl s)\<rparr>)"
    using assms by (auto simp: processInterrupts_def split_res)
  then show ?thesis by (simp add: pre_def cpu_trap_def)
qed

lemma handleInt_pre:
  assumes "handleInterrupt C s = Inr s'"
  shows "pre s s'"
proof -
  let ?a = "(upd_info 0 (\<lambda>c. c\<lparr>ciClearInterrupt := True\<rparr>) s)\<lparr>csInterrupt := None, csAvoidLiveLock := True\<rparr>"
  let ?c = "upd_info 0 (\<lambda>c. c\<lparr>ciClearInterrupt := True\<rparr>) s"
  let ?b = "?c\<lparr>csNoSquashTC := (csNoSquashTC ?c)(0 := True)\<rparr>"
  have ab: "pre s ?a" "pre s ?b" by (rule pre_same, simp_all add: upd_info_def)+
  let ?k = "\<lambda>s. Inr ((generateTrapEvent C 0 None (s\<lparr>csNoSquashTC := (csNoSquashTC s)(0 := False),
             csStatus := (csStatus s)(0 := TrapPending), csInterrupt := None\<rparr>))\<lparr>csAvoidLiveLock := False\<rparr>) :: commit_state res"
  show ?thesis
  proof (cases "ccIntCheck C (csIntCtl s)")
    case False
    then have "s' = ?a" using assms by (simp add: handleInterrupt_def)
    then show ?thesis using ab(1) by simp
  next
    case chk: True
    show ?thesis
    proof (cases "csCanHandleInt s \<and> \<not> runahead_hazard s \<and> no_insts s")
      case False
      then have "s' = s" using assms chk by (auto simp: handleInterrupt_def)
      then show ?thesis by simp
    next
      case True
      have e: "handleInterrupt C s = bindE (assertE (\<not> csNoSquashTC ?c 0))
          (\<lambda>_. bindE (processInterrupts C (ccIntGet C (csIntCtl ?c)) ?b) ?k)"
        using True chk unfolding handleInterrupt_def Let_def by (simp add: upd_info_def)
      have "bindE (processInterrupts C (ccIntGet C (csIntCtl ?c)) ?b) ?k = Inr s'"
        by (rule bindE_elim[OF assms[unfolded e]])
      then obtain u where u: "processInterrupts C (ccIntGet C (csIntCtl ?c)) ?b = Inr u" "?k u = Inr s'"
        by (rule bindE_elim) blast
      have "s' = (generateTrapEvent C 0 None (u\<lparr>csNoSquashTC := (csNoSquashTC u)(0 := False),
             csStatus := (csStatus u)(0 := TrapPending), csInterrupt := None\<rparr>))\<lparr>csAvoidLiveLock := False\<rparr>"
        using u(2) by simp
      then have "pre u s'" by (simp add: pre_def generateTrapEvent_def schedule_event_def)
      with ab(2) processInt_pre[OF u(1)] show ?thesis by (blast intro: pre_trans)
    qed
  qed
qed

lemma interrupt_pre: "commit_interrupt C ot s = Inr s' \<Longrightarrow> pre s s'"
proof -
  assume a: "commit_interrupt C ot s = Inr s'"
  let ?a = "(upd_info 0 (\<lambda>c. c\<lparr>ciClearInterrupt := True\<rparr>) (s\<lparr>csIntCtl := ccIntClear C (csIntCtl s)\<rparr>))
               \<lparr>csInterrupt := None, csAvoidLiveLock := True\<rparr>"
  have "pre s ?a" by (rule pre_same) (simp_all add: upd_info_def)
  moreover have "commit_interrupt C ot s = Inr s \<or> commit_interrupt C ot s = Inr ?a
      \<or> commit_interrupt C ot s = handleInterrupt C s"
    by (simp add: commit_interrupt_def)
  ultimately show ?thesis using a handleInt_pre by auto
qed

lemma unexecuted_pre: "commit_unexecuted J t i n s = Inr s' \<Longrightarrow> pre s s'"
proof -
  let ?u = "put_inst t (reset_status CanCommit i) (upd_info t (\<lambda>c. c\<lparr>ciNonSpecSeq := diSeq i\<rparr>) s)"
  assume "commit_unexecuted J t i n s = Inr s'"
  then have "s' = s \<or> s' = ?u \<or> s' = upd_info t (\<lambda>c. c\<lparr>ciStrictlyOrdered := True, ciStrictLoad := Some (diSeq i)\<rparr>) ?u"
    by (auto simp: commit_unexecuted_def split_res Let_def split: if_splits)
  moreover have u: "pre s ?u" by (rule pre_trans[OF info_pre put_pre])
  moreover note pre_trans[OF u info_pre[of ?u t "\<lambda>c. c\<lparr>ciStrictlyOrdered := True, ciStrictLoad := Some (diSeq i)\<rparr>"]]
  ultimately show ?thesis by (elim disjE) (simp_all only: pre_refl)
qed

lemma real_fault_pre:
  assumes "commit_fault C J t i f n s = Inr s'" "\<not> has_flag Runahead i"
  shows "pre s s'"
proof (cases "tiStoresToWB J t \<or> n > 0")
  case False
  let ?s = "put_inst t (set_status Completed i) s"
  let ?u = "cpu_trap C f t (?s\<lparr>csNoSquashTC := (csNoSquashTC ?s)(t := True)\<rparr>)"
  let ?v = "?u\<lparr>csNoSquashTC := (csNoSquashTC ?u)(t := False), csStatus := (csStatus ?u)(t := TrapPending)\<rparr>"
  have "commit_fault C J t i f n s = bindE (assertE (\<not> csNoSquashTC ?s t)) (\<lambda>_. Inr (generateTrapEvent C t (Some f) ?v))"
    using assms(2) False by (simp add: commit_fault_def Let_def)
  then have "generateTrapEvent C t (Some f) ?v = s'" by (rule assertE_value[OF trans[OF sym assms(1)]])
  moreover have "pre ?s ?v" by (rule pre_same) (simp_all add: cpu_trap_def)
  ultimately show ?thesis using pre_trans[OF pre_trans[OF put_pre] trap_event_pre] by metis
qed (use assms in \<open>simp add: commit_fault_def\<close>)

lemma real_dests_pre: "commit_dests C t i s = Inr s' \<Longrightarrow> pre s s'"
  by (auto simp: commit_dests_def Let_def split_res pre_def split: if_splits)

lemma stats_pre: "pre s (updateComInstStats t i s)"
  by (rule pre_same) (simp_all add: updateComInstStats_def instDone_def Let_def)

lemma commitHead_pre:
  assumes "commitHead C J t i n s = Inr (b, s')"
  shows "pre s s'"
proof (cases "has_flag Runahead i")
  case True
  then show ?thesis using commitHead_calm[OF assms] calm_pre by blast
next
  case real: False
  show ?thesis
  proof (cases "has_status Executed i")
    case False
    then show ?thesis using assms unexecuted_pre by (auto simp: commitHead_def split_res)
  next
    case exe: True
    show ?thesis
    proof (cases "diFault i")
      case (Some g)
      then obtain h where "commit_fault C J t i h n (put_inst t i s) = Inr s'"
        using assms exe by (auto simp: commitHead_def split_res Let_def split: if_splits)
      with real show ?thesis using real_fault_pre put_pre pre_trans by blast
    next
      case None
      then have "b" using assms exe by (auto simp: commitHead_def split_res Let_def)
      then have ok: "commitHead C J t i n s = Inr (True, s')" using assms by simp
      obtain j u v where j: "commit_dests C t j (updateComInstStats t j (put_inst t j s)) = Inr u"
        "retire_head t u = Inr v" "s' = v \<or> s' = v\<lparr>csCommittedStores := (csCommittedStores v)(t := True)\<rparr>"
        using commitHead_success[OF ok] by metis
      have "pre s u" by (rule pre_trans[OF pre_trans[OF put_pre stats_pre] real_dests_pre[OF j(1)]])
      also have "pre u v" by (rule calm_pre[OF retire_calm[OF j(2)]])
      also have "pre v s'"
      proof -
        have "pre v (v\<lparr>csCommittedStores := (csCommittedStores v)(t := True)\<rparr>)" by (rule pre_same) simp_all
        then show ?thesis using j(3) by auto
      qed
      finally show ?thesis .
    qed
  qed
qed

lemma ready_head_pre:
  assumes "commit_ready_head C J t i n s = Inr (b, m, s')"
  shows "pre s s'"
proof (cases "has_status Squashed i")
  case True
  then obtain u where u: "retire_head t s = Inr u" "s' = u\<lparr>csChangedROB := (csChangedROB u)(t := True)\<rparr>"
    using assms(1) by (auto simp: commit_ready_head_def bindE_ok)
  have "pre u s'" unfolding u(2) by (rule pre_same) simp_all
  with calm_pre[OF retire_calm[OF u(1)]] show ?thesis by (rule pre_trans)
next
  case False
  let ?s = "s\<lparr>csPC := (csPC s)(t := diPC i)\<rparr>"
  obtain ok u where u: "commitHead C J t i n ?s = Inr (ok, u)"
    "u = s' \<or> after_commit C t i u = Inr (b, s')"
    using assms(1) False by (auto simp: commit_ready_head_def bindE_ok split: if_splits)
  have "pre s ?s" by (rule pre_same) simp_all
  also note commitHead_pre[OF u(1)]
  also have "pre u s'" using u(2) after_commit_calm calm_pre by auto
  finally show ?thesis .
qed

lemma enter_refused: "enterRunahead C t s = Inr (False, s') \<Longrightarrow> s' = s"
  by (auto simp: enterRunahead_def split_res Let_def split: if_splits)

definition just_entered :: "commit_cfg \<Rightarrow> tick_in \<Rightarrow> commit_state \<Rightarrow> commit_state \<Rightarrow> bool" where
  "just_entered C J s s' \<longleftrightarrow> (\<exists>u w. pre s u \<and> enterRunahead C 0 u = Inr (True, w) \<and> s' = note_entry J 0 w)"

lemma unready_enters:
  assumes "inspect_unready_head C J 0 i s = Inr s'"
  shows "pre s s' \<or> just_entered C J s s'"
proof (cases "lll_at_head C i \<and> \<not> csInRunahead s 0")
  case True
  then have b: "bindE (enterRunahead C 0 s) (\<lambda>(e, s). Inr (if e then note_entry J 0 s else s)) = Inr s'"
    using assms by (simp add: inspect_unready_head_def)
  obtain e w where ew: "enterRunahead C 0 s = Inr (e, w)"
    using b by (cases "enterRunahead C 0 s") auto
  then have s': "s' = (if e then note_entry J 0 w else w)" using b by auto
  show ?thesis
  proof (cases e)
    case True
    then have "enterRunahead C 0 s = Inr (True, w)" "s' = note_entry J 0 w" using ew s' by simp_all
    then show ?thesis unfolding just_entered_def using pre_refl by blast
  next
    case False
    then have "s' = s" using ew s' enter_refused[of C 0 s w] by simp
    then show ?thesis by simp
  qed
next
  case False
  then have "s' = s \<or> (\<exists>u. handleRunaheadLLL 0 i s = Inr u \<and> s' = u\<lparr>csNumLLLs := csNumLLLs u + 1\<rparr>)"
    using assms by (auto simp: inspect_unready_head_def split_res split: if_splits)
  moreover have "pre u (u\<lparr>csNumLLLs := csNumLLLs u + 1\<rparr>)" for u by (rule pre_same) simp_all
  moreover have "pre s u" if "handleRunaheadLLL 0 i s = Inr u" for u by (rule calm_pre[OF handleLLL_calm[OF that]])
  ultimately show ?thesis using pre_trans by (elim disjE exE conjE) (simp, blast)
qed

lemma round_enters:
  assumes "commit_round C J n s = Inr (b, m, s')" "ccThreads C \<le> 1" "csActive s = [0]"
  shows "pre s s' \<or> \<not> b \<and> just_entered C J s s'"
  using assms(1)
proof (cases rule: round_cases)
  case (stop ot v)
  then show ?thesis using single_thread[OF stop(1) assms(2,3)] interrupt_pre by blast
next
  case (unready t v u i)
  have t: "v = s" "t = 0" using single_thread[OF unready(1) assms(2,3)] by auto
  have c: "pre s u" using interrupt_pre unready(2) t(1) by blast
  from unready_enters[of C J i u s'] unready(6) t(2) have "pre u s' \<or> just_entered C J u s'" by simp
  then show ?thesis using c unready(7) pre_trans unfolding just_entered_def by blast
next
  case (ready t v u i)
  have t: "v = s" "t = 0" using single_thread[OF ready(1) assms(2,3)] by auto
  have "pre s u" using interrupt_pre ready(2) t(1) by blast
  then show ?thesis using ready_head_pre[OF ready(6)] pre_trans by blast
qed

lemma loop_enters:
  assumes "commit_loop C J n s = Inr s'" "ccThreads C \<le> 1" "csActive s = [0]"
  shows "pre s s' \<or> just_entered C J s s'"
  using assms
proof (induction C J n s rule: commit_loop.induct)
  case (1 C J n s)
  show ?case
  proof (cases "n < ccCommitWidth C")
    case True
    then obtain b m u where u: "commit_round C J n s = Inr (b, m, u)"
      "if b then commit_loop C J m u = Inr s' else s' = u"
      using 1(2) by (subst (asm) commit_loop.simps) (auto simp: bindE_ok split: if_splits)
    note r = round_enters[OF u(1) 1(3,4)]
    show ?thesis
    proof (cases b)
      case True
      then have p: "pre s u" using r by simp
      then have "csActive u = [0]" using 1(4) by (simp add: pre_def)
      then have "pre u s' \<or> just_entered C J u s'"
        using 1(1)[OF \<open>n < ccCommitWidth C\<close> u(1)] u(2) True 1(3) by simp
      then show ?thesis using p pre_trans unfolding just_entered_def by blast
    next
      case False
      then show ?thesis using u(2) r by simp
    qed
  next
    case False
    then show ?thesis using 1(2) by (simp add: commit_loop.simps)
  qed
qed

section \<open>The whole cycle\<close>

text \<open>
  What the rest of the cycle does to the state of the entry: it is calm, keeps the program
  counter, and no instruction of the reorder buffer changes its thread or becomes uncommitted.
\<close>

definition own_rob :: "commit_state \<Rightarrow> bool" where
  "own_rob s \<longleftrightarrow> (\<forall>i \<in> set (instList (csRob s) 0). diTid i = 0 \<and> \<not> has_status Committed i)"

definition settles :: "commit_state \<Rightarrow> commit_state \<Rightarrow> bool" where
  "settles s s' \<longleftrightarrow> calm s s' \<and> csPC s' = csPC s \<and> (own_rob s' \<longrightarrow> own_rob s)"

lemma settles_refl [simp]: "settles s s"
  by (simp add: settles_def)

lemma settles_trans [trans]: "settles s u \<Longrightarrow> settles u v \<Longrightarrow> settles s v"
  by (auto simp: settles_def intro: calm_trans)

lemma quiet_settles: "quiet s s' \<Longrightarrow> csPC s' = csPC s \<Longrightarrow> csRob s' = csRob s \<Longrightarrow> settles s s'"
  by (simp add: settles_def quiet_calm own_rob_def)

lemma report_settles: "settles s (fold (report_rob J) ts s)"
proof (induction ts arbitrary: s)
  case (Cons t ts)
  have "settles s (report_rob J t s)"
    by (rule quiet_settles[OF report_rob_quiet]) (simp_all add: report_rob_def Let_def upd_info_def)
  also note Cons.IH
  finally show ?case by simp
qed simp

lemma mark_settles: "settles s (markCompletedInsts J s)"
proof -
  let ?f = "\<lambda>q s. s\<lparr>csRob := (csRob s)\<lparr>instList := (\<lambda>t. map (mark_completed q) (instList (csRob s) t))\<rparr>,
      csFront := map (mark_completed q) (csFront s)\<rparr>"
  have "csPC (fold ?f qs u) = csPC u \<and> own_rob (fold ?f qs u) = own_rob u" for qs u
    by (induction qs arbitrary: u) (simp_all add: own_rob_def)
  then show ?thesis using markCompleted_calm by (simp add: settles_def markCompletedInsts_def)
qed

lemma check_head_settles: "check_head t s = Inr s' \<Longrightarrow> settles s s'"
  by (rule quiet_settles[OF check_head_quiet]) (auto simp: check_head_def split_res split: if_splits)

lemma end_of_cycle_settles:
  assumes "updateRunaheadState C J t s = Inr s'" "\<not> csArchRestorePrev s t"
  shows "settles s s'"
proof -
  let ?s = "s\<lparr>csWasRunahead := (csWasRunahead s)(t := csInRunahead s t)\<rparr>"
  let ?same = "\<lambda>v w :: commit_state. csPC w = csPC v \<and> csRob w = csRob v"
  obtain u where u: "check_nllb C t (check_min_work C t ?s) = Inr u" "s' = track_overhead J t u"
    using assms by (auto simp: updateRunaheadState_def do_arch_restore_def split_res)
  have "?same s (check_min_work C t ?s)" by (simp add: check_min_work_def set_exit_def count_cause_def)
  moreover have "?same (check_min_work C t ?s) u"
    using u(1) by (auto simp: check_nllb_def Let_def split_res set_exit_def count_cause_def
        split: if_splits option.splits)
  moreover have "?same u s'" unfolding u(2) by (simp add: track_overhead_def Let_def split: option.splits)
  ultimately have "?same s s'" by simp
  then show ?thesis using quiet_settles[OF end_of_cycle_quiet[OF assms]] by blast
qed

lemma getInsts_pre: "getInsts C J s = Inr s' \<Longrightarrow> pre s s'"
proof -
  assume a: "getInsts C J s = Inr s'"
  show ?thesis
  proof (rule foldE_inv[where P = "pre s", OF a[unfolded getInsts_def]])
    fix q u v
    assume p: "pre s u" and v: "bindE (ptr (find (\<lambda>i. diSeq i = q) (csFront u))) (\<lambda>i.
       let t = diTid i in
       if \<not> has_status Squashed i \<and> csStatus u t \<noteq> ROBSquashing \<and> csStatus u t \<noteq> TrapPending then
         bindE (rob_insertInst i (csRob u)) (\<lambda>r.
         bindE (assertE (threadEntries r t \<le> maxEntries r t)) (\<lambda>_.
           Inr (u\<lparr>csChangedROB := (csChangedROB u)(t := True), csRob := r,
                  csFront := filter (\<lambda>j. diSeq j \<noteq> q) (csFront u),
                  csYoungest := (csYoungest u)(t := diSeq i)\<rparr>)))
       else Inr u) = Inr v"
    then have "pre u v"
      by (auto simp: split_res Let_def pre_def split: if_splits)
    with p show "pre s v" by (rule pre_trans)
  qed simp
qed

lemma exits_leaves: "exits 0 s u \<Longrightarrow> \<not> csInRunahead u 0"
  by (simp add: exits_def)

text \<open>
  A cycle that ends in runahead without having begun in it has entered, with \<open>enterRunahead\<close> as
  the last thing it did to the registers, the program counter and the reorder buffer.
\<close>

definition entry_of :: "commit_cfg \<Rightarrow> tick_in \<Rightarrow> commit_state \<Rightarrow> commit_state \<Rightarrow> bool" where
  "entry_of C J s s' \<longleftrightarrow> (\<exists>u w. pre s u \<and> enterRunahead C 0 u = Inr (True, w) \<and> settles (note_entry J 0 w) s')"

lemma entry_of_settles: "entry_of C J s u \<Longrightarrow> settles u s' \<Longrightarrow> entry_of C J s s'"
  unfolding entry_of_def using settles_trans by blast

lemma entry_of_pre: "pre s u \<Longrightarrow> entry_of C J u s' \<Longrightarrow> entry_of C J s s'"
  unfolding entry_of_def using pre_trans by blast

lemma propagated_quiet: "quiet s (propagated C s)"
  using propagate_quiet by (simp add: propagated_def)

lemma entry_keeps:
  assumes "entry_of C J s s'"
  shows "csActive s' = csActive s" "csArchRestorePrev s' = csArchRestorePrev s"
proof -
  obtain u w where u: "pre s u" "enterRunahead C 0 u = Inr (True, w)" "settles (note_entry J 0 w) s'"
    using assms by (auto simp: entry_of_def)
  obtain i a c where "w = entered 0 i a c u" using enter_result[OF u(2)] by blast
  then show "csActive s' = csActive s" "csArchRestorePrev s' = csArchRestorePrev s"
    using u(1,3) by (simp_all add: settles_def calm_def arch_view_def note_entry_def pre_def)
qed

lemma commit_enters:
  assumes "commit C J s = Inr s'" "ccThreads C = 1" "csActive s = [0]" "\<not> csInRunahead s 0"
  shows "csActive s' = [0] \<and> csArchRestorePrev s' = csArchRestorePrev s
    \<and> (csInRunahead s' 0 \<longrightarrow> entry_of C J s s')"
proof -
  obtain u w where u: "squash_thread C J 0 (propagated C s) = Inr u"
    "(if squashing_threads (noted u) \<noteq> ccThreads C
      then bindE (getInsts C J (noted u)) (commitInsts C J) else Inr (noted u)) = Inr w"
    "s' = fold (report_rob J) (csActive w) w"
    by (rule commit_split[OF assms(1,3)])
  have r: "settles w s'" unfolding u(3) by (rule report_settles)
  then have rw: "csInRunahead s' = csInRunahead w" "csActive s' = csActive w"
    "csArchRestorePrev s' = csArchRestorePrev w"
    by (simp_all add: settles_def calm_def arch_view_def)
  have pp: "pre s (propagated C s)" by (rule calm_pre[OF quiet_calm[OF propagated_quiet]])
  have pn: "pre u (noted u)" by (rule calm_pre[OF quiet_calm[OF noted_quiet]])
  note sq = squash_thread_quiet[OF u(1)]
  show ?thesis
  proof (cases "exit_turn 0 (propagated C s)")
    case True
    then have e: "exits 0 (propagated C s) u" "left 0 u" using sq by auto
    then have k: "csActive u = [0]" "csArchRestorePrev u = csArchRestorePrev s"
      using pp assms(3) by (simp_all add: exits_def arch_view_def pre_def)
    then have "squashing_threads (noted u) = 1"
      using e(2) by (simp add: noted_def squashing_threads_def left_def)
    then have "w = noted u" using u(2) assms(2) by simp
    then show ?thesis using rw k pn exits_leaves[OF e(1)] by (simp add: pre_def)
  next
    case False
    then have "pre (propagated C s) u" using sq by (simp add: calm_pre quiet_calm)
    then have p: "pre s (noted u)" using pre_trans[OF pre_trans[OF pp] pn] by simp
    have "pre s w \<or> entry_of C J s w"
    proof (cases "squashing_threads (noted u) \<noteq> ccThreads C")
      case True
      then obtain v where v: "getInsts C J (noted u) = Inr v" "commit_loop C J 0 v = Inr w"
        using u(2) by (auto simp: bindE_ok commitInsts_def)
      have pv: "pre s v" by (rule pre_trans[OF p getInsts_pre[OF v(1)]])
      then have "csActive v = [0]" using assms(3) by (simp add: pre_def)
      then have "pre v w \<or> just_entered C J v w" using loop_enters[OF v(2)] assms(2) by simp
      then have "pre v w \<or> entry_of C J v w" unfolding just_entered_def entry_of_def using settles_refl by blast
      then show ?thesis using pre_trans[OF pv] entry_of_pre[OF pv] by blast
    qed (use u(2) p in simp)
    then show ?thesis
    proof
      assume "pre s w" then show ?thesis using rw assms(3,4) by (simp add: pre_def)
    next
      assume "entry_of C J s w"
      from entry_of_settles[OF this r] show ?thesis using entry_keeps assms(3) by simp
    qed
  qed
qed

lemma tick_enters:
  assumes "commit_tick C J s = Inr s'" "ccThreads C = 1" "csActive s = [0]" "\<not> csInRunahead s 0"
    "csInRunahead s' 0" "\<not> csArchRestorePrev s 0"
  shows "entry_of C J s s'"
proof -
  obtain s2 s3 s5 s6 where q: "quiet s s2" and s3: "commit C J s2 = Inr s3"
    and s5: "foldE check_head (csActive (markCompletedInsts J s3)) (markCompletedInsts J s3) = Inr s5"
    and s6: "foldE (updateRunaheadState C J) (csActive s5) s5 = Inr s6" and s': "s' = updateStatus s6"
    by (rule tick_split[OF assms(1,3)])
  have p2: "pre s s2" by (rule calm_pre[OF quiet_calm[OF q]])
  have h: "csActive s2 = [0]" "\<not> csInRunahead s2 0" using p2 assms(3,4) by (simp_all add: pre_def)
  note ce = commit_enters[OF s3 assms(2) h]
  have m: "settles s3 (markCompletedInsts J s3)" by (rule mark_settles)
  have act: "csActive (markCompletedInsts J s3) = [0]"
    using m ce by (simp add: settles_def calm_def arch_view_def)
  have "check_head 0 (markCompletedInsts J s3) = Inr s5" using s5 act by (auto simp: bindE_ok)
  from settles_trans[OF m check_head_settles[OF this]] have s35: "settles s3 s5" .
  have "csActive s5 = [0]" and np: "\<not> csArchRestorePrev s5 0"
    using s35 ce p2 assms(6) by (simp_all add: settles_def calm_def arch_view_def pre_def)
  then have "updateRunaheadState C J 0 s5 = Inr s6" using s6 by (auto simp: bindE_ok)
  from settles_trans[OF s35 end_of_cycle_settles[OF this np]] have s36: "settles s3 s6" .
  have "settles s6 s'" unfolding s'
    by (rule quiet_settles[OF updateStatus_quiet]) (simp_all add: updateStatus_def Let_def)
  then have s3': "settles s3 s'" by (rule settles_trans[OF s36])
  then have "csInRunahead s3 0" using assms(5) by (simp add: settles_def calm_def)
  then show ?thesis using ce entry_of_pre[OF p2] entry_of_settles[OF _ s3'] by blast
qed

section \<open>The state of an entry\<close>

lemma save_frame: "save_arch_state I mv rm t a = Inr b \<Longrightarrow> asFile b = asFile a \<and> asRen b = asRen a"
  by (auto simp: save_arch_state_def split_res)

lemma entered_insts:
  "instList (csRob (entered 0 i a c s)) 0 = map (\<lambda>j. if diSeq j = diSeq i
      then lll_mark (runahead_mark 0 i) else runahead_mark 0 j) (instList (csRob s) 0)"
  unfolding entered_list by simp

lemma entered_flagged:
  assumes "own_rob (entered 0 i a c s)" "diTid i = 0" "\<not> has_status Committed i"
  shows "all_flagged (entered 0 i a c s)"
proof -
  have "has_flag Runahead j" if rj: "j \<in> set (instList (csRob (entered 0 i a c s)) 0)" for j
  proof -
    have j: "diTid j = 0" "\<not> has_status Committed j" using assms(1) rj by (simp_all add: own_rob_def)
    have li: "has_flag Runahead (lll_mark (runahead_mark 0 i))"
      using runahead_mark_flag[of i 0] assms(2,3) by simp
    obtain k where k: "j = (if diSeq k = diSeq i then lll_mark (runahead_mark 0 i) else runahead_mark 0 k)"
      using rj unfolding entered_insts set_map by (rule imageE)
    show ?thesis
    proof (cases "diSeq k = diSeq i")
      case False
      then have e: "j = runahead_mark 0 k" using k by simp
      show ?thesis unfolding e by (rule runahead_mark_flag) (use j in \<open>simp_all add: e\<close>)
    qed (use k li in simp)
  qed
  moreover have "has_flag Runahead j"
    if fj: "j \<in> set (csFront (entered 0 i a c s))" and "diTid j = 0" "\<not> has_status Committed j" for j
  proof -
    obtain k where k: "j = runahead_mark 0 k" using fj unfolding entered_fields set_map by (rule imageE)
    show ?thesis unfolding k by (rule runahead_mark_flag) (use that k in simp_all)
  qed
  ultimately show ?thesis unfolding all_flagged_def by blast
qed

text \<open>The conditions on the machine at an entry: renaming is well formed, the reorder buffer holds
instructions of the thread that are not committed.\<close>

definition entry_ok :: "commit_cfg \<Rightarrow> commit_state \<Rightarrow> bool" where
  "entry_ok C s \<longleftrightarrow> ren_env (ccIsa C) (asFile (csArch s))
     \<and> (\<forall>c \<in> set rename_classes. numArchRegs (ccIsa C) c \<le> numPhys (asFile (csArch s)) c)
     \<and> commit_wf (ccIsa C) (asFile (csArch s)) (asRen (csArch s)) 0
     \<and> board_ok (asFile (csArch s)) (asRen (csArch s))
     \<and> (\<forall>c. c \<notin> set rename_classes \<longrightarrow> rsFree (asRen (csArch s)) c = [])
     \<and> own_rob s"

lemma note_entry_frame:
  "own_rob (note_entry J t w) = own_rob w" "all_flagged (note_entry J t w) = all_flagged w"
  "arch_view (note_entry J t w) = arch_view w" "csPC (note_entry J t w) = csPC w"
  "csInRunahead (note_entry J t w) = csInRunahead w" "csArchRestore (note_entry J t w) = csArchRestore w"
  by (simp_all add: note_entry_def own_rob_def all_flagged_def arch_view_def)

lemma settlesD:
  assumes "settles s s'"
  shows "arch_view s' = arch_view s" "csPC s' = csPC s" "csInRunahead s' = csInRunahead s"
    "csArchRestore s' = csArchRestore s" "all_flagged s \<Longrightarrow> all_flagged s'" "own_rob s' \<Longrightarrow> own_rob s"
  using assms by (simp_all add: settles_def calm_def)

lemma arch_viewD:
  assumes "arch_view s' = arch_view s"
  shows "asFile (csArch s') = asFile (csArch s)" "asCkpt (csArch s') = asCkpt (csArch s)"
    "asDebug (csArch s') = asDebug (csArch s)" "rsCommit (asRen (csArch s')) = rsCommit (asRen (csArch s))"
    "csStoredPC s' = csStoredPC s"
  using assms by (simp_all add: arch_view_def)

lemma entry_state:
  assumes "entry_of C J s s'" "entry_ok C s'" "ckpt_wf (ccIsa C) (asCkpt (csArch s))"
  shows "all_flagged s' \<and> csStoredPC s' 0 = csPC s' 0 \<and> csInRunahead s' 0
    \<and> csArchRestore s' = csArchRestore s
    \<and> (\<forall>c. is_scalar c \<longrightarrow>
         ckpt_holds (ccIsa C) (asFile (csArch s')) (asRen (csArch s')) 0 (asCkpt (csArch s')) c
       \<and> debug_holds (ccIsa C) (asFile (csArch s')) (asRen (csArch s')) 0 (asDebug (csArch s')) c)"
proof -
  obtain u w where u: "pre s u" "enterRunahead C 0 u = Inr (True, w)" "settles (note_entry J 0 w) s'"
    using assms(1) by (auto simp: entry_of_def)
  obtain i a c where e: "save_arch_state (ccIsa C) (ccMiscValid C) (ccReadMisc C) 0 (csArch u) = Inr a"
    "w = entered 0 i a c u" and i: "diTid i = 0" "\<not> has_status Committed i"
    using enter_result[OF u(2)] by blast
  note st = settlesD[OF u(3), unfolded note_entry_frame]
  have own: "own_rob w" by (rule st(6)) (use assms(2) in \<open>simp add: entry_ok_def\<close>)
  then have fl: "all_flagged s'" using st(5) entered_flagged[OF _ i] e(2) by blast
  note av = arch_viewD[OF st(1), unfolded e(2) entered_fields]
  have v: "asFile (csArch s') = asFile a" "asCkpt (csArch s') = asCkpt a" "asDebug (csArch s') = asDebug a"
    "rsCommit (asRen (csArch s')) = rsCommit (asRen a)"
    "csStoredPC s' 0 = csPC u 0" "csPC s' 0 = csPC u 0" "csInRunahead s' 0" "csArchRestore s' = csArchRestore s"
    using av st(2,3,4) u(1) e(2) by (simp_all add: pre_def)
  have cw: "commit_wf (ccIsa C) (asFile (csArch u)) (asRen (csArch u)) 0"
    using assms(2) save_frame[OF e(1)] v(1,4) by (simp add: entry_ok_def commit_wf_def)
  have "ckpt_wf (ccIsa C) (asCkpt (csArch u))" using u(1) assms(3) by (simp add: pre_def)
  from save_arch_state_ok[OF cw this, of "ccMiscValid C" "ccReadMisc C"] e(1)
  obtain d ck where a: "a = (csArch u)\<lparr>asDebug := d, asCkpt := ck\<rparr>"
    "\<forall>c. is_scalar c \<longrightarrow> ckpt_holds (ccIsa C) (asFile (csArch u)) (asRen (csArch u)) 0 ck c"
    "\<forall>c. is_scalar c \<longrightarrow> debug_holds (ccIsa C) (asFile (csArch u)) (asRen (csArch u)) 0 d c"
    by auto
  have "rsCommit (asRen (csArch s')) = rsCommit (asRen (csArch u))" "asFile (csArch s') = asFile (csArch u)"
    using v a(1) by simp_all
  then have "arch_value (asFile (csArch s')) (asRen (csArch s')) 0 = arch_value (asFile (csArch u)) (asRen (csArch u)) 0"
    by (simp add: fun_eq_iff arch_value_def arch_phys_def)
  then show ?thesis using fl v a by (simp add: ckpt_holds_def debug_holds_def)
qed

text \<open>
  C3: entering runahead.  When \<open>enterRunahead\<close> succeeds, the head of the reorder buffer was a
  load whose request is out, and afterwards: every instruction of the thread that is in flight
  carries the runahead flag; the load itself counts as executed, its destination is poisoned and
  a writeback of a forged response is scheduled for this cycle; the program counter is stored,
  the runahead cache is empty, the load is recorded as the cause, and registers, rename maps and
  the order of the reorder buffer are unchanged.
\<close>

theorem entry_marks_everything_in_flight:
  assumes "enterRunahead C t s = Inr (True, s')"
  shows "\<exists>i j l. rob_readHeadInst (csRob s) t = Inr (Some i) \<and> has_prop IsLoad i \<and> has_flag ReqMade i
     \<and> (\<forall>k \<in> set (instList (csRob s') t) \<union> set (csFront s').
          diTid k = t \<longrightarrow> \<not> has_status Committed k \<longrightarrow> has_flag Runahead k)
     \<and> instList (csRob s') t = j # l \<and> diSeq j = diSeq i \<and> has_status Executed j \<and> has_flag Poisoned j
     \<and> has_flag ForgedResponse j \<and> (csNow s, ForgedWriteback (diSeq i)) \<in> set (csEvents s')
     \<and> csStoredPC s' t = csPC s t \<and> csPC s' = csPC s \<and> csInRunahead s' t \<and> csCpuCause s' t = Some (diSeq i)
     \<and> csRCache s' = rc_invalidateCache (csRCache s)
     \<and> map diSeq (instList (csRob s') t) = map diSeq (instList (csRob s) t)
     \<and> asFile (csArch s') = asFile (csArch s) \<and> asRen (csArch s') = asRen (csArch s)"
proof -
  obtain i a c where i: "rob_readHeadInst (csRob s) t = Inr (Some i)" "has_prop IsLoad i" "has_flag ReqMade i"
    "diTid i = t" "\<not> has_status Committed i"
    "save_arch_state (ccIsa C) (ccMiscValid C) (ccReadMisc C) t (csArch s) = Inr a" "s' = entered t i a c s"
    using enter_result[OF assms] by blast
  let ?f = "\<lambda>j. if diSeq j = diSeq i then lll_mark (runahead_mark t i) else runahead_mark t j"
  obtain l where l: "instList (csRob s) t = i # l" using head_first[OF i(1)] by blast
  have lst: "instList (csRob s') t = map ?f (i # l)"
    unfolding i(7) entered_list l[symmetric] by simp
  have fl: "has_flag Runahead k" if "k \<in> set (instList (csRob s') t) \<union> set (csFront s')" "diTid k = t"
      "\<not> has_status Committed k" for k
  proof -
    have "k \<in> ?f ` set (i # l) \<or> k \<in> runahead_mark t ` set (csFront s)"
      using that(1)[unfolded lst, unfolded i(7) entered_fields set_map] by blast
    then obtain j where "k = ?f j \<or> k = runahead_mark t j" by (elim disjE imageE) blast+
    then have "k = lll_mark (runahead_mark t i) \<or> k = runahead_mark t j" by (cases "diSeq j = diSeq i") simp_all
    then show ?thesis
    proof
      assume k: "k = lll_mark (runahead_mark t i)"
      show ?thesis unfolding k using runahead_mark_flag[OF i(4,5)] by simp
    next
      assume k: "k = runahead_mark t j"
      show ?thesis unfolding k by (rule runahead_mark_flag) (use that(2,3) k in simp_all)
    qed
  qed
  have sq: "map diSeq (instList (csRob s') t) = map diSeq (instList (csRob s) t)"
    unfolding lst l by simp
  show ?thesis
    by (intro exI[of _ i] exI[of _ "lll_mark (runahead_mark t i)"] exI[of _ "map ?f l"])
      (use i(1-3) fl lst sq save_frame[OF i(6)] in \<open>simp add: i(7)\<close>)
qed

end
