(* ===== verification/RunaheadRoundTrip.thy ===== *)
theory RunaheadRoundTrip
  imports RunaheadEntry
begin

text \<open>
  The round trip: entering runahead within a cycle of commit, a period of any length and
  interleaving, the exit and the restore of the next cycle.
\<close>

section \<open>Events and responses\<close>

lemma run_event_calm: "run_event e s = Inr s' \<Longrightarrow> calm s s'"
proof -
  have "calm s (processTrapEvent t w s)" for t w
    by (rule calm_same) (simp_all add: processTrapEvent_def)
  then show "run_event e s = Inr s' \<Longrightarrow> calm s s'"
    by (auto simp: run_event_def deadline_event_def split_res split: commit_event.splits if_splits)
qed

lemma run_due_calm: "run_due_events s = Inr s' \<Longrightarrow> calm s s'"
proof -
  let ?s = "s\<lparr>csEvents := filter (\<lambda>(d, e). csNow s < d) (csEvents s)\<rparr>"
  assume a: "run_due_events s = Inr s'"
  have "calm ?s s'"
  proof (rule foldE_inv[OF a[unfolded run_due_events_def], where P = "calm ?s"])
    fix x u v assume "calm ?s u" "(\<lambda>(d, e). run_event e) x u = Inr v"
    then show "calm ?s v" using run_event_calm[of "snd x" u v] calm_trans by (cases x) auto
  qed simp
  moreover have "calm s ?s" by (rule calm_same) simp_all
  ultimately show ?thesis using calm_trans by blast
qed

lemma policy_calm: "exit_by_policy C t s = Inr s' \<Longrightarrow> calm s s'"
proof -
  have "calm s (s\<lparr>csExitSeqNum := q\<rparr>)" for q by (rule calm_same) simp_all
  then show "exit_by_policy C t s = Inr s' \<Longrightarrow> calm s s'"
    by (auto simp: exit_by_policy_def dynamicDelayedRunaheadExit_def split_res Let_def
        split: exit_policy.splits if_splits)
qed

lemma signal_calm: "signalExitRunahead C t q s = Inr s' \<Longrightarrow> calm s s'"
proof (cases "csExitable s t")
  case False
  let ?s = "s\<lparr>csExitable := (csExitable s)(t := True), csCause := (csCause s)(t := Some q)\<rparr>"
  assume "signalExitRunahead C t q s = Inr s'"
  then obtain u where u: "exit_by_policy C t ?s = Inr u"
    "s' = (if \<not> csExit u t then schedule_event (ccDeadline C) (DeadlineEvent t q) u else u)"
    using False by (auto simp: signalExitRunahead_def bindE_ok)
  have "calm s ?s" by (rule calm_same) simp_all
  also note policy_calm[OF u(1)]
  also have "calm u s'" unfolding u(2) by simp
  finally show ?thesis .
qed (simp add: signalExitRunahead_def)

lemma resp_calm:
  assumes "recv_runahead_resp C i rc s = Inr (b, s')"
  shows "calm s s'"
proof -
  have "\<exists>u. (if has_flag Runahead i \<and> instCausedRunahead i s then runaheadLLLReturn C (diTid i) s else Inr s) = Inr u
      \<and> u = s'"
    using assms by (auto simp: recv_runahead_resp_def split_res split: if_splits)
  then show ?thesis by (auto simp: runaheadLLLReturn_def split_res signal_calm split: if_splits)
qed

section \<open>Steps of a period\<close>

text \<open>What the other stages may do: rename, write registers, execute and fetch instructions.\<close>

definition env_step :: "commit_cfg \<Rightarrow> commit_state \<Rightarrow> commit_state \<Rightarrow> bool" where
  "env_step C s s' \<longleftrightarrow> (\<exists>a r fr k. s' = s\<lparr>csArch := a, csRob := r, csFront := fr, csIntCtl := k\<rparr>
     \<and> runahead_frame (ccIsa C) (csArch s) a \<and> rsCommit (asRen a) = rsCommit (asRen (csArch s))
     \<and> (all_flagged s \<longrightarrow> all_flagged s'))"

inductive period_step :: "commit_cfg \<Rightarrow> commit_state \<Rightarrow> commit_state \<Rightarrow> bool" for C where
  ps_env: "env_step C s s' \<Longrightarrow> period_step C s s'"
| ps_resp: "recv_runahead_resp C i rc s = Inr (b, s') \<Longrightarrow> diTid i = 0 \<Longrightarrow> period_step C s s'"
| ps_cycle: "run_due_events s = Inr u \<Longrightarrow> rename_ok J u \<Longrightarrow> \<not> csArchRestorePrev u 0 \<Longrightarrow>
     commit_tick C J u = Inr v \<Longrightarrow> period_step C s (advance_cycle v)"

text \<open>The conditions of \<open>restore_main\<close>.\<close>

definition restorable :: "isa \<Rightarrow> (reg_class \<Rightarrow> nat \<Rightarrow> regval) \<Rightarrow> arch_state \<Rightarrow> bool" where
  "restorable I val b \<longleftrightarrow> ren_env I (asFile b)
     \<and> (\<forall>c \<in> set rename_classes. numArchRegs I c \<le> numPhys (asFile b) c)
     \<and> board_ok (asFile b) (asRen b) \<and> (\<forall>c. c \<notin> set rename_classes \<longrightarrow> rsFree (asRen b) c = [])
     \<and> (\<forall>c. is_scalar c \<longrightarrow> ckValues (asCkpt b) c = map (val c) [0..<numArchRegs I c]
          \<and> ckValid (asCkpt b) c = [0..<numArchRegs I c]
          \<and> asDebug b c = map (val c) [0..<numArchRegs I c])"

lemma restorable_view: "arch_view s' = arch_view s \<Longrightarrow> restorable I val (csArch s') = restorable I val (csArch s)"
  by (simp add: restorable_def arch_view_def board_ok_def)

lemma restorable_frame:
  assumes "runahead_frame I a b" "restorable I val a"
  shows "restorable I val b"
  using assms by (auto simp: restorable_def runahead_frame_def ren_env_def)

lemma restorable_restores:
  assumes "restorable I val b"
  shows "\<exists>a. restoreCheckpointState I (Inr ()) 0 b = Inr a \<and> restored I val b a"
  by (rule restore_main) (use assms in \<open>auto simp: restorable_def\<close>)

text \<open>
  The invariant, with the values \<open>val\<close>, the program counter, the traps taken, the instructions
  counted and the commit map of the entry.  Either the thread runs ahead, or it has left and the
  restore is due at the end of the next cycle.
\<close>

definition running_ahead :: "commit_state \<Rightarrow> bool" where
  "running_ahead s \<longleftrightarrow> csInRunahead s 0 \<and> \<not> csArchRestore s 0 \<and> \<not> csArchRestorePrev s 0"

definition has_left :: "commit_state \<Rightarrow> bool" where
  "has_left s \<longleftrightarrow> \<not> csInRunahead s 0 \<and> \<not> csArchRestore s 0 \<and> csArchRestorePrev s 0 \<and> left 0 s"

definition period_inv where
  "period_inv C val pc e s \<longleftrightarrow> restorable (ccIsa C) val (csArch s) \<and> csStoredPC s 0 = pc \<and> csActive s = [0]
     \<and> all_flagged s \<and> csTraps s = csTraps e \<and> csNumInst s = csNumInst e
     \<and> rsCommit (asRen (csArch s)) = rsCommit (asRen (csArch e)) \<and> (running_ahead s \<or> has_left s)"

lemma inv_calm:
  assumes "calm s s'" "period_inv C val pc e s" "has_left s \<Longrightarrow> left 0 s'"
  shows "period_inv C val pc e s'"
  using assms restorable_view[of s' s]
  by (auto simp: period_inv_def calm_def arch_view_def running_ahead_def has_left_def)

lemma resp_left: "recv_runahead_resp C i rc s = Inr (b, s') \<Longrightarrow> has_left s \<Longrightarrow> diTid i = 0 \<Longrightarrow> s' = s"
  by (auto simp: recv_runahead_resp_def instCausedRunahead_def has_left_def split_res split: if_splits)

lemma event_left: "run_event e s = Inr s' \<Longrightarrow> has_left s \<Longrightarrow> has_left s'"
  by (auto simp: run_event_def deadline_event_def processTrapEvent_def has_left_def left_def set_exit_def
      count_cause_def split_res split: commit_event.splits if_splits)

lemma run_due_left:
  assumes "run_due_events s = Inr s'" "has_left s"
  shows "has_left s'"
proof (rule foldE_inv[OF assms(1)[unfolded run_due_events_def], where P = has_left])
  show "has_left (s\<lparr>csEvents := filter (\<lambda>(d, e). csNow s < d) (csEvents s)\<rparr>)"
    using assms(2) by (simp add: has_left_def left_def)
  show "has_left u \<Longrightarrow> (\<lambda>(d, e). run_event e) x u = Inr v \<Longrightarrow> has_left v" for x u v
    using event_left by (cases x) auto
qed

lemma env_inv:
  assumes "env_step C s s'" "period_inv C val pc e s"
  shows "period_inv C val pc e s'"
proof -
  obtain a r fr k where s': "s' = s\<lparr>csArch := a, csRob := r, csFront := fr, csIntCtl := k\<rparr>"
    "runahead_frame (ccIsa C) (csArch s) a" "rsCommit (asRen a) = rsCommit (asRen (csArch s))"
    "all_flagged s \<longrightarrow> all_flagged s'"
    using assms(1) by (auto simp: env_step_def)
  have "restorable (ccIsa C) val a"
    using restorable_frame[OF s'(2)] assms(2) by (simp add: period_inv_def)
  then show ?thesis
    using s'(1,3,4) assms(2) by (auto simp: period_inv_def running_ahead_def has_left_def left_def)
qed

lemma advance_flagged: "all_flagged (advance_cycle s) = all_flagged s"
  by (simp add: all_flagged_def advance_cycle_def)

lemma hazard_inv: "period_inv C val pc e s \<Longrightarrow> runahead_hazard s"
  by (auto simp: period_inv_def running_ahead_def has_left_def runahead_hazard_def)

lemma due_inv: "run_due_events s = Inr u \<Longrightarrow> period_inv C val pc e s \<Longrightarrow> period_inv C val pc e u"
  by (rule inv_calm[OF run_due_calm]) (auto dest: run_due_left simp: has_left_def)

lemma cycle_inv:
  assumes "run_due_events s = Inr u" "rename_ok J u" "\<not> csArchRestorePrev u 0" "commit_tick C J u = Inr v"
    "ccThreads C = 1" "period_inv C val pc e s"
  shows "period_inv C val pc e (advance_cycle v)"
proof -
  note I = due_inv[OF assms(1,6)]
  have ra: "running_ahead u" using I assms(3) by (auto simp: period_inv_def has_left_def)
  have fl: "csActive u = [0]" "all_flagged u" using I by (simp_all add: period_inv_def)
  note P = tick_in_period[OF assms(4,5) fl(1) hazard_inv[OF I] fl(2) assms(2,3)]
  have v: "arch_view v = arch_view u" "all_flagged v" using P fl(2) by (simp_all add: period_effect_def)
  have "running_ahead (advance_cycle v) \<or> has_left (advance_cycle v)"
  proof (cases "exit_turn 0 u")
    case True
    then have e: "csInRunahead v = (csInRunahead u)(0 := False)"
      "csArchRestore v = (csArchRestore u)(0 := True)" "left 0 v"
      using P by (simp_all add: period_effect_def)
    have "left 0 (advance_cycle v) = left 0 v" by (rule left_same) (simp_all add: advance_cycle_def)
    then have "has_left (advance_cycle v)" using e by (simp add: has_left_def advance_cycle_def)
    then show ?thesis by simp
  next
    case False
    then have "csInRunahead v = csInRunahead u" "csArchRestore v = csArchRestore u"
      using P by (simp_all add: period_effect_def)
    then have "running_ahead (advance_cycle v)" using ra by (simp add: running_ahead_def advance_cycle_def)
    then show ?thesis by simp
  qed
  moreover have "csArch (advance_cycle v) = csArch v" by (simp add: advance_cycle_def)
  ultimately show ?thesis
    using I v restorable_view[OF v(1), of "ccIsa C" val] advance_flagged[of v]
    by (simp add: period_inv_def arch_view_def advance_cycle_def)
qed

lemma step_inv:
  assumes "period_step C s s'" "ccThreads C = 1" "period_inv C val pc e s"
  shows "period_inv C val pc e s'"
  using assms(1)
proof (cases rule: period_step.cases)
  case ps_env
  then show ?thesis using env_inv assms(3) by blast
next
  case (ps_resp i rc b)
  show ?thesis
    by (rule inv_calm[OF resp_calm[OF ps_resp(1)] assms(3)])
      (use resp_left[OF ps_resp(1) _ ps_resp(2)] in \<open>auto simp: has_left_def\<close>)
next
  case (ps_cycle u J v)
  then show ?thesis using cycle_inv[OF _ _ _ _ assms(2,3)] by blast
qed

lemma steps_inv:
  assumes "(period_step C)\<^sup>*\<^sup>* s s'" "ccThreads C = 1" "period_inv C val pc e s"
  shows "period_inv C val pc e s'"
  using assms(1) by (induction rule: rtranclp_induct) (use assms(2,3) in \<open>blast intro: step_inv\<close>)+

text \<open>The cycle after the exit restores; its sanity check has passed if the cycle succeeded.\<close>

lemma sanity_passed:
  assumes "restoreCheckpointState I c t b = Inr a"
  shows "restoreCheckpointState I (Inr ()) t b = Inr a"
proof -
  obtain x where "c = Inr x" using assms by (auto simp: restoreCheckpointState_def bindE_ok)
  then show ?thesis using assms by simp
qed

lemma final_cycle:
  assumes "run_due_events s = Inr u" "rename_ok J u" "commit_tick C J u = Inr v" "ccThreads C = 1"
    "period_inv C val pc e s" "has_left s"
  shows "restored (ccIsa C) val (csArch v) (csArch v) \<and> csTraps v = csTraps e \<and> csNumInst v = csNumInst e"
proof -
  note I = due_inv[OF assms(1,5)]
  have prev: "csArchRestorePrev u 0" using run_due_left[OF assms(1,6)] by (simp add: has_left_def)
  have fl: "csActive u = [0]" "all_flagged u" using I by (simp_all add: period_inv_def)
  obtain w x where w: "period_effect u w" "updateRunaheadState C J 0 w = Inr x" "v = updateStatus x"
    by (rule tick_period[OF assms(3,4) fl(1) hazard_inv[OF I] fl(2) assms(2)])
  have view: "arch_view w = arch_view u" using w(1) by (simp add: period_effect_def)
  have "csArchRestorePrev w 0" using view prev by (simp add: arch_view_def)
  from end_of_cycle_restores[OF w(2) this] obtain a where
    a: "restoreCheckpointState (ccIsa C) (rob_archRestoreSanityCheck (csRob w) 0) 0 (csArch w) = Inr a"
    "csArch x = a" "csTraps x = csTraps w" "csNumInst x = csNumInst w" by blast
  have "restorable (ccIsa C) val (csArch w)"
    using I restorable_view[OF view] by (simp add: period_inv_def)
  then obtain a' where "restoreCheckpointState (ccIsa C) (Inr ()) 0 (csArch w) = Inr a'"
    "restored (ccIsa C) val (csArch w) a'" using restorable_restores by blast
  then have r: "restored (ccIsa C) val (csArch w) a" using sanity_passed[OF a(1)] by simp
  have "csArch v = a" "csTraps v = csTraps w" "csNumInst v = csNumInst w"
    using a w(3) by (simp_all add: updateStatus_def Let_def)
  moreover have "csTraps w = csTraps e" "csNumInst w = csNumInst e"
    using I view by (simp_all add: period_inv_def arch_view_def)
  ultimately show ?thesis using r by (simp add: restored_def)
qed

section \<open>The period of an entry\<close>

text \<open>The cycle that enters, and the state at the beginning of the cycle after it.\<close>

definition entry_tick :: "commit_cfg \<Rightarrow> tick_in \<Rightarrow> commit_state \<Rightarrow> commit_state \<Rightarrow> bool" where
  "entry_tick C J s s' \<longleftrightarrow> commit_tick C J s = Inr s' \<and> ccThreads C = 1 \<and> csActive s = [0]
     \<and> \<not> csInRunahead s 0 \<and> csInRunahead s' 0 \<and> \<not> csArchRestore s 0 \<and> \<not> csArchRestorePrev s 0
     \<and> ckpt_wf (ccIsa C) (asCkpt (csArch s)) \<and> entry_ok C s'"

lemma entry_inv:
  assumes "entry_tick C J s s'"
  shows "period_inv C (arch_value (asFile (csArch s')) (asRen (csArch s')) 0) (csPC s' 0) s' (advance_cycle s')"
proof -
  note t = assms[unfolded entry_tick_def]
  have e: "entry_of C J s s'" using tick_enters t by blast
  note S = entry_state[OF e]
  have ok: "entry_ok C s'" using t by blast
  have st: "all_flagged s'" "csStoredPC s' 0 = csPC s' 0" "csArchRestore s' = csArchRestore s"
    and ck: "\<forall>c. is_scalar c \<longrightarrow>
         ckpt_holds (ccIsa C) (asFile (csArch s')) (asRen (csArch s')) 0 (asCkpt (csArch s')) c
       \<and> debug_holds (ccIsa C) (asFile (csArch s')) (asRen (csArch s')) 0 (asDebug (csArch s')) c"
    using S t by blast+
  have "restorable (ccIsa C) (arch_value (asFile (csArch s')) (asRen (csArch s')) 0) (csArch s')"
    using ok ck unfolding restorable_def entry_ok_def ckpt_holds_def debug_holds_def by blast
  moreover have "csActive s' = [0]" using entry_keeps(1)[OF e] t by simp
  moreover have "csArch (advance_cycle s') = csArch s'" by (simp add: advance_cycle_def)
  moreover have "running_ahead (advance_cycle s')"
    using t st(3) by (simp add: running_ahead_def advance_cycle_def)
  ultimately show ?thesis
    using st(1,2) by (simp add: period_inv_def advance_flagged) (simp add: advance_cycle_def)
qed

lemma restored_reads:
  assumes "restored I (arch_value rf r 0) a a" "commit_wf I rf r 0" "is_scalar c" "i < numArchRegs I c"
  shows "getArchReg I (asFile a) (asRen a) (arch_reg c i) 0 = getArchReg I rf r (arch_reg c i) 0"
  using assms getArchReg_ok[OF assms(2-4)] by (simp add: restored_def)

text \<open>
  C2: a runahead period takes no trap, counts no instruction and does not touch the commit
  map.  Enter runahead in a cycle of commit, then let the other stages rename, write and
  poison registers, let memory respond, and let cycles of commit pass, in any number and any
  order, until the thread has left and the restore is due: the traps taken, the instructions
  counted and the commit map are those of the entry, and once the thread has left runahead its
  program counter is the one of the entry.
\<close>

theorem runahead_period_commits_nothing:
  assumes "entry_tick C J s0 s1" "(period_step C)\<^sup>*\<^sup>* (advance_cycle s1) s2"
  shows "csTraps s2 = csTraps s1 \<and> csNumInst s2 = csNumInst s1
     \<and> rsCommit (asRen (csArch s2)) = rsCommit (asRen (csArch s1))
     \<and> (\<not> csInRunahead s2 0 \<longrightarrow> csPC s2 0 = csPC s1 0 \<and> csArchRestorePrev s2 0)"
proof -
  have "ccThreads C = 1" using assms(1) by (simp add: entry_tick_def)
  from steps_inv[OF assms(2) this entry_inv[OF assms(1)]] show ?thesis
    by (auto simp: period_inv_def running_ahead_def has_left_def left_def)
qed


end
