(* ===== verification/RunaheadExample.thy ===== *)
theory RunaheadExample
  imports RunaheadRoundTrip
begin

text \<open>
  A runahead period on a small machine: one thread, one load in flight that missed.  It gives the
  properties of the runahead period a concrete run.
\<close>

section \<open>The machine\<close>

definition ex_cfg :: commit_cfg where
  "ex_cfg = \<lparr>ccIsa = small_isa, ccPolicy = EagerExit, ccMinWork = 0, ccDeadline = 50, ccCommitPolicy = RoundRobin,
     ccThreads = 1, ccCommitWidth = 1, ccRenameWidth = 1, ccTrapLatency = 13, ccSyscallRetryLatency = 1,
     ccRunaheadEnabled = True, ccEagerEntry = True, ccInFlightThreshold = 100, ccAllowOverlap = True,
     ccFiltered = False, ccLLLDepth = 2, ccFullSystem = False, ccPinned = (\<lambda>_. False),
     ccMiscValid = (\<lambda>_. True), ccReadMisc = (\<lambda>_. 0), ccSamePC = (\<lambda>i j. diPC i = diPC j),
     ccOverlap = (\<lambda>_. None), ccAdvance = (\<lambda>_ (a, _). (a + 4, 0)), ccInvoke = (\<lambda>_ _. (0, 0)),
     ccIntCheck = (\<lambda>_. False), ccIntGet = (\<lambda>_. None), ccIntClear = id, ccIntProcess = id,
     ccPCEvent = (\<lambda>_ _. None)\<rparr>"

text \<open>The load at the head: its request went to memory and both caches missed.\<close>

definition ex_load :: dyn_inst where
  "ex_load = \<lparr>diSeq = 5, diTid = 0, diPC = (20, 0), diProps = {IsLoad, IsMemRef}, diStatus = {RobEntry, Issued},
     diFlags = {ReqMade}, diSrcs = [], diDests = [], diReadyRegs = 0, diReadySrc = [],
     diSavedReq = Some \<lparr>rqRunahead = False, rqComplete = False, rqSent = True, rqDepths = [2]\<rparr>,
     diFault = None, diFlatDests = [], diFirstIssue = 7\<rparr>"

definition ex_rob :: rob where
  "ex_rob = (small_rob [])\<lparr>instList := (\<lambda>t. if t = 0 then [ex_load] else []),
     threadEntries := (\<lambda>t. if t = 0 then 1 else 0), numInstsInROB := 1,
     robHead := (0, Some 5), robTail := (0, Some 5)\<rparr>"

definition ex_start :: commit_state where
  "ex_start = \<lparr>csNow = 10, csArch = small_arch_state, csRob = ex_rob, csRCache = small_rc, csFront = [], csActive = [0],
     csExiting = (\<lambda>_. False), csInRunahead = (\<lambda>_. False), csCpuCause = (\<lambda>_. None), csChain = [],
     csEnteredTick = 0, csFetchedBetween = (\<lambda>_. 0), csEvents = [], csTraps = [], csIntCtl = 0,
     csNumInst = (\<lambda>_. 4), csTrapPending = (\<lambda>_. False), csNoSquashTC = (\<lambda>_. False),
     csStatus = (\<lambda>_. CommitRunning), csPC = (\<lambda>_. (20, 0)), csStoredPC = (\<lambda>_. (0, 0)),
     csPseudoretired = (\<lambda>_. 0), csBetween = (\<lambda>_. 4), csWroteTB = False, csChangedROB = (\<lambda>_. False),
     csTrapSquash = (\<lambda>_. False), csTcSquash = (\<lambda>_. False), csExitable = (\<lambda>_. False), csExitSeqNum = 0,
     csNumLLLs = 0, csExit = (\<lambda>_. False), csWasRunahead = (\<lambda>_. False), csCause = (\<lambda>_. None),
     csInfo = \<lparr>rfExitCycles = -1, rfEnterCycles = -1, rfIqInsts = 0, rfIqSeqNum = 0, rfIqEmpty = True, rfROBInsts = 0\<rparr>,
     csSquashAfterInst = (\<lambda>_. None), csPriority = [], csDrainPending = False, csDrainImminent = False,
     csInterrupt = None, csYoungest = (\<lambda>_. 5), csLastCommitted = (\<lambda>_. 4), csTrapInFlight = (\<lambda>_. False),
     csCommittedStores = (\<lambda>_. False), csCheckEmpty = (\<lambda>_. False), csCanHandleInt = True, csAvoidLiveLock = False,
     csHtmStarts = (\<lambda>_. 0), csHtmStops = (\<lambda>_. 0), csExitCauses = (\<lambda>_. 0), csStageActive = True, csNextActive = False,
     csInfoOut = (\<lambda>_. empty_info), csArchRestore = (\<lambda>_. False), csArchRestorePrev = (\<lambda>_. False)\<rparr>"

definition ex_in :: tick_in where
  "ex_in = \<lparr>tiSquash = (\<lambda>_. False), tiSquashedSeq = (\<lambda>_. 0), tiIncludeSquash = (\<lambda>_. False), tiMispredict = (\<lambda>_. None),
     tiBranchTaken = (\<lambda>_. False), tiPC = (\<lambda>_. (0, 0)), tiCompleted = [], tiFromRename = [], tiIqSize = (\<lambda>_. 0),
     tiIqYoungest = (\<lambda>_. None), tiStoresToWB = (\<lambda>_. False)\<rparr>"

lemma ex_cfg_fields [simp]:
  "ccIsa ex_cfg = small_isa" "ccPolicy ex_cfg = EagerExit" "ccMinWork ex_cfg = 0" "ccDeadline ex_cfg = 50"
  "ccCommitPolicy ex_cfg = RoundRobin" "ccThreads ex_cfg = 1" "ccCommitWidth ex_cfg = 1"
  "ccRenameWidth ex_cfg = 1" "ccTrapLatency ex_cfg = 13" "ccSyscallRetryLatency ex_cfg = 1"
  "ccRunaheadEnabled ex_cfg = True" "ccEagerEntry ex_cfg = True" "ccInFlightThreshold ex_cfg = 100"
  "ccAllowOverlap ex_cfg = True" "ccFiltered ex_cfg = False" "ccLLLDepth ex_cfg = 2"
  "ccFullSystem ex_cfg = False" "ccPinned ex_cfg = (\<lambda>_. False)"
  "ccMiscValid ex_cfg = (\<lambda>_. True)" "ccReadMisc ex_cfg = (\<lambda>_. 0)"
  "ccSamePC ex_cfg = (\<lambda>i j. diPC i = diPC j)" "ccOverlap ex_cfg = (\<lambda>_. None)"
  "ccAdvance ex_cfg = (\<lambda>_ (a, _). (a + 4, 0))" "ccInvoke ex_cfg = (\<lambda>_ _. (0, 0))"
  "ccIntCheck ex_cfg = (\<lambda>_. False)" "ccIntGet ex_cfg = (\<lambda>_. None)" "ccIntClear ex_cfg = id"
  "ccIntProcess ex_cfg = id" "ccPCEvent ex_cfg = (\<lambda>_ _. None)"
  by (simp_all add: ex_cfg_def)

lemma ex_load_fields [simp]:
  "diSeq ex_load = 5" "diTid ex_load = 0" "diPC ex_load = (20, 0)" "diProps ex_load = {IsLoad, IsMemRef}"
  "diStatus ex_load = {RobEntry, Issued}" "diFlags ex_load = {ReqMade}" "diSrcs ex_load = []" "diDests ex_load = []"
  "diReadyRegs ex_load = 0" "diReadySrc ex_load = []"
  "diSavedReq ex_load = Some \<lparr>rqRunahead = False, rqComplete = False, rqSent = True, rqDepths = [2]\<rparr>"
  "diFault ex_load = None" "diFlatDests ex_load = []" "diFirstIssue ex_load = 7"
  by (simp_all add: ex_load_def)

lemma ex_start_fields [simp]:
  "csNow ex_start = 10" "csArch ex_start = small_arch_state" "csRob ex_start = ex_rob"
  "csRCache ex_start = small_rc" "csFront ex_start = []" "csActive ex_start = [0]"
  "csExiting ex_start = (\<lambda>_. False)" "csInRunahead ex_start = (\<lambda>_. False)"
  "csCpuCause ex_start = (\<lambda>_. None)" "csChain ex_start = []" "csEnteredTick ex_start = 0"
  "csFetchedBetween ex_start = (\<lambda>_. 0)" "csEvents ex_start = []" "csTraps ex_start = []"
  "csIntCtl ex_start = 0" "csNumInst ex_start = (\<lambda>_. 4)"
  "csTrapPending ex_start = (\<lambda>_. False)" "csNoSquashTC ex_start = (\<lambda>_. False)"
  "csStatus ex_start = (\<lambda>_. CommitRunning)" "csPC ex_start = (\<lambda>_. (20, 0))"
  "csStoredPC ex_start = (\<lambda>_. (0, 0))" "csPseudoretired ex_start = (\<lambda>_. 0)"
  "csBetween ex_start = (\<lambda>_. 4)" "csWroteTB ex_start = False"
  "csChangedROB ex_start = (\<lambda>_. False)" "csTrapSquash ex_start = (\<lambda>_. False)"
  "csTcSquash ex_start = (\<lambda>_. False)" "csExitable ex_start = (\<lambda>_. False)"
  "csExitSeqNum ex_start = 0" "csNumLLLs ex_start = 0" "csExit ex_start = (\<lambda>_. False)"
  "csWasRunahead ex_start = (\<lambda>_. False)" "csCause ex_start = (\<lambda>_. None)"
  "csInfo ex_start = \<lparr>rfExitCycles = -1, rfEnterCycles = -1, rfIqInsts = 0, rfIqSeqNum = 0, rfIqEmpty = True, rfROBInsts = 0\<rparr>"
  "csSquashAfterInst ex_start = (\<lambda>_. None)" "csPriority ex_start = []"
  "csDrainPending ex_start = False" "csDrainImminent ex_start = False" "csInterrupt ex_start = None"
  "csYoungest ex_start = (\<lambda>_. 5)" "csLastCommitted ex_start = (\<lambda>_. 4)"
  "csTrapInFlight ex_start = (\<lambda>_. False)" "csCommittedStores ex_start = (\<lambda>_. False)"
  "csCheckEmpty ex_start = (\<lambda>_. False)" "csCanHandleInt ex_start = True"
  "csAvoidLiveLock ex_start = False" "csHtmStarts ex_start = (\<lambda>_. 0)"
  "csHtmStops ex_start = (\<lambda>_. 0)" "csExitCauses ex_start = (\<lambda>_. 0)"
  "csStageActive ex_start = True" "csNextActive ex_start = False"
  "csInfoOut ex_start = (\<lambda>_. empty_info)" "csArchRestore ex_start = (\<lambda>_. False)"
  "csArchRestorePrev ex_start = (\<lambda>_. False)"
  by (simp_all add: ex_start_def)

lemma ex_in_fields [simp]:
  "tiSquash ex_in = (\<lambda>_. False)" "tiSquashedSeq ex_in = (\<lambda>_. 0)"
  "tiIncludeSquash ex_in = (\<lambda>_. False)" "tiMispredict ex_in = (\<lambda>_. None)"
  "tiBranchTaken ex_in = (\<lambda>_. False)" "tiPC ex_in = (\<lambda>_. (0, 0))" "tiCompleted ex_in = []"
  "tiFromRename ex_in = []" "tiIqSize ex_in = (\<lambda>_. 0)" "tiIqYoungest ex_in = (\<lambda>_. None)"
  "tiStoresToWB ex_in = (\<lambda>_. False)"
  by (simp_all add: ex_in_def)

definition ex_saved :: arch_state where
  "ex_saved = projr (save_arch_state small_isa (\<lambda>_. True) (\<lambda>_. 0) 0 small_arch_state)"

lemma ex_saved: "save_arch_state small_isa (\<lambda>_. True) (\<lambda>_. 0) 0 small_arch_state = Inr ex_saved"
  using small_save unfolding ex_saved_def by auto

lemma ex_rob_fields [simp]:
  "instList ex_rob 0 = [ex_load]" "threadEntries ex_rob 0 = 1" "numEntries ex_rob = 4" "squashWidth ex_rob = 2"
  "robThreads ex_rob = 1" "numInstsInROB ex_rob = 1" "doneSquashing ex_rob 0" "maxEntries ex_rob 0 = 4"
  by (simp_all add: ex_rob_def small_rob_def)

lemma enter_ex:
  assumes "csRob s = ex_rob" "csArch s = small_arch_state" "csNow s = 10" "\<not> csInRunahead s 0"
  shows "enterRunahead ex_cfg 0 s = Inr (True, entered 0 ex_load ex_saved (csChain s) s)"
  by (rule enter_succeeds) (use assms in \<open>simp_all add: ex_saved canEnterRunahead_def usub64_def
      Let_def assertE_def rob_readHeadInst_def has_prop_def has_status_def has_flag_def\<close>)

lemma entry_marks_everything_in_flight_witness:
  "csStoredPC (entered 0 ex_load ex_saved [] ex_start) 0 = (20, 0)
   \<and> (\<exists>j. instList (csRob (entered 0 ex_load ex_saved [] ex_start)) 0 = [j] \<and> has_flag Poisoned j)"
proof -
  have "enterRunahead ex_cfg 0 ex_start = Inr (True, entered 0 ex_load ex_saved [] ex_start)"
    using enter_ex[of ex_start] by simp
  from entry_marks_everything_in_flight[OF this] show ?thesis by (auto simp: Cons_eq_map_conv)
qed

lemma loop1:
  assumes "csRob s = ex_rob" "csArch s = small_arch_state" "csNow s = 10" "\<not> csInRunahead s 0"
    "csActive s = [0]" "csStatus s 0 = CommitRunning" "csInterrupt s = None"
  shows "commitInsts ex_cfg J s = Inr (note_entry J 0 (entered 0 ex_load ex_saved (csChain s) s))"
proof -
  have "commit_round ex_cfg J 0 s = Inr (False, 0, note_entry J 0 (entered 0 ex_load ex_saved (csChain s) s))"
    by (simp add: commit_round_def getCommittingThread_def can_commit_now_def commit_interrupt_def
        rob_readHeadInst_def rob_isHeadReady_def has_prop_def has_status_def has_flag_def assms inspect_unready_head_def
        lll_at_head_def enter_ex assertE_def)
  then show ?thesis by (simp add: commitInsts_def commit_loop.simps[of _ _ 0])
qed

text \<open>The load once runahead has marked it and forged its response.\<close>

definition ex_marked :: dyn_inst where
  "ex_marked = lll_mark (runahead_mark 0 ex_load)"

lemma ex_marked_fields [simp]:
  "diSeq ex_marked = 5" "diTid ex_marked = 0" "diProps ex_marked = {IsLoad, IsMemRef}"
  "diStatus ex_marked = {Executed, RobEntry, Issued}"
  "diFlags ex_marked = {ForgedResponse, Poisoned, Runahead, ReqMade}" "diPC ex_marked = (20, 0)"
  "diDests ex_marked = []" "diFault ex_marked = None"
  by (auto simp: ex_marked_def lll_mark_def runahead_mark_def Let_def set_flag_def set_status_def has_flag_def has_status_def)

text \<open>The cycle that enters.\<close>

definition ex_mid :: commit_state where
  "ex_mid = note_entry ex_in 0 (entered 0 ex_load ex_saved []
     (ex_start\<lparr>csCommittedStores := (\<lambda>_. False)(0 := False)\<rparr>))"

definition ex_run :: commit_state where
  "ex_run = updateStatus (ex_mid\<lparr>csWasRunahead := (\<lambda>_. False)(0 := True)\<rparr>)"

lemma ex_mid_fields [simp]:
  "csActive ex_mid = [0]" "csChangedROB ex_mid = (\<lambda>_. False)" "csCheckEmpty ex_mid = (\<lambda>_. False)"
  "csArchRestorePrev ex_mid = (\<lambda>_. False)" "csInRunahead ex_mid = (\<lambda>_. False)(0 := True)"
  "csWasRunahead ex_mid = (\<lambda>_. False)" "rfIqEmpty (csInfo ex_mid) = True"
  "threadEntries (csRob ex_mid) 0 = 1"
  "instList (csRob ex_mid) 0 = [ex_marked]"
  by (simp_all add: ex_mid_def note_entry_def entered_list ex_marked_def)
     (simp_all add: entered_def lll_update_def put_inst_def Let_def)

lemma ex_start_same: "ex_start\<lparr>csWroteTB := False, csNextActive := False, csInfo := csInfo ex_start\<rparr> = ex_start"
  by (simp add: ex_start_def)

lemma tick1: "commit_tick ex_cfg ex_in ex_start = Inr ex_run"
proof -
  have "continue_squash ex_cfg 0 ex_start = Inr (ex_start\<lparr>csCommittedStores := (\<lambda>_. False)(0 := False)\<rparr>)"
    by (simp add: continue_squash_def Let_def)
  moreover have "count_mode_cycles (ex_start\<lparr>csWroteTB := False, csNextActive := False\<rparr>) = ex_start"
    using ex_start_same by (simp add: count_mode_cycles_def Let_def)
  moreover have "commit ex_cfg ex_in (ex_start\<lparr>csCommittedStores := (\<lambda>_. False)(0 := False)\<rparr>) = Inr ex_mid"
    by (simp add: commit_def squash_thread_def squashFromIEW_def squashing_threads_def getInsts_def loop1 Let_def
       ex_mid_def[symmetric] report_rob_def)
  moreover have "check_head 0 ex_mid = Inr ex_mid"
    by (simp add: check_head_def rob_isEmptyOf_def rob_readHeadInst_def rob_isHeadReady_def assertE_def has_status_def)
  moreover have "updateRunaheadState ex_cfg ex_in 0 ex_mid = Inr (ex_mid\<lparr>csWasRunahead := (\<lambda>_. False)(0 := True)\<rparr>)"
    by (simp add: updateRunaheadState_def do_arch_restore_def check_nllb_def check_min_work_def track_overhead_def Let_def)
  ultimately show ?thesis
    by (simp add: commit_tick_def Let_def markCompletedInsts_def ex_run_def)
qed

lemma ex_entry: "entry_tick ex_cfg ex_in ex_start ex_run"
proof -
  have "csArch ex_mid = ex_saved" "csInRunahead ex_mid 0" by (simp_all add: ex_mid_def note_entry_def)
  moreover have "asFile ex_saved = small_rf" "asRen ex_saved = small_start"
    using save_frame[OF ex_saved] by (simp_all add: small_arch_state_def)
  moreover have "rsFree small_start c = []" if "c \<notin> set rename_classes" for c
    using small_save save_frame[OF ex_saved] ex_saved that
    by (auto simp: runahead_frame_def small_runahead_def Let_def small_arch_state_def)
  ultimately have "entry_ok ex_cfg ex_run"
    using small_env small_fits small_commit_wf ren_invD(5)[OF small_start_inv zero_less_one]
    by (auto simp: entry_ok_def ex_run_def updateStatus_def Let_def own_rob_def has_status_def small_arch_state_def
        board_ok_def)
  then show ?thesis
    using tick1 \<open>csInRunahead ex_mid 0\<close>
    by (simp add: entry_tick_def ex_run_def updateStatus_def Let_def) (simp add: small_arch_state_def new_ckpt_wf)
qed

text \<open>Memory responds: the exit is signalled, and the eager policy takes it at once.\<close>

definition ex_next :: commit_state where
  "ex_next = advance_cycle ex_run"

definition ex_out :: commit_state where
  "ex_out = set_exit CauseEager 0 (ex_next\<lparr>csExitable := (\<lambda>_. False)(0 := True), csCause := (\<lambda>_. None)(0 := Some 5)\<rparr>)"

lemma ex_resp: "recv_runahead_resp ex_cfg ex_marked False ex_next = Inr (False, ex_out)"
proof -
  have "csInRunahead ex_next 0" "csCpuCause ex_next 0 = Some 5" "csExitable ex_next = (\<lambda>_. False)"
    "csCause ex_next = (\<lambda>_. None)"
    by (simp_all add: ex_next_def advance_cycle_def ex_run_def updateStatus_def ex_mid_def note_entry_def entered_def
      lll_update_def put_inst_def Let_def)
  then show ?thesis
    by (simp add: recv_runahead_resp_def has_flag_def instCausedRunahead_def runaheadLLLReturn_def signalExitRunahead_def
        exit_by_policy_def ex_out_def set_exit_def count_cause_def)
qed

text \<open>The cycle that leaves.\<close>

definition ex_due :: commit_state where
  "ex_due = ex_out\<lparr>csEvents := []\<rparr>"

lemma ex_due: "run_due_events ex_out = Inr ex_due"
proof -
  have "csNow ex_out = 11" "csEvents ex_out = [(10, ForgedWriteback 5)]"
    by (simp_all add: ex_out_def ex_next_def advance_cycle_def set_exit_def count_cause_def ex_run_def updateStatus_def
        ex_mid_def note_entry_def entered_def lll_update_def put_inst_def Let_def)
  then show ?thesis by (simp add: run_due_events_def run_event_def ex_due_def)
qed

lemma ex_due_fields [simp]:
  "csActive ex_due = [0]" "csStatus ex_due = (\<lambda>_. CommitRunning)" "csTrapSquash ex_due = (\<lambda>_. False)"
  "csTcSquash ex_due = (\<lambda>_. False)" "csExit ex_due = (\<lambda>_. False)(0 := True)" "csCause ex_due 0 = Some 5"
  "csFront ex_due = []" "csArchRestorePrev ex_due = (\<lambda>_. False)" "csRob ex_due = csRob ex_mid"
  "csExiting ex_due = (\<lambda>_. False)"
  by (simp_all add: ex_due_def ex_out_def ex_next_def advance_cycle_def set_exit_def count_cause_def ex_run_def
        updateStatus_def ex_mid_def note_entry_def entered_def lll_update_def put_inst_def Let_def)

definition ex_dead :: dyn_inst where
  "ex_dead = ex_marked\<lparr>diStatus := {CanCommit, Squashed, Executed, RobEntry, Issued}\<rparr>"

definition ex_rob2 :: rob where
  "ex_rob2 = (csRob ex_mid)\<lparr>instList := (instList (csRob ex_mid))(0 := [ex_dead]),
     robStatus := (robStatus (csRob ex_mid))(0 := RobSquashing), squashedSeqNum := (squashedSeqNum (csRob ex_mid))(0 := 4),
     squashIt := (squashIt (csRob ex_mid))(0 := None), doneSquashing := (doneSquashing (csRob ex_mid))(0 := True)\<rparr>"

lemma ex_kill: "squash_loop (\<lambda>_. False) 2 4 [ex_marked] (Some 5) pc False = Inr ([ex_dead], None, pc, False, True)"
proof -
  have "setSquashed (\<lambda>_. False) (ex_marked, pc) = (set_status Squashed ex_marked, pc)"
    by (simp add: setSquashed_def set_status_def has_status_def)
  moreover have "set_status CanCommit (set_status Squashed ex_marked) = ex_dead"
    by (simp add: set_status_def ex_dead_def)
  moreover have "diSeq ex_dead = 5" by (simp add: ex_dead_def)
  ultimately show ?thesis by (simp add: numeral_2_eq_2 it_get_def it_set_def it_begin_def)
qed

lemma ex_squash: "rob_squash (\<lambda>_. False) False [0] 4 0 (csRob ex_mid, pc) = Inr (ex_rob2, pc)"
proof -
  have "squashWidth (csRob ex_mid) = 2"
    by (simp add: ex_mid_def note_entry_def entered_def lll_update_def put_inst_def Let_def)
  then show ?thesis
    by (simp add: rob_squash_def rob_isEmptyOf_def rob_doSquash_def it_get_def assertE_def Let_def ex_kill ex_rob2_def)
qed
definition ex_turn :: commit_state where
  "ex_turn = (count_mode_cycles (ex_due\<lparr>csWroteTB := False, csNextActive := False\<rparr>))
     \<lparr>csCommittedStores := (csCommittedStores ex_due)(0 := False)\<rparr>"

lemma ex_turn_fields [simp]:
  "csActive ex_turn = [0]" "csStatus ex_turn = (\<lambda>_. CommitRunning)" "csTrapSquash ex_turn = (\<lambda>_. False)"
  "csTcSquash ex_turn = (\<lambda>_. False)" "csExit ex_turn = (\<lambda>_. False)(0 := True)" "csCause ex_turn 0 = Some 5"
  "csFront ex_turn = []" "csArchRestorePrev ex_turn = (\<lambda>_. False)" "csRob ex_turn = csRob ex_mid"
  "csExiting ex_turn = (\<lambda>_. False)" "csInterrupt ex_turn = None" "csArch ex_turn = ex_saved"
  "csExitable ex_turn = (\<lambda>_. False)(0 := True)" "rfIqEmpty (csInfo ex_turn)" "csEvents ex_turn = []"
  "csWasRunahead ex_turn = (\<lambda>_. False)(0 := True)" "csCheckEmpty ex_turn = (\<lambda>_. False)"
  "csStoredPC ex_turn = (\<lambda>_. (0, 0))(0 := (20, 0))"
  by (simp_all add: ex_turn_def count_mode_cycles_def ex_due_def ex_out_def ex_next_def advance_cycle_def set_exit_def
        count_cause_def ex_run_def updateStatus_def ex_mid_def note_entry_def entered_def lll_update_def put_inst_def Let_def)

lemma ex_leave: "\<exists>u. squashFromRunaheadExit ex_cfg ex_in 0 ex_turn = Inr u \<and> csRob u = ex_rob2 \<and> csActive u = [0]
    \<and> csStatus u = (\<lambda>_. CommitRunning)(0 := ROBSquashing) \<and> csTrapSquash u = (\<lambda>_. False) \<and> csTcSquash u = (\<lambda>_. False)
    \<and> csInterrupt u = None \<and> csFront u = [] \<and> csArchRestorePrev u = (\<lambda>_. False) \<and> csEvents u = []
    \<and> rfIqEmpty (csInfo u) \<and> csCheckEmpty u = (\<lambda>_. False) \<and> \<not> csInRunahead u 0"
  by (simp add: squashFromRunaheadExit_def Let_def usub64_def squash_tail_def rob_isEmptyOf_def upd_info_def
      squash_rob_def cs_rob_step_def rob_readTailInst_def it_dec_def it_get_def it_begin_def ex_squash exitRunahead_def)
text \<open>What the last cycle needs to know of the state.\<close>

definition ex_frame :: "commit_state \<Rightarrow> bool" where
  "ex_frame u \<longleftrightarrow> csRob u = ex_rob2 \<and> csActive u = [0] \<and> csStatus u 0 = ROBSquashing
    \<and> csTrapSquash u = (\<lambda>_. False) \<and> csTcSquash u = (\<lambda>_. False) \<and> csInterrupt u = None \<and> csFront u = []
    \<and> csEvents u = [] \<and> \<not> csInRunahead u 0"

lemma ex_rob2_fields [simp]:
  "instList ex_rob2 0 = [ex_dead]" "threadEntries ex_rob2 0 = 1" "doneSquashing ex_rob2 0" "robThreads ex_rob2 = 1"
  "numInstsInROB ex_rob2 = 1"
  by (simp_all add: ex_rob2_def)
     (simp_all add: ex_mid_def note_entry_def entered_def lll_update_def put_inst_def Let_def)

lemma ex_dead_fields [simp]:
  "diSeq ex_dead = 5" "diTid ex_dead = 0" "diStatus ex_dead = {CanCommit, Squashed, Executed, RobEntry, Issued}"
  by (simp_all add: ex_dead_def)

lemma tick2: "\<exists>v. commit_tick ex_cfg ex_in ex_due = Inr v \<and> ex_frame v"
proof -
  obtain u where u: "squashFromRunaheadExit ex_cfg ex_in 0 ex_turn = Inr u" "csRob u = ex_rob2" "csActive u = [0]"
    "csStatus u = (\<lambda>_. CommitRunning)(0 := ROBSquashing)" "csTrapSquash u = (\<lambda>_. False)" "csTcSquash u = (\<lambda>_. False)"
    "csInterrupt u = None" "csFront u = []" "csArchRestorePrev u = (\<lambda>_. False)" "csEvents u = []"
    "rfIqEmpty (csInfo u)" "csCheckEmpty u = (\<lambda>_. False)" "\<not> csInRunahead u 0"
    using ex_leave by blast
  let ?w = "report_rob ex_in 0 (u\<lparr>csNextActive := True\<rparr>)"
  have w: "csRob ?w = ex_rob2" "csActive ?w = [0]" "csStatus ?w = csStatus u" "csTrapSquash ?w = (\<lambda>_. False)"
    "csTcSquash ?w = (\<lambda>_. False)" "csInterrupt ?w = None" "csFront ?w = []" "csArchRestorePrev ?w = (\<lambda>_. False)"
    "csEvents ?w = []" "rfIqEmpty (csInfo ?w)" "\<not> csInRunahead ?w 0"
    using u by (simp_all add: report_rob_def Let_def upd_info_def)
  have "continue_squash ex_cfg 0 (count_mode_cycles (ex_due\<lparr>csWroteTB := False, csNextActive := False\<rparr>)) = Inr ex_turn"
    by (simp add: continue_squash_def Let_def ex_turn_def count_mode_cycles_def)
  moreover have "csActive (count_mode_cycles (ex_due\<lparr>csWroteTB := False, csNextActive := False\<rparr>)) = [0]"
    by (simp add: count_mode_cycles_def Let_def)
  moreover have "commit ex_cfg ex_in ex_turn = Inr ?w"
    using u by (simp add: commit_def squash_thread_def squashFromIEW_def squashing_threads_def Let_def)
  moreover have "check_head 0 ?w = Inr (?w\<lparr>csNextActive := True\<rparr>)"
    using w by (simp add: check_head_def rob_isEmptyOf_def rob_readHeadInst_def rob_isHeadReady_def assertE_def has_status_def)
  moreover obtain x where "updateRunaheadState ex_cfg ex_in 0 (?w\<lparr>csNextActive := True\<rparr>) = Inr x"
    "x = ?w\<lparr>csNextActive := True, csWasRunahead := (csWasRunahead ?w)(0 := csInRunahead ?w 0)\<rparr>"
    using w by (simp add: updateRunaheadState_def do_arch_restore_def check_nllb_def check_min_work_def track_overhead_def Let_def)
  ultimately have "commit_tick ex_cfg ex_in ex_due = Inr (updateStatus x)"
    using w by (simp add: commit_tick_def Let_def markCompletedInsts_def)
  moreover have "ex_frame (updateStatus x)"
    using w u(4) \<open>x = _\<close> by (simp add: ex_frame_def updateStatus_def Let_def)
  ultimately show ?thesis by blast
qed
text \<open>The cycle that restores, and the squashed load leaves the reorder buffer.\<close>

lemma tick3:
  assumes "ex_frame s" "has_left s" "restorable small_isa val (csArch s)"
  shows "\<exists>v. commit_tick ex_cfg ex_in s = Inr v"
proof -
  note f = assms(1)[unfolded ex_frame_def] and l = assms(2)[unfolded has_left_def left_def]
  define g where "g = (count_mode_cycles (s\<lparr>csWroteTB := False, csNextActive := False\<rparr>))
     \<lparr>csCommittedStores := (csCommittedStores s)(0 := False), csStatus := (csStatus s)(0 := CommitRunning)\<rparr>"
  have g: "csRob g = ex_rob2" "csActive g = [0]" "csStatus g 0 = CommitRunning" "csTrapSquash g = (\<lambda>_. False)"
    "csTcSquash g = (\<lambda>_. False)" "csInterrupt g = None" "csFront g = []" "csArch g = csArch s" "\<not> csExit g 0"
    "csArchRestorePrev g 0"
    using f l by (simp_all add: g_def count_mode_cycles_def Let_def)
  obtain j r where r: "rob_retireHead [0] 0 ex_rob2 = Inr (j, r)" "instList r 0 = []" "threadEntries r 0 = 0"
    by (auto simp: rob_retireHead_def assertE_def has_status_def rob_updateHead_def)
  let ?h = "g\<lparr>csRob := r, csFront := [set_flag RemovePending j], csChangedROB := (csChangedROB g)(0 := True)\<rparr>"
  have "commit_round ex_cfg ex_in 0 g = Inr (True, 0, ?h)"
    using g r(1) by (simp add: commit_round_def getCommittingThread_def can_commit_now_def commit_interrupt_def
        rob_readHeadInst_def rob_isHeadReady_def has_status_def assertE_def commit_ready_head_def retire_head_def)
  moreover have "commit_round ex_cfg ex_in 0 ?h = Inr (False, 0, ?h)"
    using g r by (simp add: commit_round_def getCommittingThread_def can_commit_now_def commit_interrupt_def
        rob_readHeadInst_def)
  ultimately have loop: "commitInsts ex_cfg ex_in g = Inr ?h"
    by (simp add: commitInsts_def commit_loop.simps[of _ _ _ g] commit_loop.simps[of _ _ _ ?h])
  let ?w = "report_rob ex_in 0 ?h"
  have w: "csRob ?w = r" "csActive ?w = [0]" "csArch ?w = csArch s" "csArchRestorePrev ?w 0"
    using g by (simp_all add: report_rob_def Let_def upd_info_def)
  have "continue_squash ex_cfg 0 (count_mode_cycles (s\<lparr>csWroteTB := False, csNextActive := False\<rparr>)) = Inr g"
    using f by (simp add: continue_squash_def Let_def g_def count_mode_cycles_def)
  moreover have "csActive (count_mode_cycles (s\<lparr>csWroteTB := False, csNextActive := False\<rparr>)) = [0]"
    using f by (simp add: count_mode_cycles_def Let_def)
  moreover have "commit ex_cfg ex_in g = Inr ?w"
    using g w(2) loop by (simp add: commit_def squash_thread_def squashFromIEW_def squashing_threads_def getInsts_def Let_def)
  moreover have "check_head 0 ?w = Inr ?w"
    using w r by (simp add: check_head_def rob_isEmptyOf_def)
  moreover obtain x where "updateRunaheadState ex_cfg ex_in 0 ?w = Inr x"
  proof -
    have "rob_archRestoreSanityCheck r 0 = Inr ()" using r(2) by (simp add: rob_archRestoreSanityCheck_def assertE_def)
    moreover obtain a where "restoreCheckpointState small_isa (Inr ()) 0 (csArch s) = Inr a"
      using restorable_restores[OF assms(3)] by blast
    ultimately have "\<exists>x. updateRunaheadState ex_cfg ex_in 0 ?w = Inr x"
      using w by (simp add: updateRunaheadState_def do_arch_restore_def check_nllb_def)
    then show ?thesis using that by blast
  qed
  ultimately show ?thesis
    using w f by (simp add: commit_tick_def Let_def markCompletedInsts_def)
qed
section \<open>The run\<close>

lemma ex_rename_ok: "csFront s = [] \<Longrightarrow> rename_ok J s"
  by (simp add: rename_ok_def)

lemma ex_steps:
  obtains v where "(period_step ex_cfg)\<^sup>*\<^sup>* (advance_cycle ex_run) (advance_cycle v)" "ex_frame v"
    "\<not> csInRunahead (advance_cycle v) 0"
proof -
  obtain v where v: "commit_tick ex_cfg ex_in ex_due = Inr v" "ex_frame v" using tick2 by blast
  have "period_step ex_cfg (advance_cycle ex_run) ex_out"
    using ps_resp[OF ex_resp] by (simp add: ex_next_def)
  moreover have "period_step ex_cfg ex_out (advance_cycle v)"
    by (rule ps_cycle[OF ex_due _ _ v(1)]) (simp_all add: ex_rename_ok)
  ultimately have st: "(period_step ex_cfg)\<^sup>*\<^sup>* (advance_cycle ex_run) (advance_cycle v)" by simp
  have "\<not> csInRunahead (advance_cycle v) 0" using v(2) by (simp add: ex_frame_def advance_cycle_def)
  with st v(2) show ?thesis by (rule that)
qed

lemma ex_last:
  obtains v u w where "(period_step ex_cfg)\<^sup>*\<^sup>* (advance_cycle ex_run) v" "\<not> csInRunahead v 0"
    "run_due_events v = Inr u" "rename_ok ex_in u" "commit_tick ex_cfg ex_in u = Inr w"
proof -
  obtain x where x: "(period_step ex_cfg)\<^sup>*\<^sup>* (advance_cycle ex_run) (advance_cycle x)" "ex_frame x"
    "\<not> csInRunahead (advance_cycle x) 0"
    by (rule ex_steps)
  let ?v = "advance_cycle x"
  let ?u = "?v\<lparr>csEvents := []\<rparr>"
  have "ccThreads ex_cfg = 1" by simp
  note I = steps_inv[OF x(1) this entry_inv[OF ex_entry]]
  have u: "run_due_events ?v = Inr ?u"
    using x(2) by (simp add: run_due_events_def ex_frame_def advance_cycle_def)
  have hl: "has_left ?v" using I x(3) by (auto simp: period_inv_def running_ahead_def)
  have "ex_frame ?u" using x(2) by (simp add: ex_frame_def advance_cycle_def)
  moreover have "has_left ?u" by (rule run_due_left[OF u hl])
  moreover have "restorable small_isa (arch_value (asFile (csArch ex_run)) (asRen (csArch ex_run)) 0) (csArch ?u)"
    using I by (simp add: period_inv_def)
  ultimately obtain w where w: "commit_tick ex_cfg ex_in ?u = Inr w" using tick3 by blast
  have "rename_ok ex_in ?u"
    by (rule ex_rename_ok) (use x(2) in \<open>simp add: ex_frame_def advance_cycle_def\<close>)
  then show ?thesis using that[OF x(1,3) u _ w] by blast
qed

lemma runahead_period_commits_nothing_witness:
  "\<exists>s. (period_step ex_cfg)\<^sup>*\<^sup>* (advance_cycle ex_run) s \<and> \<not> csInRunahead s 0
     \<and> csTraps s = csTraps ex_run \<and> csPC s 0 = csPC ex_run 0"
proof -
  obtain v where "(period_step ex_cfg)\<^sup>*\<^sup>* (advance_cycle ex_run) v" "\<not> csInRunahead v 0"
    by (rule ex_last)
  with runahead_period_commits_nothing[OF ex_entry] show ?thesis by blast
qed


end
