(* ===== verification/CommitOrder.thy ===== *)
theory CommitOrder
  imports RunaheadExample
begin

text \<open>
  The order in which the commit stage works: instructions leave the reorder buffer from its head,
  at most \<open>commitWidth\<close> of them are committed in a cycle, and the thread that commits is chosen
  by the policy.
\<close>

section \<open>In order\<close>

definition seqs :: "commit_state \<Rightarrow> nat \<Rightarrow> nat list" where
  "seqs s t = map diSeq (instList (csRob s) t)"

definition same_seqs :: "commit_state \<Rightarrow> commit_state \<Rightarrow> bool" where
  "same_seqs s s' \<longleftrightarrow> seqs s' = seqs s"

lemma seqs_rob [intro]: "csRob s' = csRob s \<Longrightarrow> same_seqs s s'"
  by (simp add: same_seqs_def seqs_def fun_eq_iff)

lemma same_refl [simp]: "same_seqs s s"
  by (simp add: same_seqs_def)

lemma same_trans [trans]: "same_seqs s u \<Longrightarrow> same_seqs u v \<Longrightarrow> same_seqs s v"
  by (simp add: same_seqs_def)

lemma put_seqs [simp]: "same_seqs s (put_inst t i s)"
  by (simp add: same_seqs_def seqs_def put_inst_def fun_eq_iff comp_def)

lemma unexecuted_seqs: "commit_unexecuted J t i n s = Inr s' \<Longrightarrow> same_seqs s s'"
proof -
  let ?u = "put_inst t (reset_status CanCommit i) (upd_info t (\<lambda>c. c\<lparr>ciNonSpecSeq := diSeq i\<rparr>) s)"
  assume "commit_unexecuted J t i n s = Inr s'"
  then have "s' = s \<or> csRob s' = csRob ?u"
    by (auto simp: commit_unexecuted_def split_res Let_def split: if_splits)
  moreover have "same_seqs s ?u" by (rule same_trans[OF seqs_rob put_seqs]) simp
  ultimately show ?thesis using same_trans[OF _ seqs_rob] by auto
qed

lemma fault_seqs:
  assumes "commit_fault C J t i f n s = Inr s'"
  shows "same_seqs s s'"
proof (cases "\<not> has_flag Runahead i \<and> (tiStoresToWB J t \<or> n > 0)")
  case True
  then show ?thesis using assms by (simp add: commit_fault_def)
next
  case False
  let ?j = "set_status Completed i"
  let ?s = "put_inst t ?j s"
  have "csRob s' = csRob ?s \<or> (\<exists>k. csRob s' = csRob (put_inst t k ?s))"
    using assms False
    by (auto simp: commit_fault_def Let_def split_res setPoisoned_def split: if_splits)
  moreover have "same_seqs s (put_inst t k ?s)" for k by (rule same_trans[OF put_seqs put_seqs])
  ultimately show ?thesis using same_trans[OF _ seqs_rob] put_seqs by blast
qed

lemma retire_seqs:
  assumes "retire_head t s = Inr s'"
  shows "seqs s' = (seqs s)(t := tl (seqs s t)) \<and> seqs s t \<noteq> []"
  using assms
  by (auto simp: retire_head_def rob_retireHead_def rob_updateHead_def split_res seqs_def fun_eq_iff
      split: list.splits option.splits)

lemma commitHead_seqs:
  assumes "commitHead C J t i n s = Inr (b, s')"
  shows "if b then seqs s' = (seqs s)(t := tl (seqs s t)) \<and> seqs s t \<noteq> [] else same_seqs s s'"
proof (cases b)
  case True
  then have ok: "commitHead C J t i n s = Inr (True, s')" using assms by simp
  obtain j u v where j: "commit_dests C t j (updateComInstStats t j (put_inst t j s)) = Inr u"
    "retire_head t u = Inr v" "s' = v \<or> s' = v\<lparr>csCommittedStores := (csCommittedStores v)(t := True)\<rparr>"
    using commitHead_success[OF ok] by metis
  have "same_seqs s (put_inst t j s)" by simp
  also have "same_seqs (put_inst t j s) u" using commit_dests_rob[OF j(1)] by (intro seqs_rob) simp
  finally have su: "seqs u = seqs s" by (simp add: same_seqs_def)
  have "seqs s' = seqs v" using j(3) by (auto simp: seqs_def)
  then show ?thesis using retire_seqs[OF j(2)] su True by simp
next
  case False
  show ?thesis
  proof (cases "has_status Executed i")
    case ne: False
    then show ?thesis using assms unexecuted_seqs False by (auto simp: commitHead_def split_res)
  next
    case exe: True
    then obtain g where "diFault i = Some g"
      using assms False by (cases "diFault i") (auto simp: commitHead_def split_res Let_def)
    then obtain h where "commit_fault C J t i h n (put_inst t i s) = Inr s'"
      using assms exe by (auto simp: commitHead_def split_res Let_def split: if_splits)
    then have "same_seqs s s'" by (rule same_trans[OF put_seqs fault_seqs])
    then show ?thesis using False by simp
  qed
qed

lemma lll_seqs:
  assumes "handleRunaheadLLL t i s = Inr s'"
  shows "same_seqs s s'"
proof -
  have "csRob s' = csRob (put_inst t (lll_mark i) s)"
    unfolding handleLLL_update[OF assms] by (simp add: lll_update_def Let_def)
  then show ?thesis using same_trans[OF put_seqs seqs_rob] by blast
qed

lemma enter_seqs:
  assumes "enterRunahead C t s = Inr (b, s')"
  shows "same_seqs s s'"
proof (cases b)
  case False
  then have "s' = s" using enter_refused[of C t s s'] assms by simp
  then show ?thesis by simp
next
  case True
  then have "enterRunahead C t s = Inr (True, s')" using assms by simp
  then obtain i a c where "s' = entered t i a c s" using enter_result by blast
  then show ?thesis by (simp add: same_seqs_def seqs_def entered_list fun_eq_iff comp_def)
qed

lemma unready_seqs: "inspect_unready_head C J t i s = Inr s' \<Longrightarrow> same_seqs s s'"
proof -
  assume a: "inspect_unready_head C J t i s = Inr s'"
  have "s' = s \<or> (\<exists>b u. enterRunahead C t s = Inr (b, u) \<and> csRob s' = csRob u)
      \<or> (\<exists>u. handleRunaheadLLL t i s = Inr u \<and> csRob s' = csRob u)"
    using a by (auto simp: inspect_unready_head_def split_res note_entry_def split: if_splits)
  then show ?thesis using enter_seqs lll_seqs same_trans[OF _ seqs_rob] by (elim disjE exE conjE) (simp, blast+)
qed

lemma ready_head_seqs:
  assumes "commit_ready_head C J t i n s = Inr (b, m, s')"
  shows "(if b \<or> n < m \<or> has_status Squashed i then seqs s' = (seqs s)(t := tl (seqs s t)) \<and> seqs s t \<noteq> []
      else same_seqs s s') \<and> (m = n \<or> m = n + 1)"
proof (cases "has_status Squashed i")
  case True
  then obtain u where u: "retire_head t s = Inr u" "s' = u\<lparr>csChangedROB := (csChangedROB u)(t := True)\<rparr>" "m = n"
    using assms(1) by (auto simp: commit_ready_head_def bindE_ok)
  then have "seqs s' = seqs u" by (simp add: seqs_def fun_eq_iff)
  then show ?thesis using retire_seqs[OF u(1)] u(3) True by simp
next
  case False
  let ?s = "s\<lparr>csPC := (csPC s)(t := diPC i)\<rparr>"
  obtain ok u where u: "commitHead C J t i n ?s = Inr (ok, u)"
    "if ok then after_commit C t i u = Inr (b, s') \<and> m = n + 1 else u = s' \<and> \<not> b \<and> m = n"
    using assms(1) False by (auto simp: commit_ready_head_def bindE_ok split: if_splits)
  have "seqs ?s = seqs s" by (simp add: seqs_def fun_eq_iff)
  note h = commitHead_seqs[OF u(1), unfolded same_seqs_def this]
  show ?thesis
  proof (cases ok)
    case True
    then have "seqs s' = seqs u" using u(2) after_commit_rob by (auto simp: seqs_def fun_eq_iff)
    then show ?thesis using h u(2) True by simp
  next
    case False
    then show ?thesis using h u(2) \<open>\<not> has_status Squashed i\<close> by (simp add: same_seqs_def)
  qed
qed

text \<open>A round takes the head of one thread out of the buffer, or nothing.\<close>

lemma round_seqs:
  assumes "commit_round C J n s = Inr (b, m, s')"
  shows "(\<exists>t. seqs s' = (seqs s)(t := tl (seqs s t))) \<or> same_seqs s s'" and "m = n \<or> m = n + 1"
proof -
  have "((\<exists>t. seqs s' = (seqs s)(t := tl (seqs s t))) \<or> same_seqs s s') \<and> (m = n \<or> m = n + 1)"
    using assms
  proof (cases rule: round_cases)
    case (stop ot v)
    have "csRob s' = csRob s" using committing_rob[OF stop(1)] interrupt_rob[OF stop(2)] by simp
    then show ?thesis using seqs_rob stop(4) by blast
  next
    case (unready t v u i)
    have "same_seqs s u" by (rule seqs_rob) (use committing_rob[OF unready(1)] interrupt_rob[OF unready(2)] in simp)
    then show ?thesis using same_trans unready_seqs[OF unready(6)] unready(8) by blast
  next
    case (ready t v u i)
    have "same_seqs s u" by (rule seqs_rob) (use committing_rob[OF ready(1)] interrupt_rob[OF ready(2)] in simp)
    then show ?thesis using ready_head_seqs[OF ready(6)] by (auto simp: same_seqs_def split: if_splits)
  qed
  then show "(\<exists>t. seqs s' = (seqs s)(t := tl (seqs s t))) \<or> same_seqs s s'" "m = n \<or> m = n + 1" by auto
qed

section \<open>At most the commit width\<close>

text \<open>The instructions counted for the threads below \<open>T\<close>.\<close>

definition counted :: "nat \<Rightarrow> commit_state \<Rightarrow> nat" where
  "counted T s = (\<Sum>t<T. csNumInst s t)"

lemma counted_same: "csNumInst s' = csNumInst s \<Longrightarrow> counted T s' = counted T s"
  by (simp add: counted_def)

lemma stats_counted: "counted T (updateComInstStats t i s) \<le> counted T s + 1"
proof -
  have "csNumInst (updateComInstStats t i s) = csNumInst s
      \<or> csNumInst (updateComInstStats t i s) = (csNumInst s)(t := csNumInst s t + 1)"
    by (simp add: updateComInstStats_def instDone_def Let_def)
  moreover have "(\<Sum>u<T. ((csNumInst s)(t := csNumInst s t + 1)) u) \<le> (\<Sum>u<T. csNumInst s u) + 1"
  proof (cases "t < T")
    case True
    then show ?thesis by (simp add: sum.remove[of "{..<T}" t] sum.remove[of "{..<T}" t "csNumInst s"])
  next
    case False
    then have "(\<Sum>u<T. ((csNumInst s)(t := csNumInst s t + 1)) u) = (\<Sum>u<T. csNumInst s u)"
      by (intro sum.cong) auto
    then show ?thesis by simp
  qed
  ultimately show ?thesis by (auto simp: counted_def)
qed

lemma unexecuted_inst: "commit_unexecuted J t i n s = Inr s' \<Longrightarrow> csNumInst s' = csNumInst s"
  by (auto simp: commit_unexecuted_def split_res Let_def put_inst_def upd_info_def split: if_splits)

lemma calm_inst: "calm s s' \<Longrightarrow> csNumInst s' = csNumInst s"
  by (simp add: calm_def arch_view_def)

lemma fault_inst:
  assumes "commit_fault C J t i f n s = Inr s'"
  shows "csNumInst s' = csNumInst s"
proof (cases "has_flag Runahead i")
  case True
  then show ?thesis using fault_calm[OF assms] calm_inst by blast
next
  case real: False
  show ?thesis
  proof (cases "tiStoresToWB J t \<or> n > 0")
    case False
    let ?s = "put_inst t (set_status Completed i) s"
    let ?u = "cpu_trap C f t (?s\<lparr>csNoSquashTC := (csNoSquashTC ?s)(t := True)\<rparr>)"
    let ?v = "?u\<lparr>csNoSquashTC := (csNoSquashTC ?u)(t := False), csStatus := (csStatus ?u)(t := TrapPending)\<rparr>"
    have "commit_fault C J t i f n s = bindE (assertE (\<not> csNoSquashTC ?s t)) (\<lambda>_. Inr (generateTrapEvent C t (Some f) ?v))"
      using real False by (simp add: commit_fault_def Let_def)
    then have "generateTrapEvent C t (Some f) ?v = s'" by (rule assertE_value[OF trans[OF sym assms]])
    moreover have "csNumInst (generateTrapEvent C t (Some f) x) = csNumInst x" for x
      by (simp add: generateTrapEvent_def schedule_event_def)
    moreover have "csNumInst ?v = csNumInst s" by (simp add: cpu_trap_def put_inst_def)
    ultimately show ?thesis by metis
  qed (use assms real in \<open>simp add: commit_fault_def\<close>)
qed

lemma commitHead_counted:
  assumes "commitHead C J t i n s = Inr (b, s')"
  shows "if b then counted T s' \<le> counted T s + 1 else csNumInst s' = csNumInst s"
proof (cases b)
  case True
  then have ok: "commitHead C J t i n s = Inr (True, s')" using assms by simp
  obtain j u v where j: "commit_dests C t j (updateComInstStats t j (put_inst t j s)) = Inr u"
    "retire_head t u = Inr v" "s' = v \<or> s' = v\<lparr>csCommittedStores := (csCommittedStores v)(t := True)\<rparr>"
    using commitHead_success[OF ok] by metis
  have "csNumInst u = csNumInst (updateComInstStats t j (put_inst t j s))"
    using j(1) by (auto simp: commit_dests_def split_res Let_def split: if_splits)
  moreover have "csNumInst v = csNumInst u" using j(2) by (auto simp: retire_head_def split_res)
  moreover have "csNumInst s' = csNumInst v" using j(3) by auto
  ultimately have "counted T s' = counted T (updateComInstStats t j (put_inst t j s))" by (simp add: counted_def)
  also have "\<dots> \<le> counted T (put_inst t j s) + 1" by (rule stats_counted)
  also have "counted T (put_inst t j s) = counted T s" by (rule counted_same) (simp add: put_inst_def)
  finally show ?thesis using True by simp
next
  case False
  show ?thesis
  proof (cases "has_status Executed i")
    case ne: False
    then show ?thesis using assms unexecuted_inst False by (auto simp: commitHead_def split_res)
  next
    case exe: True
    then obtain g where "diFault i = Some g"
      using assms False by (cases "diFault i") (auto simp: commitHead_def split_res Let_def)
    then obtain h where "commit_fault C J t i h n (put_inst t i s) = Inr s'"
      using assms exe by (auto simp: commitHead_def split_res Let_def split: if_splits)
    from fault_inst[OF this] show ?thesis using False by (simp add: put_inst_def)
  qed
qed

lemma after_commit_inst:
  assumes "after_commit C t i s = Inr (b, s')"
  shows "csNumInst s' = csNumInst s"
  by (rule calm_inst[OF after_commit_calm[OF assms]])

lemma interrupt_inst: "commit_interrupt C ot s = Inr s' \<Longrightarrow> csNumInst s' = csNumInst s"
  by (auto simp: commit_interrupt_def handleInterrupt_def processInterrupts_def split_res Let_def
      upd_info_def cpu_trap_def generateTrapEvent_def schedule_event_def split: if_splits)

lemma committing_inst: "getCommittingThread C s = Inr (ot, s') \<Longrightarrow> csNumInst s' = csNumInst s"
  by (auto simp: getCommittingThread_def roundRobin_def split_res
      split: if_splits commit_policy.splits option.splits list.splits)

lemma lll_inst: "handleRunaheadLLL t i s = Inr s' \<Longrightarrow> csNumInst s' = csNumInst s"
  by (drule handleLLL_update) (simp add: lll_update_def put_inst_def Let_def)

lemma enter_inst:
  assumes "enterRunahead C t s = Inr (b, s')"
  shows "csNumInst s' = csNumInst s"
proof (cases b)
  case True
  then have "enterRunahead C t s = Inr (True, s')" using assms by simp
  then obtain i a c where "s' = entered t i a c s" using enter_result by blast
  then show ?thesis by (simp add: entered_def lll_update_def put_inst_def Let_def)
qed (use enter_refused[of C t s s'] assms in simp)

lemma unready_inst: "inspect_unready_head C J t i s = Inr s' \<Longrightarrow> csNumInst s' = csNumInst s"
proof -
  assume a: "inspect_unready_head C J t i s = Inr s'"
  have "s' = s \<or> (\<exists>b u. enterRunahead C t s = Inr (b, u) \<and> csNumInst s' = csNumInst u)
      \<or> (\<exists>u. handleRunaheadLLL t i s = Inr u \<and> csNumInst s' = csNumInst u)"
    using a by (auto simp: inspect_unready_head_def split_res note_entry_def split: if_splits)
  then show ?thesis using enter_inst lll_inst by (elim disjE exE conjE) simp_all
qed

lemma ready_head_counted:
  assumes "commit_ready_head C J t i n s = Inr (b, m, s')"
  shows "counted T s' + n \<le> counted T s + m"
proof (cases "has_status Squashed i")
  case True
  then obtain u where u: "retire_head t s = Inr u" "s' = u\<lparr>csChangedROB := (csChangedROB u)(t := True)\<rparr>" "m = n"
    using assms(1) by (auto simp: commit_ready_head_def bindE_ok)
  have "csNumInst u = csNumInst s" using u(1) by (auto simp: retire_head_def split_res)
  then show ?thesis using u by (simp add: counted_def)
next
  case False
  let ?s = "s\<lparr>csPC := (csPC s)(t := diPC i)\<rparr>"
  obtain ok u where u: "commitHead C J t i n ?s = Inr (ok, u)"
    "if ok then after_commit C t i u = Inr (b, s') \<and> m = n + 1 else u = s' \<and> \<not> b \<and> m = n"
    using assms(1) False by (auto simp: commit_ready_head_def bindE_ok split: if_splits)
  have c: "counted T ?s = counted T s" by (rule counted_same) simp
  note h = commitHead_counted[OF u(1), where T = T]
  show ?thesis
  proof (cases ok)
    case True
    then have "after_commit C t i u = Inr (b, s')" using u(2) by simp
    then have "counted T s' = counted T u" using after_commit_inst counted_same by blast
    then show ?thesis using h u(2) True c by simp
  next
    case False
    then have "counted T s' = counted T ?s" using h u(2) counted_same[of u ?s] by simp
    then show ?thesis using c u(2) False by simp
  qed
qed

lemma round_counted:
  assumes "commit_round C J n s = Inr (b, m, s')"
  shows "counted T s' + n \<le> counted T s + m"
  using assms
proof (cases rule: round_cases)
  case (stop ot v)
  have "csNumInst s' = csNumInst s" using committing_inst[OF stop(1)] interrupt_inst[OF stop(2)] by simp
  then show ?thesis using stop(4) counted_same[of s' s T] by simp
next
  case (unready t v u i)
  have "csNumInst s' = csNumInst s"
    using committing_inst[OF unready(1)] interrupt_inst[OF unready(2)] unready_inst[OF unready(6)] by simp
  then show ?thesis using unready(8) counted_same[of s' s T] by simp
next
  case (ready t v u i)
  have "csNumInst u = csNumInst s" using committing_inst[OF ready(1)] interrupt_inst[OF ready(2)] by simp
  then show ?thesis using ready_head_counted[OF ready(6), of T] counted_same[of u s T] by simp
qed

text \<open>A cycle of commit takes prefixes out of the lists, and counts at most its width.\<close>

definition drops :: "commit_state \<Rightarrow> commit_state \<Rightarrow> bool" where
  "drops s s' \<longleftrightarrow> (\<forall>t. \<exists>k. seqs s' t = drop k (seqs s t))"

lemma drops_refl [simp]: "drops s s"
  unfolding drops_def by (metis drop_0)

lemma drops_trans: "drops s u \<Longrightarrow> drops u v \<Longrightarrow> drops s v"
  unfolding drops_def by (metis drop_drop)

lemma round_drops: "commit_round C J n s = Inr (b, m, s') \<Longrightarrow> drops s s'"
proof -
  assume "commit_round C J n s = Inr (b, m, s')"
  note R = round_seqs(1)[OF this]
  show "drops s s'"
    unfolding drops_def
  proof
    fix t
    have "seqs s' t = tl (seqs s t) \<or> seqs s' t = seqs s t"
      using R by (auto simp: same_seqs_def)
    then show "\<exists>k. seqs s' t = drop k (seqs s t)" by (metis drop_0 drop_Suc)
  qed
qed

lemma loop_drops:
  assumes "commit_loop C J n s = Inr s'" "n \<le> ccCommitWidth C"
  shows "drops s s' \<and> counted T s' + n \<le> counted T s + ccCommitWidth C"
  using assms
proof (induction C J n s rule: commit_loop.induct)
  case (1 C J n s)
  show ?case
  proof (cases "n < ccCommitWidth C")
    case True
    then obtain b m u where u: "commit_round C J n s = Inr (b, m, u)"
      "if b then commit_loop C J m u = Inr s' else s' = u"
      using 1(2) by (subst (asm) commit_loop.simps) (auto simp: bindE_ok split: if_splits)
    have m: "m \<le> ccCommitWidth C" using round_seqs(2)[OF u(1)] True by auto
    note d = round_drops[OF u(1)] and c = round_counted[OF u(1), of T]
    show ?thesis
    proof (cases b)
      case True
      then have "drops u s' \<and> counted T s' + m \<le> counted T u + ccCommitWidth C"
        using 1(1)[OF \<open>n < ccCommitWidth C\<close> u(1)] u(2) m by simp
      then show ?thesis using d c drops_trans by fastforce
    qed (use u(2) d c m in simp)
  next
    case False
    then show ?thesis using 1(2,3) by (simp add: commit_loop.simps)
  qed
qed

text \<open>
  C29: commit is in order and no wider than its width.  Whatever the commit loop of a cycle
  does (entering runahead, faults and interrupts included), the instructions that stay in the
  reorder buffer of a thread are a suffix of those before it, in their order, and the
  instructions counted as committed for any number of threads are at most \<open>commitWidth\<close>.
\<close>

theorem commit_in_order_and_within_width:
  assumes "commitInsts C J s = Inr s'"
  shows "(\<forall>t. \<exists>k. map diSeq (instList (csRob s') t) = drop k (map diSeq (instList (csRob s) t)))
     \<and> (\<Sum>t<T. csNumInst s' t) \<le> (\<Sum>t<T. csNumInst s t) + ccCommitWidth C"
  using loop_drops[OF assms[unfolded commitInsts_def], of T] by (simp add: drops_def seqs_def counted_def)

section \<open>Round robin\<close>

definition may_commit :: "commit_state \<Rightarrow> nat \<Rightarrow> bool" where
  "may_commit s t \<longleftrightarrow> can_commit_now s t \<and> rob_isHeadReady (csRob s) t = Inr True"

text \<open>The place of a thread in the list of priorities.\<close>

definition place :: "nat \<Rightarrow> nat list \<Rightarrow> nat" where
  "place t ts = length (takeWhile (\<lambda>u. u \<noteq> t) ts)"

lemma place_less: "t \<in> set ts \<Longrightarrow> place t ts < length ts"
  by (induction ts) (auto simp: place_def)

lemma scan_before:
  "rr_scan s ts = Inr (Some u) \<Longrightarrow> t \<in> set ts \<Longrightarrow> may_commit s t \<Longrightarrow> u \<noteq> t \<Longrightarrow>
     place u ts < place t ts \<and> u \<in> set ts"
  by (induction ts) (auto simp: place_def may_commit_def split_res split: if_splits)

lemma scan_finds: "rr_scan s ts = Inr None \<Longrightarrow> t \<in> set ts \<Longrightarrow> \<not> may_commit s t"
  by (induction ts) (auto simp: may_commit_def split_res split: if_splits)

lemma place_after:
  "u \<in> set ts \<Longrightarrow> t \<in> set ts \<Longrightarrow> place u ts < place t ts \<Longrightarrow>
     Suc (place t (remove1 u ts @ [u])) = place t ts \<and> t \<in> set (remove1 u ts)"
proof (induction ts)
  case (Cons v ts)
  show ?case
  proof (cases "v = u")
    case True
    then have "t \<in> set ts" "t \<noteq> u" using Cons.prems by (auto simp: place_def)
    then show ?thesis using True by (simp add: place_def takeWhile_append1[of t])
  next
    case False
    then have "v \<noteq> t" using Cons.prems(3) by (auto simp: place_def)
    then show ?thesis using Cons False by (auto simp: place_def)
  qed
qed simp

lemma robin_step:
  assumes "roundRobin s = Inr (r, s')" "t \<in> set (csPriority s)" "may_commit s t" "r \<noteq> Some t"
  shows "Suc (place t (csPriority s')) = place t (csPriority s) \<and> t \<in> set (csPriority s')"
proof -
  obtain q where q: "rr_scan s (csPriority s) = Inr q"
    using assms(1) by (cases "rr_scan s (csPriority s)") (simp_all add: roundRobin_def)
  have "q \<noteq> None" using scan_finds[of s "csPriority s" t] q assms(2,3) by (cases q) auto
  then obtain u where u: "rr_scan s (csPriority s) = Inr (Some u)" using q by blast
  then have e: "r = Some u" "csPriority s' = remove1 u (csPriority s) @ [u]"
    using assms(1) by (auto simp: roundRobin_def)
  then have ut: "u \<noteq> t" using assms(4) by simp
  note b = scan_before[OF u assms(2,3) ut]
  have "Suc (place t (remove1 u (csPriority s) @ [u])) = place t (csPriority s) \<and> t \<in> set (remove1 u (csPriority s))"
    by (rule place_after) (use b assms(2) in simp_all)
  then show ?thesis using e(2) by simp
qed

text \<open>
  C30: round robin starves no thread.  In any run of choices, between which anything but the
  list of priorities may change, a thread that is ready to commit throughout is chosen within as
  many choices as there are threads in the list.
\<close>

theorem round_robin_is_fair:
  assumes "\<And>k. roundRobin (\<sigma> k) = Inr (r k, \<tau> k)" "\<And>k. csPriority (\<sigma> (Suc k)) = csPriority (\<tau> k)"
    "t \<in> set (csPriority (\<sigma> 0))" "\<And>k. may_commit (\<sigma> k) t"
  shows "\<exists>k < length (csPriority (\<sigma> 0)). r k = Some t"
proof (rule ccontr)
  assume n: "\<not> ?thesis"
  have "k \<le> length (csPriority (\<sigma> 0)) \<Longrightarrow>
      t \<in> set (csPriority (\<sigma> k)) \<and> k + place t (csPriority (\<sigma> k)) = place t (csPriority (\<sigma> 0))" for k
  proof (induction k)
    case (Suc k)
    have "r k \<noteq> Some t" using n Suc.prems by auto
    then show ?case using robin_step[OF assms(1) _ assms(4), of k] Suc assms(2)[of k] by auto
  qed (use assms(3) in simp)
  from this[of "length (csPriority (\<sigma> 0))"] show False using place_less[OF assms(3)] by simp
qed

section \<open>Oldest first\<close>

definition head_seq :: "commit_state \<Rightarrow> nat \<Rightarrow> nat" where
  "head_seq s t = hd (seqs s t)"

definition ready_threads :: "commit_state \<Rightarrow> nat list" where
  "ready_threads s = filter (\<lambda>t. instList (csRob s) t \<noteq> [] \<and> may_commit s t) (csActive s)"

text \<open>The choice as its name says it: the first thread whose ready head is the oldest.\<close>

definition oldest_of :: "commit_state \<Rightarrow> nat list \<Rightarrow> nat option" where
  "oldest_of s ts = (if ts = [] then None else Some (arg_min_list (head_seq s) ts))"

definition heads_ok :: "commit_state \<Rightarrow> bool" where
  "heads_ok s \<longleftrightarrow> (\<forall>t \<in> set (csActive s). threadEntries (csRob s) t = length (instList (csRob s) t)
     \<and> (\<forall>i \<in> set (instList (csRob s) t). has_status RobEntry i))"

lemma arg_min_snoc:
  "arg_min_list f (xs @ [x]) = (if xs = [] then x
     else if f x < f (arg_min_list f xs) then x else arg_min_list (f :: 'a \<Rightarrow> nat) xs)"
proof (induction xs)
  case (Cons y ys)
  then show ?case by (cases ys) (auto simp: Let_def)
qed simp

lemma foldE_snoc: "foldE f (xs @ [x]) s = bindE (foldE f xs s) (f x)"
  by (simp add: foldE_append bindE_def split: sum.splits)

lemma oldest_step_bounded:
  assumes "t \<in> set (csActive s)" "heads_ok s" "\<forall>q \<in> set (seqs s t). q < 2 ^ 32"
  shows "oldest_step s t best = Inr (if instList (csRob s) t \<noteq> [] \<and> may_commit s t
     \<and> (case best of None \<Rightarrow> True | Some (u, q) \<Rightarrow> head_seq s t < q) then Some (t, head_seq s t) else best)"
proof (cases "instList (csRob s) t")
  case Nil
  then show ?thesis using assms(1,2) by (simp add: oldest_step_def heads_ok_def rob_isEmptyOf_def)
next
  case (Cons i l)
  then have e: "threadEntries (csRob s) t \<noteq> 0" "has_status RobEntry i" "diSeq i < 2 ^ 32"
    using assms by (simp_all add: heads_ok_def seqs_def)
  show ?thesis
    using Cons e by (auto simp: oldest_step_def rob_isEmptyOf_def rob_isHeadReady_def rob_readHeadInst_def may_commit_def
        head_seq_def seqs_def split: option.splits)
qed

text \<open>
  C31: for sequence numbers below \<open>2 ^ 32\<close> the oldest-first policy chooses the first active thread
  whose ready head is the oldest, and nobody when no head is ready.
\<close>

theorem oldestReady_is_the_oldest:
  assumes "heads_ok s" "\<And>t q. t \<in> set (csActive s) \<Longrightarrow> q \<in> set (seqs s t) \<Longrightarrow> q < 2 ^ 32"
  shows "oldestReady s = Inr (oldest_of s (ready_threads s))"
proof -
  let ?ready = "\<lambda>ts. filter (\<lambda>t. instList (csRob s) t \<noteq> [] \<and> may_commit s t) ts"
  have "foldE (oldest_step s) ts None = Inr (map_option (\<lambda>t. (t, head_seq s t)) (oldest_of s (?ready ts)))"
    if "set ts \<subseteq> set (csActive s)" for ts
    using that
  proof (induction ts rule: rev_induct)
    case (snoc t ts)
    let ?m = "arg_min_list (head_seq s) (?ready ts)"
    have t: "t \<in> set (csActive s)" using snoc.prems by simp
    have "foldE (oldest_step s) (ts @ [t]) None
        = oldest_step s t (map_option (\<lambda>t. (t, head_seq s t)) (oldest_of s (?ready ts)))"
      using snoc by (simp add: foldE_snoc)
    also have "\<dots> = Inr (map_option (\<lambda>t. (t, head_seq s t)) (oldest_of s (?ready (ts @ [t]))))"
      using oldest_step_bounded[OF t assms(1)] assms(2)[OF t]
      by (auto simp: oldest_of_def arg_min_snoc)
    finally show ?case .
  qed (simp add: oldest_of_def)
  from this[of "csActive s"] show ?thesis
    by (simp add: oldestReady_def ready_threads_def option.map_comp comp_def option.map_ident)
qed

lemma seqs_head: "instList (csRob s) t = i # l \<Longrightarrow> head_seq s t = diSeq i"
  by (simp add: head_seq_def seqs_def)

text \<open>
  beyond that bound the policy can choose the wrong thread.  The sequence number of the
  oldest head so far is kept in 32 bits: once the first head has wrapped, a younger one wins
  against an older one.
\<close>

theorem oldestReady_prefers_a_younger_head:
  assumes "heads_ok s" "csActive s = [t, u]" "may_commit s t" "may_commit s u"
    "instList (csRob s) t \<noteq> []" "instList (csRob s) u \<noteq> []"
    "head_seq s u < head_seq s t" "head_seq s t mod 2 ^ 32 \<le> head_seq s u"
  shows "oldestReady s = Inr (Some t)"
proof -
  obtain i l j k where ij: "instList (csRob s) t = i # l" "instList (csRob s) u = j # k"
    using assms(5,6) by (meson list.exhaust)
  have r: "threadEntries (csRob s) t \<noteq> 0" "threadEntries (csRob s) u \<noteq> 0" "has_status RobEntry i" "has_status RobEntry j"
    using assms(1,2) ij by (simp_all add: heads_ok_def)
  have "oldest_step s t None = Inr (Some (t, diSeq i mod 2 ^ 32))"
    using assms(3) ij r by (simp add: oldest_step_def may_commit_def rob_isEmptyOf_def rob_readHeadInst_def)
  moreover have "oldest_step s u (Some (t, diSeq i mod 2 ^ 32)) = Inr (Some (t, diSeq i mod 2 ^ 32))"
    using assms(4,7,8) ij r seqs_head[of s]
    by (simp add: oldest_step_def may_commit_def rob_isEmptyOf_def rob_readHeadInst_def)
  ultimately show ?thesis using assms(2) by (simp add: oldestReady_def)
qed

section \<open>Two threads\<close>

definition smt_inst :: "nat \<Rightarrow> nat \<Rightarrow> dyn_inst" where
  "smt_inst t q = ex_load\<lparr>diTid := t, diSeq := q, diStatus := {RobEntry, CanCommit}\<rparr>"

definition smt_state :: "nat \<Rightarrow> nat \<Rightarrow> nat list \<Rightarrow> commit_state" where
  "smt_state a b ps = ex_start\<lparr>csActive := [0, 1], csPriority := ps,
     csRob := ex_rob\<lparr>instList := (\<lambda>t. if t = 0 then [smt_inst 0 a] else if t = 1 then [smt_inst 1 b] else []),
        threadEntries := (\<lambda>t. if t < 2 then 1 else 0), numInstsInROB := 2\<rparr>\<rparr>"

lemma smt_fields [simp]:
  "csActive (smt_state a b ps) = [0, 1]" "csPriority (smt_state a b ps) = ps"
  "instList (csRob (smt_state a b ps)) 0 = [smt_inst 0 a]" "instList (csRob (smt_state a b ps)) 1 = [smt_inst 1 b]"
  "instList (csRob (smt_state a b ps)) (Suc 0) = [smt_inst 1 b]"
  "head_seq (smt_state a b ps) 0 = a" "head_seq (smt_state a b ps) (Suc 0) = b"
  by (simp_all add: smt_state_def head_seq_def seqs_def smt_inst_def)

lemma smt_ok: "heads_ok (smt_state a b ps)" "t < 2 \<Longrightarrow> may_commit (smt_state a b ps) t"
  by (auto simp: heads_ok_def may_commit_def smt_state_def smt_inst_def has_status_def can_commit_now_def
      rob_isHeadReady_def)

definition ex_ready :: commit_state where
  "ex_ready = ex_start\<lparr>csRob := ex_rob\<lparr>instList := (\<lambda>t. if t = 0 then [ex_load\<lparr>diStatus := {RobEntry, CanCommit, Executed}\<rparr>] else [])\<rparr>\<rparr>"

lemma ex_ready_commits: "\<exists>s. commitInsts ex_cfg ex_in ex_ready = Inr s"
proof -
  have "\<exists>b s. commit_round ex_cfg ex_in 0 ex_ready = Inr (b, 1, s)"
    by (simp add: commit_round_def getCommittingThread_def can_commit_now_def commit_interrupt_def
      rob_isHeadReady_def rob_readHeadInst_def has_status_def assertE_def ex_ready_def commit_ready_head_def commitHead_def
      commit_dests_def has_prop_def has_flag_def updateComInstStats_def instDone_def Let_def put_inst_def retire_head_def
      rob_retireHead_def set_status_def)
     (simp add: after_commit_def commit_htm_def track_commit_def executingHtmTransaction_def squash_tail_def
      rob_updateHead_def rob_isEmptyOf_def record_commit_def commit_drains_def commit_boundary_def upd_info_def
      has_prop_def has_flag_def has_status_def assertE_def, blast)
  then show ?thesis by (auto simp: commitInsts_def commit_loop.simps[of _ _ 0] commit_loop.simps[of _ _ "Suc 0"])
qed

lemma commit_in_order_and_within_width_witness:
  "\<exists>s. commitInsts ex_cfg ex_in ex_ready = Inr s \<and> (\<Sum>t<1. csNumInst s t) \<le> 5"
proof -
  obtain s where s: "commitInsts ex_cfg ex_in ex_ready = Inr s" using ex_ready_commits by blast
  have "csNumInst ex_ready = (\<lambda>_. 4)" by (simp add: ex_ready_def)
  with conjunct2[OF commit_in_order_and_within_width[OF s, of 1]] s show ?thesis by simp
qed

lemma smt_round: "roundRobin (smt_state a b [t, u]) = Inr (Some t, smt_state a b [u, t])" if "t < 2"
  using smt_ok(2)[OF that, of a b "[t, u]"]
  by (simp add: roundRobin_def may_commit_def smt_state_def)

lemma round_robin_is_fair_witness:
  "\<exists>k < (2 :: nat). roundRobin (smt_state 5 6 (if even k then [0, 1] else [1, 0]))
     = Inr (Some 1, smt_state 5 6 (if even k then [1, 0] else [0, 1]))"
proof -
  let ?s = "\<lambda>k. smt_state 5 6 (if even (k :: nat) then [0, 1] else [1, 0])"
  let ?n = "\<lambda>k. smt_state 5 6 (if even (k :: nat) then [1, 0] else [0, 1])"
  let ?r = "\<lambda>k. Some (if even (k :: nat) then 0 else 1 :: nat)"
  have run: "roundRobin (?s k) = Inr (?r k, ?n k)" for k
    using smt_round[of 0 5 6 1] smt_round[of 1 5 6 0] by simp
  have "\<exists>k < length (csPriority (?s 0)). ?r k = Some 1"
  proof (rule round_robin_is_fair[where \<sigma> = ?s and r = ?r and \<tau> = ?n and t = 1])
    show "roundRobin (?s k) = Inr (?r k, ?n k)" for k by (rule run)
    show "may_commit (?s k) 1" for k by (rule smt_ok(2)) simp
  qed simp_all
  then obtain k where k: "k < 2" "?r k = Some 1" by (auto simp: numeral_2_eq_2)
  show ?thesis
    by (rule exI[of _ k]) (use run[of k] k in simp)
qed

lemma oldestReady_is_the_oldest_witness: "oldestReady (smt_state 9 6 []) = Inr (Some 1)"
proof -
  have "oldestReady (smt_state 9 6 []) = Inr (oldest_of (smt_state 9 6 []) (ready_threads (smt_state 9 6 [])))"
    by (rule oldestReady_is_the_oldest[OF smt_ok(1)])
      (auto simp: seqs_def smt_state_def smt_inst_def)
  moreover have "ready_threads (smt_state 9 6 []) = [0, 1]"
    using smt_ok(2)[of 0 9 6 "[]"] smt_ok(2)[of 1 9 6 "[]"] by (simp add: ready_threads_def)
  ultimately show ?thesis by (simp add: oldest_of_def)
qed

lemma oldestReady_prefers_a_younger_head_witness:
  "oldestReady (smt_state (2 ^ 32 + 3) 6 []) = Inr (Some 0)"
  by (rule oldestReady_prefers_a_younger_head[OF smt_ok(1), where u = 1])
    (use smt_ok(2)[of 0 "2 ^ 32 + 3" 6 "[]"] smt_ok(2)[of 1 "2 ^ 32 + 3" 6 "[]"] in simp_all)

end
