(* ===== verification/RunaheadExit.thy ===== *)
theory RunaheadExit
  imports CommitOrder
begin

text \<open>
  How a runahead period ends: the exit signal, the policies, the deadline, and the squash that
  leaves.
\<close>

section \<open>The control state of the exit\<close>

definition ctl :: "commit_state \<Rightarrow> nat \<times> bool \<times> bool \<times> nat option" where
  "ctl s = (csNow s, csExit s 0, csExitable s 0, csCause s 0)"

text \<open>
  What an operation inside a period may do to it: time stands still, no event is lost, and the
  exit and exitable flags are not cleared; the cause changes only together with the exit.
\<close>

definition steady :: "commit_state \<Rightarrow> commit_state \<Rightarrow> bool" where
  "steady s s' \<longleftrightarrow> csNow s' = csNow s \<and> set (csEvents s) \<subseteq> set (csEvents s')
     \<and> (csExitable s 0 \<longrightarrow> csExitable s' 0) \<and> (csExit s 0 \<longrightarrow> csExit s' 0)
     \<and> (csExit s' 0 \<or> csCause s' 0 = csCause s 0)"

lemma steady_refl [simp]: "steady s s"
  by (simp add: steady_def)

lemma steady_trans [trans]: "steady s u \<Longrightarrow> steady u v \<Longrightarrow> steady s v"
  by (auto simp: steady_def)

lemma steady_same:
  assumes "ctl s' = ctl s" "csEvents s' = csEvents s"
  shows "steady s s'"
  using assms by (simp add: steady_def ctl_def)

lemma steady_event: "ctl s' = ctl s \<Longrightarrow> csEvents s' = csEvents s @ es \<Longrightarrow> steady s s'"
  by (auto simp: steady_def ctl_def)

lemma set_exit_steady [simp]: "steady s (set_exit c 0 s)"
  by (simp add: steady_def set_exit_def count_cause_def)

lemma squash_rob_steady: "squash_rob C q t s = Inr s' \<Longrightarrow> steady s s'"
  by (rule steady_same) (auto simp: squash_rob_def cs_rob_step_def split_res ctl_def)

lemma squashAll_steady: "squashAll C t s = Inr s' \<Longrightarrow> steady s s'"
proof -
  assume "squashAll C t s = Inr s'"
  then obtain q u tail where q: "squash_rob C q t (s\<lparr>csYoungest := (csYoungest s)(t := csLastCommitted s t)\<rparr>) = Inr u"
    "s' = upd_info t (\<lambda>c. c\<lparr>ciDoneSeq := q, ciSquashTail := tail, ciSquash := True, ciRobSquashing := True,
       ciMispredictInst := None, ciSquashInst := None, ciPC := Some (csPC u t)\<rparr>)
       (u\<lparr>csChangedROB := (csChangedROB u)(t := True)\<rparr>)"
    by (auto simp: squashAll_def split_res Let_def)
  have "steady s (s\<lparr>csYoungest := (csYoungest s)(t := csLastCommitted s t)\<rparr>)"
    by (rule steady_same) (simp_all add: ctl_def)
  also note squash_rob_steady[OF q(1)]
  also have "steady u s'" unfolding q(2) by (rule steady_same) (simp_all add: ctl_def upd_info_def)
  finally show ?thesis .
qed

lemma steady_bind:
  "bindE m f = Inr s' \<Longrightarrow> (\<And>u. m = Inr u \<Longrightarrow> steady s u) \<Longrightarrow> (\<And>u. f u = Inr s' \<Longrightarrow> steady u s') \<Longrightarrow> steady s s'"
  by (auto simp: bindE_ok intro: steady_trans)

lemma squashFromTrap_steady: "squashFromTrap C t s = Inr s' \<Longrightarrow> steady s s'"
  unfolding squashFromTrap_def
  by (erule steady_bind, erule squashAll_steady) (clarsimp, rule steady_same, simp_all add: ctl_def)

lemma squashFromTC_steady: "squashFromTC C t s = Inr s' \<Longrightarrow> steady s s'"
  unfolding squashFromTC_def Let_def
  by (erule steady_bind, erule squashAll_steady) (clarsimp simp: split_res, rule steady_same, simp_all add: ctl_def)

lemma squashFromSquashAfter_steady: "squashFromSquashAfter C t s = Inr s' \<Longrightarrow> steady s s'"
  unfolding squashFromSquashAfter_def Let_def upd_info_def
  by (erule steady_bind, erule squashAll_steady) (clarsimp, rule steady_same, simp_all add: ctl_def)

lemma squashFromIEW_steady:
  assumes "squashFromIEW C J t s = Inr s'"
  shows "steady s s'"
proof (cases "s' = s")
  case False
  then obtain q u f where q: "squash_rob C q t (s\<lparr>csStatus := (csStatus s)(t := ROBSquashing),
       csYoungest := (csYoungest s)(t := q)\<rparr>) = Inr u"
    "s' = upd_info t f (u\<lparr>csChangedROB := (csChangedROB u)(t := True)\<rparr>)"
    using assms by (auto simp: squashFromIEW_def split_res Let_def split: if_splits)
  have "steady s (s\<lparr>csStatus := (csStatus s)(t := ROBSquashing), csYoungest := (csYoungest s)(t := q)\<rparr>)"
    by (rule steady_same) (simp_all add: ctl_def)
  also note squash_rob_steady[OF q(1)]
  also have "steady u s'" unfolding q(2) by (rule steady_same) (simp_all add: ctl_def upd_info_def)
  finally show ?thesis .
qed simp

lemma squash_thread_steady:
  assumes "squash_thread C J t s = Inr s'" "\<not> exit_turn t s"
  shows "steady s s'"
proof -
  obtain u where u: "(if csTrapSquash s t then
          bindE (assertE (\<not> csTcSquash s t)) (\<lambda>_.
          bindE (squashFromTrap C t s) (\<lambda>s.
            Inr (if csExiting s t then schedule_event 1 (ThreadExitEvent t) s else s)))
        else if csTcSquash s t then
          bindE (assertE (csStatus s t \<noteq> TrapPending)) (\<lambda>_. squashFromTC C t s)
        else if csStatus s t = SquashAfterPending then
          (if \<not> (csWasRunahead s t \<and> \<not> csInRunahead s t) then squashFromSquashAfter C t s
           else Inr (s\<lparr>csStatus := (csStatus s)(t := CommitRunning)\<rparr>))
        else if csExit s t then squashFromRunaheadExit C J t s
        else Inr s) = Inr u" "squashFromIEW C J t u = Inr s'"
    using assms by (auto simp: squash_thread_def bindE_ok)
  have ev: "steady v (schedule_event d e v)" for v d e
    by (rule steady_event) (simp_all add: schedule_event_def ctl_def)
  have st: "steady s (s\<lparr>csStatus := (csStatus s)(t := CommitRunning)\<rparr>)" by (rule steady_same) (simp_all add: ctl_def)
  have "steady s u"
    using u(1) ev st assms(2) unfolding exit_turn_def
    by (auto simp: split_res intro: steady_trans[OF squashFromTrap_steady] squashFromTrap_steady squashFromTC_steady
        squashFromSquashAfter_steady split: if_splits)
  then show ?thesis using squashFromIEW_steady[OF u(2)] steady_trans by blast
qed

section \<open>The commit loop\<close>

lemma put_steady [simp]: "steady s (put_inst t i s)"
  by (rule steady_same) (simp_all add: put_inst_def ctl_def)

lemma info_steady [simp]: "steady s (upd_info t f s)"
  by (rule steady_same) (simp_all add: upd_info_def ctl_def)

lemma interrupt_steady:
  assumes "commit_interrupt C ot s = Inr s'" "runahead_hazard s"
  shows "steady s s'"
proof -
  let ?a = "(upd_info 0 (\<lambda>c. c\<lparr>ciClearInterrupt := True\<rparr>) (s\<lparr>csIntCtl := ccIntClear C (csIntCtl s)\<rparr>))
               \<lparr>csInterrupt := None, csAvoidLiveLock := True\<rparr>"
  let ?b = "(upd_info 0 (\<lambda>c. c\<lparr>ciClearInterrupt := True\<rparr>) s)\<lparr>csInterrupt := None, csAvoidLiveLock := True\<rparr>"
  have "commit_interrupt C ot s = Inr s \<or> commit_interrupt C ot s = Inr ?a \<or> commit_interrupt C ot s = Inr ?b"
    using assms(2) by (simp add: commit_interrupt_def handleInterrupt_def)
  moreover have "steady s ?a" "steady s ?b" by (rule steady_same, simp_all add: upd_info_def ctl_def)+
  ultimately show ?thesis using assms(1) by auto
qed

lemma lll_steady: "handleRunaheadLLL t i s = Inr s' \<Longrightarrow> steady s s'"
  by (drule handleLLL_update) (rule steady_event, simp_all add: lll_update_def put_inst_def Let_def ctl_def)

lemma unready_steady:
  assumes "inspect_unready_head C J 0 i s = Inr s'" "has_flag Runahead i" "rob_readHeadInst (csRob s) 0 = Inr (Some i)"
  shows "steady s s'"
proof -
  have "enterRunahead C 0 s = Inl AssertFail"
    using assms(2,3) by (simp add: enterRunahead_def)
  then have "s' = s \<or> (\<exists>u. handleRunaheadLLL 0 i s = Inr u \<and> s' = u\<lparr>csNumLLLs := csNumLLLs u + 1\<rparr>)"
    using assms(1) by (auto simp: inspect_unready_head_def split_res split: if_splits)
  moreover have "steady u (u\<lparr>csNumLLLs := csNumLLLs u + 1\<rparr>)" for u by (rule steady_same) (simp_all add: ctl_def)
  ultimately show ?thesis using lll_steady steady_trans by (metis steady_refl)
qed

lemma unexecuted_steady: "commit_unexecuted J t i n s = Inr s' \<Longrightarrow> steady s s'"
  by (rule steady_same) (auto simp: commit_unexecuted_def split_res Let_def put_inst_def upd_info_def ctl_def split: if_splits)

lemma fault_steady:
  assumes "commit_fault C J 0 i f n s = Inr s'" "has_flag Runahead i"
  shows "steady s s'"
proof -
  let ?j = "set_flag Poisoned (set_status Completed i)"
  let ?u = "put_inst 0 ?j (put_inst 0 (set_status Completed i) s)"
  have p: "setPoisoned (set_status Completed i) = Inr ?j"
    using assms(2) by (simp add: setPoisoned_def)
  let ?v = "set_exit CauseFetchFault 0 (?u\<lparr>csCause := (csCause ?u)(0 := csCpuCause ?u 0)\<rparr>)"
  have "commit_fault C J 0 i f n s = bindE (assertE (\<not> csNoSquashTC (put_inst 0 (set_status Completed i) s) 0))
     (\<lambda>_. Inr (if has_flag NotAnInst ?j then ?v else ?u))"
    using assms(2) by (simp add: commit_fault_def Let_def p)
  then have "(if has_flag NotAnInst ?j then ?v else ?u) = s'"
    by (rule assertE_value[OF trans[OF sym assms(1)]])
  then have r: "s' = ?u \<or> s' = ?v" by (cases "has_flag NotAnInst ?j") (simp_all only: if_True if_False simp_thms)
  have c: "steady s ?u" by (rule steady_trans[OF put_steady put_steady])
  have "steady ?u ?v" by (simp add: steady_def set_exit_def count_cause_def)
  then have "steady s ?v" by (rule steady_trans[OF c])
  with c r show ?thesis by (elim disjE) (simp_all only:)
qed

lemma retire_steady: "retire_head t s = Inr s' \<Longrightarrow> steady s s'"
  by (rule steady_same) (auto simp: retire_head_def split_res ctl_def)

lemma stats_steady: "steady s (updateComInstStats t i s)"
  by (rule steady_same) (simp_all add: updateComInstStats_def instDone_def Let_def ctl_def)

lemma commitHead_steady:
  assumes "commitHead C J 0 i n s = Inr (b, s')" "has_flag Runahead i"
  shows "steady s s'"
proof (cases "has_status Executed i")
  case False
  then show ?thesis using assms unexecuted_steady by (auto simp: commitHead_def split_res)
next
  case exe: True
  show ?thesis
  proof (cases "diFault i")
    case (Some g)
    then obtain h where "commit_fault C J 0 i h n (put_inst 0 i s) = Inr s'"
      using assms exe by (auto simp: commitHead_def split_res Let_def split: if_splits)
    from steady_trans[OF put_steady fault_steady[OF this assms(2)]] show ?thesis .
  next
    case None
    then have "b" using assms exe by (auto simp: commitHead_def split_res Let_def)
    then have ok: "commitHead C J 0 i n s = Inr (True, s')" using assms(1) by simp
    obtain j u v where j0: "j = (if has_prop IsStore i then i else set_status Completed i)"
      and j: "commit_dests C 0 j (updateComInstStats 0 j (put_inst 0 j s)) = Inr u" "retire_head 0 u = Inr v"
      "s' = v \<or> s' = v\<lparr>csCommittedStores := (csCommittedStores v)(0 := True)\<rparr>"
      using commitHead_success[OF ok] by metis
    have jf: "has_flag Runahead j" using j0 assms(2) by simp
    have "steady s u" unfolding dests_same[OF j(1) jf] by (rule steady_trans[OF put_steady stats_steady])
    also note retire_steady[OF j(2)]
    also have "steady v s'"
    proof -
      have "steady v (v\<lparr>csCommittedStores := (csCommittedStores v)(0 := True)\<rparr>)" by (rule steady_same) (simp_all add: ctl_def)
      then show ?thesis using j(3) by auto
    qed
    finally show ?thesis .
  qed
qed

lemma squashAfter_steady: "squashAfter t i s = Inr s' \<Longrightarrow> steady s s'"
  by (rule steady_same) (auto simp: squashAfter_def split_res ctl_def)

lemma htm_steady: "commit_htm t i s = Inr s' \<Longrightarrow> steady s s'"
  by (rule steady_same) (auto simp: commit_htm_def split_res Let_def ctl_def split: if_splits)

lemma boundary_steady: "commit_boundary C t i s = Inr (b, s') \<Longrightarrow> steady s s'"
  by (rule steady_same) (auto simp: commit_boundary_def squashAfter_def split_res Let_def ctl_def
      split: if_splits option.splits)

lemma drains_steady: "commit_drains t i s = Inr s' \<Longrightarrow> steady s s'"
  by (rule steady_same) (auto simp: commit_drains_def squashAfter_def split_res ctl_def split: if_splits)

lemma after_commit_steady:
  assumes "after_commit C t i s = Inr (b, s')"
  shows "steady s s'"
proof -
  obtain u tail v w where u: "commit_htm t i (track_commit i s) = Inr u"
    "(if has_prop IsSquashAfter i
      then squashAfter t i (record_commit C t i tail (u\<lparr>csChangedROB := (csChangedROB u)(t := True)\<rparr>))
      else Inr (record_commit C t i tail (u\<lparr>csChangedROB := (csChangedROB u)(t := True)\<rparr>))) = Inr v"
    "commit_drains t i v = Inr w" "commit_boundary C t i w = Inr (b, s')"
    using after_commit_steps[OF assms] .
  let ?u = "u\<lparr>csChangedROB := (csChangedROB u)(t := True)\<rparr>"
  have "steady s (track_commit i s)" by (rule steady_same) (simp_all add: track_commit_def Let_def ctl_def)
  also note htm_steady[OF u(1)]
  also have "steady u ?u" by (rule steady_same) (simp_all add: ctl_def)
  also have "steady ?u (record_commit C t i tail ?u)"
    by (rule steady_same) (simp_all add: record_commit_def upd_info_def Let_def ctl_def)
  also have "steady \<dots> v" using u(2) squashAfter_steady by (auto split: if_splits)
  also note drains_steady[OF u(3)]
  also note boundary_steady[OF u(4)]
  finally show ?thesis .
qed

lemma ready_head_steady:
  assumes "commit_ready_head C J 0 i n s = Inr (b, m, s')" "has_flag Runahead i"
  shows "steady s s'"
proof (cases "has_status Squashed i")
  case True
  then obtain u where u: "retire_head 0 s = Inr u" "s' = u\<lparr>csChangedROB := (csChangedROB u)(0 := True)\<rparr>"
    using assms(1) by (auto simp: commit_ready_head_def bindE_ok)
  have "steady u s'" unfolding u(2) by (rule steady_same) (simp_all add: ctl_def)
  with retire_steady[OF u(1)] show ?thesis by (rule steady_trans)
next
  case False
  let ?s = "s\<lparr>csPC := (csPC s)(0 := diPC i)\<rparr>"
  obtain ok u where u: "commitHead C J 0 i n ?s = Inr (ok, u)"
    "u = s' \<or> after_commit C 0 i u = Inr (b, s')"
    using assms(1) False by (auto simp: commit_ready_head_def bindE_ok split: if_splits)
  have "steady s ?s" by (rule steady_same) (simp_all add: ctl_def)
  also note commitHead_steady[OF u(1) assms(2)]
  also have "steady u s'" using u(2) after_commit_steady by auto
  finally show ?thesis .
qed

lemma round_steady:
  assumes "commit_round C J n s = Inr (b, m, s')" "ccThreads C \<le> 1" "csActive s = [0]"
    "runahead_hazard s" "all_flagged s"
  shows "steady s s'"
  using assms(1)
proof (cases rule: round_cases)
  case (stop ot v)
  then show ?thesis using single_thread[OF stop(1) assms(2,3)] interrupt_steady[OF _ assms(4)] by blast
next
  case (unready t v u i)
  have t: "v = s" "t = 0" using single_thread[OF unready(1) assms(2,3)] by auto
  have c: "calm s u" and q: "steady s u"
    using interrupt_calm[OF _ assms(4)] interrupt_steady[OF _ assms(4)] unready(2) t(1) by blast+
  have "has_flag Runahead i"
    using head_in_list[OF unready(3)] flagged_calm[OF c assms(5)] t(2) by (simp add: all_flagged_def)
  then show ?thesis using q unready_steady[of C J i u s'] unready(3,6) t(2) steady_trans by blast
next
  case (ready t v u i)
  have t: "v = s" "t = 0" using single_thread[OF ready(1) assms(2,3)] by auto
  have c: "calm s u" and q: "steady s u"
    using interrupt_calm[OF _ assms(4)] interrupt_steady[OF _ assms(4)] ready(2) t(1) by blast+
  have f: "has_flag Runahead i"
    using head_in_list[OF ready(3)] flagged_calm[OF c assms(5)] t(2) by (simp add: all_flagged_def)
  have "commit_ready_head C J 0 i n u = Inr (b, m, s')" using ready(6) t(2) by simp
  from steady_trans[OF q ready_head_steady[OF this f]] show ?thesis .
qed

lemma loop_steady:
  assumes "commit_loop C J n s = Inr s'" "ccThreads C \<le> 1" "csActive s = [0]" "runahead_hazard s" "all_flagged s"
  shows "steady s s'"
  using assms
proof (induction C J n s rule: commit_loop.induct)
  case (1 C J n s)
  show ?case
  proof (cases "n < ccCommitWidth C")
    case True
    then obtain b m u where u: "commit_round C J n s = Inr (b, m, u)"
      "if b then commit_loop C J m u = Inr s' else s' = u"
      using 1(2) by (subst (asm) commit_loop.simps) (auto simp: bindE_ok split: if_splits)
    have c: "calm s u" by (rule round_calm[OF u(1) 1(3-6)])
    have q: "steady s u" by (rule round_steady[OF u(1) 1(3-6)])
    have "steady u s'"
    proof (cases b)
      case True
      have "csActive u = [0]" "runahead_hazard u" "all_flagged u"
        using active_calm[OF c] hazard_calm[OF c] flagged_calm[OF c] 1(4-6) by simp_all
      then show ?thesis
        using 1(1)[OF \<open>n < ccCommitWidth C\<close> u(1)] u(2) True 1(3) by simp
    qed (use u in simp)
    with q show ?thesis by (rule steady_trans)
  next
    case False
    then show ?thesis using 1(2) by (simp add: commit_loop.simps)
  qed
qed

lemma getInsts_steady: "getInsts C J s = Inr s' \<Longrightarrow> steady s s'"
proof -
  assume a: "getInsts C J s = Inr s'"
  show ?thesis
  proof (rule foldE_inv[where P = "steady s", OF a[unfolded getInsts_def]])
    fix q u v
    assume p: "steady s u" and v: "bindE (ptr (find (\<lambda>i. diSeq i = q) (csFront u))) (\<lambda>i.
       let t = diTid i in
       if \<not> has_status Squashed i \<and> csStatus u t \<noteq> ROBSquashing \<and> csStatus u t \<noteq> TrapPending then
         bindE (rob_insertInst i (csRob u)) (\<lambda>r.
         bindE (assertE (threadEntries r t \<le> maxEntries r t)) (\<lambda>_.
           Inr (u\<lparr>csChangedROB := (csChangedROB u)(t := True), csRob := r,
                  csFront := filter (\<lambda>j. diSeq j \<noteq> q) (csFront u),
                  csYoungest := (csYoungest u)(t := diSeq i)\<rparr>)))
       else Inr u) = Inr v"
    then have "steady u v"
      by (auto simp: split_res Let_def steady_def split: if_splits)
    with p show "steady s v" by (rule steady_trans)
  qed simp
qed

section \<open>A cycle\<close>

lemma propagated_hazard: "runahead_hazard s \<Longrightarrow> propagated C s = s"
  using propagate_hazard by (simp add: propagated_def)

lemma report_steady: "steady s (fold (report_rob J) ts s)"
proof (induction ts arbitrary: s)
  case (Cons t ts)
  have "steady s (report_rob J t s)"
    by (rule steady_same) (simp_all add: report_rob_def Let_def upd_info_def ctl_def)
  also note Cons.IH
  finally show ?case by simp
qed simp

lemma mark_steady: "steady s (markCompletedInsts J s)"
proof -
  let ?f = "\<lambda>q s. s\<lparr>csRob := (csRob s)\<lparr>instList := (\<lambda>t. map (mark_completed q) (instList (csRob s) t))\<rparr>,
      csFront := map (mark_completed q) (csFront s)\<rparr>"
  have "ctl (fold ?f qs u) = ctl u \<and> csEvents (fold ?f qs u) = csEvents u" for qs u
    by (induction qs arbitrary: u) (simp_all add: ctl_def)
  then show ?thesis by (intro steady_same) (simp_all add: markCompletedInsts_def)
qed

lemma check_head_steady: "check_head t s = Inr s' \<Longrightarrow> steady s s'"
  by (rule steady_same) (auto simp: check_head_def split_res ctl_def split: if_splits)

lemma nllb_steady: "check_nllb C 0 s = Inr s' \<Longrightarrow> steady s s'"
  by (auto simp: check_nllb_def Let_def split_res intro: steady_trans[OF set_exit_steady set_exit_steady]
      split: if_splits option.splits)

lemma end_of_cycle_steady:
  assumes "updateRunaheadState C J 0 s = Inr s'" "\<not> csArchRestorePrev s 0"
  shows "steady s s'"
proof -
  let ?s = "s\<lparr>csWasRunahead := (csWasRunahead s)(0 := csInRunahead s 0)\<rparr>"
  obtain u where u: "check_nllb C 0 (check_min_work C 0 ?s) = Inr u" "s' = track_overhead J 0 u"
    using assms by (auto simp: updateRunaheadState_def do_arch_restore_def split_res)
  have "steady s ?s" by (rule steady_same) (simp_all add: ctl_def)
  also have "steady ?s (check_min_work C 0 ?s)" by (simp add: check_min_work_def)
  also note nllb_steady[OF u(1)]
  also have "steady u s'" unfolding u(2)
    by (rule steady_same) (simp_all add: track_overhead_def Let_def ctl_def split: option.splits)
  finally show ?thesis .
qed

lemma commit_steady:
  assumes "commit C J s = Inr s'" "ccThreads C = 1" "csActive s = [0]" "runahead_hazard s"
    "all_flagged s" "rename_ok J s" "\<not> exit_turn 0 s"
  shows "steady s s'"
proof -
  obtain u w where u: "squash_thread C J 0 s = Inr u"
    "(if squashing_threads (noted u) \<noteq> ccThreads C
      then bindE (getInsts C J (noted u)) (commitInsts C J) else Inr (noted u)) = Inr w"
    "s' = fold (report_rob J) (csActive w) w"
    by (rule commit_split[OF assms(1,3), unfolded propagated_hazard[OF assms(4)]])
  have qu: "quiet s u" using squash_thread_quiet[OF u(1)] assms(7) by simp
  have q: "quiet s (noted u)" by (rule quiet_trans[OF qu noted_quiet])
  have c: "calm s (noted u)" by (rule quiet_calm[OF q])
  have ok: "rename_ok J (noted u)" using q assms(6) by (simp add: rename_ok_def quiet_def)
  have "steady (noted u) w"
  proof (cases "squashing_threads (noted u) \<noteq> ccThreads C")
    case True
    then obtain v where v: "getInsts C J (noted u) = Inr v" "commit_loop C J 0 v = Inr w"
      using u(2) by (auto simp: bindE_ok commitInsts_def)
    have "calm s v" by (rule calm_trans[OF c getInsts_calm[OF v(1) ok]])
    then have "csActive v = [0]" "runahead_hazard v" "all_flagged v"
      using active_calm[of s v] hazard_calm[of s v] flagged_calm[of s v] assms(3-5) by simp_all
    then have "steady v w" using loop_steady[OF v(2)] assms(2) by simp
    with getInsts_steady[OF v(1)] show ?thesis by (rule steady_trans)
  qed (use u(2) in simp)
  moreover have "steady u (noted u)" by (simp add: noted_def steady_same ctl_def)
  moreover have "steady w s'" unfolding u(3) by (rule report_steady)
  ultimately show ?thesis using squash_thread_steady[OF u(1) assms(7)] steady_trans by blast
qed

lemma continue_squash_steady: "continue_squash C t s = Inr s' \<Longrightarrow> steady s s'"
  by (rule steady_same)
    (auto simp: continue_squash_def cs_rob_step_def upd_info_def Let_def split_res ctl_def split: if_splits)

lemma tick_steady:
  assumes "commit_tick C J s = Inr s'" "ccThreads C = 1" "csActive s = [0]" "runahead_hazard s"
    "all_flagged s" "rename_ok J s" "\<not> csArchRestorePrev s 0" "\<not> exit_turn 0 s"
  shows "steady s s'"
proof -
  obtain s2 s3 s5 s6 where q: "quiet s s2" and et: "exit_turn 0 s2 = exit_turn 0 s" and s3: "commit C J s2 = Inr s3"
    and s5: "foldE check_head (csActive (markCompletedInsts J s3)) (markCompletedInsts J s3) = Inr s5"
    and s6: "foldE (updateRunaheadState C J) (csActive s5) s5 = Inr s6" and s': "s' = updateStatus s6"
    and c2: "continue_squash C 0 (count_mode_cycles (s\<lparr>csWroteTB := False, csNextActive := False\<rparr>)) = Inr s2"
    by (rule tick_parts[OF assms(1,3)])
  have c: "calm s s2" by (rule quiet_calm[OF q])
  have g: "csActive s2 = [0]" "runahead_hazard s2" "all_flagged s2" "rename_ok J s2"
    using active_calm[OF c] hazard_calm[OF c] flagged_calm[OF c] assms(3-6) q
    by (simp_all add: rename_ok_def quiet_def)
  have p: "period_effect s2 s3" by (rule commit_period[OF s3 assms(2) g])
  have c3: "calm s2 s3" using p assms(8) et by (simp add: period_effect_def calm_def)
  let ?s4 = "markCompletedInsts J s3"
  have c4: "calm s ?s4" using calm_trans[OF calm_trans[OF c c3] markCompleted_calm] .
  have "csActive ?s4 = [0]" using active_calm[OF c4] assms(3) by simp
  then have s5': "check_head 0 ?s4 = Inr s5" using s5 by (auto simp: bindE_ok)
  have c5: "calm s s5" by (rule calm_trans[OF c4 quiet_calm[OF check_head_quiet[OF s5']]])
  have a5: "csActive s5 = [0]" using active_calm[OF c5] assms(3) by simp
  have n: "\<not> csArchRestorePrev s5 0" using c5 assms(7) by (simp add: calm_def arch_view_def)
  have s6': "updateRunaheadState C J 0 s5 = Inr s6" using s6 unfolding a5 by (simp add: bindE_ok)
  let ?s1 = "s\<lparr>csWroteTB := False, csNextActive := False\<rparr>"
  have "steady s (count_mode_cycles ?s1)" by (rule steady_same) (simp_all add: count_mode_cycles_def Let_def ctl_def)
  also note continue_squash_steady[OF c2]
  also have "steady s2 s3" by (rule commit_steady[OF s3 assms(2) g]) (use et assms(8) in simp)
  also note mark_steady[of s3 J]
  also note check_head_steady[OF s5']
  also note end_of_cycle_steady[OF s6' n]
  also have "steady s6 s'" unfolding s' by (rule steady_same) (simp_all add: updateStatus_def Let_def ctl_def)
  finally show ?thesis .
qed

section \<open>The deadline\<close>

text \<open>
  The load has returned: the exit is set, or the deadline event for cycle \<open>d\<close> is pending and time
  has not passed it.
\<close>

definition awaits :: "nat \<Rightarrow> nat \<Rightarrow> commit_state \<Rightarrow> bool" where
  "awaits d q s \<longleftrightarrow> csExitable s 0 \<and> (csExit s 0
     \<or> csCause s 0 = Some q \<and> (d, DeadlineEvent 0 q) \<in> set (csEvents s) \<and> csNow s \<le> d)"

lemma steady_awaits: "steady s s' \<Longrightarrow> awaits d q s \<Longrightarrow> awaits d q s'"
  by (auto simp: steady_def awaits_def)

lemma event_ctl:
  assumes "run_event e s = Inr s'"
  shows "csNow s' = csNow s \<and> csEvents s' = csEvents s \<and> csExitable s' = csExitable s \<and> csCause s' = csCause s
    \<and> csInRunahead s' = csInRunahead s \<and> (csExit s 0 \<longrightarrow> csExit s' 0)"
  using assms by (auto simp: run_event_def processTrapEvent_def deadline_event_def set_exit_def count_cause_def split_res
      split: commit_event.splits if_splits)

lemma deadline_sets_exit:
  "run_event (DeadlineEvent 0 q) s = Inr s' \<Longrightarrow> csCause s 0 = Some q \<Longrightarrow> csInRunahead s 0 \<Longrightarrow> csExit s' 0"
  by (auto simp: run_event_def deadline_event_def set_exit_def count_cause_def split: if_splits)

lemma events_ctl:
  assumes "foldE (\<lambda>(d, e). run_event e) es s = Inr s'"
  shows "csNow s' = csNow s \<and> csEvents s' = csEvents s \<and> csExitable s' = csExitable s \<and> csCause s' = csCause s
    \<and> csInRunahead s' = csInRunahead s \<and> (csExit s 0 \<longrightarrow> csExit s' 0)"
proof (rule foldE_inv[OF assms, where P = "\<lambda>v. csNow v = csNow s \<and> csEvents v = csEvents s
    \<and> csExitable v = csExitable s \<and> csCause v = csCause s \<and> csInRunahead v = csInRunahead s \<and> (csExit s 0 \<longrightarrow> csExit v 0)"])
  fix x u v assume "csNow u = csNow s \<and> csEvents u = csEvents s \<and> csExitable u = csExitable s \<and> csCause u = csCause s
    \<and> csInRunahead u = csInRunahead s \<and> (csExit s 0 \<longrightarrow> csExit u 0)" "(\<lambda>(d, e). run_event e) x u = Inr v"
  then show "csNow v = csNow s \<and> csEvents v = csEvents s \<and> csExitable v = csExitable s \<and> csCause v = csCause s
    \<and> csInRunahead v = csInRunahead s \<and> (csExit s 0 \<longrightarrow> csExit v 0)"
    using event_ctl[of "snd x" u v] by (cases x) auto
qed simp

lemma events_fire:
  "foldE (\<lambda>(d, e). run_event e) es s = Inr s' \<Longrightarrow> (d, DeadlineEvent 0 q) \<in> set es \<Longrightarrow>
     csCause s 0 = Some q \<Longrightarrow> csInRunahead s 0 \<Longrightarrow> csExit s' 0"
proof (induction es arbitrary: s)
  case (Cons x es)
  obtain u where u: "run_event (snd x) s = Inr u" "foldE (\<lambda>(d, e). run_event e) es u = Inr s'"
    using Cons.prems(1) by (cases x) (auto simp: bindE_ok)
  note c = event_ctl[OF u(1)]
  show ?case
  proof (cases "x = (d, DeadlineEvent 0 q)")
    case True
    then have "csExit u 0" using deadline_sets_exit[of q s u] u(1) Cons.prems(3,4) by simp
    then show ?thesis using events_ctl[OF u(2)] by simp
  next
    case False
    then show ?thesis using Cons.IH[OF u(2)] Cons.prems c by simp
  qed
qed simp

lemma due_awaits:
  assumes "run_due_events s = Inr u" "awaits d q s" "csInRunahead s 0"
  shows "csExitable u 0 \<and> csNow u = csNow s \<and> (csExit u 0
     \<or> csCause u 0 = Some q \<and> (d, DeadlineEvent 0 q) \<in> set (csEvents u) \<and> csNow u < d)"
proof -
  let ?s = "s\<lparr>csEvents := filter (\<lambda>(d, e). csNow s < d) (csEvents s)\<rparr>"
  note f = assms(1)[unfolded run_due_events_def]
  note c = events_ctl[OF f]
  show ?thesis
  proof (cases "csExit s 0")
    case False
    then have a: "csCause s 0 = Some q" "(d, DeadlineEvent 0 q) \<in> set (csEvents s)" "csNow s \<le> d"
      using assms(2) by (simp_all add: awaits_def)
    show ?thesis
    proof (cases "csNow s < d")
      case True
      then show ?thesis using c a assms(2) by (simp add: awaits_def)
    next
      case False
      then have "(d, DeadlineEvent 0 q) \<in> set (filter (\<lambda>(d, e). d \<le> csNow s) (csEvents s))" using a(2) by simp
      then have "csExit u 0" using events_fire[OF f] a(1) assms(3) by simp
      then show ?thesis using c assms(2) by (simp add: awaits_def)
    qed
  qed (use c assms(2) in \<open>simp add: awaits_def\<close>)
qed

lemma awaits_step:
  assumes "period_step C s s'" "ccThreads C = 1" "period_inv C val pc e s" "has_left s \<or> awaits d q s"
  shows "has_left s' \<or> awaits d q s'"
  using assms(1)
proof (cases rule: period_step.cases)
  case ps_env
  then show ?thesis using assms(4) by (auto simp: env_step_def has_left_def left_def awaits_def)
next
  case (ps_resp i rc b)
  have "s' = s"
  proof (cases "has_left s")
    case True
    then show ?thesis by (rule resp_left[OF ps_resp(1) _ ps_resp(2)])
  next
    case False
    then have "csExitable s 0" using assms(4) by (simp add: awaits_def)
    then show ?thesis using ps_resp
      by (auto simp: recv_runahead_resp_def runaheadLLLReturn_def signalExitRunahead_def split_res split: if_splits)
  qed
  then show ?thesis using assms(4) by simp
next
  case (ps_cycle u J v)
  have I: "period_inv C val pc e s'" by (rule step_inv[OF assms(1-3)])
  note Iu = due_inv[OF ps_cycle(2) assms(3)]
  have ra: "running_ahead u" using Iu ps_cycle(4) by (auto simp: period_inv_def has_left_def)
  have nl: "\<not> has_left s" using run_due_left[OF ps_cycle(2)] ps_cycle(4) by (auto simp: has_left_def)
  then have "awaits d q s" "csInRunahead s 0"
    using assms(3,4) by (auto simp: period_inv_def running_ahead_def)
  note A = due_awaits[OF ps_cycle(2) this]
  have fl: "csActive u = [0]" "all_flagged u" using Iu by (simp_all add: period_inv_def)
  show ?thesis
  proof (cases "exit_turn 0 u")
    case True
    then have "\<not> csInRunahead v 0"
      using tick_in_period[OF ps_cycle(5) assms(2) fl(1) hazard_inv[OF Iu] fl(2) ps_cycle(3,4)]
      by (simp add: period_effect_def)
    then have "\<not> running_ahead s'" by (simp add: ps_cycle(1) running_ahead_def advance_cycle_def)
    then show ?thesis using I by (simp add: period_inv_def)
  next
    case False
    then have st: "steady u v"
      by (rule tick_steady[OF ps_cycle(5) assms(2) fl(1) hazard_inv[OF Iu] fl(2) ps_cycle(3,4)])
    have "awaits d q (advance_cycle v)"
      using st A by (auto simp: steady_def awaits_def advance_cycle_def)
    then show ?thesis by (simp add: ps_cycle(1))
  qed
qed

lemma awaits_steps:
  assumes "(period_step C)\<^sup>*\<^sup>* s s'" "ccThreads C = 1" "period_inv C val pc e s" "has_left s \<or> awaits d q s"
  shows "has_left s' \<or> awaits d q s'"
  using assms(1)
proof (induction rule: rtranclp_induct)
  case (step u v)
  then show ?case using awaits_step[OF step(2) assms(2) steps_inv[OF step(1) assms(2,3)]] by blast
qed (use assms(4) in simp)

lemma signal_awaits:
  assumes "signalExitRunahead C 0 q s = Inr s'" "\<not> csExitable s 0"
  shows "awaits (csNow s + ccDeadline C) q s'"
proof -
  let ?s = "s\<lparr>csExitable := (csExitable s)(0 := True), csCause := (csCause s)(0 := Some q)\<rparr>"
  obtain u where u: "exit_by_policy C 0 ?s = Inr u"
    "s' = (if \<not> csExit u 0 then schedule_event (ccDeadline C) (DeadlineEvent 0 q) u else u)"
    using assms by (auto simp: signalExitRunahead_def bindE_ok)
  have "csExitable u 0" "csCause u 0 = Some q" "csNow u = csNow s"
    using u(1) by (auto simp: exit_by_policy_def dynamicDelayedRunaheadExit_def set_exit_def count_cause_def split_res Let_def
        split: exit_policy.splits if_splits)
  then show ?thesis unfolding u(2) by (auto simp: awaits_def schedule_event_def)
qed

lemma return_signals:
  assumes "recv_runahead_resp C i rc s = Inr (b, s')" "has_flag Runahead i" "instCausedRunahead i s" "diTid i = 0"
  shows "signalExitRunahead C 0 (diSeq i) s = Inr s'"
  using assms by (auto simp: recv_runahead_resp_def instCausedRunahead_def runaheadLLLReturn_def split_res split: if_splits)

text \<open>
  C4: the load's return ends the period by the deadline.  A runahead period is entered and runs
  for any number of steps; then the response of the load that caused it arrives, for the first
  time.  However the period goes on, in any later state that is still in runahead the exit is
  set, or the cycle is at most \<open>runaheadExitDeadline\<close> after the response, whatever the exit
  policy.  And a cycle that finds the exit set leaves runahead, when its turn is the exit's: no
  trap squash, no squash of a thread-context write and no squash-after is pending for the thread
  (\<open>exit_turn\<close>; \<open>commit\<close> does those first), and no restore of the architectural state is due
  from the cycle before (\<open>csArchRestorePrev\<close>).
\<close>

theorem runahead_ends_by_the_deadline:
  assumes "entry_tick C J s0 s1" "(period_step C)\<^sup>*\<^sup>* (advance_cycle s1) s" "\<not> csExitable s 0"
    "has_flag Runahead i" "instCausedRunahead i s" "diTid i = 0" "recv_runahead_resp C i rc s = Inr (b, s2)"
    "(period_step C)\<^sup>*\<^sup>* s2 s3"
  shows "(csInRunahead s3 0 \<longrightarrow> csExit s3 0 \<or> csNow s3 \<le> csNow s + ccDeadline C)
     \<and> (\<forall>u v J'. run_due_events s3 = Inr u \<longrightarrow> rename_ok J' u \<longrightarrow> \<not> csArchRestorePrev u 0 \<longrightarrow> exit_turn 0 u
          \<longrightarrow> commit_tick C J' u = Inr v \<longrightarrow> \<not> csInRunahead v 0)"
proof -
  have th: "ccThreads C = 1" using assms(1) by (simp add: entry_tick_def)
  note I = steps_inv[OF assms(2) th entry_inv[OF assms(1)]]
  have "period_step C s s2" by (rule ps_resp[OF assms(7,6)])
  note I2 = step_inv[OF this th I]
  note I3 = steps_inv[OF assms(8) th I2]
  have "awaits (csNow s + ccDeadline C) (diSeq i) s2"
    by (rule signal_awaits[OF return_signals[OF assms(7,4,5,6)] assms(3)])
  then have "has_left s3 \<or> awaits (csNow s + ccDeadline C) (diSeq i) s3"
    using awaits_steps[OF assms(8) th I2] by blast
  then have "csInRunahead s3 0 \<longrightarrow> csExit s3 0 \<or> csNow s3 \<le> csNow s + ccDeadline C"
    by (auto simp: has_left_def awaits_def)
  moreover have "\<not> csInRunahead v 0" if r: "run_due_events s3 = Inr u" "rename_ok J' u" "\<not> csArchRestorePrev u 0"
      "exit_turn 0 u" "commit_tick C J' u = Inr v" for u v J'
  proof -
    note Iu = due_inv[OF r(1) I3]
    have "csActive u = [0]" "all_flagged u" using Iu by (simp_all add: period_inv_def)
    from tick_in_period[OF r(5) th this(1) hazard_inv[OF Iu] this(2) r(2,3)] r(4) show ?thesis
      by (simp add: period_effect_def)
  qed
  ultimately show ?thesis by blast
qed

lemma runahead_ends_by_the_deadline_witness:
  "\<exists>s. (period_step ex_cfg)\<^sup>*\<^sup>* ex_out s \<and> \<not> csInRunahead s 0
     \<and> (csInRunahead ex_out 0 \<longrightarrow> csExit ex_out 0 \<or> csNow ex_out \<le> 61)"
proof -
  have n: "\<not> csExitable ex_next 0" "instCausedRunahead ex_marked ex_next" "csNow ex_next = 11"
    by (simp_all add: ex_next_def advance_cycle_def ex_run_def updateStatus_def ex_mid_def note_entry_def entered_def
      lll_update_def put_inst_def Let_def instCausedRunahead_def)
  have f: "has_flag Runahead ex_marked" "diTid ex_marked = 0" by (simp_all add: has_flag_def)
  have st: "(period_step ex_cfg)\<^sup>*\<^sup>* (advance_cycle ex_run) ex_next" by (simp add: ex_next_def)
  note T = runahead_ends_by_the_deadline[OF ex_entry st n(1) f(1) n(2) f(2) ex_resp]
  obtain v where v: "commit_tick ex_cfg ex_in ex_due = Inr v" "ex_frame v" using tick2 by blast
  have "period_step ex_cfg ex_out (advance_cycle v)"
    by (rule ps_cycle[OF ex_due _ _ v(1)]) (simp_all add: ex_rename_ok)
  moreover have "\<not> csInRunahead v 0"
    using T[of ex_out] ex_due v(1) by (auto simp: ex_rename_ok exit_turn_def)
  ultimately show ?thesis using T[of ex_out] n(3) by (intro exI[of _ "advance_cycle v"]) (auto simp: advance_cycle_def)
qed

section \<open>The squash that leaves\<close>

text \<open>The squash that is started in the reorder buffer, and the tail that is reported.\<close>

lemma last_of_tail: "rob_readTailInst r t = Inr i \<Longrightarrow> instList r t \<noteq> [] \<Longrightarrow> diSeq i = diSeq (last (instList r t))"
  by (auto simp: rob_readTailInst_def it_dec_def it_get_def split_res dest: pos_of_Some split: option.splits if_splits)

lemma exit_squash_rob:
  assumes "squashFromRunaheadExit C J t s = Inr s'" "csCause s t = Some lll"
  shows "rob_squash (ccPinned C) (csExiting s t) (csActive s) (usub64 lll 1) t (csRob s, rsPins (asRen (csArch s)))
      = Inr (csRob s', rsPins (asRen (csArch s')))"
    "instList (csRob s) t \<noteq> [] \<Longrightarrow> threadEntries (csRob s) t \<noteq> 0 \<Longrightarrow>
      ciSquashTail (csInfoOut s' t) = diSeq (last (instList (csRob s) t))"
proof -
  define s1 where "s1 = (upd_info t (\<lambda>c. c\<lparr>ciSquash := True\<rparr>) (s\<lparr>csExit := (csExit s)(t := False),
      csInfo := (csInfo s)\<lparr>rfExitCycles := 0, rfIqSeqNum := (case tiIqYoungest J t of None \<Rightarrow> 0 | Some q \<Rightarrow> q)\<rparr>,
      csArchRestore := (csArchRestore s)(t := True)\<rparr>))\<lparr>csYoungest := (csYoungest s)(t := usub64 lll 1)\<rparr>"
  obtain tail u where c: "squash_tail t (usub64 lll 1) s1 = Inr tail"
    "squash_rob C (usub64 lll 1) t ((upd_info t (\<lambda>c. c\<lparr>ciDoneSeq := usub64 lll 1, ciSquashTail := tail\<rparr>) s1)
        \<lparr>csStatus := (csStatus s)(t := ROBSquashing)\<rparr>) = Inr u" (is "squash_rob C _ t ?s2 = _")
    "csRob s' = csRob u" "csArch s' = csArch u" "ciSquashTail (csInfoOut s' t) = ciSquashTail (csInfoOut u t)"
    using assms unfolding s1_def
    by (auto simp: squashFromRunaheadExit_def split_res Let_def upd_info_def exitRunahead_def)
  obtain r pc where u: "rob_squash (ccPinned C) (csExiting ?s2 t) (csActive ?s2) (usub64 lll 1) t
      (csRob ?s2, rsPins (asRen (csArch ?s2))) = Inr (r, pc)"
    "u = ?s2\<lparr>csRob := r, csArch := (csArch ?s2)\<lparr>asRen := (asRen (csArch ?s2))\<lparr>rsPins := pc\<rparr>\<rparr>\<rparr>"
    using c(2) by (auto simp: squash_rob_def cs_rob_step_def split_res)
  have v: "csExiting ?s2 = csExiting s" "csActive ?s2 = csActive s" "csRob ?s2 = csRob s" "csArch ?s2 = csArch s"
    by (simp_all add: s1_def upd_info_def)
  show "rob_squash (ccPinned C) (csExiting s t) (csActive s) (usub64 lll 1) t (csRob s, rsPins (asRen (csArch s)))
      = Inr (csRob s', rsPins (asRen (csArch s')))"
    using u(1) unfolding v c(3,4) u(2) by simp
  assume "instList (csRob s) t \<noteq> []" "threadEntries (csRob s) t \<noteq> 0"
  moreover have "csRob s1 = csRob s" by (simp add: s1_def upd_info_def)
  ultimately have "tail = diSeq (last (instList (csRob s) t))"
    using c(1) by (auto simp: squash_tail_def rob_isEmptyOf_def split_res dest!: last_of_tail)
  then show "ciSquashTail (csInfoOut s' t) = diSeq (last (instList (csRob s) t))"
    unfolding c(5) u(2) by (simp add: upd_info_def)
qed

text \<open>
  C5: what the exit squash does.  Commit and fetch go back to the program counter of the entry,
  pending traps of the period are dropped, the exit and exitable flags are cleared, the thread is
  out of runahead and the restore is requested; registers, maps and checkpoint are not touched
  yet.  The stages are told to squash everything behind the sequence number before the load that
  caused the period.  The reorder buffer squashes exactly the instructions from that load on: the
  squash and the rounds of \<open>doSquash\<close> that follow, as many as the squash width asks for, do not
  fail, mark these instructions and leave the older ones alone.
\<close>

theorem exit_squash_goes_back_to_the_load:
  assumes "squashFromRunaheadExit C J t s = Inr s'" "csCause s t = Some lll" "0 < lll" "lll < 2 ^ 64"
    "rob_inv (csRob s)" "t < robThreads (csRob s)" "instList (csRob s) t \<noteq> []"
    "0 < squash_allowance (csExiting s t) (csRob s)"
    "length (filter (\<lambda>i. lll \<le> diSeq i) (instList (csRob s) t)) \<le> n * squash_allowance (csExiting s t) (csRob s)"
    "0 < n"
  shows "csYoungest s' t = lll - 1 \<and> ciDoneSeq (csInfoOut s' t) = lll - 1 \<and> ciSquash (csInfoOut s' t)
     \<and> ciSquashTail (csInfoOut s' t) = diSeq (last (instList (csRob s) t))
     \<and> csPC s' t = csStoredPC s t \<and> ciPC (csInfoOut s' t) = Some (csStoredPC s t)
     \<and> csStatus s' t = ROBSquashing \<and> \<not> csTrapInFlight s' t \<and> \<not> csTrapPending s' t
     \<and> \<not> csExit s' t \<and> \<not> csExitable s' t \<and> \<not> csInRunahead s' t \<and> csArchRestore s' t
     \<and> asFile (csArch s') = asFile (csArch s) \<and> asCkpt (csArch s') = asCkpt (csArch s)
     \<and> rsMaps (asRen (csArch s')) = rsMaps (asRen (csArch s))
     \<and> (\<exists>r pc. squash_run (ccPinned C) (csExiting s t) (csActive s) t (n - 1) (csRob s', rsPins (asRen (csArch s')))
            = Inr (r, pc)
          \<and> instList r t = map (\<lambda>i. if lll \<le> diSeq i then rob_mark i else i) (instList (csRob s) t)
          \<and> doneSquashing r t \<and> (\<forall>u. u \<noteq> t \<longrightarrow> instList r u = instList (csRob s) u))"
proof -
  have q: "usub64 lll 1 = lll - 1" using assms(3,4) by (simp add: usub64_le)
  have at: "lll - 1 < diSeq i \<longleftrightarrow> lll \<le> diSeq i" for i using assms(3) by auto
  note E = exit_squash[OF assms(1)]
  have v: "arch_view s' = arch_view s" using E by (simp add: exits_def)
  have te: "threadEntries (csRob s) t \<noteq> 0" using assms(5-7) by (auto simp: rob_inv_def)
  note R = exit_squash_rob[OF assms(1,2), unfolded q]
  have "length (filter (\<lambda>i. diSeq i > lll - 1) (instList (csRob s) t)) \<le> n * squash_allowance (csExiting s t) (csRob s)"
    using assms(9) by (simp only: at)
  from squash_from_start[OF assms(5-8) this assms(10)] R(1)
  obtain r pc where r: "squash_run (ccPinned C) (csExiting s t) (csActive s) t (n - 1) (csRob s', rsPins (asRen (csArch s')))
      = Inr (r, pc)" "squash_frame t (csRob s) r" "squash_done t (lll - 1) (instList (csRob s) t) r"
    by (metis bindE_Inr)
  have "csYoungest s' t = lll - 1" "ciDoneSeq (csInfoOut s' t) = lll - 1" using E assms(2) q by auto
  moreover have "instList r t = map (\<lambda>i. if lll \<le> diSeq i then rob_mark i else i) (instList (csRob s) t)"
    "doneSquashing r t"
    using r(3) by (simp_all only: squash_done_def marked_def at)
  moreover have "\<forall>u. u \<noteq> t \<longrightarrow> instList r u = instList (csRob s) u" using r(2) by (simp add: squash_frame_def)
  moreover have "csPC s' t = csStoredPC s t \<and> ciPC (csInfoOut s' t) = Some (csStoredPC s t) \<and> ciSquash (csInfoOut s' t)
     \<and> csStatus s' t = ROBSquashing \<and> \<not> csTrapInFlight s' t \<and> \<not> csTrapPending s' t
     \<and> \<not> csExit s' t \<and> \<not> csExitable s' t \<and> \<not> csInRunahead s' t \<and> csArchRestore s' t
     \<and> asFile (csArch s') = asFile (csArch s) \<and> asCkpt (csArch s') = asCkpt (csArch s)
     \<and> rsMaps (asRen (csArch s')) = rsMaps (asRen (csArch s))"
    using E v by (auto simp: exits_def left_def arch_view_def)
  ultimately show ?thesis using R(2)[OF assms(7) te] r(1) by blast
qed

lemma exit_squash_goes_back_to_the_load_witness:
  "\<exists>s r pc. squashFromRunaheadExit ex_cfg ex_in 0 ex_turn = Inr s \<and> csPC s 0 = (20, 0) \<and> ciDoneSeq (csInfoOut s 0) = 4
     \<and> squash_run (ccPinned ex_cfg) False [0] 0 0 (csRob s, rsPins (asRen (csArch s))) = Inr (r, pc)
     \<and> instList r 0 = map rob_mark (instList (csRob ex_turn) 0)"
proof -
  obtain u where u: "squashFromRunaheadExit ex_cfg ex_in 0 ex_turn = Inr u" using ex_leave by blast
  have l: "instList (csRob ex_turn) 0 = [ex_marked]" "csExiting ex_turn 0 = False" "csActive ex_turn = [0]" by simp_all
  have w: "squash_allowance False (csRob ex_turn) = 2"
    by (simp add: squash_allowance_def) (simp add: ex_mid_def note_entry_def entered_def lll_update_def put_inst_def Let_def)
  have "rob_inv (csRob ex_turn)" "0 < robThreads (csRob ex_turn)"
    by (simp_all add: rob_inv_def head_ok_def rob_total_def rob_insts_def seq_sorted_def ex_mid_def note_entry_def
        entered_def lll_update_def put_inst_def Let_def ex_rob_def small_rob_def has_status_def
        lll_mark_def runahead_mark_def ex_load_def set_status_def set_flag_def)
  from exit_squash_goes_back_to_the_load[OF u _ _ _ this, of 5 1] show ?thesis
    unfolding l using w u by auto
qed

section \<open>The deadline of an earlier period\<close>

text \<open>
  C32: a deadline can end the wrong period.  Its event compares the cause recorded by commit,
  which changes only when an exit is signalled: if the event of an earlier period fires in a new
  one, before the load of the new one has returned, it takes the new period for its own and sets
  the exit, although nothing has signalled it.
\<close>

theorem stale_deadline_ends_the_next_period:
  assumes "enterRunahead C t s = Inr (True, s1)" "csCause s t = Some q" "\<not> csExit s t" "\<not> csExitable s t"
    "csCpuCause s1 t \<noteq> Some q"
  shows "\<exists>s2. run_event (DeadlineEvent t q) s1 = Inr s2 \<and> csExit s2 t \<and> \<not> csExitable s2 t
     \<and> csCpuCause s2 t \<noteq> csCause s2 t"
proof -
  obtain i a c where e: "s1 = entered t i a c s" using enter_result[OF assms(1)] by blast
  have f: "csInRunahead s1 t" "\<not> csExit s1 t" "csCause s1 t = Some q" "\<not> csExitable s1 t"
    using assms(2-4) by (simp_all add: e)
      (simp_all add: entered_def lll_update_def put_inst_def Let_def)
  then have "run_event (DeadlineEvent t q) s1 = Inr (set_exit CauseDeadline t s1)"
    by (simp add: run_event_def deadline_event_def)
  then show ?thesis using f assms(5) by (auto simp: set_exit_def count_cause_def)
qed

lemma stale_deadline_ends_the_next_period_witness:
  "\<exists>s. run_event (DeadlineEvent 0 2) (entered 0 ex_load ex_saved [] (ex_start\<lparr>csCause := (\<lambda>_. Some 2)\<rparr>)) = Inr s
     \<and> csExit s 0 \<and> \<not> csExitable s 0"
proof -
  let ?s = "ex_start\<lparr>csCause := (\<lambda>_. Some 2)\<rparr>"
  have "enterRunahead ex_cfg 0 ?s = Inr (True, entered 0 ex_load ex_saved [] ?s)"
    using enter_ex[of ?s] by simp
  from stale_deadline_ends_the_next_period[OF this, of 2] show ?thesis by auto
qed

section \<open>The dynamic policy\<close>

text \<open>The first valid (not poisoned) load in the reorder buffer of a thread.\<close>

definition first_valid_load :: "rob \<Rightarrow> nat \<Rightarrow> dyn_inst option" where
  "first_valid_load r t = find (\<lambda>i. has_prop IsLoad i \<and> \<not> has_flag Poisoned i) (instList r t)"

lemma unsent_one: "k \<le> 1 \<Longrightarrow> unsent_loop l k y = (case find (\<lambda>i. has_prop IsLoad i \<and> \<not> has_flag Poisoned i) l of
    None \<Rightarrow> y | Some i \<Rightarrow> if has_status Executed i then y else diSeq i)"
  by (induction l) (auto simp: Let_def)

text \<open>
  C33: the dynamic policy does not use the configured amount of work.  Its limit is the minimum
  work, which the constructor sets for the minimum-work policy only; with the limit 0 that it
  leaves, the decision to delay the exit looks at a single load, the oldest valid one, however
  large the configured value is.
\<close>

theorem dynamic_policy_looks_at_one_load:
  assumes "exit_policy_of ''DynamicDelayed'' w = (p, m)" "ccPolicy C = p" "ccMinWork C = m"
    "rfROBInsts (csInfo s) \<le> csPseudoretired s t" "\<not> ccFiltered C"
  shows "exit_by_policy C t s = Inr (case first_valid_load (csRob s) t of
     Some i \<Rightarrow> if \<not> has_status Executed i \<and> diSeq i \<noteq> 0 then s else set_exit CauseEager t s
   | None \<Rightarrow> set_exit CauseEager t s)"
proof -
  have "p = DynamicDelayed" "m = 0" using assms(1) by (simp_all add: exit_policy_of_def)
  moreover have "findUnsentValidLoad (csRob s) t 0 = (case first_valid_load (csRob s) t of
      None \<Rightarrow> 0 | Some i \<Rightarrow> if has_status Executed i then 0 else diSeq i)"
    unfolding findUnsentValidLoad_def first_valid_load_def using unsent_one[of 0] by simp
  ultimately show ?thesis
    using assms(2-5) by (auto simp: exit_by_policy_def dynamicDelayedRunaheadExit_def split: option.splits)
qed

lemma dynamic_policy_looks_at_one_load_witness:
  "exit_by_policy (ex_cfg\<lparr>ccPolicy := DynamicDelayed\<rparr>) 0 ex_start = Inr ex_start"
proof -
  have p: "exit_policy_of ''DynamicDelayed'' 100 = (DynamicDelayed, 0)" by (simp add: exit_policy_of_def)
  have "first_valid_load (csRob ex_start) 0 = Some ex_load"
    by (simp add: first_valid_load_def has_prop_def has_flag_def)
  then show ?thesis
    using dynamic_policy_looks_at_one_load[OF p, of "ex_cfg\<lparr>ccPolicy := DynamicDelayed\<rparr>" ex_start 0]
    by (simp add: has_status_def)
qed

end
