(* ===== verification/StoreSet.thy ===== *)
theory StoreSet
  imports Prelude
begin

unbundle bit_operations_syntax

text \<open>
  The store set predictor of the memory dependence unit (\<open>store_set.hh\<close>, \<open>store_set.cc\<close>): the
  store set id table that maps the program counter of a load or store to its set, the table of
  the last fetched store of every set, and the list of the stores in flight, a \<open>std::map\<close> whose
  comparison puts the youngest store first.

  Addresses are 64 bit words, table indices and store set ids natural numbers: an index is
  below the size of the table and an id below \<open>LFSTSize\<close>, both \<open>int\<close>.  \<open>memOpsPred\<close>, an \<open>int\<close>, is
  reset when it exceeds \<open>clearPeriod\<close>, so it does not overflow for a period below \<open>2 ^ 31 - 1\<close>.
  \<open>isPowerOf2\<close> is gem5's and a parameter of the constructor.
\<close>

section \<open>State\<close>

record store_set =
  ssSSIT :: "nat list"
  ssValidSSIT :: "bool list"
  ssLFST :: "nat list"
  ssValidLFST :: "bool list"
  ssStoreList :: "(nat \<times> nat) list"
  ssClearPeriod :: nat
  ssSSITSize :: nat
  ssLFSTSize :: nat
  ssIndexMask :: "64 word"
  ssOffsetBits :: nat
  ssMemOps :: nat

text \<open>The operations of the \<open>std::map\<close> of stores in flight.\<close>

fun sl_put :: "nat \<Rightarrow> nat \<Rightarrow> (nat \<times> nat) list \<Rightarrow> (nat \<times> nat) list" where
  "sl_put k v [] = [(k, v)]"
| "sl_put k v ((j, w) # xs) =
     (if k = j then (k, v) # xs
      else if k > j then (k, v) # (j, w) # xs
      else (j, w) # sl_put k v xs)"

definition sl_erase :: "nat \<Rightarrow> (nat \<times> nat) list \<Rightarrow> (nat \<times> nat) list" where
  "sl_erase k xs = filter (\<lambda>p. fst p \<noteq> k) xs"

text \<open>\<open>std::vector::resize\<close>, and a loop that stores one value in the first \<open>n\<close> elements.\<close>

definition vecResize :: "nat \<Rightarrow> 'a \<Rightarrow> 'a list \<Rightarrow> 'a list" where
  "vecResize n d xs = take n xs @ replicate (n - length xs) d"

definition vecFill :: "nat \<Rightarrow> 'a \<Rightarrow> 'a list \<Rightarrow> 'a list res" where
  "vecFill n x xs = foldE (\<lambda>i xs. vecSet xs i x) [0..<n] xs"

section \<open>Operations\<close>

text \<open>\<open>calcIndex\<close> and \<open>calcSSID\<close>.\<close>

definition calcIndex :: "store_set \<Rightarrow> 64 word \<Rightarrow> nat" where
  "calcIndex ss pc = unat (drop_bit (ssOffsetBits ss) pc AND ssIndexMask ss)"

definition calcSSID :: "store_set \<Rightarrow> 64 word \<Rightarrow> nat res" where
  "calcSSID ss pc =
     (if ssLFSTSize ss = 0 then Inl DivByZero
      else Inr (unat (pc XOR drop_bit 10 pc) mod ssLFSTSize ss))"

text \<open>
  \<open>init\<close> of an object that the default constructor made or that was used before.  The
  constructor with sizes checks them; \<open>init\<close> does not.
\<close>

definition ss_init :: "nat \<Rightarrow> nat \<Rightarrow> nat \<Rightarrow> store_set \<Rightarrow> store_set res" where
  "ss_init period ssits lfsts ss =
     bindE (vecFill ssits False (vecResize ssits False (ssValidSSIT ss))) (\<lambda>vs.
     bindE (vecFill lfsts False (vecResize lfsts False (ssValidLFST ss))) (\<lambda>vl.
     bindE (vecFill lfsts 0 (vecResize lfsts 0 (ssLFST ss))) (\<lambda>lf.
       Inr (ss\<lparr>ssSSITSize := ssits, ssLFSTSize := lfsts, ssClearPeriod := period,
         ssSSIT := vecResize ssits 0 (ssSSIT ss), ssValidSSIT := vs,
         ssLFST := lf, ssValidLFST := vl,
         ssIndexMask := of_nat ssits - 1, ssOffsetBits := 2, ssMemOps := 0\<rparr>))))"

definition no_store_set :: store_set where
  "no_store_set = \<lparr>ssSSIT = [], ssValidSSIT = [], ssLFST = [], ssValidLFST = [], ssStoreList = [],
     ssClearPeriod = 0, ssSSITSize = 0, ssLFSTSize = 0, ssIndexMask = 0, ssOffsetBits = 0,
     ssMemOps = 0\<rparr>"

definition new_StoreSet :: "(nat \<Rightarrow> bool) \<Rightarrow> nat \<Rightarrow> nat \<Rightarrow> nat \<Rightarrow> store_set res" where
  "new_StoreSet isPowerOf2 period ssits lfsts =
     (if \<not> isPowerOf2 ssits then Inl FatalCall
      else bindE (vecFill ssits False (replicate ssits False)) (\<lambda>vs.
        if \<not> isPowerOf2 lfsts then Inl FatalCall
        else bindE (vecFill lfsts False (replicate lfsts False)) (\<lambda>vl.
             bindE (vecFill lfsts 0 (replicate lfsts 0)) (\<lambda>lf.
               Inr \<lparr>ssSSIT = replicate ssits 0, ssValidSSIT = vs, ssLFST = lf, ssValidLFST = vl,
                 ssStoreList = [], ssClearPeriod = period, ssSSITSize = ssits,
                 ssLFSTSize = lfsts, ssIndexMask = of_nat ssits - 1, ssOffsetBits = 2,
                 ssMemOps = 0\<rparr>))))"

text \<open>
  \<open>violation(store_PC, load_PC)\<close>: the load and the store are put in one set.  \<open>ssit_put\<close> is the
  pair of assignments \<open>validSSIT[i] = true; SSIT[i] = set\<close>, \<open>ssit_set\<close> the second alone.
\<close>

definition ssit_set :: "nat \<Rightarrow> nat \<Rightarrow> store_set \<Rightarrow> store_set res" where
  "ssit_set i n ss = bindE (vecSet (ssSSIT ss) i n) (\<lambda>t. Inr (ss\<lparr>ssSSIT := t\<rparr>))"

definition ssit_put :: "nat \<Rightarrow> nat \<Rightarrow> store_set \<Rightarrow> store_set res" where
  "ssit_put i n ss =
     bindE (vecSet (ssValidSSIT ss) i True) (\<lambda>v. ssit_set i n (ss\<lparr>ssValidSSIT := v\<rparr>))"

definition ss_violation :: "64 word \<Rightarrow> 64 word \<Rightarrow> store_set \<Rightarrow> store_set res" where
  "ss_violation store_PC load_PC ss =
     (let li = calcIndex ss load_PC; si = calcIndex ss store_PC in
      bindE (assertE (li < ssSSITSize ss \<and> si < ssSSITSize ss)) (\<lambda>_.
      bindE (vecGet (ssValidSSIT ss) li) (\<lambda>vl.
      bindE (vecGet (ssValidSSIT ss) si) (\<lambda>vs.
        if \<not> vl \<and> \<not> vs then
          bindE (calcSSID ss load_PC) (\<lambda>new_set.
          bindE (ssit_put li new_set ss) (\<lambda>ss.
          bindE (ssit_put si new_set ss) (\<lambda>ss.
          bindE (assertE (new_set < ssLFSTSize ss)) (\<lambda>_. Inr ss))))
        else if vl \<and> \<not> vs then
          bindE (vecGet (ssSSIT ss) li) (\<lambda>load_SSID.
          bindE (ssit_put si load_SSID ss) (\<lambda>ss.
          bindE (assertE (load_SSID < ssLFSTSize ss)) (\<lambda>_. Inr ss)))
        else if \<not> vl \<and> vs then
          bindE (vecGet (ssSSIT ss) si) (\<lambda>store_SSID. ssit_put li store_SSID ss)
        else
          bindE (vecGet (ssSSIT ss) li) (\<lambda>load_SSID.
          bindE (vecGet (ssSSIT ss) si) (\<lambda>store_SSID.
          bindE (assertE (load_SSID < ssLFSTSize ss \<and> store_SSID < ssLFSTSize ss)) (\<lambda>_.
            if store_SSID > load_SSID then ssit_set si load_SSID ss
            else ssit_set li store_SSID ss)))))))"

text \<open>\<open>clear\<close>, \<open>checkClear\<close> and \<open>insertLoad\<close>.\<close>

definition ss_clear :: "store_set \<Rightarrow> store_set res" where
  "ss_clear ss =
     bindE (vecFill (ssSSITSize ss) False (ssValidSSIT ss)) (\<lambda>vs.
     bindE (vecFill (ssLFSTSize ss) False (ssValidLFST ss)) (\<lambda>vl.
       Inr (ss\<lparr>ssValidSSIT := vs, ssValidLFST := vl, ssStoreList := []\<rparr>)))"

definition checkClear :: "store_set \<Rightarrow> store_set res" where
  "checkClear ss =
     (let ss = ss\<lparr>ssMemOps := ssMemOps ss + 1\<rparr> in
      if ssMemOps ss > ssClearPeriod ss then ss_clear (ss\<lparr>ssMemOps := 0\<rparr>) else Inr ss)"

definition ss_insertLoad :: "64 word \<Rightarrow> nat \<Rightarrow> store_set \<Rightarrow> store_set res" where
  "ss_insertLoad load_PC load_seq ss = checkClear ss"

text \<open>\<open>insertStore\<close>, \<open>checkInst\<close> and \<open>issued\<close>.\<close>

definition ss_insertStore :: "64 word \<Rightarrow> nat \<Rightarrow> store_set \<Rightarrow> store_set res" where
  "ss_insertStore store_PC store_seq ss =
     (let i = calcIndex ss store_PC in
      bindE (checkClear ss) (\<lambda>ss.
      bindE (assertE (i < ssSSITSize ss)) (\<lambda>_.
      bindE (vecGet (ssValidSSIT ss) i) (\<lambda>v.
        if \<not> v then Inr ss
        else
          bindE (vecGet (ssSSIT ss) i) (\<lambda>store_SSID.
          bindE (assertE (store_SSID < ssLFSTSize ss)) (\<lambda>_.
          bindE (vecSet (ssLFST ss) store_SSID store_seq) (\<lambda>lf.
          bindE (vecSet (ssValidLFST ss) store_SSID True) (\<lambda>vl.
            Inr (ss\<lparr>ssLFST := lf, ssValidLFST := vl,
              ssStoreList := sl_put store_seq store_SSID (ssStoreList ss)\<rparr>)))))))))"

definition ss_checkInst :: "64 word \<Rightarrow> store_set \<Rightarrow> nat res" where
  "ss_checkInst pc ss =
     (let i = calcIndex ss pc in
      bindE (assertE (i < ssSSITSize ss)) (\<lambda>_.
      bindE (vecGet (ssValidSSIT ss) i) (\<lambda>v.
        if \<not> v then Inr 0
        else
          bindE (vecGet (ssSSIT ss) i) (\<lambda>inst_SSID.
          bindE (assertE (inst_SSID < ssLFSTSize ss)) (\<lambda>_.
          bindE (vecGet (ssValidLFST ss) inst_SSID) (\<lambda>vl.
            if \<not> vl then Inr 0 else vecGet (ssLFST ss) inst_SSID))))))"

definition ss_issued :: "64 word \<Rightarrow> nat \<Rightarrow> bool \<Rightarrow> store_set \<Rightarrow> store_set res" where
  "ss_issued issued_PC issued_seq is_store ss =
     (if \<not> is_store then Inr ss
      else let i = calcIndex ss issued_PC in
      bindE (assertE (i < ssSSITSize ss)) (\<lambda>_.
        let ss = ss\<lparr>ssStoreList := sl_erase issued_seq (ssStoreList ss)\<rparr> in
        bindE (vecGet (ssValidSSIT ss) i) (\<lambda>v.
          if \<not> v then Inr ss
          else
            bindE (vecGet (ssSSIT ss) i) (\<lambda>store_SSID.
            bindE (assertE (store_SSID < ssLFSTSize ss)) (\<lambda>_.
            bindE (vecGet (ssValidLFST ss) store_SSID) (\<lambda>vl.
            bindE (if vl then vecGet (ssLFST ss) store_SSID else Inr 0) (\<lambda>last.
              if vl \<and> last = issued_seq
              then bindE (vecSet (ssValidLFST ss) store_SSID False) (\<lambda>vl'.
                     Inr (ss\<lparr>ssValidLFST := vl'\<rparr>))
              else Inr ss)))))))"

text \<open>
  \<open>squash\<close>.  The iterator is always the begin of the list.  When the last fetched store of the
  set is not younger than the squashed number the loop changes nothing and goes round again, so
  the function is partial: \<open>None\<close> says that it does not return.
\<close>

partial_function (option) ss_squash :: "nat \<Rightarrow> store_set \<Rightarrow> store_set res option" where
  "ss_squash sq ss =
     (case ssStoreList ss of
        [] \<Rightarrow> Some (Inr ss)
      | (sn, i) # rest \<Rightarrow>
          if sn \<le> sq then Some (Inr ss)
          else case vecGet (ssLFST ss) i of
            Inl e \<Rightarrow> Some (Inl e)
          | Inr l \<Rightarrow>
              (case vecGet (ssValidLFST ss) i of
                 Inl e \<Rightarrow> Some (Inl e)
               | Inr v \<Rightarrow>
                   if v \<and> l > sq then
                     ss_squash sq (ss\<lparr>ssValidLFST := (ssValidLFST ss)[i := False],
                       ssStoreList := rest\<rparr>)
                   else if \<not> v \<and> l > sq then ss_squash sq (ss\<lparr>ssStoreList := rest\<rparr>)
                   else ss_squash sq ss))"

section \<open>Vectors and the map\<close>

lemma vecFill_all: "length xs = n \<Longrightarrow> vecFill n x xs = Inr (replicate n x)"
proof -
  have "k \<le> length xs \<Longrightarrow> vecFill k x xs = Inr (replicate k x @ drop k xs)" for k
  proof (induction k)
    case 0
    then show ?case by (simp add: vecFill_def)
  next
    case (Suc k)
    then have "vecFill (Suc k) x xs = vecSet (replicate k x @ drop k xs) k x"
      by (simp add: vecFill_def foldE_append bindE_def split: sum.splits)
    also have "\<dots> = Inr (replicate (Suc k) x @ drop (Suc k) xs)"
      using Suc.prems by (simp add: list_update_append Cons_nth_drop_Suc[symmetric] replicate_append_same[symmetric])
    finally show ?case .
  qed
  then show "length xs = n \<Longrightarrow> ?thesis" by fastforce
qed

lemma length_vecResize [simp]: "length (vecResize n d xs) = n"
  by (simp add: vecResize_def)

lemma set_sl_put: "p \<in> set (sl_put k v xs) \<Longrightarrow> p = (k, v) \<or> p \<in> set xs"
  by (induction k v xs rule: sl_put.induct) (auto split: if_splits)

lemma sl_put_keys: "fst ` set (sl_put k v xs) = insert k (fst ` set xs)"
  by (induction k v xs rule: sl_put.induct) auto

lemma sl_put_desc:
  "sorted_wrt (>) (map fst xs) \<Longrightarrow> sorted_wrt (>) (map fst (sl_put k v xs))"
proof (induction k v xs rule: sl_put.induct)
  case (2 k v j w xs)
  have "x < j" if "x \<in> fst ` set (sl_put k v xs)" "k < j" for x
    using that 2(2) unfolding sl_put_keys by auto
  with 2 show ?case by fastforce
qed simp

lemma sl_erase_desc:
  "sorted_wrt (>) (map fst xs) \<Longrightarrow> sorted_wrt (>) (map fst (sl_erase k xs))"
  by (induction xs) (auto simp: sl_erase_def)

lemma set_sl_erase: "set (sl_erase k xs) = {p \<in> set xs. fst p \<noteq> k}"
  by (auto simp: sl_erase_def)

section \<open>Well-formed tables\<close>

text \<open>
  What the constructor establishes and every operation keeps: tables of their size, ids of valid
  entries and of the stores in flight that the second table has, youngest store first.
\<close>

definition ss_wf :: "store_set \<Rightarrow> bool" where
  "ss_wf ss \<longleftrightarrow>
     0 < ssSSITSize ss \<and> ssSSITSize ss < 2 ^ 31 \<and> 0 < ssLFSTSize ss \<and>
     length (ssSSIT ss) = ssSSITSize ss \<and> length (ssValidSSIT ss) = ssSSITSize ss \<and>
     length (ssLFST ss) = ssLFSTSize ss \<and> length (ssValidLFST ss) = ssLFSTSize ss \<and>
     ssIndexMask ss = of_nat (ssSSITSize ss) - 1 \<and>
     (\<forall>i < ssSSITSize ss. ssValidSSIT ss ! i \<longrightarrow> ssSSIT ss ! i < ssLFSTSize ss) \<and>
     (\<forall>p \<in> set (ssStoreList ss). snd p < ssLFSTSize ss) \<and>
     sorted_wrt (>) (map fst (ssStoreList ss))"

text \<open>The set of an instruction and the last store of a set, as options.\<close>

definition ss_set_of :: "store_set \<Rightarrow> 64 word \<Rightarrow> nat option" where
  "ss_set_of ss pc =
     (let i = calcIndex ss pc in if ssValidSSIT ss ! i then Some (ssSSIT ss ! i) else None)"

definition ss_last :: "store_set \<Rightarrow> nat \<Rightarrow> nat option" where
  "ss_last ss k = (if ssValidLFST ss ! k then Some (ssLFST ss ! k) else None)"

lemma calcIndex_less: "ss_wf ss \<Longrightarrow> calcIndex ss pc < ssSSITSize ss"
proof -
  assume wf: "ss_wf ss"
  let ?n = "ssSSITSize ss"
  have n: "0 < ?n" "?n < 2 ^ 64" using wf by (auto simp: ss_wf_def)
  have "unat (of_nat ?n - 1 :: 64 word) = ?n - 1"
  proof -
    obtain m where m: "?n = Suc m" using n(1) by (cases ?n) auto
    have "unat (of_nat m :: 64 word) = m"
      using n(2) m by (simp add: unat_of_nat take_bit_eq_mod)
    then show ?thesis by (simp add: m)
  qed
  moreover have "unat (drop_bit (ssOffsetBits ss) pc AND ssIndexMask ss) \<le> unat (ssIndexMask ss)"
    by (rule word_le_nat_alt[THEN iffD1, OF word_and_le1])
  ultimately show ?thesis using wf n by (simp add: calcIndex_def ss_wf_def)
qed

lemma calcIndex_cong:
  "ssOffsetBits t = ssOffsetBits s \<Longrightarrow> ssIndexMask t = ssIndexMask s \<Longrightarrow> calcIndex t = calcIndex s"
  by (simp add: fun_eq_iff calcIndex_def)

lemma calcIndex_upd [simp]:
  "calcIndex (ss\<lparr>ssSSIT := a\<rparr>) = calcIndex ss" "calcIndex (ss\<lparr>ssValidSSIT := b\<rparr>) = calcIndex ss"
  "calcIndex (ss\<lparr>ssLFST := c\<rparr>) = calcIndex ss" "calcIndex (ss\<lparr>ssValidLFST := d\<rparr>) = calcIndex ss"
  "calcIndex (ss\<lparr>ssStoreList := e\<rparr>) = calcIndex ss" "calcIndex (ss\<lparr>ssMemOps := f\<rparr>) = calcIndex ss"
  by (simp_all add: fun_eq_iff calcIndex_def)

text \<open>A set joins an entry of the table.\<close>

lemma ssit_put_ok:
  assumes "ss_wf ss" "i < ssSSITSize ss" "n < ssLFSTSize ss"
  shows "ssit_put i n ss = Inr (ss\<lparr>ssValidSSIT := (ssValidSSIT ss)[i := True],
      ssSSIT := (ssSSIT ss)[i := n]\<rparr>)"
    and "ss_wf (ss\<lparr>ssValidSSIT := (ssValidSSIT ss)[i := True], ssSSIT := (ssSSIT ss)[i := n]\<rparr>)"
  using assms by (auto simp: ss_wf_def ssit_put_def ssit_set_def nth_list_update)

lemma ssit_set_ok:
  assumes "ss_wf ss" "i < ssSSITSize ss" "n < ssLFSTSize ss"
  shows "ssit_set i n ss = Inr (ss\<lparr>ssSSIT := (ssSSIT ss)[i := n]\<rparr>)"
    and "ss_wf (ss\<lparr>ssSSIT := (ssSSIT ss)[i := n]\<rparr>)"
  using assms by (auto simp: ss_wf_def ssit_set_def nth_list_update)

lemma wf_fields:
  assumes "ss_wf ss"
  shows "length (ssValidSSIT ss) = ssSSITSize ss" "length (ssSSIT ss) = ssSSITSize ss"
    "length (ssLFST ss) = ssLFSTSize ss" "length (ssValidLFST ss) = ssLFSTSize ss"
    "0 < ssLFSTSize ss"
    "\<And>i. i < ssSSITSize ss \<Longrightarrow> ssValidSSIT ss ! i \<Longrightarrow> ssSSIT ss ! i < ssLFSTSize ss"
  using assms by (auto simp: ss_wf_def)

text \<open>
  No store in flight is younger than the last fetched store of its set: true as long as stores
  are inserted in the order of their sequence numbers.
\<close>

definition ss_ordered :: "store_set \<Rightarrow> bool" where
  "ss_ordered ss \<longleftrightarrow> (\<forall>p \<in> set (ssStoreList ss). fst p \<le> ssLFST ss ! snd p)"

text \<open>The stores that the tables mention.\<close>

definition ss_known :: "store_set \<Rightarrow> nat set" where
  "ss_known ss = {n. \<exists>k < ssLFSTSize ss. ss_last ss k = Some n} \<union> fst ` set (ssStoreList ss)"

lemma set_of_less: "ss_wf ss \<Longrightarrow> ss_set_of ss pc = Some k \<Longrightarrow> k < ssLFSTSize ss"
  using calcIndex_less[of ss pc] wf_fields(6)[of ss] by (auto simp: ss_set_of_def Let_def split: if_splits)

lemma known_mono:
  assumes "ssLFSTSize t = ssLFSTSize s" "set (ssStoreList t) \<subseteq> set (ssStoreList s)"
    and "\<And>k. k < ssLFSTSize s \<Longrightarrow> ss_last t k = ss_last s k \<or> ss_last t k = None"
  shows "ss_known t \<subseteq> ss_known s"
  using assms by (fastforce simp: ss_known_def)

section \<open>Every operation succeeds and keeps the tables well-formed\<close>

lemma calcSSID_ok: "ss_wf ss \<Longrightarrow> \<exists>n. calcSSID ss pc = Inr n \<and> n < ssLFSTSize ss"
  by (simp add: calcSSID_def wf_fields)

text \<open>After a violation the store and the load are in one set, and it has entries in the table.\<close>

lemma violation_ok:
  assumes wf: "ss_wf ss"
  shows "\<exists>ss'. ss_violation st ld ss = Inr ss' \<and> ss_wf ss' \<and>
    ss_set_of ss' st \<noteq> None \<and> ss_set_of ss' ld = ss_set_of ss' st \<and>
    ssMemOps ss' = ssMemOps ss \<and> ssClearPeriod ss' = ssClearPeriod ss \<and>
    ssStoreList ss' = ssStoreList ss \<and> ssLFST ss' = ssLFST ss \<and> ssValidLFST ss' = ssValidLFST ss \<and>
    ssLFSTSize ss' = ssLFSTSize ss"
proof -
  let ?l = "calcIndex ss ld" and ?s = "calcIndex ss st"
  note len = wf_fields[OF wf]
  have idx: "?l < ssSSITSize ss" "?s < ssSSITSize ss" by (rule calcIndex_less[OF wf])+
  obtain n where n: "calcSSID ss ld = Inr n" "n < ssLFSTSize ss" using calcSSID_ok[OF wf] by blast
  note put = ssit_put_ok[OF wf] and set_ok = ssit_set_ok[OF wf]
  consider "\<not> ssValidSSIT ss ! ?l" "\<not> ssValidSSIT ss ! ?s"
    | "ssValidSSIT ss ! ?l" "\<not> ssValidSSIT ss ! ?s"
    | "\<not> ssValidSSIT ss ! ?l" "ssValidSSIT ss ! ?s"
    | "ssValidSSIT ss ! ?l" "ssValidSSIT ss ! ?s" by blast
  then show ?thesis
  proof cases
    case 1
    with put[OF idx(1) n(2)] ssit_put_ok[OF put(2)[OF idx(1) n(2)], of ?s n] idx n len
    show ?thesis
      by (auto simp: ss_violation_def Let_def ss_set_of_def nth_list_update)
  next
    case 2
    with put[OF idx(2) len(6)[OF idx(1)]] idx len show ?thesis
      by (auto simp: ss_violation_def Let_def ss_set_of_def nth_list_update)
  next
    case 3
    with put[OF idx(1) len(6)[OF idx(2)]] idx len show ?thesis
      by (auto simp: ss_violation_def Let_def ss_set_of_def nth_list_update)
  next
    case 4
    with set_ok[OF idx(2) len(6)[OF idx(1)]] set_ok[OF idx(1) len(6)[OF idx(2)]] idx len
    show ?thesis
      by (auto simp: ss_violation_def Let_def ss_set_of_def nth_list_update)
  qed
qed

lemma clear_ok:
  assumes wf: "ss_wf ss"
  shows "ss_clear ss = Inr (ss\<lparr>ssValidSSIT := replicate (ssSSITSize ss) False,
    ssValidLFST := replicate (ssLFSTSize ss) False, ssStoreList := []\<rparr>)"
  using wf by (simp add: ss_clear_def ss_wf_def vecFill_all)

lemma clear_wf:
  "ss_wf ss \<Longrightarrow> ss_wf (ss\<lparr>ssValidSSIT := replicate (ssSSITSize ss) False,
    ssValidLFST := replicate (ssLFSTSize ss) False, ssStoreList := []\<rparr>)"
  by (simp add: ss_wf_def)

lemma memOps_wf [simp]: "ss_wf (ss\<lparr>ssMemOps := n\<rparr>) = ss_wf ss"
  by (simp add: ss_wf_def)

lemma checkClear_ok:
  assumes wf: "ss_wf ss"
  shows "\<exists>ss'. checkClear ss = Inr ss' \<and> ss_wf ss' \<and> ssMemOps ss' \<le> ssClearPeriod ss' \<and>
    calcIndex ss' = calcIndex ss \<and> ssClearPeriod ss' = ssClearPeriod ss \<and>
    (ssMemOps ss < ssClearPeriod ss \<longrightarrow> ss' = ss\<lparr>ssMemOps := ssMemOps ss + 1\<rparr>) \<and>
    set (ssStoreList ss') \<subseteq> set (ssStoreList ss) \<and> ssLFST ss' = ssLFST ss \<and>
    ssLFSTSize ss' = ssLFSTSize ss \<and> (\<forall>k < ssLFSTSize ss. ss_last ss' k = ss_last ss k \<or> ss_last ss' k = None)"
proof (cases "ssMemOps ss < ssClearPeriod ss")
  case True
  then show ?thesis using wf by (simp add: checkClear_def ss_last_def)
next
  case False
  then have "checkClear ss = ss_clear (ss\<lparr>ssMemOps := 0\<rparr>)" by (simp add: checkClear_def)
  moreover have "ss_wf (ss\<lparr>ssMemOps := 0\<rparr>)" using wf by simp
  ultimately show ?thesis using clear_wf[of "ss\<lparr>ssMemOps := 0\<rparr>"] False by (simp add: clear_ok ss_last_def)
qed

text \<open>Fetching a store, asking for the set of an instruction, and issuing a store.\<close>

lemma insertStore_ok:
  assumes wf: "ss_wf ss"
  shows "\<exists>ss'. ss_insertStore st sn ss = Inr ss' \<and> ss_wf ss' \<and>
    (ssMemOps ss < ssClearPeriod ss \<longrightarrow> (\<forall>k. ss_set_of ss st = Some k \<longrightarrow>
       ss_last ss' k = Some sn \<and> ssStoreList ss' = sl_put sn k (ssStoreList ss))) \<and>
    (ssMemOps ss < ssClearPeriod ss \<longrightarrow> ss_set_of ss' = ss_set_of ss) \<and>
    ss_known ss' \<subseteq> insert sn (ss_known ss) \<and>
    (ss_ordered ss \<longrightarrow> (\<forall>p \<in> set (ssStoreList ss). fst p \<le> sn) \<longrightarrow> ss_ordered ss') \<and>
    ssClearPeriod ss' = ssClearPeriod ss"
proof -
  let ?i = "calcIndex ss st"
  obtain s1 where s1: "checkClear ss = Inr s1" "ss_wf s1" "calcIndex s1 = calcIndex ss"
      "ssClearPeriod s1 = ssClearPeriod ss"
      "ssMemOps ss < ssClearPeriod ss \<Longrightarrow> s1 = ss\<lparr>ssMemOps := ssMemOps ss + 1\<rparr>"
      "set (ssStoreList s1) \<subseteq> set (ssStoreList ss)" "ssLFST s1 = ssLFST ss"
      "ssLFSTSize s1 = ssLFSTSize ss"
      "\<forall>k < ssLFSTSize ss. ss_last s1 k = ss_last ss k \<or> ss_last s1 k = None"
    using checkClear_ok[OF wf] by blast
  have known: "ss_known s1 \<subseteq> ss_known ss" by (rule known_mono) (use s1(6,8,9) in auto)
  have i: "?i < ssSSITSize s1" using calcIndex_less[OF s1(2)] s1(3) by metis
  note len = wf_fields[OF s1(2)]
  show ?thesis
  proof (cases "ssValidSSIT s1 ! ?i")
    case False
    then have "ss_insertStore st sn ss = Inr s1"
      using i len by (simp add: ss_insertStore_def Let_def s1(1))
    moreover have "ss_set_of ss st = None \<and> ss_set_of s1 = ss_set_of ss" if "ssMemOps ss < ssClearPeriod ss"
      using s1(5)[OF that] False by (auto simp: ss_set_of_def Let_def fun_eq_iff)
    moreover have "ss_ordered ss \<Longrightarrow> ss_ordered s1" using s1(6,7) by (auto simp: ss_ordered_def)
    ultimately show ?thesis using s1(2,4) known by auto
  next
    case True
    let ?k = "ssSSIT s1 ! ?i"
    let ?s = "s1\<lparr>ssLFST := (ssLFST s1)[?k := sn], ssValidLFST := (ssValidLFST s1)[?k := True],
        ssStoreList := sl_put sn ?k (ssStoreList s1)\<rparr>"
    have k: "?k < ssLFSTSize s1" using len(6) i True by blast
    have run: "ss_insertStore st sn ss = Inr ?s"
      using i len True k by (simp add: ss_insertStore_def Let_def s1(1))
    have "ss_wf ?s"
      using s1(2) k sl_put_desc by (auto simp: ss_wf_def dest!: set_sl_put)
    moreover have "ss_last ?s ?k = Some sn" using k len by (simp add: ss_last_def)
    moreover have "ss_set_of ss st = Some ?k \<and> ss_set_of ?s = ss_set_of ss \<and> ssStoreList s1 = ssStoreList ss"
      if "ssMemOps ss < ssClearPeriod ss"
      using s1(5)[OF that] True by (auto simp: ss_set_of_def Let_def fun_eq_iff)
    moreover have "ss_ordered ss \<Longrightarrow> \<forall>p \<in> set (ssStoreList ss). fst p \<le> sn \<Longrightarrow> ss_ordered ?s"
      using s1(6,7) k len by (auto simp: ss_ordered_def nth_list_update dest!: set_sl_put)
    moreover have "ss_known ?s \<subseteq> insert sn (ss_known s1)"
      using k len by (auto simp: ss_known_def ss_last_def nth_list_update sl_put_keys split: if_splits)
    ultimately show ?thesis using run s1(4) known by auto
  qed
qed

lemma checkInst_ok:
  assumes wf: "ss_wf ss"
  shows "ss_checkInst pc ss = Inr (case ss_set_of ss pc of None \<Rightarrow> 0
    | Some k \<Rightarrow> (case ss_last ss k of None \<Rightarrow> 0 | Some n \<Rightarrow> n))"
  using calcIndex_less[OF wf, of pc] wf_fields[OF wf]
  by (simp add: ss_checkInst_def Let_def ss_set_of_def ss_last_def)

lemma issued_ok:
  assumes wf: "ss_wf ss"
  shows "\<exists>ss'. ss_issued st sn is_store ss = Inr ss' \<and> ss_wf ss' \<and>
    (is_store \<longrightarrow> (\<forall>k. ss_set_of ss st = Some k \<longrightarrow>
       ss_last ss' k = (if ss_last ss k = Some sn then None else ss_last ss k))) \<and>
    ss_set_of ss' = ss_set_of ss \<and> (ss_ordered ss \<longrightarrow> ss_ordered ss') \<and> ss_known ss' \<subseteq> ss_known ss"
proof (cases is_store)
  case False
  then show ?thesis using wf by (simp add: ss_issued_def)
next
  case True
  let ?i = "calcIndex ss st" and ?s = "ss\<lparr>ssStoreList := sl_erase sn (ssStoreList ss)\<rparr>"
  have i: "?i < ssSSITSize ss" by (rule calcIndex_less[OF wf])
  note len = wf_fields[OF wf]
  have s: "ss_wf ?s" "ss_set_of ?s = ss_set_of ss" "ss_ordered ss \<Longrightarrow> ss_ordered ?s"
    "ss_last ?s = ss_last ss" "ss_known ?s \<subseteq> ss_known ss"
    using wf sl_erase_desc
    by (auto simp: ss_wf_def ss_set_of_def ss_last_def ss_ordered_def set_sl_erase Let_def fun_eq_iff ss_known_def)
  show ?thesis
  proof (cases "ssValidSSIT ss ! ?i")
    case False
    then show ?thesis using s i len True by (simp add: ss_issued_def Let_def ss_set_of_def)
  next
    case v: True
    let ?k = "ssSSIT ss ! ?i"
    have k: "?k < ssLFSTSize ss" using len(6)[OF i] v by blast
    show ?thesis
    proof (cases "ss_last ss ?k = Some sn")
      case False
      then have "ss_issued st sn is_store ss = Inr ?s"
        using i len k v True by (auto simp: ss_issued_def Let_def ss_last_def split: if_splits)
      then show ?thesis using s False v by (auto simp: ss_set_of_def Let_def)
    next
      case last: True
      let ?t = "?s\<lparr>ssValidLFST := (ssValidLFST ss)[?k := False]\<rparr>"
      have "ss_issued st sn is_store ss = Inr ?t"
        using i len k v True last by (auto simp: ss_issued_def Let_def ss_last_def split: if_splits)
      moreover have "ss_wf ?t" using s(1) by (auto simp: ss_wf_def)
      moreover have "ss_set_of ?t = ss_set_of ss" by (simp add: fun_eq_iff ss_set_of_def Let_def)
      moreover have "ss_ordered ss \<Longrightarrow> ss_ordered ?t" using s(3) by (simp add: ss_ordered_def)
      moreover have "ss_last ?t ?k = None" using k len by (simp add: ss_last_def)
      moreover have "ss_known ?t \<subseteq> ss_known ?s"
        using k len by (intro known_mono) (auto simp: ss_last_def nth_list_update)
      ultimately show ?thesis using last v s(5) by (auto simp: ss_set_of_def Let_def)
    qed
  qed
qed

section \<open>Squashing\<close>

text \<open>
  A store in flight blocks the loop when the last fetched store of its set is not younger than
  the squashed number although the store itself is.
\<close>

definition squash_blocked :: "nat \<Rightarrow> store_set \<Rightarrow> bool" where
  "squash_blocked sq ss \<longleftrightarrow>
     (\<exists>p \<in> set (ssStoreList ss). sq < fst p \<and> ssLFST ss ! snd p \<le> sq)"

lemma ordered_not_blocked: "ss_ordered ss \<Longrightarrow> \<not> squash_blocked sq ss"
  by (fastforce simp: ss_ordered_def squash_blocked_def)

lemma squash_step:
  assumes "ss_wf ss" "ssStoreList ss = (sn, i) # rest" "sq < sn"
  shows "ss_squash sq ss =
    (if sq < ssLFST ss ! i
     then ss_squash sq (ss\<lparr>ssValidLFST := (ssValidLFST ss)[i := False], ssStoreList := rest\<rparr>)
     else ss_squash sq ss)"
proof -
  have i: "i < length (ssLFST ss)" "i < length (ssValidLFST ss)" using assms by (auto simp: ss_wf_def)
  have "ss\<lparr>ssStoreList := rest\<rparr> = ss\<lparr>ssValidLFST := (ssValidLFST ss)[i := False], ssStoreList := rest\<rparr>"
    if "\<not> ssValidLFST ss ! i"
  proof -
    have "(ssValidLFST ss)[i := False] = ssValidLFST ss" by (rule list_update_same_conv[THEN iffD2, OF i(2)]) (simp add: that)
    then show ?thesis by simp
  qed
  then show ?thesis
    using i assms(2,3) by (subst ss_squash.simps) (auto simp: not_le)
qed

lemma squash_next_wf:
  "ss_wf ss \<Longrightarrow> ssStoreList ss = (sn, i) # rest \<Longrightarrow>
   ss_wf (ss\<lparr>ssValidLFST := (ssValidLFST ss)[i := False], ssStoreList := rest\<rparr>)"
  by (auto simp: ss_wf_def)

lemma squash_returns:
  assumes "ss_wf ss" "\<not> squash_blocked sq ss"
  shows "\<exists>ss'. ss_squash sq ss = Some (Inr ss') \<and> ss_wf ss' \<and>
    ssStoreList ss' = filter (\<lambda>p. fst p \<le> sq) (ssStoreList ss) \<and>
    ssSSIT ss' = ssSSIT ss \<and> ssValidSSIT ss' = ssValidSSIT ss \<and> ssLFST ss' = ssLFST ss \<and>
    ssLFSTSize ss' = ssLFSTSize ss \<and> calcIndex ss' = calcIndex ss \<and>
    (\<forall>k < ssLFSTSize ss. ssValidLFST ss' ! k \<longleftrightarrow>
       ssValidLFST ss ! k \<and> (\<forall>n. (n, k) \<in> set (ssStoreList ss) \<longrightarrow> n \<le> sq))"
  using assms
proof (induction "length (ssStoreList ss)" arbitrary: ss)
  case 0
  then show ?case by (subst ss_squash.simps) simp
next
  case (Suc len)
  then obtain sn i rest where l: "ssStoreList ss = (sn, i) # rest"
    by (cases "ssStoreList ss") auto
  have i: "i < ssLFSTSize ss" "length (ssValidLFST ss) = ssLFSTSize ss"
    using Suc.prems(1) l by (auto simp: ss_wf_def)
  have rest: "n < sn" if "(n, k) \<in> set rest" for n k
    using Suc.prems(1) l that by (force simp: ss_wf_def)
  show ?case
  proof (cases "sn \<le> sq")
    case True
    then have old: "\<forall>p \<in> set (ssStoreList ss). fst p \<le> sq" using rest l by force
    have "ss_squash sq ss = Some (Inr ss)" by (subst ss_squash.simps) (simp add: l True)
    moreover have "filter (\<lambda>p. fst p \<le> sq) (ssStoreList ss) = ssStoreList ss"
      using old by (simp add: filter_id_conv)
    ultimately show ?thesis using Suc.prems(1) old by fastforce
  next
    case False
    let ?t = "ss\<lparr>ssValidLFST := (ssValidLFST ss)[i := False], ssStoreList := rest\<rparr>"
    have wf: "ss_wf ?t" by (rule squash_next_wf[OF Suc.prems(1) l])
    have "\<not> squash_blocked sq ?t" using Suc.prems(2) l by (auto simp: squash_blocked_def)
    then obtain u where u: "ss_squash sq ?t = Some (Inr u)" "ss_wf u"
        "ssStoreList u = filter (\<lambda>p. fst p \<le> sq) rest"
        "ssSSIT u = ssSSIT ss" "ssValidSSIT u = ssValidSSIT ss" "ssLFST u = ssLFST ss"
        "calcIndex u = calcIndex ss" "ssLFSTSize u = ssLFSTSize ss"
        "\<forall>k < ssLFSTSize ss. ssValidLFST u ! k \<longleftrightarrow> (ssValidLFST ss)[i := False] ! k \<and>
           (\<forall>n. (n, k) \<in> set rest \<longrightarrow> n \<le> sq)"
      using Suc.hyps(1)[of ?t] Suc.hyps(2) wf l by auto
    have "sq < ssLFST ss ! i" using Suc.prems(2) l False by (auto simp: squash_blocked_def not_le)
    then have "ss_squash sq ss = Some (Inr u)"
      using squash_step[OF Suc.prems(1) l, of sq] False u(1) by simp
    moreover have "ssValidLFST u ! k \<longleftrightarrow>
        ssValidLFST ss ! k \<and> (\<forall>n. (n, k) \<in> set (ssStoreList ss) \<longrightarrow> n \<le> sq)"
      if "k < ssLFSTSize ss" for k
      using u(9) that l False i by (auto simp: nth_list_update)
    ultimately show ?thesis using u(2-8) l False by auto
  qed
qed

text \<open>Conversely the loop does not return from a blocked list.\<close>

lemma squash_result_unblocked: "ss_squash sq ss = Some r \<Longrightarrow> ss_wf ss \<longrightarrow> \<not> squash_blocked sq ss"
proof (induction rule: ss_squash.raw_induct[rotated 1, consumes 1])
  case (1 f sq ss r)
  note IH = 1(1) and run = 1(2)
  show ?case
  proof
    assume wf: "ss_wf ss"
    show "\<not> squash_blocked sq ss"
    proof (cases "ssStoreList ss")
      case Nil
      then show ?thesis by (simp add: squash_blocked_def)
    next
      case (Cons p rest)
      obtain sn i where p: "p = (sn, i)" by (cases p)
      have len: "i < length (ssLFST ss)" "i < length (ssValidLFST ss)"
        using wf Cons p by (auto simp: ss_wf_def)
      show ?thesis
      proof (cases "sn \<le> sq")
        case True
        then have "\<forall>q \<in> set (ssStoreList ss). fst q \<le> sq" using wf Cons p by (force simp: ss_wf_def)
        then show ?thesis by (force simp: squash_blocked_def)
      next
        case False
        let ?v = "ss\<lparr>ssValidLFST := (ssValidLFST ss)[i := False], ssStoreList := rest\<rparr>"
        let ?n = "ss\<lparr>ssStoreList := rest\<rparr>"
        have next_wf: "ss_wf ?v" "ss_wf ?n" using wf Cons p by (auto simp: ss_wf_def)
        consider "sq < ssLFST ss ! i" "f sq ?v = Some r" | "sq < ssLFST ss ! i" "f sq ?n = Some r"
          | "\<not> sq < ssLFST ss ! i" "f sq ss = Some r"
          using run False len by (auto simp: Cons p split: if_splits)
        then show ?thesis
        proof cases
          case 1
          then have "\<not> squash_blocked sq ?v" using IH next_wf by blast
          with 1(1) show ?thesis by (auto simp: squash_blocked_def Cons p)
        next
          case 2
          then have "\<not> squash_blocked sq ?n" using IH next_wf by blast
          with 2(1) show ?thesis by (auto simp: squash_blocked_def Cons p)
        next
          case 3
          then show ?thesis using IH wf by blast
        qed
      qed
    qed
  qed
qed

section \<open>What the memory dependence unit relies on\<close>

text \<open>
  The contract of a dependence predictor: on a state that satisfies its invariant every operation
  succeeds, stores being made known in the order of their sequence numbers; and a check never
  names a store that was not made known before.
\<close>

locale dep_predictor =
  fixes inv :: "'p \<Rightarrow> bool"
    and known :: "'p \<Rightarrow> nat set"
    and check :: "'a \<Rightarrow> 'p \<Rightarrow> nat res"
    and put :: "'a \<Rightarrow> nat \<Rightarrow> 'p \<Rightarrow> 'p res"
    and issue :: "'a \<Rightarrow> nat \<Rightarrow> bool \<Rightarrow> 'p \<Rightarrow> 'p res"
    and learn :: "'a \<Rightarrow> 'a \<Rightarrow> 'p \<Rightarrow> 'p res"
    and cut :: "nat \<Rightarrow> 'p \<Rightarrow> 'p res option"
  assumes check_law: "inv p \<Longrightarrow> \<exists>n. check a p = Inr n \<and> (n = 0 \<or> n \<in> known p)"
    and put_law: "inv p \<Longrightarrow> \<forall>n \<in> known p. n \<le> s \<Longrightarrow>
      \<exists>p'. put a s p = Inr p' \<and> inv p' \<and> known p' \<subseteq> insert s (known p)"
    and issue_law: "inv p \<Longrightarrow> \<exists>p'. issue a s w p = Inr p' \<and> inv p' \<and> known p' \<subseteq> known p"
    and learn_law: "inv p \<Longrightarrow> \<exists>p'. learn a a' p = Inr p' \<and> inv p' \<and> known p' \<subseteq> known p"
    and cut_law: "inv p \<Longrightarrow> \<exists>p'. cut q p = Some (Inr p') \<and> inv p' \<and> known p' \<subseteq> known p"
begin

text \<open>
  The view of a unit that has seen the instructions up to \<open>b\<close>, has those in \<open>live\<close> in flight, of
  which those in \<open>stores\<close> write memory: a check that names an instruction in flight names a store.
\<close>

definition tracks :: "nat \<Rightarrow> nat set \<Rightarrow> nat set \<Rightarrow> 'p \<Rightarrow> bool" where
  "tracks b live stores p \<longleftrightarrow> inv p \<and> (\<forall>n \<in> known p. n \<le> b \<and> (n \<in> live \<longrightarrow> n \<in> stores))"

lemma tracks_check:
  "tracks b live stores p \<Longrightarrow> \<exists>n. check a p = Inr n \<and> (n \<noteq> 0 \<longrightarrow> n \<in> live \<longrightarrow> n \<in> stores)"
  using check_law unfolding tracks_def by blast

lemma tracks_put:
  assumes "tracks b live stores p" "b < s" "s \<in> stores"
  shows "\<exists>p'. put a s p = Inr p' \<and> tracks s (insert s live) stores p'"
proof -
  have "inv p" "\<forall>n \<in> known p. n \<le> s" using assms by (auto simp: tracks_def intro: less_imp_le le_less_trans)
  from put_law[OF this] obtain p' where "put a s p = Inr p'" "inv p'" "known p' \<subseteq> insert s (known p)"
    by blast
  moreover from this have "tracks s (insert s live) stores p'"
    using assms by (fastforce simp: tracks_def)
  ultimately show ?thesis by blast
qed

lemma tracks_mono:
  "tracks b live stores p \<Longrightarrow> b \<le> b' \<Longrightarrow> live' \<subseteq> live \<union> {n. b < n} \<Longrightarrow> tracks b' live' stores p"
  unfolding tracks_def by fastforce

lemma tracks_issue:
  "tracks b live stores p \<Longrightarrow> \<exists>p'. issue a s w p = Inr p' \<and> tracks b live stores p'"
  using issue_law unfolding tracks_def by (meson subsetD)

lemma tracks_learn:
  "tracks b live stores p \<Longrightarrow> \<exists>p'. learn a a' p = Inr p' \<and> tracks b live stores p'"
  using learn_law unfolding tracks_def by (meson subsetD)

lemma tracks_cut:
  "tracks b live stores p \<Longrightarrow> \<exists>p'. cut q p = Some (Inr p') \<and> tracks b live stores p'"
  using cut_law unfolding tracks_def by (meson subsetD)

end

definition ss_inv :: "store_set \<Rightarrow> bool" where
  "ss_inv ss \<longleftrightarrow> ss_wf ss \<and> ss_ordered ss"

interpretation store_sets: dep_predictor ss_inv ss_known ss_checkInst ss_insertStore ss_issued
  ss_violation ss_squash
proof unfold_locales
  fix p a assume "ss_inv p"
  then have wf: "ss_wf p" by (simp add: ss_inv_def)
  show "\<exists>n. ss_checkInst a p = Inr n \<and> (n = 0 \<or> n \<in> ss_known p)"
    using checkInst_ok[OF wf, of a] set_of_less[OF wf, of a]
    by (auto simp: ss_known_def split: option.splits)
next
  fix p a s assume "ss_inv p" and top: "\<forall>n \<in> ss_known p. n \<le> s"
  then have "ss_wf p" "ss_ordered p" "\<forall>q \<in> set (ssStoreList p). fst q \<le> s"
    by (auto simp: ss_inv_def ss_known_def)
  then show "\<exists>p'. ss_insertStore a s p = Inr p' \<and> ss_inv p' \<and> ss_known p' \<subseteq> insert s (ss_known p)"
    using insertStore_ok[of p a s] unfolding ss_inv_def by blast
next
  fix p a s w assume "ss_inv p"
  then show "\<exists>p'. ss_issued a s w p = Inr p' \<and> ss_inv p' \<and> ss_known p' \<subseteq> ss_known p"
    using issued_ok[of p a s w] unfolding ss_inv_def by blast
next
  fix p a a' assume "ss_inv p"
  then obtain p' where p': "ss_violation a a' p = Inr p'" "ss_wf p'" "ssStoreList p' = ssStoreList p"
      "ssLFST p' = ssLFST p" "ssValidLFST p' = ssValidLFST p" "ssLFSTSize p' = ssLFSTSize p" "ss_ordered p"
    using violation_ok[of p a a'] unfolding ss_inv_def by blast
  then show "\<exists>p'. ss_violation a a' p = Inr p' \<and> ss_inv p' \<and> ss_known p' \<subseteq> ss_known p"
    by (auto simp: ss_inv_def ss_ordered_def ss_known_def ss_last_def)
next
  fix p q assume inv: "ss_inv p"
  then obtain p' where p': "ss_squash q p = Some (Inr p')" "ss_wf p'"
      "ssStoreList p' = filter (\<lambda>x. fst x \<le> q) (ssStoreList p)" "ssLFST p' = ssLFST p"
      "ssLFSTSize p' = ssLFSTSize p"
      "\<And>k. k < ssLFSTSize p \<Longrightarrow> ssValidLFST p' ! k \<Longrightarrow> ssValidLFST p ! k"
    using squash_returns[of p q] ordered_not_blocked[of p q] unfolding ss_inv_def by blast
  moreover have "ss_known p' \<subseteq> ss_known p"
    using p'(3-6) by (intro known_mono) (auto simp: ss_last_def)
  moreover have "ss_ordered p'" using inv p'(3,4) by (simp add: ss_inv_def ss_ordered_def)
  ultimately show "\<exists>p'. ss_squash q p = Some (Inr p') \<and> ss_inv p' \<and> ss_known p' \<subseteq> ss_known p"
    by (auto simp: ss_inv_def)
qed

section \<open>Properties\<close>

lemma init_ok:
  assumes "0 < n" "n < 2 ^ 31" "0 < m" "ssStoreList ss = []"
  shows "\<exists>ss'. ss_init period n m ss = Inr ss' \<and> ss_wf ss' \<and> ss_ordered ss' \<and>
    ssClearPeriod ss' = period \<and> ssMemOps ss' = 0 \<and> ssStoreList ss' = []"
  using assms by (simp add: ss_init_def vecFill_all ss_wf_def ss_ordered_def)

lemma new_StoreSet_ok:
  assumes "isPowerOf2 n" "isPowerOf2 m" "0 < n" "n < 2 ^ 31" "0 < m"
  shows "\<exists>ss'. new_StoreSet isPowerOf2 period n m = Inr ss' \<and> ss_wf ss' \<and> ss_ordered ss'"
  using assms by (simp add: new_StoreSet_def vecFill_all ss_wf_def ss_ordered_def)

text \<open>
  C35: No operation of the store set predictor reads or writes outside its tables or trips an
  assertion: on well-formed tables, which \<open>init\<close> builds, every operation other than \<open>squash\<close>
  (see below) succeeds and leaves well-formed tables.
\<close>

theorem store_set_tables_stay_in_range:
  assumes "ss_wf ss"
  shows "(\<exists>ss'. ss_violation st ld ss = Inr ss' \<and> ss_wf ss') \<and>
    (\<exists>ss'. ss_insertLoad ld sn ss = Inr ss' \<and> ss_wf ss') \<and>
    (\<exists>ss'. ss_insertStore st sn ss = Inr ss' \<and> ss_wf ss') \<and>
    (\<exists>n. ss_checkInst pc ss = Inr n) \<and>
    (\<exists>ss'. ss_issued st sn is_store ss = Inr ss' \<and> ss_wf ss') \<and>
    (\<exists>ss'. ss_clear ss = Inr ss' \<and> ss_wf ss')"
proof (intro conjI)
  show "\<exists>ss'. ss_violation st ld ss = Inr ss' \<and> ss_wf ss'" using violation_ok[OF assms] by blast
  show "\<exists>ss'. ss_insertLoad ld sn ss = Inr ss' \<and> ss_wf ss'"
    unfolding ss_insertLoad_def using checkClear_ok[OF assms] by blast
  show "\<exists>ss'. ss_insertStore st sn ss = Inr ss' \<and> ss_wf ss'" using insertStore_ok[OF assms] by blast
  show "\<exists>n. ss_checkInst pc ss = Inr n" using checkInst_ok[OF assms] by blast
  show "\<exists>ss'. ss_issued st sn is_store ss = Inr ss' \<and> ss_wf ss'" using issued_ok[OF assms] by blast
  show "\<exists>ss'. ss_clear ss = Inr ss' \<and> ss_wf ss'"
    using clear_ok[OF assms] clear_wf[OF assms] by blast
qed

theorem store_set_tables_stay_in_range_witness:
  "\<exists>a b. ss_init 100 4 4 no_store_set = Inr a \<and> ss_violation 8 16 a = Inr b \<and> ss_wf b"
proof -
  have "ssStoreList no_store_set = []" by (simp add: no_store_set_def)
  then obtain a where "ss_init 100 4 4 no_store_set = Inr a" "ss_wf a"
    using init_ok[of 4 4 no_store_set 100] by auto
  with store_set_tables_stay_in_range[of a 8 16 0 0 False] show ?thesis by blast
qed

text \<open>
  C34: After a memory order violation the load is predicted to depend on the next instance of the
  store: if the predictor is not wiped in between, a store that is fetched after the violation is
  what the check of the load returns, until that store issues; then the load has no dependence.
\<close>

theorem violating_load_waits_for_the_store:
  assumes "ss_wf ss" "ss_violation st ld ss = Inr s1" "ssMemOps ss < ssClearPeriod ss"
    and "ss_insertStore st sn s1 = Inr s2"
  shows "ss_checkInst ld s2 = Inr sn \<and>
    (\<exists>s3. ss_issued st sn True s2 = Inr s3 \<and> ss_checkInst ld s3 = Inr 0)"
proof -
  from violation_ok[OF assms(1), of st ld] assms(2) have v: "ss_wf s1" "ss_set_of s1 st \<noteq> None"
      "ss_set_of s1 ld = ss_set_of s1 st" "ssMemOps s1 < ssClearPeriod s1"
    using assms(3) by auto
  then obtain k where k: "ss_set_of s1 st = Some k" "ss_set_of s1 ld = Some k" by auto
  have i: "ss_wf s2" "ss_last s2 k = Some sn" "ss_set_of s2 = ss_set_of s1"
    using insertStore_ok[OF v(1), of st sn] assms(4) k v(4) by auto
  obtain s3 where s3: "ss_issued st sn True s2 = Inr s3" "ss_wf s3" "ss_set_of s3 = ss_set_of s1"
      "ss_last s3 k = None"
    using issued_ok[OF i(1), of st sn True] i k by auto
  have "ss_checkInst ld s2 = Inr sn" using checkInst_ok[OF i(1), of ld] i k by simp
  moreover have "ss_checkInst ld s3 = Inr 0" using checkInst_ok[OF s3(2), of ld] s3 k by simp
  ultimately show ?thesis using s3(1) by blast
qed

theorem violating_load_waits_for_the_store_witness:
  "\<exists>a b c. ss_init 100 4 4 no_store_set = Inr a \<and> ss_violation 8 16 a = Inr b \<and>
     ss_insertStore 8 5 b = Inr c \<and> ss_checkInst 16 c = Inr 5"
proof -
  have "ssStoreList no_store_set = []" by (simp add: no_store_set_def)
  then obtain a where a: "ss_init 100 4 4 no_store_set = Inr a" "ss_wf a" "ssMemOps a < ssClearPeriod a"
    using init_ok[of 4 4 no_store_set 100] by auto
  obtain b where b: "ss_violation 8 16 a = Inr b" "ss_wf b" using violation_ok[OF a(2)] by blast
  obtain c where c: "ss_insertStore 8 5 b = Inr c" using insertStore_ok[OF b(2)] by blast
  show ?thesis using a(1) b(1) c violating_load_waits_for_the_store[OF a(2) b(1) a(3) c] by blast
qed

text \<open>
  C36: \<open>squash\<close> returns exactly when no store in flight younger than the squashed number belongs
  to a set whose last fetched store is not younger, which holds as long as stores are inserted
  in order; then it removes exactly the younger stores and invalidates exactly the sets that had
  one.  Otherwise it loops for ever.
\<close>

theorem store_set_squash_returns_iff_in_order:
  assumes "ss_wf ss"
  shows "(ss_squash sq ss = None \<longleftrightarrow> squash_blocked sq ss) \<and>
    (ss_ordered ss \<longrightarrow> \<not> squash_blocked sq ss) \<and>
    (\<not> squash_blocked sq ss \<longrightarrow> (\<exists>ss'. ss_squash sq ss = Some (Inr ss') \<and> ss_wf ss' \<and>
      ssStoreList ss' = filter (\<lambda>p. fst p \<le> sq) (ssStoreList ss) \<and>
      (\<forall>k < ssLFSTSize ss. ss_last ss' k =
         (if \<exists>n > sq. (n, k) \<in> set (ssStoreList ss) then None else ss_last ss k))))"
proof (cases "squash_blocked sq ss")
  case True
  then have "ss_squash sq ss = None"
    using squash_result_unblocked[of sq ss] assms by (cases "ss_squash sq ss") auto
  with True show ?thesis using ordered_not_blocked by blast
next
  case False
  then obtain ss' where r: "ss_squash sq ss = Some (Inr ss')" "ss_wf ss'"
      "ssStoreList ss' = filter (\<lambda>p. fst p \<le> sq) (ssStoreList ss)" "ssLFST ss' = ssLFST ss"
      "\<And>k. k < ssLFSTSize ss \<Longrightarrow> ssValidLFST ss' ! k \<longleftrightarrow>
         ssValidLFST ss ! k \<and> (\<forall>n. (n, k) \<in> set (ssStoreList ss) \<longrightarrow> n \<le> sq)"
    using squash_returns[OF assms] by blast
  have "ss_last ss' k = (if \<exists>n > sq. (n, k) \<in> set (ssStoreList ss) then None else ss_last ss k)"
    if "k < ssLFSTSize ss" for k
    using r(5)[OF that] r(4) by (auto simp: ss_last_def leD intro: leI)
  with False r(1-3) show ?thesis by auto
qed

definition stuck_store_set :: store_set where
  "stuck_store_set = \<lparr>ssSSIT = [0], ssValidSSIT = [True], ssLFST = [3], ssValidLFST = [True],
     ssStoreList = [(7, 0), (3, 0)], ssClearPeriod = 9, ssSSITSize = 1, ssLFSTSize = 1,
     ssIndexMask = 0, ssOffsetBits = 2, ssMemOps = 0\<rparr>"

theorem store_set_squash_returns_iff_in_order_witness:
  "ss_squash 5 stuck_store_set = None \<and>
   (\<exists>ss'. ss_squash 2 stuck_store_set = Some (Inr ss') \<and> ssStoreList ss' = [])"
proof -
  have wf: "ss_wf stuck_store_set" by (simp add: ss_wf_def stuck_store_set_def)
  have "squash_blocked 5 stuck_store_set" "\<not> squash_blocked 2 stuck_store_set"
    by (auto simp: squash_blocked_def stuck_store_set_def)
  with store_set_squash_returns_iff_in_order[OF wf, of 5] store_set_squash_returns_iff_in_order[OF wf, of 2]
  show ?thesis by (fastforce simp: stuck_store_set_def)
qed

end
