(* ===== verification/MemDep.thy ===== *)
theory MemDep
  imports DynInst StoreSet "HOL-Library.AList"
begin

text \<open>
  The memory dependence unit (\<open>mem_dep_unit.hh\<close>, \<open>mem_dep_unit.cc\<close>).  The issue queue has one
  unit per thread.  A \<open>MemDepEntry\<close> is shared by the hash and by the lists of dependents of
  other entries, so entries live in a heap and a \<open>MemDepEntryPtr\<close> is an index into it.  An
  instruction is its sequence number, in the list of instructions to be replayed with its
  thread.  The member \<open>listIt\<close> of an entry is the place of its sequence number in the list; the
  member \<open>completed\<close> is never used.

  \<open>loadBarrierSNs\<close> and \<open>storeBarrierSNs\<close> are unordered sets; they are kept as lists without
  repetition here.  The order in which \<open>insert\<close> visits them makes no difference, because it adds
  the new instruction once to each of their entries.

  \<open>moveToReady\<close> calls \<open>InstructionQueue::addReadyMemInst\<close>, which does not come back to this unit:
  the operations return the instructions they pass to it, in order.
\<close>

section \<open>State\<close>

record md_entry =
  meInst :: nat
  meDeps :: "nat list"
  meRegsReady :: bool
  meMemDeps :: nat
  meSquashed :: bool

record mem_dep =
  mdHeap :: "md_entry list"
  mdHash :: "(nat \<times> nat) list"
  mdList :: "nat \<Rightarrow> nat list"
  mdReplay :: "(nat \<times> nat) list"
  mdPred :: store_set
  mdLoadBars :: "nat list"
  mdStoreBars :: "nat list"

definition instAddr :: "dyn_inst \<Rightarrow> 64 word" where
  "instAddr i = of_nat (fst (diPC i))"

definition new_MemDepEntry :: "nat \<Rightarrow> md_entry" where
  "new_MemDepEntry sn = \<lparr>meInst = sn, meDeps = [], meRegsReady = False, meMemDeps = 0,
     meSquashed = False\<rparr>"

definition md_init :: "nat \<Rightarrow> nat \<Rightarrow> nat \<Rightarrow> mem_dep res" where
  "md_init period ssits lfsts =
     bindE (ss_init period ssits lfsts no_store_set) (\<lambda>pred.
       Inr \<lparr>mdHeap = [], mdHash = [], mdList = (\<lambda>_. []), mdReplay = [], mdPred = pred,
         mdLoadBars = [], mdStoreBars = []\<rparr>)"

definition md_isDrained :: "nat \<Rightarrow> mem_dep \<Rightarrow> bool" where
  "md_isDrained maxThreads md \<longleftrightarrow> mdReplay md = [] \<and> mdHash md = [] \<and>
     (\<forall>tid \<in> set [0..<maxThreads]. mdList md tid = [])"

definition md_drainSanityCheck :: "nat \<Rightarrow> mem_dep \<Rightarrow> unit res" where
  "md_drainSanityCheck maxThreads md = assertE (md_isDrained maxThreads md)"

definition md_takeOverFrom :: "mem_dep \<Rightarrow> mem_dep res" where
  "md_takeOverFrom md =
     bindE (ss_clear (mdPred md)) (\<lambda>pred.
       Inr (md\<lparr>mdLoadBars := [], mdStoreBars := [], mdPred := pred\<rparr>))"

section \<open>Operations\<close>

text \<open>\<open>findInHash\<close>, the access to an entry, and \<open>moveToReady\<close>.\<close>

definition md_find :: "nat \<Rightarrow> mem_dep \<Rightarrow> nat res" where
  "md_find sn md = (case map_of (mdHash md) sn of None \<Rightarrow> Inl AssertFail | Some p \<Rightarrow> Inr p)"

definition upd_entry :: "nat \<Rightarrow> (md_entry \<Rightarrow> md_entry) \<Rightarrow> mem_dep \<Rightarrow> mem_dep" where
  "upd_entry p f md = md\<lparr>mdHeap := (mdHeap md)[p := f (mdHeap md ! p)]\<rparr>"

definition moveToReady :: "nat \<Rightarrow> mem_dep \<Rightarrow> nat list res" where
  "moveToReady p md =
     bindE (assertE (\<not> meSquashed (mdHeap md ! p))) (\<lambda>_. Inr [meInst (mdHeap md ! p)])"

text \<open>\<open>insertBarrierSN\<close>.\<close>

definition bar_insert :: "nat \<Rightarrow> nat list \<Rightarrow> nat list" where
  "bar_insert sn bs = (if sn \<in> set bs then bs else bs @ [sn])"

definition insertBarrierSN :: "dyn_inst \<Rightarrow> mem_dep \<Rightarrow> mem_dep" where
  "insertBarrierSN i md =
     (let md = if has_prop IsReadBarrier i \<or> has_prop IsHtmCmd i
               then md\<lparr>mdLoadBars := bar_insert (diSeq i) (mdLoadBars md)\<rparr> else md in
      if has_prop IsWriteBarrier i \<or> has_prop IsHtmCmd i
      then md\<lparr>mdStoreBars := bar_insert (diSeq i) (mdStoreBars md)\<rparr> else md)"

text \<open>
  The common start of the insertions: the new entry, its place in the hash (an existing one is
  kept, as \<open>std::unordered_map::insert\<close> does) and the list of the thread.
\<close>

definition md_alloc :: "dyn_inst \<Rightarrow> mem_dep \<Rightarrow> mem_dep" where
  "md_alloc i md =
     (let p = length (mdHeap md); sn = diSeq i in
      md\<lparr>mdHeap := mdHeap md @ [new_MemDepEntry sn],
         mdHash := (if map_of (mdHash md) sn = None then (sn, p) # mdHash md else mdHash md),
         mdList := (mdList md)(diTid i := mdList md (diTid i) @ [sn])\<rparr>)"

text \<open>The barriers or the store that \<open>insert\<close> makes an instruction wait for.\<close>

definition producing_stores :: "dyn_inst \<Rightarrow> mem_dep \<Rightarrow> nat list res" where
  "producing_stores i md =
     (if (has_prop IsLoad i \<or> has_prop IsAtomic i) \<and> mdLoadBars md \<noteq> [] then Inr (mdLoadBars md)
      else if (has_prop IsStore i \<or> has_prop IsAtomic i) \<and> mdStoreBars md \<noteq> []
      then Inr (mdStoreBars md)
      else bindE (ss_checkInst (instAddr i) (mdPred md)) (\<lambda>dep.
             Inr (if dep \<noteq> 0 then [dep] else [])))"

definition add_dependent :: "nat \<Rightarrow> nat \<Rightarrow> mem_dep \<Rightarrow> mem_dep" where
  "add_dependent p q md = upd_entry q (\<lambda>e. e\<lparr>meDeps := meDeps e @ [p]\<rparr>) md"

text \<open>The end of \<open>insert\<close> and \<open>insertNonSpec\<close>: a store is made known to the predictor.\<close>

definition note_store :: "dyn_inst \<Rightarrow> mem_dep \<Rightarrow> mem_dep res" where
  "note_store i md =
     (if has_prop IsStore i \<or> has_prop IsAtomic i then
        bindE (ss_insertStore (instAddr i) (diSeq i) (mdPred md)) (\<lambda>pred. Inr (md\<lparr>mdPred := pred\<rparr>))
      else if has_prop IsLoad i then Inr md
      else Inl PanicCall)"

definition md_insert :: "dyn_inst \<Rightarrow> mem_dep \<Rightarrow> (mem_dep \<times> dyn_inst \<times> nat list) res" where
  "md_insert i md =
     (let p = length (mdHeap md); md = md_alloc i md in
      bindE (producing_stores i md) (\<lambda>stores.
        let entries = List.map_filter (map_of (mdHash md)) stores;
            ready = has_status CanIssue i;
            md = (if ready then upd_entry p (\<lambda>e. e\<lparr>meRegsReady := True\<rparr>) md else md) in
        bindE (if entries = [] then
                 bindE (assertE (meMemDeps (mdHeap md ! p) = 0)) (\<lambda>_.
                 bindE (if ready then moveToReady p md else Inr []) (\<lambda>out. Inr (md, i, out)))
               else
                 let md = fold (add_dependent p) entries md;
                     md = upd_entry p (\<lambda>e. e\<lparr>meMemDeps := length entries\<rparr>) md in
                 Inr (md, reset_status CanIssue i, [])) (\<lambda>(md, i, out).
        bindE (note_store i (insertBarrierSN i md)) (\<lambda>md. Inr (md, i, out)))))"

definition md_insertBarrier :: "dyn_inst \<Rightarrow> mem_dep \<Rightarrow> mem_dep" where
  "md_insertBarrier i md = insertBarrierSN i (md_alloc i md)"

definition md_insertNonSpec :: "dyn_inst \<Rightarrow> mem_dep \<Rightarrow> mem_dep res" where
  "md_insertNonSpec i md = note_store i (md_insertBarrier i md)"

text \<open>\<open>regsReady\<close>, \<open>nonSpecInstReady\<close>, \<open>reschedule\<close> and \<open>replay\<close>.\<close>

definition md_regsReady :: "dyn_inst \<Rightarrow> mem_dep \<Rightarrow> (mem_dep \<times> nat list) res" where
  "md_regsReady i md =
     bindE (md_find (diSeq i) md) (\<lambda>p.
       let md = upd_entry p (\<lambda>e. e\<lparr>meRegsReady := True\<rparr>) md in
       bindE (if meMemDeps (mdHeap md ! p) = 0 then moveToReady p md else Inr []) (\<lambda>out.
         Inr (md, out)))"

definition md_nonSpecInstReady :: "dyn_inst \<Rightarrow> mem_dep \<Rightarrow> nat list res" where
  "md_nonSpecInstReady i md = bindE (md_find (diSeq i) md) (\<lambda>p. moveToReady p md)"

definition md_reschedule :: "dyn_inst \<Rightarrow> mem_dep \<Rightarrow> mem_dep" where
  "md_reschedule i md = md\<lparr>mdReplay := mdReplay md @ [(diTid i, diSeq i)]\<rparr>"

definition md_replay :: "mem_dep \<Rightarrow> (mem_dep \<times> nat list) res" where
  "md_replay md =
     foldE (\<lambda>(tid, sn) (md, out).
       bindE (md_find sn md) (\<lambda>p.
       bindE (moveToReady p md) (\<lambda>o'.
         Inr (md\<lparr>mdReplay := tl (mdReplay md)\<rparr>, out @ o')))) (mdReplay md) (md, [])"

text \<open>
  \<open>completed\<close>, \<open>wakeDependents\<close> and \<open>completeInst\<close>.  \<open>wakeDependents\<close> skips an entry whose
  instruction is a null pointer; entries have their instruction from the constructor on, so there
  is no such entry.
\<close>

definition md_completed :: "dyn_inst \<Rightarrow> mem_dep \<Rightarrow> mem_dep res" where
  "md_completed i md =
     bindE (md_find (diSeq i) md) (\<lambda>_.
       Inr (md\<lparr>mdList := (mdList md)(diTid i := remove1 (diSeq i) (mdList md (diTid i))),
         mdHash := AList.delete (diSeq i) (mdHash md)\<rparr>))"

definition has_dependents :: "dyn_inst \<Rightarrow> bool" where
  "has_dependents i \<longleftrightarrow> has_prop IsStore i \<or> has_prop IsAtomic i \<or> has_prop IsReadBarrier i \<or>
     has_prop IsWriteBarrier i \<or> has_prop IsHtmCmd i"

definition wake_one :: "nat \<Rightarrow> mem_dep \<times> nat list \<Rightarrow> (mem_dep \<times> nat list) res" where
  "wake_one w = (\<lambda>(md, out).
     bindE (assertE (meMemDeps (mdHeap md ! w) > 0)) (\<lambda>_.
       let md = upd_entry w (\<lambda>e. e\<lparr>meMemDeps := meMemDeps e - 1\<rparr>) md; e = mdHeap md ! w in
       bindE (if meMemDeps e = 0 \<and> meRegsReady e \<and> \<not> meSquashed e then moveToReady w md
              else Inr []) (\<lambda>o'. Inr (md, out @ o'))))"

definition md_wakeDependents :: "dyn_inst \<Rightarrow> mem_dep \<Rightarrow> (mem_dep \<times> nat list) res" where
  "md_wakeDependents i md =
     (if \<not> has_dependents i then Inr (md, [])
      else bindE (md_find (diSeq i) md) (\<lambda>p.
           bindE (foldE wake_one (meDeps (mdHeap md ! p)) (md, [])) (\<lambda>(md, out).
             Inr (upd_entry p (\<lambda>e. e\<lparr>meDeps := []\<rparr>) md, out))))"

definition md_completeInst :: "dyn_inst \<Rightarrow> mem_dep \<Rightarrow> (mem_dep \<times> nat list) res" where
  "md_completeInst i md =
     bindE (md_wakeDependents i md) (\<lambda>(md, out).
     bindE (md_completed i md) (\<lambda>md.
     bindE (if has_prop IsWriteBarrier i \<or> has_prop IsHtmCmd i then
              bindE (assertE (mdStoreBars md \<noteq> [])) (\<lambda>_.
                Inr (md\<lparr>mdStoreBars := remove1 (diSeq i) (mdStoreBars md)\<rparr>))
            else Inr md) (\<lambda>md.
     bindE (if has_prop IsReadBarrier i \<or> has_prop IsHtmCmd i then
              bindE (assertE (mdLoadBars md \<noteq> [])) (\<lambda>_.
                Inr (md\<lparr>mdLoadBars := remove1 (diSeq i) (mdLoadBars md)\<rparr>))
            else Inr md) (\<lambda>md.
       Inr (md, out)))))"

text \<open>
  \<open>squash\<close>; the loop walks the list of the thread from its end, so the list is given reversed.
\<close>

fun md_squash_loop :: "nat \<Rightarrow> nat \<Rightarrow> nat list \<Rightarrow> mem_dep \<Rightarrow> mem_dep res" where
  "md_squash_loop sq tid [] md = Inr (md\<lparr>mdList := (mdList md)(tid := [])\<rparr>)"
| "md_squash_loop sq tid (sn # rest) md =
     (if \<not> sn > sq then Inr (md\<lparr>mdList := (mdList md)(tid := rev (sn # rest))\<rparr>)
      else
        let md = md\<lparr>mdLoadBars := remove1 sn (mdLoadBars md),
                    mdStoreBars := remove1 sn (mdStoreBars md)\<rparr> in
        bindE (md_find sn md) (\<lambda>p.
          let md = upd_entry p (\<lambda>e. e\<lparr>meSquashed := True\<rparr>) md in
          md_squash_loop sq tid rest (md\<lparr>mdHash := AList.delete sn (mdHash md)\<rparr>)))"

definition md_squash :: "nat \<Rightarrow> nat \<Rightarrow> mem_dep \<Rightarrow> mem_dep res" where
  "md_squash sq tid md =
     (let md = md\<lparr>mdReplay := filter (\<lambda>(t, sn). \<not> (t = tid \<and> sn > sq)) (mdReplay md)\<rparr> in
      bindE (md_squash_loop sq tid (rev (mdList md tid)) md) (\<lambda>md.
      bindE (case ss_squash sq (mdPred md) of None \<Rightarrow> Inl NoReturn | Some r \<Rightarrow> r) (\<lambda>pred.
        Inr (md\<lparr>mdPred := pred\<rparr>))))"

text \<open>\<open>violation\<close> and \<open>issue\<close>.\<close>

definition md_violation :: "dyn_inst \<Rightarrow> dyn_inst \<Rightarrow> mem_dep \<Rightarrow> mem_dep res" where
  "md_violation store load md =
     bindE (ss_violation (instAddr store) (instAddr load) (mdPred md)) (\<lambda>pred.
       Inr (md\<lparr>mdPred := pred\<rparr>))"

definition md_issue :: "dyn_inst \<Rightarrow> mem_dep \<Rightarrow> mem_dep res" where
  "md_issue i md =
     bindE (ss_issued (instAddr i) (diSeq i) (has_prop IsStore i) (mdPred md)) (\<lambda>pred.
       Inr (md\<lparr>mdPred := pred\<rparr>))"

end
