(* ===== verification/MemDepInv.thy ===== *)
theory MemDepInv
  imports MemDep
begin

text \<open>
  Correctness of the memory dependence unit: the counter of an entry is the number of entries in
  flight that still list it as a dependent.  From this invariant follow that no assertion of the
  unit fails, that no instruction is handed to the ready list while a store or barrier that it
  waits for is in flight, and that the completion of the last of them hands it over.
\<close>

section \<open>The invariant\<close>

text \<open>
  \<open>I\<close> gives the instruction of a sequence number (its static properties are what counts), \<open>t\<close> is
  the thread of the unit and \<open>b\<close> the youngest instruction inserted so far.  \<open>waits\<close> is the bag of
  all dependents that the entries in flight list.
\<close>

definition ent :: "mem_dep \<Rightarrow> nat \<Rightarrow> md_entry" where
  "ent md s = mdHeap md ! the (map_of (mdHash md) s)"

definition waits :: "nat \<Rightarrow> mem_dep \<Rightarrow> nat multiset" where
  "waits t md = mset (concat (map (\<lambda>s. meDeps (ent md s)) (mdList md t)))"

definition entry_ok :: "(nat \<Rightarrow> dyn_inst) \<Rightarrow> nat \<Rightarrow> mem_dep \<Rightarrow> nat \<Rightarrow> nat \<Rightarrow> bool" where
  "entry_ok I t md s p \<longleftrightarrow>
     p < length (mdHeap md) \<and> meInst (mdHeap md ! p) = s \<and> \<not> meSquashed (mdHeap md ! p) \<and>
     meMemDeps (mdHeap md ! p) = count (waits t md) p \<and> distinct (meDeps (mdHeap md ! p)) \<and>
     (\<forall>w \<in> set (meDeps (mdHeap md ! p)).
        w < length (mdHeap md) \<and> s < meInst (mdHeap md ! w)) \<and>
     (meDeps (mdHeap md ! p) \<noteq> [] \<longrightarrow> has_dependents (I s))"

definition md_core :: "(nat \<Rightarrow> dyn_inst) \<Rightarrow> nat \<Rightarrow> nat \<Rightarrow> mem_dep \<Rightarrow> bool" where
  "md_core I t b md \<longleftrightarrow>
     sorted_wrt (<) (mdList md t) \<and> (\<forall>s \<in> set (mdList md t). s \<le> b) \<and>
     dom (map_of (mdHash md)) = set (mdList md t) \<and>
     (\<forall>s p. map_of (mdHash md) s = Some p \<longrightarrow> entry_ok I t md s p) \<and>
     (\<forall>p < length (mdHeap md). count (waits t md) p \<le> meMemDeps (mdHeap md ! p)) \<and>
     (\<forall>p \<in># waits t md. meSquashed (mdHeap md ! p) \<or>
        map_of (mdHash md) (meInst (mdHeap md ! p)) = Some p)"

definition reads_bar :: "dyn_inst \<Rightarrow> bool" where
  "reads_bar i \<longleftrightarrow> has_prop IsReadBarrier i \<or> has_prop IsHtmCmd i"

definition writes_bar :: "dyn_inst \<Rightarrow> bool" where
  "writes_bar i \<longleftrightarrow> has_prop IsWriteBarrier i \<or> has_prop IsHtmCmd i"

definition is_storing :: "dyn_inst \<Rightarrow> bool" where
  "is_storing i \<longleftrightarrow> has_prop IsStore i \<or> has_prop IsAtomic i"

definition md_bars :: "(nat \<Rightarrow> dyn_inst) \<Rightarrow> nat \<Rightarrow> mem_dep \<Rightarrow> bool" where
  "md_bars I t md \<longleftrightarrow>
     distinct (mdLoadBars md) \<and> set (mdLoadBars md) = {s \<in> set (mdList md t). reads_bar (I s)} \<and>
     distinct (mdStoreBars md) \<and> set (mdStoreBars md) = {s \<in> set (mdList md t). writes_bar (I s)}"

definition md_inv :: "(nat \<Rightarrow> dyn_inst) \<Rightarrow> nat \<Rightarrow> nat \<Rightarrow> mem_dep \<Rightarrow> bool" where
  "md_inv I t b md \<longleftrightarrow> md_core I t b md \<and> md_bars I t md \<and>
     store_sets.tracks b (set (mdList md t)) {s. is_storing (I s)} (mdPred md) \<and>
     (\<forall>(t', s) \<in> set (mdReplay md). t' = t \<and> s \<in> set (mdList md t))"

section \<open>Lists of dependents\<close>

lemma concat_add_one:
  "distinct xs \<Longrightarrow> r \<in> set xs \<Longrightarrow> g r = f r @ [p] \<Longrightarrow> (\<And>s. s \<in> set xs \<Longrightarrow> s \<noteq> r \<Longrightarrow> g s = f s) \<Longrightarrow>
   mset (concat (map g xs)) = add_mset p (mset (concat (map f xs)))"
proof (induction xs)
  case (Cons x xs)
  show ?case
  proof (cases "x = r")
    case True
    then have "map g xs = map f xs" using Cons.prems by auto
    then have "concat (map g xs) = concat (map f xs)" by (rule arg_cong)
    then show ?thesis using True Cons.prems(3) by (simp only: list.map concat.simps mset_append) simp
  next
    case False
    then show ?thesis using Cons by simp
  qed
qed simp

lemma concat_remove1:
  "r \<in> set xs \<Longrightarrow> mset (concat (map f xs)) = mset (f r) + mset (concat (map f (remove1 r xs)))"
  by (induction xs) auto

lemma map_of_delete [simp]: "map_of (AList.delete k xs) = (map_of xs)(k := None)"
  by (rule AList.delete_conv')

lemma ent_Some: "map_of (mdHash md) s = Some p \<Longrightarrow> ent md s = mdHeap md ! p"
  by (simp add: ent_def)

lemma core_live: "md_core I t b md \<Longrightarrow> s \<in> set (mdList md t) \<Longrightarrow> \<exists>p. map_of (mdHash md) s = Some p"
  by (auto simp: md_core_def dom_def)

lemma core_hash: "md_core I t b md \<Longrightarrow> map_of (mdHash md) s = Some p \<Longrightarrow> s \<in> set (mdList md t)"
  by (auto simp: md_core_def dom_def)

lemma core_entry: "md_core I t b md \<Longrightarrow> map_of (mdHash md) s = Some p \<Longrightarrow> entry_ok I t md s p"
  by (simp add: md_core_def)

lemma core_distinct: "md_core I t b md \<Longrightarrow> distinct (mdList md t)"
  by (auto simp: md_core_def intro: strict_sorted_iff[THEN iffD1, THEN conjunct2])

lemma core_inj:
  "md_core I t b md \<Longrightarrow> map_of (mdHash md) s = Some p \<Longrightarrow> map_of (mdHash md) r = Some p \<Longrightarrow> s = r"
  using core_entry unfolding entry_ok_def by blast

lemma waits_bound: "md_core I t b md \<Longrightarrow> w \<in># waits t md \<Longrightarrow> w < length (mdHeap md)"
proof -
  assume c: "md_core I t b md" and w: "w \<in># waits t md"
  then obtain s where s: "s \<in> set (mdList md t)" "w \<in> set (meDeps (ent md s))"
    by (auto simp: waits_def)
  then obtain p where "map_of (mdHash md) s = Some p" using core_live[OF c] by blast
  with s(2) core_entry[OF c this] show ?thesis by (auto simp: entry_ok_def ent_Some)
qed

section \<open>The steps of an insertion\<close>

text \<open>A new entry.\<close>

lemma alloc_fields:
  assumes "md_core I t b md" "b < diSeq i" "diTid i = t"
  shows "mdHeap (md_alloc i md) = mdHeap md @ [new_MemDepEntry (diSeq i)]"
    "mdHash (md_alloc i md) = (diSeq i, length (mdHeap md)) # mdHash md"
    "mdList (md_alloc i md) t = mdList md t @ [diSeq i]"
    "waits t (md_alloc i md) = waits t md"
proof -
  have "diSeq i \<notin> set (mdList md t)" using assms(1,2) by (auto simp: md_core_def)
  then have new: "map_of (mdHash md) (diSeq i) = None" using core_hash[OF assms(1)] by (cases "map_of (mdHash md) (diSeq i)") auto
  show h: "mdHeap (md_alloc i md) = mdHeap md @ [new_MemDepEntry (diSeq i)]"
    "mdHash (md_alloc i md) = (diSeq i, length (mdHeap md)) # mdHash md"
    "mdList (md_alloc i md) t = mdList md t @ [diSeq i]"
    using new assms(3) by (simp_all add: md_alloc_def Let_def)
  have "ent (md_alloc i md) s = ent md s" if live: "s \<in> set (mdList md t)" for s
  proof -
    obtain p where p: "map_of (mdHash md) s = Some p" using core_live[OF assms(1) live] by blast
    moreover have "p < length (mdHeap md)" using core_entry[OF assms(1) p] by (simp add: entry_ok_def)
    moreover have "s \<noteq> diSeq i" using new p by auto
    ultimately show ?thesis unfolding ent_def h by (simp add: nth_append)
  qed
  moreover have "meDeps (ent (md_alloc i md) (diSeq i)) = []"
    unfolding ent_def h by (simp add: new_MemDepEntry_def)
  ultimately show "waits t (md_alloc i md) = waits t md"
    unfolding waits_def h by (simp cong: map_cong)
qed

lemma core_alloc:
  assumes c: "md_core I t b md" and i: "b < diSeq i" "diTid i = t"
  shows "md_core I t (diSeq i) (md_alloc i md)"
proof -
  note f = alloc_fields[OF c i]
  let ?n = "length (mdHeap md)"
  have "?n \<notin># waits t md" using waits_bound[OF c] by blast
  then have zero: "count (waits t md) ?n = 0" by (simp add: count_eq_zero_iff)
  have "entry_ok I t (md_alloc i md) s p" if "map_of (mdHash (md_alloc i md)) s = Some p" for s p
  proof (cases "s = diSeq i")
    case True
    then have "p = ?n" using that f(2) by simp
    then show ?thesis using True zero f by (simp add: entry_ok_def new_MemDepEntry_def)
  next
    case False
    then have p: "map_of (mdHash md) s = Some p" using that f(2) by simp
    from core_entry[OF c this] show ?thesis
      using f by (auto simp: entry_ok_def nth_append)
  qed
  moreover have "sorted_wrt (<) (mdList md t @ [diSeq i])" "\<forall>s \<in> set (mdList md t @ [diSeq i]). s \<le> diSeq i"
    using c i(1) by (fastforce simp: md_core_def sorted_wrt_append)+
  moreover have "dom (map_of (mdHash (md_alloc i md))) = set (mdList md t @ [diSeq i])"
    using c f(2) by (auto simp: md_core_def)
  moreover have "count (waits t md) p \<le> meMemDeps (mdHeap (md_alloc i md) ! p)"
    if "p < Suc ?n" for p
    using that zero c f(1) by (cases "p = ?n") (auto simp: md_core_def nth_append)
  moreover have "meSquashed (mdHeap (md_alloc i md) ! p) \<or>
      map_of (mdHash (md_alloc i md)) (meInst (mdHeap (md_alloc i md) ! p)) = Some p"
    if p: "p \<in># waits t md" for p
  proof -
    have "p < ?n" by (rule waits_bound[OF c p])
    moreover have "meSquashed (mdHeap md ! p) \<or> map_of (mdHash md) (meInst (mdHeap md ! p)) = Some p"
      using c p by (simp add: md_core_def)
    moreover have "diSeq i \<notin> set (mdList md t)" using c i(1) by (auto simp: md_core_def)
    ultimately show ?thesis using core_hash[OF c] f(1,2) by (auto simp: nth_append)
  qed
  ultimately show ?thesis using f(1,3,4) by (simp add: md_core_def)
qed

text \<open>Updates of an entry that touch neither its dependents nor its counter.\<close>

definition same_deps :: "(md_entry \<Rightarrow> md_entry) \<Rightarrow> bool" where
  "same_deps f \<longleftrightarrow> (\<forall>e. meInst (f e) = meInst e \<and> meDeps (f e) = meDeps e \<and>
     meMemDeps (f e) = meMemDeps e \<and> meSquashed (f e) = meSquashed e)"

lemma upd_entry_nth:
  "p < length (mdHeap md) \<Longrightarrow>
   mdHeap (upd_entry q f md) ! p = (if p = q then f (mdHeap md ! p) else mdHeap md ! p)"
  by (simp add: upd_entry_def nth_list_update)

lemma upd_entry_fields [simp]:
  "length (mdHeap (upd_entry q f md)) = length (mdHeap md)" "mdHash (upd_entry q f md) = mdHash md"
  "mdList (upd_entry q f md) = mdList md" "mdReplay (upd_entry q f md) = mdReplay md"
  "mdPred (upd_entry q f md) = mdPred md" "mdLoadBars (upd_entry q f md) = mdLoadBars md"
  "mdStoreBars (upd_entry q f md) = mdStoreBars md"
  by (simp_all add: upd_entry_def)

text \<open>\<open>waits\<close> depends on the dependents of the entries in flight only.\<close>

lemma waits_cong:
  assumes "mdList md' t = mdList md t"
    and "\<And>s. s \<in> set (mdList md t) \<Longrightarrow> meDeps (ent md' s) = meDeps (ent md s)"
  shows "waits t md' = waits t md"
  using assms by (simp add: waits_def cong: map_cong)

lemma core_cong:
  assumes c: "md_core I t b md" and "mdList md' t = mdList md t" "mdHash md' = mdHash md"
    and "length (mdHeap md') = length (mdHeap md)"
    and "\<And>p. p < length (mdHeap md) \<Longrightarrow> meInst (mdHeap md' ! p) = meInst (mdHeap md ! p) \<and>
       meDeps (mdHeap md' ! p) = meDeps (mdHeap md ! p) \<and>
       meMemDeps (mdHeap md' ! p) = meMemDeps (mdHeap md ! p) \<and>
       meSquashed (mdHeap md' ! p) = meSquashed (mdHeap md ! p)"
  shows "md_core I t b md'" and "waits t md' = waits t md"
proof -
  show w: "waits t md' = waits t md"
  proof (rule waits_cong[OF assms(2)])
    fix s assume "s \<in> set (mdList md t)"
    then obtain p where p: "map_of (mdHash md) s = Some p" using core_live[OF c] by blast
    then have "p < length (mdHeap md)" using core_entry[OF c] by (auto simp: entry_ok_def)
    with p assms(3,5) show "meDeps (ent md' s) = meDeps (ent md s)" by (simp add: ent_def)
  qed
  have "entry_ok I t md' s p" if "map_of (mdHash md) s = Some p" for s p
    using core_entry[OF c that] assms(4,5) w by (auto simp: entry_ok_def)
  moreover have "meSquashed (mdHeap md' ! p) \<or> map_of (mdHash md') (meInst (mdHeap md' ! p)) = Some p"
    if "p \<in># waits t md" for p
    using c that waits_bound[OF c that] assms(3,5) by (auto simp: md_core_def)
  ultimately show "md_core I t b md'" using c assms(2-5) w by (auto simp: md_core_def)
qed

lemma core_upd:
  "md_core I t b md \<Longrightarrow> same_deps f \<Longrightarrow> md_core I t b (upd_entry p f md)"
  "md_core I t b md \<Longrightarrow> same_deps f \<Longrightarrow> waits t (upd_entry p f md) = waits t md"
  by (erule core_cong; auto simp: same_deps_def upd_entry_nth)+

lemma same_deps_ready [simp]: "same_deps (\<lambda>e. e\<lparr>meRegsReady := x\<rparr>)"
  by (simp add: same_deps_def)

text \<open>A new dependent: the counter goes up with the list.\<close>

definition link :: "nat \<Rightarrow> nat \<Rightarrow> mem_dep \<Rightarrow> mem_dep" where
  "link p q md = upd_entry p (\<lambda>e. e\<lparr>meMemDeps := meMemDeps e + 1\<rparr>) (add_dependent p q md)"

lemma link_nth:
  "r < length (mdHeap md) \<Longrightarrow> p \<noteq> q \<Longrightarrow> mdHeap (link p q md) ! r =
    (if r = p then (mdHeap md ! r)\<lparr>meMemDeps := meMemDeps (mdHeap md ! r) + 1\<rparr>
     else if r = q then (mdHeap md ! r)\<lparr>meDeps := meDeps (mdHeap md ! r) @ [p]\<rparr>
     else mdHeap md ! r)"
  by (simp add: link_def add_dependent_def upd_entry_nth)

lemma link_fields [simp]:
  "length (mdHeap (link p q md)) = length (mdHeap md)" "mdHash (link p q md) = mdHash md"
  "mdList (link p q md) = mdList md" "mdReplay (link p q md) = mdReplay md"
  "mdPred (link p q md) = mdPred md" "mdLoadBars (link p q md) = mdLoadBars md"
  "mdStoreBars (link p q md) = mdStoreBars md"
  by (simp_all add: link_def add_dependent_def)

lemma core_link:
  assumes c: "md_core I t b md" and r: "map_of (mdHash md) r = Some q" "has_dependents (I r)"
    and p: "map_of (mdHash md) s = Some p" "p \<notin> set (meDeps (mdHeap md ! q))" "r < s"
  shows "md_core I t b (link p q md)" and "waits t (link p q md) = add_mset p (waits t md)"
proof -
  let ?m = "link p q md"
  note q' = core_entry[OF c r(1), unfolded entry_ok_def]
  note p' = core_entry[OF c p(1), unfolded entry_ok_def]
  have ne: "p \<noteq> q" using q' p' p(3) by auto
  have live: "r \<in> set (mdList md t)" by (rule core_hash[OF c r(1)])
  have deps: "meDeps (ent ?m x) = meDeps (ent md x)" if x: "x \<in> set (mdList md t)" "x \<noteq> r" for x
  proof -
    obtain px where px: "map_of (mdHash md) x = Some px" using core_live[OF c x(1)] by blast
    have "px \<noteq> q" using core_inj[OF c px, of r] r(1) x(2) by auto
    moreover have "px < length (mdHeap md)" using core_entry[OF c px] by (simp add: entry_ok_def)
    ultimately show ?thesis using px ne by (simp add: ent_def link_nth)
  qed
  have "meDeps (ent ?m r) = meDeps (ent md r) @ [p]" using r(1) q' ne by (simp add: ent_def link_nth)
  with deps show w: "waits t ?m = add_mset p (waits t md)"
    unfolding waits_def link_fields by (intro concat_add_one[OF core_distinct[OF c] live])
  have "entry_ok I t ?m x px" if x: "map_of (mdHash md) x = Some px" for x px
  proof -
    note e = core_entry[OF c x, unfolded entry_ok_def]
    have "px = q \<Longrightarrow> x = r" using core_inj[OF c x, of r] r(1) by auto
    then show ?thesis using e p' q' p(2,3) r(2) ne w
      by (auto simp: entry_ok_def link_nth)
  qed
  moreover have "count (waits t ?m) x \<le> meMemDeps (mdHeap ?m ! x)" if "x < length (mdHeap md)" for x
    using c that ne w by (auto simp: md_core_def link_nth)
  moreover have "meSquashed (mdHeap ?m ! x) \<or> map_of (mdHash ?m) (meInst (mdHeap ?m ! x)) = Some x"
    if "x \<in># waits t ?m" for x
  proof (cases "x = p")
    case True
    then show ?thesis using p' p(1) ne by (simp add: link_nth)
  next
    case False
    then have "x \<in># waits t md" using that w by simp
    then show ?thesis using c waits_bound[OF c] ne by (auto simp: md_core_def link_nth)
  qed
  ultimately show "md_core I t b ?m" using c by (simp add: md_core_def)
qed

lemma upd_entry_upd: "p < length (mdHeap md) \<Longrightarrow> upd_entry p f (upd_entry p g md) = upd_entry p (f \<circ> g) md"
  by (simp add: upd_entry_def)

lemma upd_entry_commute: "p \<noteq> q \<Longrightarrow> upd_entry p f (upd_entry q g md) = upd_entry q g (upd_entry p f md)"
  by (cases "p < length (mdHeap md)"; cases "q < length (mdHeap md)")
     (simp_all add: upd_entry_def list_update_swap)

lemma fold_add_commute:
  "p \<notin> set qs \<Longrightarrow> fold (add_dependent p) qs (upd_entry p g md) = upd_entry p g (fold (add_dependent p) qs md)"
proof (induction qs arbitrary: md)
  case (Cons q qs)
  then have "add_dependent p q (upd_entry p g md) = upd_entry p g (add_dependent p q md)"
    unfolding add_dependent_def by (intro upd_entry_commute) auto
  with Cons show ?case by simp
qed simp

lemma fold_add_length [simp]: "length (mdHeap (fold (add_dependent p) qs md)) = length (mdHeap md)"
  by (induction qs arbitrary: md) (simp_all add: add_dependent_def)

lemma fold_add_self:
  "p \<notin> set qs \<Longrightarrow> p < length (mdHeap md) \<Longrightarrow> mdHeap (fold (add_dependent p) qs md) ! p = mdHeap md ! p"
  by (induction qs arbitrary: md) (auto simp: add_dependent_def upd_entry_nth)

text \<open>The loop of \<open>insert\<close> and the assignment of the counter are a row of these steps.\<close>

lemma fold_link:
  assumes "p \<notin> set qs" "p < length (mdHeap md)"
  shows "upd_entry p (\<lambda>e. e\<lparr>meMemDeps := meMemDeps (mdHeap md ! p) + length qs\<rparr>)
      (fold (add_dependent p) qs md) = fold (link p) qs md"
  using assms
proof (induction qs arbitrary: md)
  case Nil
  then show ?case by (simp add: upd_entry_def)
next
  case (Cons q qs)
  let ?m = "add_dependent p q md"
  let ?set = "\<lambda>n. upd_entry p (\<lambda>e. e\<lparr>meMemDeps := n\<rparr>)"
  let ?n = "meMemDeps (mdHeap md ! p)"
  have len: "length (mdHeap ?m) = length (mdHeap md)" by (simp add: add_dependent_def)
  have l: "link p q md = upd_entry p (\<lambda>e. e\<lparr>meMemDeps := meMemDeps e + 1\<rparr>) ?m" by (simp add: link_def)
  have "meMemDeps (mdHeap (link p q md) ! p) = Suc ?n" using Cons.prems by (simp add: link_nth)
  then have "fold (link p) qs (link p q md) = ?set (Suc ?n + length qs) (fold (add_dependent p) qs (link p q md))"
    using Cons.IH[of "link p q md"] Cons.prems by simp
  also have "\<dots> = ?set (Suc ?n + length qs) (fold (add_dependent p) qs ?m)"
    unfolding l using Cons.prems by (simp add: fold_add_commute upd_entry_upd len comp_def)
  finally show ?case by simp
qed

lemma core_links:
  assumes "md_core I t b md" "map_of (mdHash md) s = Some p" "distinct qs"
    and "\<forall>q \<in> set qs. \<exists>r. map_of (mdHash md) r = Some q \<and> has_dependents (I r) \<and> r < s \<and>
      p \<notin> set (meDeps (mdHeap md ! q))"
  shows "md_core I t b (fold (link p) qs md) \<and>
    waits t (fold (link p) qs md) = waits t md + replicate_mset (length qs) p"
  using assms
proof (induction qs arbitrary: md)
  case (Cons q qs)
  obtain r where r: "map_of (mdHash md) r = Some q" "has_dependents (I r)" "r < s"
      "p \<notin> set (meDeps (mdHeap md ! q))" using Cons.prems(4) by auto
  note step = core_link[OF Cons.prems(1) r(1,2) Cons.prems(2) r(4,3)]
  have ne: "p \<noteq> q" using core_inj[OF Cons.prems(1,2), of r] r(1,3) by auto
  have "p \<notin> set (meDeps (mdHeap (link p q md) ! x))" if x: "x \<in> set qs" for x
  proof -
    obtain y where "map_of (mdHash md) y = Some x" "p \<notin> set (meDeps (mdHeap md ! x))"
      using Cons.prems(4) x by auto
    moreover from this have "x < length (mdHeap md)"
      using core_entry[OF Cons.prems(1)] by (auto simp: entry_ok_def)
    moreover have "x \<noteq> q" using Cons.prems(3) x by auto
    ultimately show ?thesis using ne by (auto simp: link_nth)
  qed
  then have "\<forall>x \<in> set qs. \<exists>y. map_of (mdHash (link p q md)) y = Some x \<and> has_dependents (I y) \<and> y < s \<and>
      p \<notin> set (meDeps (mdHeap (link p q md) ! x))"
    using Cons.prems(4) by fastforce
  from Cons.IH[OF step(1) _ _ this] Cons.prems(2,3) step(2) show ?case by simp
qed simp

end
