(* ===== verification/MemDepOps.thy ===== *)
theory MemDepOps
  imports MemDepInv
begin

text \<open>
  Every operation of the memory dependence unit succeeds on a state of the invariant, keeps it,
  and hands out exactly the instructions that have nothing left to wait for.
\<close>

section \<open>Barriers and the predictor\<close>

lemma bar_insert_set [simp]:
  "set (bar_insert s bs) = insert s (set bs)" "distinct (bar_insert s bs) = distinct bs"
  by (auto simp: bar_insert_def)

lemma insertBarrierSN_fields [simp]:
  "mdHeap (insertBarrierSN i md) = mdHeap md" "mdHash (insertBarrierSN i md) = mdHash md"
  "mdList (insertBarrierSN i md) = mdList md" "mdReplay (insertBarrierSN i md) = mdReplay md"
  "mdPred (insertBarrierSN i md) = mdPred md"
  by (simp_all add: insertBarrierSN_def Let_def)

lemma insertBarrierSN_bars:
  "mdLoadBars (insertBarrierSN i md) =
     (if reads_bar i then bar_insert (diSeq i) (mdLoadBars md) else mdLoadBars md)"
  "mdStoreBars (insertBarrierSN i md) =
     (if writes_bar i then bar_insert (diSeq i) (mdStoreBars md) else mdStoreBars md)"
  by (simp_all add: insertBarrierSN_def reads_bar_def writes_bar_def Let_def)

lemma core_same_entries:
  "md_core I t b md \<Longrightarrow> mdHeap md' = mdHeap md \<Longrightarrow> mdHash md' = mdHash md \<Longrightarrow> mdList md' = mdList md \<Longrightarrow>
   md_core I t b md'" and waits_same_entries:
  "mdHeap md' = mdHeap md \<Longrightarrow> mdHash md' = mdHash md \<Longrightarrow> mdList md' = mdList md \<Longrightarrow>
   waits t md' = waits t md"
  by (simp_all add: md_core_def entry_ok_def waits_def ent_def)

text \<open>The instruction table agrees with an instruction on its static properties.\<close>

definition describes :: "(nat \<Rightarrow> dyn_inst) \<Rightarrow> dyn_inst \<Rightarrow> bool" where
  "describes I i \<longleftrightarrow> diProps (I (diSeq i)) = diProps i"

lemma describes_kinds:
  assumes "describes I i"
  shows "reads_bar (I (diSeq i)) = reads_bar i" "writes_bar (I (diSeq i)) = writes_bar i"
    "is_storing (I (diSeq i)) = is_storing i" "has_dependents (I (diSeq i)) = has_dependents i"
  using assms by (simp_all add: describes_def reads_bar_def writes_bar_def is_storing_def
      has_dependents_def has_prop_def)

lemma kinds_have_dependents:
  "is_storing i \<Longrightarrow> has_dependents i" "reads_bar i \<Longrightarrow> has_dependents i" "writes_bar i \<Longrightarrow> has_dependents i"
  by (auto simp: is_storing_def reads_bar_def writes_bar_def has_dependents_def)

section \<open>Who an instruction waits for\<close>

text \<open>An entry in flight is blocked while another entry in flight lists it.\<close>

definition blocked :: "nat \<Rightarrow> mem_dep \<Rightarrow> nat \<Rightarrow> bool" where
  "blocked t md s \<longleftrightarrow> (\<exists>p. map_of (mdHash md) s = Some p \<and> p \<in># waits t md)"

lemma blocked_iff:
  "md_core I t b md \<Longrightarrow> map_of (mdHash md) s = Some p \<Longrightarrow> blocked t md s \<longleftrightarrow> meMemDeps (mdHeap md ! p) \<noteq> 0"
  using core_entry[of I t b md s p] by (auto simp: blocked_def entry_ok_def)

lemma distinct_map_filter:
  "distinct xs \<Longrightarrow> (\<And>x y v. f x = Some v \<Longrightarrow> f y = Some v \<Longrightarrow> x = y) \<Longrightarrow> distinct (List.map_filter f xs)"
proof (induction xs)
  case Nil
  then show ?case by (simp add: List.map_filter_def)
next
  case (Cons x xs)
  then have IH: "distinct (List.map_filter f xs)" by simp
  show ?case
  proof (cases "f x")
    case None
    then show ?thesis using IH by (simp add: List.map_filter_def)
  next
    case (Some v)
    have "v \<notin> set (List.map_filter f xs)"
      using Cons.prems(1) Cons.prems(2)[OF Some] by (auto simp: List.map_filter_def)
    then show ?thesis using IH Some by (simp add: List.map_filter_def)
  qed
qed

lemma set_map_filter_iff: "v \<in> set (List.map_filter f xs) \<longleftrightarrow> (\<exists>x \<in> set xs. f x = Some v)"
  by (force simp: List.map_filter_def)

text \<open>
  The producers that \<open>insert\<close> finds are older entries in flight, each of a kind that wakes its
  dependents, and no entry comes twice.
\<close>

lemma producers_ok:
  assumes inv: "md_inv I t b md" and i: "b < diSeq i" "diTid i = t"
  shows "\<exists>stores. producing_stores i (md_alloc i md) = Inr stores \<and>
    (let qs = List.map_filter (map_of (mdHash (md_alloc i md))) stores in
     distinct qs \<and> (\<forall>q \<in> set qs. \<exists>r. map_of (mdHash md) r = Some q \<and> r < diSeq i \<and> has_dependents (I r)))"
proof -
  have c: "md_core I t b md" and bars: "md_bars I t md"
    and tr: "store_sets.tracks b (set (mdList md t)) {s. is_storing (I s)} (mdPred md)"
    using inv by (auto simp: md_inv_def)
  let ?a = "md_alloc i md"
  note f = alloc_fields[OF c i]
  have ca: "md_core I t (diSeq i) ?a" by (rule core_alloc[OF c i])
  have same: "mdLoadBars ?a = mdLoadBars md" "mdStoreBars ?a = mdStoreBars md" "mdPred ?a = mdPred md"
    by (simp_all add: md_alloc_def Let_def)
  have old: "map_of (mdHash ?a) r = map_of (mdHash md) r" if "r \<noteq> diSeq i" for r
    using that f(2) by simp
  have young: "r < diSeq i" if "r \<in> set (mdList md t)" for r
    using c i(1) that by (auto simp: md_core_def)
  obtain dep where dep: "ss_checkInst (instAddr i) (mdPred md) = Inr dep" "dep \<noteq> 0 \<longrightarrow> dep \<in> ss_known (mdPred md)"
    using store_sets.check_law[of "mdPred md" "instAddr i"] tr by (auto simp: store_sets.tracks_def)
  have known: "n \<noteq> diSeq i" "n \<in> set (mdList md t) \<Longrightarrow> is_storing (I n)" if "n \<in> ss_known (mdPred md)" for n
    using tr that i(1) by (auto simp: store_sets.tracks_def)
  let ?stores = "if (has_prop IsLoad i \<or> has_prop IsAtomic i) \<and> mdLoadBars md \<noteq> [] then mdLoadBars md
      else if (has_prop IsStore i \<or> has_prop IsAtomic i) \<and> mdStoreBars md \<noteq> [] then mdStoreBars md
      else if dep \<noteq> 0 then [dep] else []"
  have run: "producing_stores i ?a = Inr ?stores"
    using dep(1) same by (simp add: producing_stores_def)
  have d: "distinct ?stores" using bars by (auto simp: md_bars_def)
  have kind: "n \<noteq> diSeq i \<and> (n \<in> set (mdList md t) \<longrightarrow> has_dependents (I n))" if mem: "n \<in> set ?stores" for n
  proof -
    consider "n \<in> set (mdLoadBars md)" | "n \<in> set (mdStoreBars md)" | "n \<in> ss_known (mdPred md)"
      using mem dep(2) by (auto split: if_splits)
    then show ?thesis
      using bars young known[of n] kinds_have_dependents by cases (auto simp: md_bars_def)
  qed
  have "\<exists>r. map_of (mdHash md) r = Some q \<and> r < diSeq i \<and> has_dependents (I r)"
    if q: "q \<in> set (List.map_filter (map_of (mdHash ?a)) ?stores)" for q
  proof -
    obtain r where r: "r \<in> set ?stores" "map_of (mdHash ?a) r = Some q"
      using q unfolding set_map_filter_iff by blast
    then have "map_of (mdHash md) r = Some q" using old kind by metis
    moreover from this have "r \<in> set (mdList md t)" by (rule core_hash[OF c])
    ultimately show ?thesis using kind[OF r(1)] young by blast
  qed
  then show ?thesis using run distinct_map_filter[OF d, of "map_of (mdHash ?a)"] core_inj[OF ca]
    unfolding Let_def by (intro exI[of _ ?stores] conjI) blast+
qed

section \<open>Insertion\<close>

definition mem_kind :: "dyn_inst \<Rightarrow> bool" where
  "mem_kind i \<longleftrightarrow> has_prop IsLoad i \<or> is_storing i"

text \<open>The end of an insertion restores what concerns barriers and the predictor.\<close>

lemma bars_restored:
  assumes inv: "md_inv I t b md" and i: "b < diSeq i" "diTid i = t" "describes I i"
    and m: "md_core I t (diSeq i) m" "mdList m t = mdList md t @ [diSeq i]"
      "mdLoadBars m = mdLoadBars md" "mdStoreBars m = mdStoreBars md" "mdReplay m = mdReplay md"
  shows "md_core I t (diSeq i) (insertBarrierSN i m)" "md_bars I t (insertBarrierSN i m)"
    "\<forall>(t', s) \<in> set (mdReplay (insertBarrierSN i m)). t' = t \<and> s \<in> set (mdList (insertBarrierSN i m) t)"
proof -
  have bars: "md_bars I t md" and rp: "\<forall>(t', s) \<in> set (mdReplay md). t' = t \<and> s \<in> set (mdList md t)"
    and c: "md_core I t b md"
    using inv by (auto simp: md_inv_def)
  have new: "diSeq i \<notin> set (mdList md t)" using c i(1) by (auto simp: md_core_def)
  show "md_bars I t (insertBarrierSN i m)"
    using bars m(2-4) describes_kinds(1,2)[OF i(3)] by (auto simp: md_bars_def insertBarrierSN_bars)
  show "\<forall>(t', s) \<in> set (mdReplay (insertBarrierSN i m)). t' = t \<and> s \<in> set (mdList (insertBarrierSN i m) t)"
    using rp m(2,5) by auto
  show "md_core I t (diSeq i) (insertBarrierSN i m)" by (rule core_same_entries[OF m(1)]) simp_all
qed

lemma note_store_ok:
  assumes inv: "md_inv I t b md" and i: "b < diSeq i" "diTid i = t" "describes I i" "mem_kind i"
    and m: "md_core I t (diSeq i) m" "mdList m t = mdList md t @ [diSeq i]"
      "mdLoadBars m = mdLoadBars md" "mdStoreBars m = mdStoreBars md" "mdPred m = mdPred md"
      "mdReplay m = mdReplay md"
  shows "\<exists>md'. note_store i (insertBarrierSN i m) = Inr md' \<and> md_inv I t (diSeq i) md' \<and>
    mdHeap md' = mdHeap m \<and> mdHash md' = mdHash m \<and> mdList md' = mdList m"
proof -
  let ?b = "insertBarrierSN i m"
  have tr: "store_sets.tracks b (set (mdList md t)) {s. is_storing (I s)} (mdPred md)"
    using inv by (simp add: md_inv_def)
  note r = bars_restored[OF inv i(1-3) m(1-4,6)]
  show ?thesis
  proof (cases "is_storing i")
    case True
    obtain pred where p: "ss_insertStore (instAddr i) (diSeq i) (mdPred md) = Inr pred"
        "store_sets.tracks (diSeq i) (insert (diSeq i) (set (mdList md t))) {s. is_storing (I s)} pred"
      using store_sets.tracks_put[OF tr i(1), of "instAddr i"] True describes_kinds(3)[OF i(3)] by auto
    have "note_store i ?b = Inr (?b\<lparr>mdPred := pred\<rparr>)"
      using True p(1) m(5) by (simp add: note_store_def is_storing_def)
    moreover have "md_inv I t (diSeq i) (?b\<lparr>mdPred := pred\<rparr>)"
      using core_same_entries[OF r(1), of "?b\<lparr>mdPred := pred\<rparr>"] r(2,3) p(2) m(2)
      by (simp add: md_inv_def md_bars_def)
    ultimately show ?thesis by simp
  next
    case False
    then have "note_store i ?b = Inr ?b"
      using i(4) by (simp add: note_store_def is_storing_def mem_kind_def)
    moreover have "store_sets.tracks (diSeq i) (set (mdList m t)) {s. is_storing (I s)} (mdPred m)"
      using store_sets.tracks_mono[OF tr, of "diSeq i" "set (mdList m t)"] i(1) m(2,5) by auto
    ultimately show ?thesis using r by (simp add: md_inv_def)
  qed
qed

lemma status_irrelevant [simp]:
  "note_store (reset_status c i) md = note_store i md"
  "insertBarrierSN (reset_status c i) md = insertBarrierSN i md"
  by (simp_all add: note_store_def insertBarrierSN_def instAddr_def Let_def)

lemma md_insert_ok:
  assumes inv: "md_inv I t b md" and i: "b < diSeq i" "diTid i = t" "describes I i" "mem_kind i"
  shows "\<exists>md' i' out. md_insert i md = Inr (md', i', out) \<and> md_inv I t (diSeq i) md' \<and>
    mdList md' t = mdList md t @ [diSeq i] \<and>
    out = (if has_status CanIssue i \<and> \<not> blocked t md' (diSeq i) then [diSeq i] else []) \<and>
    i' = (if blocked t md' (diSeq i) then reset_status CanIssue i else i) \<and>
    (blocked t md' (diSeq i) \<longleftrightarrow>
       (\<exists>stores r. producing_stores i md = Inr stores \<and> r \<in> set stores \<and> r \<in> set (mdList md t))) \<and>
    meRegsReady (ent md' (diSeq i)) = has_status CanIssue i"
proof -
  have c: "md_core I t b md" using inv by (simp add: md_inv_def)
  let ?a = "md_alloc i md" and ?p = "length (mdHeap md)" and ?r = "has_status CanIssue i"
  note f = alloc_fields[OF c i(1,2)]
  have ca: "md_core I t (diSeq i) ?a" by (rule core_alloc[OF c i(1,2)])
  obtain stores where st: "producing_stores i ?a = Inr stores" and
      qs: "distinct (List.map_filter (map_of (mdHash ?a)) stores)"
        "\<forall>q \<in> set (List.map_filter (map_of (mdHash ?a)) stores).
           \<exists>r. map_of (mdHash md) r = Some q \<and> r < diSeq i \<and> has_dependents (I r)"
    using producers_ok[OF inv i(1,2)] by (auto simp: Let_def)
  let ?qs = "List.map_filter (map_of (mdHash ?a)) stores"
  have st0: "producing_stores i md = Inr stores"
  proof -
    have "mdLoadBars ?a = mdLoadBars md" "mdStoreBars ?a = mdStoreBars md" "mdPred ?a = mdPred md"
      by (simp_all add: md_alloc_def Let_def)
    then have "producing_stores i ?a = producing_stores i md" by (simp only: producing_stores_def)
    with st show ?thesis by simp
  qed
  have found: "?qs \<noteq> [] \<longleftrightarrow> (\<exists>r \<in> set stores. r \<in> set (mdList md t))"
  proof
    assume "?qs \<noteq> []"
    then obtain q where "q \<in> set ?qs" by (cases ?qs) auto
    then obtain r where r: "r \<in> set stores" "map_of (mdHash ?a) r = Some q" and "q \<in> set ?qs"
      unfolding set_map_filter_iff by blast
    obtain y where y: "map_of (mdHash md) y = Some q" using qs(2) \<open>q \<in> set ?qs\<close> by blast
    then have "q < ?p" using core_entry[OF c y] by (simp add: entry_ok_def)
    then have "map_of (mdHash md) r = Some q" using r(2) f(2) by (auto split: if_splits)
    then show "\<exists>r \<in> set stores. r \<in> set (mdList md t)" using r(1) core_hash[OF c] by blast
  next
    assume "\<exists>r \<in> set stores. r \<in> set (mdList md t)"
    then obtain r where r: "r \<in> set stores" "r \<in> set (mdList md t)" by blast
    then obtain q where q: "map_of (mdHash md) r = Some q" using core_live[OF c] by blast
    have "r \<noteq> diSeq i" using c i(1) r(2) by (auto simp: md_core_def)
    then have "q \<in> set ?qs" using q r(1) f(2) unfolding set_map_filter_iff by (intro bexI[of _ r]) auto
    then show "?qs \<noteq> []" by auto
  qed
  let ?m = "if ?r then upd_entry ?p (\<lambda>e. e\<lparr>meRegsReady := True\<rparr>) ?a else ?a"
  have m: "md_core I t (diSeq i) ?m" "waits t ?m = waits t md" "mdHash ?m = mdHash ?a"
      "mdList ?m = mdList ?a" "length (mdHeap ?m) = length (mdHeap ?a)" "mdPred ?m = mdPred md"
      "mdLoadBars ?m = mdLoadBars md" "mdStoreBars ?m = mdStoreBars md" "mdReplay ?m = mdReplay md"
    using core_upd[OF ca, of "\<lambda>e. e\<lparr>meRegsReady := True\<rparr>" ?p] ca f(4)
    by (simp_all add: md_alloc_def Let_def)
  have self: "map_of (mdHash ?m) (diSeq i) = Some ?p" using f(2) m(3) by simp
  have mp: "mdHeap ?m ! ?p = (new_MemDepEntry (diSeq i))\<lparr>meRegsReady := ?r\<rparr>"
    using f(1) by (auto simp: upd_entry_def new_MemDepEntry_def)
  have qs': "\<exists>r. map_of (mdHash ?m) r = Some q \<and> has_dependents (I r) \<and> r < diSeq i \<and>
      ?p \<notin> set (meDeps (mdHeap ?m ! q))" if q: "q \<in> set ?qs" for q
  proof -
    obtain r where r: "map_of (mdHash md) r = Some q" "r < diSeq i" "has_dependents (I r)" using qs(2) q by blast
    note e = core_entry[OF c r(1), unfolded entry_ok_def]
    have "meDeps (mdHeap ?m ! q) = meDeps (mdHeap md ! q)"
      using e f(1) by (auto simp: upd_entry_def nth_append)
    then show ?thesis using r e f(2) m(3) by (intro exI[of _ r]) auto
  qed
  have new: "?p \<notin> set ?qs"
    using qs(2) core_entry[OF c] unfolding entry_ok_def by blast
  show ?thesis
  proof (cases "?qs = []")
    case True
    obtain md' where md': "note_store i (insertBarrierSN i ?m) = Inr md'" "md_inv I t (diSeq i) md'"
        "mdHeap md' = mdHeap ?m" "mdHash md' = mdHash ?m" "mdList md' = mdList ?m"
      using note_store_ok[OF inv i m(1)] m f(3) by auto
    have nb: "\<not> blocked t md' (diSeq i)"
    proof -
      have "waits t md' = waits t md" using waits_same_entries[OF md'(3-5)] m(2) by simp
      then show ?thesis using self waits_bound[OF c, of ?p] md'(4) by (auto simp: blocked_def)
    qed
    have "md_insert i md = Inr (md', i, if ?r then [diSeq i] else [])"
      using st True md'(1) mp
      by (cases ?r) (simp_all add: md_insert_def Let_def new_MemDepEntry_def moveToReady_def)
    then show ?thesis using md' nb f(3) m(4) self mp st0 found True
      by (auto simp: ent_def new_MemDepEntry_def)
  next
    case False
    let ?w = "fold (link ?p) ?qs ?m"
    have w: "md_core I t (diSeq i) ?w" "waits t ?w = waits t md + replicate_mset (length ?qs) ?p"
      using core_links[OF m(1) self qs(1)] qs' m(2) by auto
    have fields: "mdHash (fold (link p) xs n) = mdHash n" "mdList (fold (link p) xs n) = mdList n"
      "mdPred (fold (link p) xs n) = mdPred n" "mdLoadBars (fold (link p) xs n) = mdLoadBars n"
      "mdStoreBars (fold (link p) xs n) = mdStoreBars n" "mdReplay (fold (link p) xs n) = mdReplay n"
      for p xs and n :: mem_dep
      by (induction xs arbitrary: n) simp_all
    obtain md' where md': "note_store i (insertBarrierSN i ?w) = Inr md'" "md_inv I t (diSeq i) md'"
        "mdHeap md' = mdHeap ?w" "mdHash md' = mdHash ?w" "mdList md' = mdList ?w"
      using note_store_ok[OF inv i w(1)] m f(3) by (auto simp: fields)
    have bl: "blocked t md' (diSeq i)"
    proof -
      have "waits t md' = waits t md + replicate_mset (length ?qs) ?p"
        using waits_same_entries[OF md'(3-5)] w(2) by simp
      then show ?thesis using self md'(4) False by (auto simp: blocked_def fields)
    qed
    have len: "?p < length (mdHeap ?m)" using m(5) f(1) by simp
    have fl: "upd_entry ?p (\<lambda>e. e\<lparr>meMemDeps := length ?qs\<rparr>) (fold (add_dependent ?p) ?qs ?m) = ?w"
      using fold_link[OF new len] mp by (simp add: new_MemDepEntry_def)
    have "md_insert i md = Inr (md', reset_status CanIssue i, [])"
      using st False md'(1) fl by (cases ?r) (simp_all add: md_insert_def Let_def)
    moreover have "meRegsReady (ent md' (diSeq i)) = ?r"
    proof -
      have "meRegsReady (mdHeap (fold (link ?p) xs n) ! ?p) = meRegsReady (mdHeap n ! ?p)"
        if "?p \<notin> set xs" "?p < length (mdHeap n)" for xs n
        using that by (induction xs arbitrary: n) (auto simp: link_nth)
      from this[OF new len] show ?thesis
        using mp self md'(3,4) by (simp add: ent_def fields)
    qed
    ultimately show ?thesis using md' bl f(3) m(4) st0 found False by (auto simp: fields)
  qed
qed

text \<open>Barriers and non-speculative instructions wait for nothing in this unit.\<close>

lemma md_insertNonSpec_ok:
  assumes inv: "md_inv I t b md" and i: "b < diSeq i" "diTid i = t" "describes I i" "mem_kind i"
  shows "\<exists>md'. md_insertNonSpec i md = Inr md' \<and> md_inv I t (diSeq i) md' \<and>
    mdList md' t = mdList md t @ [diSeq i] \<and> \<not> blocked t md' (diSeq i)"
proof -
  have c: "md_core I t b md" using inv by (simp add: md_inv_def)
  note f = alloc_fields[OF c i(1,2)]
  obtain md' where md': "note_store i (insertBarrierSN i (md_alloc i md)) = Inr md'" "md_inv I t (diSeq i) md'"
      "mdHeap md' = mdHeap (md_alloc i md)" "mdHash md' = mdHash (md_alloc i md)"
      "mdList md' = mdList (md_alloc i md)"
    using note_store_ok[OF inv i core_alloc[OF c i(1,2)]] f(3) by (auto simp: md_alloc_def Let_def)
  have "waits t md' = waits t md" using waits_same_entries[OF md'(3-5)] f(4) by simp
  then have "\<not> blocked t md' (diSeq i)"
    using f(2) md'(4) waits_bound[OF c, of "length (mdHeap md)"] by (auto simp: blocked_def)
  then show ?thesis using md' f(3) by (simp add: md_insertNonSpec_def md_insertBarrier_def)
qed

lemma md_insertBarrier_ok:
  assumes inv: "md_inv I t b md" and i: "b < diSeq i" "diTid i = t" "describes I i"
  shows "md_inv I t (diSeq i) (md_insertBarrier i md)"
proof -
  have c: "md_core I t b md" and tr: "store_sets.tracks b (set (mdList md t)) {s. is_storing (I s)} (mdPred md)"
    using inv by (simp_all add: md_inv_def)
  note f = alloc_fields[OF c i(1,2)]
  let ?a = "md_alloc i md"
  have same: "mdLoadBars ?a = mdLoadBars md" "mdStoreBars ?a = mdStoreBars md" "mdReplay ?a = mdReplay md"
    "mdPred ?a = mdPred md" by (simp_all add: md_alloc_def Let_def)
  have "store_sets.tracks (diSeq i) (set (mdList ?a t)) {s. is_storing (I s)} (mdPred md)"
    using store_sets.tracks_mono[OF tr, of "diSeq i" "set (mdList ?a t)"] i(1) f(3) by auto
  then show ?thesis
    using bars_restored[OF inv i core_alloc[OF c i(1,2)] f(3) same(1-3)] same(4)
    by (simp add: md_inv_def md_insertBarrier_def)
qed

section \<open>Registers become ready\<close>

lemma md_regsReady_ok:
  assumes inv: "md_inv I t b md" and s: "diSeq i \<in> set (mdList md t)"
  shows "\<exists>md' out. md_regsReady i md = Inr (md', out) \<and> md_inv I t b md' \<and> mdList md' = mdList md \<and>
    out = (if blocked t md (diSeq i) then [] else [diSeq i]) \<and>
    (\<forall>s. blocked t md' s = blocked t md s) \<and> meRegsReady (ent md' (diSeq i))"
proof -
  have c: "md_core I t b md" using inv by (simp add: md_inv_def)
  obtain p where p: "map_of (mdHash md) (diSeq i) = Some p" using core_live[OF c s] by blast
  note e = core_entry[OF c p, unfolded entry_ok_def]
  let ?m = "upd_entry p (\<lambda>e. e\<lparr>meRegsReady := True\<rparr>) md"
  have m: "md_core I t b ?m" "waits t ?m = waits t md" using core_upd[OF c, of _ p] by simp_all
  have "md_inv I t b ?m" using inv m(1) by (simp add: md_inv_def md_bars_def)
  moreover have "md_regsReady i md = Inr (?m, if blocked t md (diSeq i) then [] else [diSeq i])"
    using p e blocked_iff[OF c p]
    by (simp add: md_regsReady_def md_find_def moveToReady_def upd_entry_nth Let_def)
  moreover have "blocked t ?m s = blocked t md s" for s using m(2) by (simp add: blocked_def)
  ultimately show ?thesis using p e by (simp add: ent_def upd_entry_nth)
qed

section \<open>Completion\<close>

definition dec_all :: "nat list \<Rightarrow> mem_dep \<Rightarrow> mem_dep" where
  "dec_all ds md = fold (\<lambda>w. upd_entry w (\<lambda>e. e\<lparr>meMemDeps := meMemDeps e - 1\<rparr>)) ds md"

lemma dec_all_fields [simp]:
  "length (mdHeap (dec_all ds md)) = length (mdHeap md)" "mdHash (dec_all ds md) = mdHash md"
  "mdList (dec_all ds md) = mdList md" "mdReplay (dec_all ds md) = mdReplay md"
  "mdPred (dec_all ds md) = mdPred md" "mdLoadBars (dec_all ds md) = mdLoadBars md"
  "mdStoreBars (dec_all ds md) = mdStoreBars md"
  unfolding dec_all_def by (induction ds arbitrary: md) simp_all

lemma dec_all_nth:
  "distinct ds \<Longrightarrow> x < length (mdHeap md) \<Longrightarrow> mdHeap (dec_all ds md) ! x =
     (if x \<in> set ds then (mdHeap md ! x)\<lparr>meMemDeps := meMemDeps (mdHeap md ! x) - 1\<rparr> else mdHeap md ! x)"
  unfolding dec_all_def by (induction ds arbitrary: md) (auto simp: upd_entry_nth)

text \<open>The entries that a wake-up hands to the ready list.\<close>

definition last_one :: "mem_dep \<Rightarrow> nat \<Rightarrow> bool" where
  "last_one md w \<longleftrightarrow> meMemDeps (mdHeap md ! w) = 1 \<and> meRegsReady (mdHeap md ! w) \<and>
     \<not> meSquashed (mdHeap md ! w)"

lemma wake_fold:
  assumes "distinct ds" "\<forall>w \<in> set ds. w < length (mdHeap md) \<and> 0 < meMemDeps (mdHeap md ! w)"
  shows "foldE wake_one ds (md, out) =
    Inr (dec_all ds md, out @ map (\<lambda>w. meInst (mdHeap md ! w)) (filter (last_one md) ds))"
  using assms
proof (induction ds arbitrary: md out)
  case Nil
  then show ?case by (simp add: dec_all_def)
next
  case (Cons w ds)
  define m where "m = upd_entry w (\<lambda>e. e\<lparr>meMemDeps := meMemDeps e - 1\<rparr>) md"
  have w: "w < length (mdHeap md)" "0 < meMemDeps (mdHeap md ! w)" "w \<notin> set ds" using Cons.prems by auto
  have nth: "mdHeap m ! x = mdHeap md ! x" if "x \<in> set ds" for x
    using that w(3) Cons.prems(2) by (auto simp: m_def upd_entry_nth)
  have step: "wake_one w (md, out) =
      Inr (m, out @ (if last_one md w then [meInst (mdHeap md ! w)] else []))"
    using w by (auto simp: wake_one_def Let_def m_def upd_entry_nth moveToReady_def last_one_def)
  have "filter (last_one m) ds = filter (last_one md) ds"
    by (rule filter_cong) (simp_all add: last_one_def nth)
  moreover have "map (\<lambda>x. meInst (mdHeap m ! x)) (filter (last_one md) ds)
      = map (\<lambda>x. meInst (mdHeap md ! x)) (filter (last_one md) ds)" by (simp add: nth)
  moreover have "dec_all (w # ds) md = dec_all ds m" by (simp add: dec_all_def m_def)
  moreover have "length (mdHeap m) = length (mdHeap md)" by (simp add: m_def)
  ultimately show ?case using Cons.IH[of m] Cons.prems nth by (simp add: step)
qed

lemma md_wakeDependents_ok:
  assumes c: "md_core I t b md" and p: "map_of (mdHash md) (diSeq i) = Some p" and k: "describes I i"
  shows "md_wakeDependents i md = Inr (upd_entry p (\<lambda>e. e\<lparr>meDeps := []\<rparr>) (dec_all (meDeps (mdHeap md ! p)) md),
    map (\<lambda>w. meInst (mdHeap md ! w)) (filter (last_one md) (meDeps (mdHeap md ! p))))"
proof -
  let ?ds = "meDeps (mdHeap md ! p)"
  note e = core_entry[OF c p, unfolded entry_ok_def]
  show ?thesis
  proof (cases "has_dependents i")
    case False
    then have "?ds = []" using e describes_kinds(4)[OF k] by auto
    moreover from this have "upd_entry p (\<lambda>e. e\<lparr>meDeps := []\<rparr>) md = md"
    proof -
      have "(mdHeap md ! p)\<lparr>meDeps := []\<rparr> = mdHeap md ! p" using \<open>?ds = []\<close> by (cases "mdHeap md ! p") simp
      then show ?thesis by (simp add: upd_entry_def)
    qed
    ultimately show ?thesis using False by (simp add: md_wakeDependents_def dec_all_def)
  next
    case True
    have "diSeq i \<in> set (mdList md t)" by (rule core_hash[OF c p])
    then have sub: "w \<in># waits t md" if "w \<in> set ?ds" for w
      using that p by (auto simp: waits_def ent_Some intro!: bexI[of _ "diSeq i"])
    have "w < length (mdHeap md) \<and> 0 < meMemDeps (mdHeap md ! w)" if w: "w \<in> set ?ds" for w
    proof -
      have "w < length (mdHeap md)" using e w by auto
      moreover from this have "count (waits t md) w \<le> meMemDeps (mdHeap md ! w)" using c by (simp add: md_core_def)
      moreover have "0 < count (waits t md) w" using sub[OF w] by simp
      ultimately show ?thesis by linarith
    qed
    then show ?thesis using True p e wake_fold[of ?ds md "[]"]
      by (simp add: md_wakeDependents_def md_find_def)
  qed
qed

text \<open>The state after an entry has woken its dependents and left the unit.\<close>

lemma core_complete:
  assumes c: "md_core I t b md" and p: "map_of (mdHash md) s = Some p" and nb: "\<not> blocked t md s"
    and h: "length (mdHeap m) = length (mdHeap md)"
      "\<And>x. x < length (mdHeap md) \<Longrightarrow> mdHeap m ! x = (mdHeap md ! x)\<lparr>
         meMemDeps := meMemDeps (mdHeap md ! x) - (if x \<in> set (meDeps (mdHeap md ! p)) then 1 else 0),
         meDeps := (if x = p then [] else meDeps (mdHeap md ! x))\<rparr>"
      "mdHash m = AList.delete s (mdHash md)" "mdList m t = remove1 s (mdList md t)"
  shows "md_core I t b m" and "waits t md = mset (meDeps (mdHeap md ! p)) + waits t m"
proof -
  let ?ds = "meDeps (mdHeap md ! p)"
  note e = core_entry[OF c p, unfolded entry_ok_def]
  have live: "s \<in> set (mdList md t)" by (rule core_hash[OF c p])
  have d: "distinct (mdList md t)" by (rule core_distinct[OF c])
  have out: "p \<notin># waits t md" using nb p by (auto simp: blocked_def)
  have "map (\<lambda>r. meDeps (ent m r)) (remove1 s (mdList md t)) = map (\<lambda>r. meDeps (ent md r)) (remove1 s (mdList md t))"
  proof (rule map_cong[OF refl])
    fix r assume r: "r \<in> set (remove1 s (mdList md t))"
    then have r': "r \<in> set (mdList md t)" "r \<noteq> s" using d by auto
    obtain x where x: "map_of (mdHash md) r = Some x" using core_live[OF c r'(1)] by blast
    have "x \<noteq> p" using core_inj[OF c x, of s] p r'(2) by auto
    moreover have "x < length (mdHeap md)" using core_entry[OF c x] by (simp add: entry_ok_def)
    ultimately show "meDeps (ent m r) = meDeps (ent md r)" using x h(2,3) r'(2) by (simp add: ent_def)
  qed
  then have "waits t m = mset (concat (map (\<lambda>r. meDeps (ent md r)) (remove1 s (mdList md t))))"
    by (simp only: waits_def h(4))
  then show w: "waits t md = mset ?ds + waits t m"
    using concat_remove1[OF live, of "\<lambda>r. meDeps (ent md r)"] p by (simp add: waits_def ent_Some)
  have one: "count (mset ?ds) x = (if x \<in> set ?ds then 1 else 0)" for x
    using e by (auto simp: distinct_count_atmost_1 count_mset_0_iff)
  have cnt: "count (waits t m) x = count (waits t md) x - (if x \<in> set ?ds then 1 else 0)" for x
    using w one[of x] by simp
  have "entry_ok I t m r x" if x: "map_of (mdHash m) r = Some x" for r x
  proof -
    have r: "r \<noteq> s" "map_of (mdHash md) r = Some x" using x h(3) by (auto split: if_splits)
    note er = core_entry[OF c r(2), unfolded entry_ok_def]
    have "x \<noteq> p" using core_inj[OF c r(2), of s] p r(1) by auto
    then show ?thesis using er h(1,2) cnt by (auto simp: entry_ok_def)
  qed
  moreover have "count (waits t m) x \<le> meMemDeps (mdHeap m ! x)" if "x < length (mdHeap md)" for x
    using c that h(2) cnt by (auto simp: md_core_def)
  moreover have "meSquashed (mdHeap m ! x) \<or> map_of (mdHash m) (meInst (mdHeap m ! x)) = Some x"
    if x: "x \<in># waits t m" for x
  proof -
    have x': "x \<in># waits t md" using x w by simp
    then have "x < length (mdHeap md)" by (rule waits_bound[OF c])
    moreover have "meSquashed (mdHeap md ! x) \<or> map_of (mdHash md) (meInst (mdHeap md ! x)) = Some x"
      using c x' by (simp add: md_core_def)
    moreover have "x \<noteq> p" using out x' by auto
    ultimately show ?thesis using h(2,3) p by auto
  qed
  moreover have "sorted_wrt (<) (remove1 s (mdList md t))" "dom (map_of (mdHash m)) = set (remove1 s (mdList md t))"
    using c d h(3) by (auto simp: md_core_def strict_sorted_iff sorted_remove1)
  moreover have "\<forall>r \<in> set (remove1 s (mdList md t)). r \<le> b" using c d by (auto simp: md_core_def)
  ultimately show "md_core I t b m" using h(1,4) by (simp add: md_core_def)
qed

text \<open>What happens to the barriers at the end of a completion.\<close>

definition drop_bars :: "dyn_inst \<Rightarrow> mem_dep \<Rightarrow> mem_dep" where
  "drop_bars i m = m\<lparr>
     mdStoreBars := (if writes_bar i then remove1 (diSeq i) (mdStoreBars m) else mdStoreBars m),
     mdLoadBars := (if reads_bar i then remove1 (diSeq i) (mdLoadBars m) else mdLoadBars m)\<rparr>"

lemma md_completeInst_ok:
  assumes inv: "md_inv I t b md" and s: "diSeq i \<in> set (mdList md t)" "diTid i = t"
    and nb: "\<not> blocked t md (diSeq i)" and k: "describes I i"
    and rp: "(t, diSeq i) \<notin> set (mdReplay md)"
  shows "\<exists>md' out. md_completeInst i md = Inr (md', out) \<and> md_inv I t b md' \<and>
    mdList md' t = remove1 (diSeq i) (mdList md t) \<and> distinct out \<and>
    (\<forall>r. r \<in> set out \<longleftrightarrow> r \<in> set (mdList md' t) \<and> blocked t md r \<and> \<not> blocked t md' r \<and>
      meRegsReady (ent md r))"
proof -
  have c: "md_core I t b md" and bars: "md_bars I t md"
    and tr: "store_sets.tracks b (set (mdList md t)) {s. is_storing (I s)} (mdPred md)"
    and replay: "\<forall>(t', s) \<in> set (mdReplay md). t' = t \<and> s \<in> set (mdList md t)"
    using inv by (auto simp: md_inv_def)
  obtain p where p: "map_of (mdHash md) (diSeq i) = Some p" using core_live[OF c s(1)] by blast
  note e = core_entry[OF c p, unfolded entry_ok_def]
  let ?ds = "meDeps (mdHeap md ! p)"
  define m where "m = (upd_entry p (\<lambda>e. e\<lparr>meDeps := []\<rparr>) (dec_all ?ds md))\<lparr>
    mdList := (mdList md)(t := remove1 (diSeq i) (mdList md t)), mdHash := AList.delete (diSeq i) (mdHash md)\<rparr>"
  have f: "length (mdHeap m) = length (mdHeap md)" "mdHash m = AList.delete (diSeq i) (mdHash md)"
      "mdList m t = remove1 (diSeq i) (mdList md t)" "mdPred m = mdPred md" "mdReplay m = mdReplay md"
      "mdLoadBars m = mdLoadBars md" "mdStoreBars m = mdStoreBars md"
    by (simp_all add: m_def)
  have nth: "mdHeap m ! x = (mdHeap md ! x)\<lparr>
      meMemDeps := meMemDeps (mdHeap md ! x) - (if x \<in> set ?ds then 1 else 0),
      meDeps := (if x = p then [] else meDeps (mdHeap md ! x))\<rparr>" if x: "x < length (mdHeap md)" for x
  proof -
    let ?e = "mdHeap md ! x"
    have "mdHeap (dec_all ?ds md) ! x =
        ?e\<lparr>meMemDeps := meMemDeps ?e - (if x \<in> set ?ds then 1 else 0)\<rparr>"
      using x e by (simp add: dec_all_nth)
    moreover have "mdHeap m ! x = (if x = p then (mdHeap (dec_all ?ds md) ! x)\<lparr>meDeps := []\<rparr>
        else mdHeap (dec_all ?ds md) ! x)"
      using x by (simp add: m_def upd_entry_nth)
    ultimately show ?thesis by (cases ?e; cases "x = p") simp_all
  qed
  note core = core_complete[OF c p nb f(1) nth f(2,3)]
  let ?out = "map (\<lambda>w. meInst (mdHeap md ! w)) (filter (last_one md) ?ds)"
  let ?m = "drop_bars i m"
  have wake: "md_wakeDependents i md = Inr (upd_entry p (\<lambda>e. e\<lparr>meDeps := []\<rparr>) (dec_all ?ds md), ?out)"
    by (rule md_wakeDependents_ok[OF c p k])
  have fin: "md_completed i (upd_entry p (\<lambda>e. e\<lparr>meDeps := []\<rparr>) (dec_all ?ds md)) = Inr m"
    using p s(2) by (simp add: md_completed_def md_find_def m_def)
  have nonempty: "writes_bar i \<Longrightarrow> mdStoreBars md \<noteq> []" "reads_bar i \<Longrightarrow> mdLoadBars md \<noteq> []"
    using bars s(1) describes_kinds(1,2)[OF k] by (fastforce simp: md_bars_def)+
  have run: "md_completeInst i md = Inr (?m, ?out)"
    unfolding md_completeInst_def wake bindE_Inr prod.case fin
    using nonempty f(6,7) by (auto simp: drop_bars_def reads_bar_def writes_bar_def)
  have same: "mdHeap ?m = mdHeap m" "mdHash ?m = mdHash m" "mdList ?m = mdList m" by (simp_all add: drop_bars_def)
  have d: "distinct (mdList md t)" by (rule core_distinct[OF c])
  have "md_inv I t b ?m"
  proof -
    have "md_core I t b ?m" by (rule core_same_entries[OF core(1) same])
    moreover have "md_bars I t ?m"
      using bars f d describes_kinds(1,2)[OF k] by (auto simp: md_bars_def drop_bars_def)
    moreover have "store_sets.tracks b (set (mdList ?m t)) {s. is_storing (I s)} (mdPred ?m)"
      using store_sets.tracks_mono[OF tr, of b "set (mdList ?m t)"] f d by (auto simp: drop_bars_def)
    moreover have "\<forall>(t', s) \<in> set (mdReplay ?m). t' = t \<and> s \<in> set (mdList ?m t)"
      using replay rp f d by (auto simp: drop_bars_def)
    ultimately show ?thesis by (simp add: md_inv_def)
  qed
  moreover have "mdList ?m t = remove1 (diSeq i) (mdList md t)" using same f(3) by simp
  moreover have w: "waits t ?m = waits t m" by (rule waits_same_entries[OF same])
  have ptr: "w \<in># waits t md \<and> w \<noteq> p" if "w \<in> set ?ds" for w
  proof -
    have "w \<in># waits t md" using core(2) that by simp
    then show ?thesis using nb p by (auto simp: blocked_def)
  qed
  have home: "map_of (mdHash md) (meInst (mdHeap md ! w)) = Some w" if "w \<in> set ?ds" "last_one md w" for w
    using c ptr[OF that(1)] that(2) by (auto simp: md_core_def last_one_def)
  have "distinct ?out"
  proof -
    have "inj_on (\<lambda>w. meInst (mdHeap md ! w)) (set (filter (last_one md) ?ds))"
      using home by (auto simp: inj_on_def) (metis option.inject)
    then show ?thesis using e by (simp add: distinct_map)
  qed
  moreover have "r \<in> set ?out \<longleftrightarrow> r \<in> set (mdList ?m t) \<and> blocked t md r \<and> \<not> blocked t ?m r \<and>
      meRegsReady (ent md r)" for r
  proof
    assume "r \<in> set ?out"
    then obtain x where x: "x \<in> set ?ds" "last_one md x" "r = meInst (mdHeap md ! x)" by auto
    have hx: "map_of (mdHash md) r = Some x" using home[OF x(1,2)] x(3) by simp
    note ex = core_entry[OF c hx, unfolded entry_ok_def]
    have rs: "r \<noteq> diSeq i" using hx p ptr[OF x(1)] by auto
    have "r \<in> set (mdList ?m t)" using core_hash[OF c hx] rs d same f(3) by simp
    moreover have "blocked t md r" using hx ptr[OF x(1)] by (auto simp: blocked_def)
    moreover have "count (waits t m) x = 0"
    proof -
      have "count (waits t md) x = 1" using ex x(2) by (simp add: last_one_def)
      moreover have "0 < count (mset ?ds) x" using x(1) by (meson count_greater_zero_iff in_multiset_in_set)
      moreover have "count (waits t md) x = count (mset ?ds) x + count (waits t m) x"
        by (simp only: core(2) count_union)
      ultimately show ?thesis by linarith
    qed
    then have "\<not> blocked t ?m r" using hx rs same f(2) w by (auto simp: blocked_def count_eq_zero_iff)
    ultimately show "r \<in> set (mdList ?m t) \<and> blocked t md r \<and> \<not> blocked t ?m r \<and> meRegsReady (ent md r)"
      using hx x(2) by (simp add: ent_Some last_one_def)
  next
    assume r: "r \<in> set (mdList ?m t) \<and> blocked t md r \<and> \<not> blocked t ?m r \<and> meRegsReady (ent md r)"
    then obtain x where x: "map_of (mdHash md) r = Some x" "x \<in># waits t md" by (auto simp: blocked_def)
    note ex = core_entry[OF c x(1), unfolded entry_ok_def]
    have rs: "r \<noteq> diSeq i" using r same f(3) d by auto
    then have "x \<notin># waits t m" using r x(1) same f(2) w by (auto simp: blocked_def)
    then have xd: "x \<in> set ?ds" "count (waits t md) x = count (mset ?ds) x"
      using x(2) core(2) by (auto simp: count_eq_zero_iff)
    then have "count (waits t md) x = 1" using e by (simp add: distinct_count_atmost_1)
    then have "last_one md x" using ex r x(1) by (simp add: last_one_def ent_Some)
    then show "r \<in> set ?out" using xd(1) ex by force
  qed
  ultimately show ?thesis using run by blast
qed

section \<open>Squashing\<close>

definition mark_squashed :: "nat set \<Rightarrow> md_entry \<Rightarrow> nat \<Rightarrow> md_entry" where
  "mark_squashed ps e x = (if x \<in> ps then e\<lparr>meSquashed := True\<rparr> else e)"

lemma md_squash_loop_ok:
  assumes "sorted_wrt (>) rs" "distinct rs"
    and "\<forall>s \<in> set rs. sq < s \<longrightarrow> (\<exists>p. map_of (mdHash md) s = Some p)"
  shows "\<exists>md'. md_squash_loop sq t rs md = Inr md' \<and>
    mdList md' t = rev (filter (\<lambda>s. s \<le> sq) rs) \<and>
    (\<forall>s. map_of (mdHash md') s = (if s \<in> set rs \<and> sq < s then None else map_of (mdHash md) s)) \<and>
    length (mdHeap md') = length (mdHeap md) \<and>
    (\<forall>x < length (mdHeap md). mdHeap md' ! x =
       mark_squashed {x. \<exists>s \<in> set rs. sq < s \<and> map_of (mdHash md) s = Some x} (mdHeap md ! x) x) \<and>
    mdPred md' = mdPred md \<and> mdReplay md' = mdReplay md \<and>
    (distinct (mdLoadBars md) \<longrightarrow> distinct (mdLoadBars md') \<and>
       set (mdLoadBars md') = set (mdLoadBars md) - {s \<in> set rs. sq < s}) \<and>
    (distinct (mdStoreBars md) \<longrightarrow> distinct (mdStoreBars md') \<and>
       set (mdStoreBars md') = set (mdStoreBars md) - {s \<in> set rs. sq < s})"
  using assms
proof (induction rs arbitrary: md)
  case Nil
  then show ?case by (simp add: mark_squashed_def)
next
  case (Cons s rs)
  show ?case
  proof (cases "sq < s")
    case False
    then have old: "s \<le> sq" "\<forall>r \<in> set rs. r \<le> sq" using Cons.prems(1) by fastforce+
    then have "filter (\<lambda>s. s \<le> sq) rs = rs" by (simp add: filter_id_conv)
    moreover have "\<not> (\<exists>r \<in> set (s # rs). sq < r)" using old by auto
    ultimately show ?thesis using old by (auto simp: mark_squashed_def)
  next
    case True
    obtain p where p: "map_of (mdHash md) s = Some p" using Cons.prems(3) True by auto
    define m where "m = (upd_entry p (\<lambda>e. e\<lparr>meSquashed := True\<rparr>)
        (md\<lparr>mdLoadBars := remove1 s (mdLoadBars md), mdStoreBars := remove1 s (mdStoreBars md)\<rparr>))
        \<lparr>mdHash := AList.delete s (mdHash md)\<rparr>"
    have step: "md_squash_loop sq t (s # rs) md = md_squash_loop sq t rs m"
      using True p by (simp add: md_find_def Let_def m_def)
    have f: "mdList m = mdList md" "map_of (mdHash m) = (map_of (mdHash md))(s := None)"
        "length (mdHeap m) = length (mdHeap md)" "mdPred m = mdPred md" "mdReplay m = mdReplay md"
        "mdLoadBars m = remove1 s (mdLoadBars md)" "mdStoreBars m = remove1 s (mdStoreBars md)"
      by (simp_all add: m_def upd_entry_def)
    have nth: "mdHeap m ! x = mark_squashed {p} (mdHeap md ! x) x" if "x < length (mdHeap md)" for x
      using that by (auto simp: m_def upd_entry_def mark_squashed_def nth_list_update)
    have ns: "s \<notin> set rs" using Cons.prems(2) by simp
    have "\<forall>r \<in> set rs. sq < r \<longrightarrow> (\<exists>p. map_of (mdHash m) r = Some p)"
      using Cons.prems(3) ns f(2) by auto
    from Cons.IH[OF _ _ this] Cons.prems(1,2) obtain md' where md':
        "md_squash_loop sq t rs m = Inr md'"
        "mdList md' t = rev (filter (\<lambda>s. s \<le> sq) rs)"
        "\<And>r. map_of (mdHash md') r = (if r \<in> set rs \<and> sq < r then None else map_of (mdHash m) r)"
        "length (mdHeap md') = length (mdHeap m)"
        "\<And>x. x < length (mdHeap m) \<Longrightarrow> mdHeap md' ! x =
          mark_squashed {x. \<exists>r \<in> set rs. sq < r \<and> map_of (mdHash m) r = Some x} (mdHeap m ! x) x"
        "mdPred md' = mdPred m" "mdReplay md' = mdReplay m"
        "distinct (mdLoadBars m) \<Longrightarrow> distinct (mdLoadBars md') \<and>
           set (mdLoadBars md') = set (mdLoadBars m) - {r \<in> set rs. sq < r}"
        "distinct (mdStoreBars m) \<Longrightarrow> distinct (mdStoreBars md') \<and>
           set (mdStoreBars md') = set (mdStoreBars m) - {r \<in> set rs. sq < r}"
      by auto
    have "mdHeap md' ! x = mark_squashed
        {x. \<exists>r \<in> set (s # rs). sq < r \<and> map_of (mdHash md) r = Some x} (mdHeap md ! x) x"
      if "x < length (mdHeap md)" for x
      using md'(5)[of x] nth[OF that] that f(2,3) True p ns by (auto simp: mark_squashed_def)
    moreover have "map_of (mdHash md') r = (if r \<in> set (s # rs) \<and> sq < r then None else map_of (mdHash md) r)" for r
      using md'(3)[of r] f(2) True by auto
    moreover have "distinct (mdLoadBars md) \<Longrightarrow> distinct (mdLoadBars md') \<and>
        set (mdLoadBars md') = set (mdLoadBars md) - {r \<in> set (s # rs). sq < r}"
      using md'(8) f(6) True by auto
    moreover have "distinct (mdStoreBars md) \<Longrightarrow> distinct (mdStoreBars md') \<and>
        set (mdStoreBars md') = set (mdStoreBars md) - {r \<in> set (s # rs). sq < r}"
      using md'(9) f(7) True by auto
    ultimately show ?thesis unfolding step using md'(1,2,4,6,7) f True by simp
  qed
qed

lemma concat_filter:
  "mset (concat (map f xs)) =
     mset (concat (map f (filter P xs))) + mset (concat (map f (filter (\<lambda>x. \<not> P x) xs)))"
  by (induction xs) auto

lemma md_squash_ok:
  assumes inv: "md_inv I t b md"
  shows "\<exists>md'. md_squash sq t md = Inr md' \<and> md_inv I t b md' \<and>
    mdList md' t = filter (\<lambda>s. s \<le> sq) (mdList md t) \<and>
    (\<forall>s \<in> set (mdList md' t). blocked t md' s = blocked t md s \<and>
       meRegsReady (ent md' s) = meRegsReady (ent md s))"
proof -
  have c: "md_core I t b md" and bars: "md_bars I t md"
    and tr: "store_sets.tracks b (set (mdList md t)) {s. is_storing (I s)} (mdPred md)"
    and replay: "\<forall>(t', s) \<in> set (mdReplay md). t' = t \<and> s \<in> set (mdList md t)"
    using inv by (auto simp: md_inv_def)
  let ?L = "mdList md t"
  define n where "n = md\<lparr>mdReplay := filter (\<lambda>(t', sn). \<not> (t' = t \<and> sn > sq)) (mdReplay md)\<rparr>"
  have sorted: "sorted_wrt (<) ?L" using c by (simp add: md_core_def)
  have "sorted_wrt (>) (rev ?L)" "distinct (rev ?L)"
    using sorted core_distinct[OF c] by (simp_all add: sorted_wrt_rev)
  moreover have "\<forall>s \<in> set (rev ?L). sq < s \<longrightarrow> (\<exists>p. map_of (mdHash n) s = Some p)"
    using core_live[OF c] by (simp add: n_def)
  ultimately obtain m where m: "md_squash_loop sq t (rev ?L) n = Inr m"
      "mdList m t = rev (filter (\<lambda>s. s \<le> sq) (rev ?L))"
      "\<And>s. map_of (mdHash m) s = (if s \<in> set ?L \<and> sq < s then None else map_of (mdHash md) s)"
      "length (mdHeap m) = length (mdHeap md)"
      "\<And>x. x < length (mdHeap md) \<Longrightarrow> mdHeap m ! x =
         mark_squashed {x. \<exists>s \<in> set ?L. sq < s \<and> map_of (mdHash md) s = Some x} (mdHeap md ! x) x"
      "mdPred m = mdPred md" "mdReplay m = mdReplay n"
      "distinct (mdLoadBars md) \<longrightarrow> distinct (mdLoadBars m) \<and>
         set (mdLoadBars m) = set (mdLoadBars md) - {s \<in> set ?L. sq < s}"
      "distinct (mdStoreBars md) \<longrightarrow> distinct (mdStoreBars m) \<and>
         set (mdStoreBars m) = set (mdStoreBars md) - {s \<in> set ?L. sq < s}"
    using md_squash_loop_ok[of "rev ?L" sq n t] by (auto simp: n_def)
  obtain pred where pred: "ss_squash sq (mdPred md) = Some (Inr pred)"
      "store_sets.tracks b (set ?L) {s. is_storing (I s)} pred"
    using store_sets.tracks_cut[OF tr] by blast
  define d where "d = m\<lparr>mdPred := pred\<rparr>"
  have run: "md_squash sq t md = Inr d"
    using m(1,6) pred(1) by (simp add: md_squash_def Let_def n_def d_def)
  have L: "mdList d t = filter (\<lambda>s. s \<le> sq) ?L" using m(2) by (simp add: d_def rev_filter)
  have H: "map_of (mdHash d) s = (if s \<in> set ?L \<and> sq < s then None else map_of (mdHash md) s)" for s
    using m(3) by (simp add: d_def)
  have nth: "mdHeap d ! x = mark_squashed {x. \<exists>s \<in> set ?L. sq < s \<and> map_of (mdHash md) s = Some x}
      (mdHeap md ! x) x" if "x < length (mdHeap md)" for x
    using m(5)[OF that] by (simp add: d_def)
  have len: "length (mdHeap d) = length (mdHeap md)" using m(4) by (simp add: d_def)
  have same: "meInst (mdHeap d ! x) = meInst (mdHeap md ! x)" "meDeps (mdHeap d ! x) = meDeps (mdHeap md ! x)"
    "meMemDeps (mdHeap d ! x) = meMemDeps (mdHeap md ! x)"
    "meRegsReady (mdHeap d ! x) = meRegsReady (mdHeap md ! x)" if "x < length (mdHeap md)" for x
    using nth[OF that] by (simp_all add: mark_squashed_def)
  have old: "map_of (mdHash d) s = map_of (mdHash md) s" if "s \<le> sq" for s using H[of s] that by simp
  have e: "ent d s = mdHeap d ! the (map_of (mdHash md) s) \<and> the (map_of (mdHash md) s) < length (mdHeap md)"
    if s: "s \<in> set ?L" "s \<le> sq" for s
  proof -
    obtain p where p: "map_of (mdHash md) s = Some p" using core_live[OF c s(1)] by blast
    then have "p < length (mdHeap md)" using core_entry[OF c p] by (simp add: entry_ok_def)
    with p show ?thesis using old[OF s(2)] by (simp add: ent_def)
  qed
  let ?f = "\<lambda>s. meDeps (ent md s)"
  let ?Y = "filter (\<lambda>s. \<not> s \<le> sq) ?L"
  have "map (\<lambda>s. meDeps (ent d s)) (filter (\<lambda>s. s \<le> sq) ?L) = map ?f (filter (\<lambda>s. s \<le> sq) ?L)"
    using e same(2) by (auto simp: ent_def)
  then have wd: "waits t d = mset (concat (map ?f (filter (\<lambda>s. s \<le> sq) ?L)))"
    by (simp only: waits_def L)
  have split: "waits t md = waits t d + mset (concat (map ?f ?Y))"
    unfolding wd unfolding waits_def by (rule concat_filter)
  have young: "count (mset (concat (map ?f ?Y))) x = 0" if "map_of (mdHash md) r = Some x" "r \<le> sq" for r x
  proof -
    have "x \<notin> set (?f s)" if s: "s \<in> set ?L" "\<not> s \<le> sq" for s
    proof
      assume xs: "x \<in> set (?f s)"
      obtain p where p: "map_of (mdHash md) s = Some p" using core_live[OF c s(1)] by blast
      then have "s < meInst (mdHeap md ! x)"
        using core_entry[OF c p] xs by (auto simp: entry_ok_def ent_Some)
      moreover have "meInst (mdHeap md ! x) = r"
        using core_entry[OF c \<open>map_of (mdHash md) r = Some x\<close>] by (simp add: entry_ok_def)
      ultimately show False using s(2) \<open>r \<le> sq\<close> by simp
    qed
    then show ?thesis by (simp add: count_mset_0_iff)
  qed
  have cnt: "count (waits t d) x = count (waits t md) x" if "map_of (mdHash md) r = Some x" "r \<le> sq" for r x
    using split young[OF that] by simp
  have keep: "r \<in> set ?L \<and> r \<le> sq \<and> map_of (mdHash md) r = Some x" if "map_of (mdHash d) r = Some x" for r x
    using that H[of r] core_hash[OF c, of r x] by (auto split: if_splits)
  have "entry_ok I t d r x" if x: "map_of (mdHash d) r = Some x" for r x
  proof -
    have k: "r \<in> set ?L" "r \<le> sq" "map_of (mdHash md) r = Some x" using keep[OF x] by auto
    note ex = core_entry[OF c k(3), unfolded entry_ok_def]
    have "\<not> (\<exists>s \<in> set ?L. sq < s \<and> map_of (mdHash md) s = Some x)"
      using core_inj[OF c k(3)] k(2) by fastforce
    then have "mdHeap d ! x = mdHeap md ! x" using nth ex by (simp add: mark_squashed_def)
    then show ?thesis using ex cnt[OF k(3,2)] len same(1) by (auto simp: entry_ok_def)
  qed
  moreover have "count (waits t d) x \<le> meMemDeps (mdHeap d ! x)" if "x < length (mdHeap md)" for x
  proof -
    have "count (waits t d) x \<le> count (waits t md) x" by (simp add: split)
    also have "\<dots> \<le> meMemDeps (mdHeap md ! x)" using c that by (simp add: md_core_def)
    finally show ?thesis using same(3)[OF that] by simp
  qed
  moreover have "meSquashed (mdHeap d ! x) \<or> map_of (mdHash d) (meInst (mdHeap d ! x)) = Some x"
    if "x \<in># waits t d" for x
  proof -
    have x: "x \<in># waits t md" using that by (simp add: split)
    have xl: "x < length (mdHeap md)" by (rule waits_bound[OF c x])
    show ?thesis
    proof (cases "meSquashed (mdHeap md ! x)")
      case True
      then show ?thesis using nth[OF xl] by (simp add: mark_squashed_def)
    next
      case False
      let ?r = "meInst (mdHeap md ! x)"
      have r: "map_of (mdHash md) ?r = Some x" using c x False by (auto simp: md_core_def)
      then have "?r \<in> set ?L" by (rule core_hash[OF c])
      then show ?thesis using nth[OF xl] same(1)[OF xl] H[of ?r] r by (auto simp: mark_squashed_def)
    qed
  qed
  moreover have "dom (map_of (mdHash d)) = set (mdList d t)"
  proof -
    have "map_of (mdHash d) s \<noteq> None \<longleftrightarrow> s \<in> set ?L \<and> s \<le> sq" for s
      using H[of s] core_live[OF c, of s] core_hash[OF c, of s] by (auto split: if_splits)
    then show ?thesis using L by (auto simp: dom_def)
  qed
  ultimately have core: "md_core I t b d"
    using c L len sorted_wrt_filter[OF sorted] by (simp add: md_core_def)
  moreover have "md_bars I t d" using bars m(8,9) L by (auto simp: md_bars_def d_def)
  moreover have "store_sets.tracks b (set (mdList d t)) {s. is_storing (I s)} (mdPred d)"
    using store_sets.tracks_mono[OF pred(2), of b "set (mdList d t)"] L by (auto simp: d_def)
  moreover have "\<forall>(t', s) \<in> set (mdReplay d). t' = t \<and> s \<in> set (mdList d t)"
    using replay m(7) L by (auto simp: d_def n_def)
  ultimately have final: "md_inv I t b d" by (simp add: md_inv_def)
  have "blocked t d s = blocked t md s \<and> meRegsReady (ent d s) = meRegsReady (ent md s)"
    if s: "s \<in> set (mdList d t)" for s
  proof -
    have s': "s \<in> set ?L" "s \<le> sq" using s L by auto
    obtain x where x: "map_of (mdHash md) s = Some x" using core_live[OF c s'(1)] by blast
    have "blocked t d s \<longleftrightarrow> count (waits t d) x > 0" using old[OF s'(2)] x by (simp add: blocked_def)
    moreover have "blocked t md s \<longleftrightarrow> count (waits t md) x > 0" using x by (simp add: blocked_def)
    ultimately have "blocked t d s = blocked t md s" using cnt[OF x s'(2)] by simp
    then show ?thesis using e[OF s'] same(4) by (simp add: ent_def)
  qed
  then have "\<forall>s \<in> set (mdList d t). blocked t d s = blocked t md s \<and>
      meRegsReady (ent d s) = meRegsReady (ent md s)" by simp
  with final show ?thesis using run L by simp
qed

section \<open>The remaining operations\<close>

lemma md_replay_ok:
  assumes "md_inv I t b md"
  shows "md_replay md = Inr (md\<lparr>mdReplay := []\<rparr>, map snd (mdReplay md))" and
    "md_inv I t b (md\<lparr>mdReplay := []\<rparr>)"
proof -
  have c: "md_core I t b md" and rp: "\<forall>(t', s) \<in> set (mdReplay md). s \<in> set (mdList md t)"
    using assms by (auto simp: md_inv_def)
  have one: "md_find s m = Inr p \<and> moveToReady p m = Inr [s]"
    if "map_of (mdHash md) s = Some p" "mdHeap m = mdHeap md" "mdHash m = mdHash md" for s p m
    using core_entry[OF c that(1)] that by (simp add: md_find_def moveToReady_def entry_ok_def)
  have "foldE (\<lambda>(tid, sn) (md, out). bindE (md_find sn md) (\<lambda>p. bindE (moveToReady p md) (\<lambda>o'.
      Inr (md\<lparr>mdReplay := tl (mdReplay md)\<rparr>, out @ o')))) xs (md\<lparr>mdReplay := xs\<rparr>, out)
      = Inr (md\<lparr>mdReplay := []\<rparr>, out @ map snd xs)"
    if "\<forall>x \<in> set xs. snd x \<in> set (mdList md t)" for xs out
    using that
  proof (induction xs arbitrary: out)
    case (Cons x xs)
    obtain tid s where x: "x = (tid, s)" by (cases x)
    obtain p where "map_of (mdHash md) s = Some p" using core_live[OF c, of s] Cons.prems x by auto
    with one[OF this, of "md\<lparr>mdReplay := x # xs\<rparr>"] Cons x show ?case by simp
  qed simp
  from this[of "mdReplay md" "[]"] rp show "md_replay md = Inr (md\<lparr>mdReplay := []\<rparr>, map snd (mdReplay md))"
    by (fastforce simp: md_replay_def)
  show "md_inv I t b (md\<lparr>mdReplay := []\<rparr>)"
    using assms core_same_entries[OF c, of "md\<lparr>mdReplay := []\<rparr>"] by (simp add: md_inv_def md_bars_def)
qed

lemma md_pred_ok:
  assumes "md_inv I t b md" "store_sets.tracks b (set (mdList md t)) {s. is_storing (I s)} pred"
  shows "md_inv I t b (md\<lparr>mdPred := pred\<rparr>)"
  using assms core_same_entries[of I t b md "md\<lparr>mdPred := pred\<rparr>"] by (simp add: md_inv_def md_bars_def)

lemma md_reschedule_ok:
  "md_inv I t b md \<Longrightarrow> diSeq i \<in> set (mdList md t) \<Longrightarrow> diTid i = t \<Longrightarrow> md_inv I t b (md_reschedule i md)"
  using core_same_entries[of I t b md "md_reschedule i md"]
  by (auto simp: md_inv_def md_bars_def md_reschedule_def)

lemma md_init_ok:
  assumes "0 < n" "n < 2 ^ 31" "0 < l"
  shows "\<exists>md. md_init period n l = Inr md \<and> md_inv I t 0 md \<and> mdList md = (\<lambda>_. [])"
proof -
  obtain ss where "ss_init period n l no_store_set = Inr ss" "ss_wf ss" "ss_ordered ss" "ssStoreList ss = []"
      "\<forall>k < ssLFSTSize ss. ss_last ss k = None"
    using assms by (simp add: ss_init_def vecFill_all ss_wf_def ss_ordered_def no_store_set_def ss_last_def)
  moreover from this have "ss_known ss = {}" by (auto simp: ss_known_def)
  ultimately show ?thesis
    by (simp add: md_init_def md_inv_def md_core_def md_bars_def waits_def store_sets.tracks_def ss_inv_def)
qed

end
