(* ===== verification/MemDepProps.thy ===== *)
theory MemDepProps
  imports MemDepOps
begin

text \<open>
  The memory dependence unit as a state machine: the calls that the issue queue makes, in the
  order in which a pipeline can make them, and the properties of every run.
\<close>

section \<open>Runs of the unit\<close>

datatype md_op =
    OpInsert dyn_inst
  | OpInsertNonSpec dyn_inst
  | OpInsertBarrier dyn_inst
  | OpRegsReady dyn_inst
  | OpReschedule dyn_inst
  | OpReplay
  | OpComplete dyn_inst
  | OpSquash nat
  | OpViolation dyn_inst dyn_inst
  | OpIssue dyn_inst

text \<open>The call and the instructions that it hands to the ready list.\<close>

fun md_apply :: "nat \<Rightarrow> md_op \<Rightarrow> mem_dep \<Rightarrow> (mem_dep \<times> nat list) res" where
  "md_apply t (OpInsert i) md = bindE (md_insert i md) (\<lambda>(md, i, out). Inr (md, out))"
| "md_apply t (OpInsertNonSpec i) md = bindE (md_insertNonSpec i md) (\<lambda>md. Inr (md, []))"
| "md_apply t (OpInsertBarrier i) md = Inr (md_insertBarrier i md, [])"
| "md_apply t (OpRegsReady i) md = md_regsReady i md"
| "md_apply t (OpReschedule i) md = Inr (md_reschedule i md, [])"
| "md_apply t OpReplay md = md_replay md"
| "md_apply t (OpComplete i) md = md_completeInst i md"
| "md_apply t (OpSquash sq) md = bindE (md_squash sq t md) (\<lambda>md. Inr (md, []))"
| "md_apply t (OpViolation st ld) md = bindE (md_violation st ld md) (\<lambda>md. Inr (md, []))"
| "md_apply t (OpIssue i) md = bindE (md_issue i md) (\<lambda>md. Inr (md, []))"

text \<open>
  When the issue queue makes the call: instructions of the thread are inserted in program order,
  and only an instruction in flight becomes ready, is rescheduled or completes; it completes
  after it has issued, hence waits for nothing and is not about to be replayed.
\<close>

fun md_allowed :: "(nat \<Rightarrow> dyn_inst) \<Rightarrow> nat \<Rightarrow> nat \<Rightarrow> mem_dep \<Rightarrow> md_op \<Rightarrow> bool" where
  "md_allowed I t b md (OpInsert i) \<longleftrightarrow> b < diSeq i \<and> diTid i = t \<and> describes I i \<and> mem_kind i"
| "md_allowed I t b md (OpInsertNonSpec i) \<longleftrightarrow> b < diSeq i \<and> diTid i = t \<and> describes I i \<and> mem_kind i"
| "md_allowed I t b md (OpInsertBarrier i) \<longleftrightarrow> b < diSeq i \<and> diTid i = t \<and> describes I i"
| "md_allowed I t b md (OpRegsReady i) \<longleftrightarrow> diSeq i \<in> set (mdList md t)"
| "md_allowed I t b md (OpReschedule i) \<longleftrightarrow> diSeq i \<in> set (mdList md t) \<and> diTid i = t"
| "md_allowed I t b md OpReplay \<longleftrightarrow> True"
| "md_allowed I t b md (OpComplete i) \<longleftrightarrow> diSeq i \<in> set (mdList md t) \<and> diTid i = t \<and> describes I i \<and>
     \<not> blocked t md (diSeq i) \<and> (t, diSeq i) \<notin> set (mdReplay md)"
| "md_allowed I t b md (OpSquash sq) \<longleftrightarrow> True"
| "md_allowed I t b md (OpViolation st ld) \<longleftrightarrow> True"
| "md_allowed I t b md (OpIssue i) \<longleftrightarrow> True"

fun md_youngest :: "nat \<Rightarrow> md_op \<Rightarrow> nat" where
  "md_youngest b (OpInsert i) = diSeq i"
| "md_youngest b (OpInsertNonSpec i) = diSeq i"
| "md_youngest b (OpInsertBarrier i) = diSeq i"
| "md_youngest b _ = b"

inductive md_reach :: "(nat \<Rightarrow> dyn_inst) \<Rightarrow> nat \<Rightarrow> nat \<Rightarrow> mem_dep \<Rightarrow> bool" for I t where
  start: "0 < n \<Longrightarrow> n < 2 ^ 31 \<Longrightarrow> 0 < l \<Longrightarrow> md_init period n l = Inr md \<Longrightarrow> md_reach I t 0 md"
| step: "md_reach I t b md \<Longrightarrow> md_allowed I t b md op \<Longrightarrow> md_apply t op md = Inr (md', out) \<Longrightarrow>
    md_reach I t (md_youngest b op) md'"

text \<open>The effect of a call on a state of the invariant.\<close>

definition waiting_op :: "md_op \<Rightarrow> bool" where
  "waiting_op op \<longleftrightarrow> (case op of OpInsert _ \<Rightarrow> True | OpRegsReady _ \<Rightarrow> True | OpComplete _ \<Rightarrow> True | _ \<Rightarrow> False)"

lemma md_apply_ok:
  assumes inv: "md_inv I t b md" and ok: "md_allowed I t b md op"
  shows "\<exists>md' out. md_apply t op md = Inr (md', out) \<and> md_inv I t (md_youngest b op) md' \<and>
    (waiting_op op \<longrightarrow> (\<forall>s \<in> set out. s \<in> set (mdList md' t) \<and> \<not> blocked t md' s))"
proof -
  have tr: "store_sets.tracks b (set (mdList md t)) {s. is_storing (I s)} (mdPred md)"
    using inv by (simp add: md_inv_def)
  show ?thesis
  proof (cases op)
    case (OpInsert i)
    then obtain md' i' out where r: "md_insert i md = Inr (md', i', out)" "md_inv I t (diSeq i) md'"
        "mdList md' t = mdList md t @ [diSeq i]"
        "out = (if has_status CanIssue i \<and> \<not> blocked t md' (diSeq i) then [diSeq i] else [])"
      using md_insert_ok[OF inv, of i] ok by auto
    then show ?thesis using OpInsert by (auto split: if_splits)
  next
    case (OpInsertNonSpec i)
    then show ?thesis using md_insertNonSpec_ok[OF inv, of i] ok by (auto simp: waiting_op_def)
  next
    case (OpInsertBarrier i)
    then show ?thesis using md_insertBarrier_ok[OF inv, of i] ok by (auto simp: waiting_op_def)
  next
    case (OpRegsReady i)
    then obtain md' out where "md_regsReady i md = Inr (md', out)" "md_inv I t b md'"
        "mdList md' = mdList md" "out = (if blocked t md (diSeq i) then [] else [diSeq i])"
        "\<forall>s. blocked t md' s = blocked t md s"
      using md_regsReady_ok[OF inv, of i] ok by auto
    then show ?thesis using OpRegsReady ok by (auto split: if_splits)
  next
    case (OpReschedule i)
    then show ?thesis using md_reschedule_ok[OF inv, of i] ok by (auto simp: waiting_op_def)
  next
    case OpReplay
    then show ?thesis using md_replay_ok[OF inv] by (auto simp: waiting_op_def)
  next
    case (OpComplete i)
    then show ?thesis using md_completeInst_ok[OF inv, of i] ok by auto
  next
    case (OpSquash sq)
    then show ?thesis using md_squash_ok[OF inv, of sq] by (auto simp: waiting_op_def)
  next
    case (OpViolation st ld)
    then show ?thesis using store_sets.tracks_learn[OF tr, of "instAddr st" "instAddr ld"] md_pred_ok[OF inv]
      by (auto simp: waiting_op_def md_violation_def)
  next
    case (OpIssue i)
    then show ?thesis using store_sets.tracks_issue[OF tr, of "instAddr i" "diSeq i" "has_prop IsStore i"]
        md_pred_ok[OF inv] by (auto simp: waiting_op_def md_issue_def)
  qed
qed

lemma md_reach_inv: "md_reach I t b md \<Longrightarrow> md_inv I t b md"
proof (induction rule: md_reach.induct)
  case (start n l period md)
  then show ?case using md_init_ok[of n l period I t] by auto
next
  case (step b md op md' out)
  then show ?case using md_apply_ok[of I t b md op] by auto
qed

section \<open>A run with a fence\<close>

definition ex_inst :: "nat \<Rightarrow> static_prop set \<Rightarrow> inst_status set \<Rightarrow> dyn_inst" where
  "ex_inst sn props st = \<lparr>diSeq = sn, diTid = 0, diPC = (4 * sn, 0), diProps = props, diStatus = st,
     diFlags = {}, diSrcs = [], diDests = [], diReadyRegs = 0, diReadySrc = [], diSavedReq = None,
     diFault = None, diFlatDests = [], diFirstIssue = 0\<rparr>"

definition ex_fence :: dyn_inst where "ex_fence = ex_inst 1 {IsReadBarrier} {}"

definition ex_ld :: dyn_inst where "ex_ld = ex_inst 2 {IsLoad, IsMemRef} {CanIssue}"

definition ex_table :: "nat \<Rightarrow> dyn_inst" where
  "ex_table s = (if s = 1 then ex_fence else ex_ld)"

lemma ex_describes: "describes ex_table ex_fence" "describes ex_table ex_ld"
  by (simp_all add: describes_def ex_table_def ex_fence_def ex_ld_def ex_inst_def)

lemma ex_after_fence:
  "\<exists>md. md_reach ex_table 0 1 md \<and> mdLoadBars md = [1] \<and> mdList md 0 = [1] \<and>
     md_allowed ex_table 0 1 md (OpInsert ex_ld)"
proof -
  obtain md where md: "md_init 100 4 4 = Inr md" using md_init_ok[of 4 4 100] by auto
  have f: "mdLoadBars md = []" "mdList md = (\<lambda>_. [])"
    using md by (auto simp: md_init_def bindE_ok)
  let ?m = "md_insertBarrier ex_fence md"
  have "md_reach ex_table 0 0 md" by (rule md_reach.start[OF _ _ _ md]) simp_all
  moreover have "md_allowed ex_table 0 0 md (OpInsertBarrier ex_fence)"
    using ex_describes(1) by (simp add: ex_fence_def ex_inst_def)
  ultimately have "md_reach ex_table 0 (md_youngest 0 (OpInsertBarrier ex_fence)) ?m"
    by (rule md_reach.step) simp
  then have r: "md_reach ex_table 0 1 ?m" by (simp add: ex_fence_def ex_inst_def)
  have "mdList ?m 0 = [1]" "mdLoadBars ?m = [1]"
    using f by (simp_all add: md_insertBarrier_def insertBarrierSN_bars md_alloc_def Let_def bar_insert_def
        reads_bar_def has_prop_def ex_fence_def ex_inst_def)
  moreover have "md_allowed ex_table 0 1 ?m (OpInsert ex_ld)"
    using ex_describes(2) by (simp add: mem_kind_def has_prop_def ex_ld_def ex_inst_def)
  ultimately show ?thesis using r by blast
qed

section \<open>Properties\<close>

text \<open>
  C13: In every state that the unit reaches, every call that the issue queue makes succeeds: no
  assertion of the unit fails, none of its containers is read out of range and the squash of the
  predictor returns.  And no instruction is handed to the ready list by an insertion, by its
  registers becoming ready or by a completion while a store or barrier in flight lists it.
\<close>

theorem memory_instructions_wait_for_their_producers:
  assumes "md_reach I t b md" "md_allowed I t b md op"
  shows "\<exists>md' out. md_apply t op md = Inr (md', out) \<and> md_reach I t (md_youngest b op) md' \<and>
    (waiting_op op \<longrightarrow> (\<forall>s \<in> set out. s \<in> set (mdList md' t) \<and> \<not> blocked t md' s))"
  using md_apply_ok[OF md_reach_inv[OF assms(1)] assms(2)] md_reach.step[OF assms] by blast

theorem memory_instructions_wait_for_their_producers_witness:
  "\<exists>md md' out. md_reach ex_table 0 1 md \<and> md_apply 0 (OpInsert ex_ld) md = Inr (md', out) \<and>
     (\<forall>s \<in> set out. \<not> blocked 0 md' s)"
proof -
  obtain md where md: "md_reach ex_table 0 1 md" "md_allowed ex_table 0 1 md (OpInsert ex_ld)"
    using ex_after_fence by blast
  from memory_instructions_wait_for_their_producers[OF this] md(1) show ?thesis
    by (auto simp: waiting_op_def)
qed

text \<open>
  C38: An instruction that is inserted waits exactly when one of its producing stores or barriers
  is still in flight, and the completion of an instruction hands over, once each, exactly the
  instructions whose registers are ready and that waited for it alone.
\<close>

theorem completion_wakes_what_waited_for_it_alone:
  assumes "md_reach I t b md"
  shows "(md_allowed I t b md (OpInsert i) \<longrightarrow> (\<exists>md' i' out. md_insert i md = Inr (md', i', out) \<and>
      (blocked t md' (diSeq i) \<longleftrightarrow>
         (\<exists>stores r. producing_stores i md = Inr stores \<and> r \<in> set stores \<and> r \<in> set (mdList md t))))) \<and>
    (md_allowed I t b md (OpComplete i) \<longrightarrow> (\<exists>md' out. md_completeInst i md = Inr (md', out) \<and>
      distinct out \<and> (\<forall>r. r \<in> set out \<longleftrightarrow> r \<in> set (mdList md' t) \<and> meRegsReady (ent md r) \<and>
        blocked t md r \<and> \<not> blocked t md' r)))"
  using md_insert_ok[OF md_reach_inv[OF assms], of i] md_completeInst_ok[OF md_reach_inv[OF assms], of i]
  by (intro conjI impI) (simp, blast)+

theorem completion_wakes_what_waited_for_it_alone_witness:
  "\<exists>md md' i' out. md_reach ex_table 0 1 md \<and> md_insert ex_ld md = Inr (md', i', out) \<and> blocked 0 md' 2"
proof -
  obtain md where md: "md_reach ex_table 0 1 md" "mdLoadBars md = [1]" "mdList md 0 = [1]"
      "md_allowed ex_table 0 1 md (OpInsert ex_ld)"
    using ex_after_fence by blast
  have "producing_stores ex_ld md = Inr [1]"
    using md(2) by (simp add: producing_stores_def has_prop_def ex_ld_def ex_inst_def)
  moreover have "diSeq ex_ld = 2" by (simp add: ex_ld_def ex_inst_def)
  ultimately show ?thesis
    using completion_wakes_what_waited_for_it_alone[OF md(1), of ex_ld] md by auto
qed

end
