(* ===== verification/FUPool.thy ===== *)
theory FUPool
  imports Prelude
begin

text \<open>
  The pool of functional units (\<open>fu_pool.hh\<close>, \<open>fu_pool.cc\<close>): for every operation class a circular
  queue of the units that can execute it, one busy bit per unit, and the units to be freed at
  the end of the cycle.  An operation class is a number below \<open>Num_OpClasses\<close> (the argument
  \<open>nOps\<close> of the constructor), a unit its index.  A description in the configuration is the
  number of copies of a unit and its operations, each with class, latency and whether it is
  pipelined.  The \<open>FuncUnit\<close> objects of gem5, which only \<open>dump\<close> and the destructor use, are left
  out.
\<close>

section \<open>State and operations\<close>

record fu_queue =
  fqIdx :: nat
  fqSize :: nat
  fqUnits :: "nat list"

type_synonym op_desc = "nat \<times> nat \<times> bool"
type_synonym fu_desc = "nat \<times> op_desc list"

record fu_pool =
  fpMaxLat :: "nat list"
  fpPipelined :: "bool list"
  fpCaps :: "bool list"
  fpBusy :: "bool list"
  fpToFree :: "nat list"
  fpQueues :: "fu_queue list"
  fpNum :: nat

text \<open>\<open>FUIdxQueue\<close>.\<close>

definition addFU :: "nat \<Rightarrow> fu_queue \<Rightarrow> fu_queue" where
  "addFU u q = q\<lparr>fqUnits := fqUnits q @ [u], fqSize := fqSize q + 1\<rparr>"

definition getFU :: "fu_queue \<Rightarrow> (nat \<times> fu_queue) res" where
  "getFU q = bindE (vecGet (fqUnits q) (fqIdx q)) (\<lambda>u.
     let i = fqIdx q + 1 in Inr (u, q\<lparr>fqIdx := if i = fqSize q then 0 else i\<rparr>))"

text \<open>The constructor: one step per operation of a description and one per description.\<close>

definition fu_add_op :: "nat \<Rightarrow> op_desc \<Rightarrow> fu_pool \<Rightarrow> fu_pool res" where
  "fu_add_op number = (\<lambda>(c, lat, pip) p.
     bindE (vecSet (fpCaps p) c True) (\<lambda>caps.
     bindE (vecGet (fpQueues p) c) (\<lambda>q.
     bindE (vecSet (fpQueues p) c (fold (\<lambda>k. addFU (fpNum p + k)) [0..<number] q)) (\<lambda>qs.
     bindE (vecGet (fpMaxLat p) c) (\<lambda>old.
     bindE (vecSet (fpMaxLat p) c (if lat > old then lat else old)) (\<lambda>lats.
     bindE (if pip then Inr (fpPipelined p) else vecSet (fpPipelined p) c False) (\<lambda>pips.
       Inr (p\<lparr>fpCaps := caps, fpQueues := qs, fpMaxLat := lats, fpPipelined := pips\<rparr>))))))))"

definition fu_add_desc :: "fu_desc \<Rightarrow> fu_pool \<Rightarrow> fu_pool res" where
  "fu_add_desc = (\<lambda>(number, ops) p.
     if number = 0 then Inr p
     else bindE (foldE (fu_add_op number) ops p) (\<lambda>p. Inr (p\<lparr>fpNum := fpNum p + number\<rparr>)))"

definition new_FUPool :: "nat \<Rightarrow> fu_desc list \<Rightarrow> fu_pool res" where
  "new_FUPool nOps descs =
     bindE (foldE fu_add_desc descs
        \<lparr>fpMaxLat = replicate nOps 0, fpPipelined = replicate nOps True,
         fpCaps = replicate nOps False, fpBusy = [], fpToFree = [],
         fpQueues = replicate nOps \<lparr>fqIdx = 0, fqSize = 0, fqUnits = []\<rparr>, fpNum = 0\<rparr>) (\<lambda>p.
       Inr (p\<lparr>fpBusy := replicate (fpNum p) False\<rparr>))"

text \<open>
  \<open>getUnit\<close>.  \<open>fu_scan\<close> is its loop; \<open>None\<close> says that the loop does not end.  The results are the
  constants \<open>NoCapableFU\<close> (-2) and \<open>NoFreeFU\<close> (-1) or the index of the unit.
\<close>

partial_function (option) fu_scan ::
  "bool list \<Rightarrow> nat \<Rightarrow> nat \<Rightarrow> fu_queue \<Rightarrow> (nat option \<times> fu_queue) res option"
where
  "fu_scan busy start u q =
     (case vecGet busy u of
        Inl e \<Rightarrow> Some (Inl e)
      | Inr b \<Rightarrow>
          if \<not> b then Some (Inr (Some u, q))
          else case getFU q of
            Inl e \<Rightarrow> Some (Inl e)
          | Inr r \<Rightarrow>
              if fst r = start then Some (Inr (None, snd r))
              else fu_scan busy start (fst r) (snd r))"

definition getUnit :: "nat \<Rightarrow> fu_pool \<Rightarrow> (int \<times> fu_pool) res" where
  "getUnit c p =
     bindE (vecGet (fpCaps p) c) (\<lambda>capable.
       if \<not> capable then Inr (-2, p)
       else
         bindE (vecGet (fpQueues p) c) (\<lambda>q.
         bindE (getFU q) (\<lambda>(start, q).
         bindE (case fu_scan (fpBusy p) start start q of None \<Rightarrow> Inl NoReturn | Some r \<Rightarrow> r) (\<lambda>(r, q).
           let p = p\<lparr>fpQueues := (fpQueues p)[c := q]\<rparr> in
           case r of
             None \<Rightarrow> Inr (-1, p)
           | Some u \<Rightarrow>
               bindE (assertE (u < fpNum p)) (\<lambda>_.
               bindE (vecSet (fpBusy p) u True) (\<lambda>busy.
                 Inr (int u, p\<lparr>fpBusy := busy\<rparr>)))))))"

text \<open>\<open>freeUnitNextCycle\<close>, \<open>processFreeUnits\<close>, \<open>getOpLatency\<close>, \<open>isPipelined\<close> and \<open>isDrained\<close>.\<close>

definition freeUnitNextCycle :: "nat \<Rightarrow> fu_pool \<Rightarrow> fu_pool res" where
  "freeUnitNextCycle u p =
     bindE (vecGet (fpBusy p) u) (\<lambda>b.
     bindE (assertE b) (\<lambda>_. Inr (p\<lparr>fpToFree := fpToFree p @ [u]\<rparr>)))"

definition free_unit :: "nat \<Rightarrow> fu_pool \<Rightarrow> fu_pool res" where
  "free_unit u p =
     bindE (vecGet (fpBusy p) u) (\<lambda>b.
     bindE (assertE b) (\<lambda>_.
     bindE (vecSet (fpBusy p) u False) (\<lambda>busy.
       Inr (p\<lparr>fpToFree := butlast (fpToFree p), fpBusy := busy\<rparr>))))"

definition processFreeUnits :: "fu_pool \<Rightarrow> fu_pool res" where
  "processFreeUnits p = foldE free_unit (rev (fpToFree p)) p"

definition fu_getOpLatency :: "nat \<Rightarrow> fu_pool \<Rightarrow> nat res" where
  "fu_getOpLatency c p = vecGet (fpMaxLat p) c"

definition fu_isPipelined :: "nat \<Rightarrow> fu_pool \<Rightarrow> bool res" where
  "fu_isPipelined c p = vecGet (fpPipelined p) c"

definition fu_isDrained :: "fu_pool \<Rightarrow> bool res" where
  "fu_isDrained p = foldE (\<lambda>i d. bindE (vecGet (fpBusy p) i) (\<lambda>b. Inr (d \<and> \<not> b))) [0..<fpNum p] True"

section \<open>The circular queue\<close>

text \<open>
  A queue that holds units stands for the list of its units from the next one on; \<open>getFU\<close> takes
  the head of that list and puts it at the end.
\<close>

definition fq_wf :: "fu_queue \<Rightarrow> bool" where
  "fq_wf q \<longleftrightarrow> fqSize q = length (fqUnits q) \<and> fqIdx q < fqSize q \<and> distinct (fqUnits q)"

definition fq_ring :: "fu_queue \<Rightarrow> nat list" where
  "fq_ring q = rotate (fqIdx q) (fqUnits q)"

lemma ring_frame [simp]:
  "fq_wf q \<Longrightarrow> distinct (fq_ring q)" "set (fq_ring q) = set (fqUnits q)"
  "length (fq_ring q) = length (fqUnits q)"
  by (simp_all add: fq_wf_def fq_ring_def)

lemma ring_Cons: "fq_wf q \<Longrightarrow> \<exists>u us. fq_ring q = u # us"
proof -
  assume "fq_wf q"
  then have "length (fq_ring q) \<noteq> 0" by (auto simp: fq_wf_def fq_ring_def)
  then show ?thesis by (cases "fq_ring q") auto
qed

lemma getFU_ring:
  assumes "fq_wf q" "fq_ring q = u # us"
  shows "\<exists>q'. getFU q = Inr (u, q') \<and> fq_wf q' \<and> fq_ring q' = us @ [u] \<and> fqUnits q' = fqUnits q"
proof -
  let ?n = "length (fqUnits q)"
  have i: "fqIdx q < ?n" "fqSize q = ?n" using assms(1) by (auto simp: fq_wf_def)
  have "fqUnits q ! fqIdx q = fq_ring q ! 0" 
  proof -
    have "0 < length (fqUnits q)" using i(1) by linarith
    from nth_rotate[OF this, of "fqIdx q"] i show ?thesis by (simp add: fq_ring_def)
  qed
  then have u: "fqUnits q ! fqIdx q = u" by (simp add: assms(2))
  let ?q = "q\<lparr>fqIdx := if fqIdx q + 1 = fqSize q then 0 else fqIdx q + 1\<rparr>"
  have "getFU q = Inr (u, ?q)" using i(1) u by (simp add: getFU_def Let_def)
  moreover have "fq_wf ?q" using assms(1) i by (auto simp: fq_wf_def)
  moreover have "fq_ring ?q = rotate1 (fq_ring q)"
  proof (cases "fqIdx q + 1 = ?n")
    case True
    then have "rotate (Suc (fqIdx q)) (fqUnits q) = fqUnits q" by simp
    then have "rotate1 (fq_ring q) = fqUnits q" by (simp add: fq_ring_def)
    moreover have "fq_ring ?q = fqUnits q" using True i(2) by (simp add: fq_ring_def)
    ultimately show ?thesis by simp
  next
    case False
    then show ?thesis using i(2) by (simp add: fq_ring_def)
  qed
  ultimately show ?thesis using assms(2) by simp
qed

text \<open>
  The scan: \<open>ys\<close> are the units that were found busy, \<open>u\<close> is the one that is looked at and \<open>zs\<close>
  are those that follow it.
\<close>

lemma fu_scan_ring:
  assumes "fq_wf q" "fq_ring q = zs @ ys @ [u]" "hd (ys @ [u]) = start"
    and "\<forall>v \<in> set (zs @ ys @ [u]). v < length busy" "\<forall>v \<in> set ys. busy ! v"
  shows "\<exists>r q'. fu_scan busy start u q = Some (Inr (r, q')) \<and> fq_wf q' \<and> fqUnits q' = fqUnits q \<and>
    r = find (\<lambda>v. \<not> busy ! v) (u # zs) \<and>
    (r = None \<longrightarrow> fq_ring q' = rotate1 (ys @ u # zs)) \<and> (\<forall>v. r = Some v \<longrightarrow> last (fq_ring q') = v)"
  using assms
proof (induction zs arbitrary: ys u q)
  case Nil
  obtain r where r: "getFU q = Inr (start, r)" "fq_wf r" "fq_ring r = tl (ys @ [u]) @ [start]"
      "fqUnits r = fqUnits q"
    using getFU_ring[OF Nil.prems(1), of start "tl (ys @ [u])"] Nil.prems(2,3) by (cases ys) auto
  have "rotate1 (ys @ [u]) = tl (ys @ [u]) @ [start]" using Nil.prems(3) by (cases ys) auto
  with r Nil.prems show ?case by (subst fu_scan.simps) simp
next
  case (Cons v zs)
  show ?case
  proof (cases "busy ! u")
    case False
    then show ?thesis using Cons.prems by (subst fu_scan.simps) simp
  next
    case True
    obtain r where r: "getFU q = Inr (v, r)" "fq_wf r" "fq_ring r = zs @ (ys @ [u]) @ [v]"
        "fqUnits r = fqUnits q"
      using getFU_ring[OF Cons.prems(1), of v "zs @ ys @ [u]"] Cons.prems(2) by auto
    have "distinct (v # zs @ ys @ [u])" using Cons.prems(1,2) ring_frame(1)[of q] by simp
    then have "v \<noteq> start" using Cons.prems(3) by (cases ys) auto
    then have "fu_scan busy start u q = fu_scan busy start v r"
      using True Cons.prems(4) r(1) by (subst fu_scan.simps) simp
    moreover have "hd ((ys @ [u]) @ [v]) = start" using Cons.prems(3) by (cases ys) auto
    ultimately show ?thesis using Cons.IH[of r "ys @ [u]" v] r Cons.prems(4,5) True by auto
  qed
qed

section \<open>The pool\<close>

text \<open>
  Every unit of a queue exists, a class is offered exactly when its queue has a unit, and the
  units waiting to be freed are busy, each of them once.
\<close>

definition fp_wf :: "fu_pool \<Rightarrow> bool" where
  "fp_wf p \<longleftrightarrow>
     length (fpQueues p) = length (fpCaps p) \<and> length (fpMaxLat p) = length (fpCaps p) \<and>
     length (fpPipelined p) = length (fpCaps p) \<and> length (fpBusy p) = fpNum p \<and>
     (\<forall>c < length (fpCaps p). fpCaps p ! c \<longrightarrow> fq_wf (fpQueues p ! c)) \<and>
     (\<forall>c < length (fpCaps p). \<forall>u \<in> set (fqUnits (fpQueues p ! c)). u < fpNum p) \<and>
     distinct (fpToFree p) \<and> (\<forall>u \<in> set (fpToFree p). u < fpNum p \<and> fpBusy p ! u)"

text \<open>What \<open>getUnit\<close> answers: the first free unit in the order of the ring.\<close>

definition first_free :: "nat \<Rightarrow> fu_pool \<Rightarrow> nat option" where
  "first_free c p = find (\<lambda>u. \<not> fpBusy p ! u) (fq_ring (fpQueues p ! c))"

lemma find_SomeD: "find P xs = Some v \<Longrightarrow> v \<in> set xs \<and> P v"
  by (auto simp: find_Some_iff)

lemma getUnit_ring:
  assumes wf: "fp_wf p" and c: "c < length (fpCaps p)" "fpCaps p ! c"
  shows "\<exists>q. fq_wf q \<and> fqUnits q = fqUnits (fpQueues p ! c) \<and>
    (case first_free c p of
       None \<Rightarrow> getUnit c p = Inr (-1, p\<lparr>fpQueues := (fpQueues p)[c := q]\<rparr>) \<and>
               fq_ring q = rotate1 (fq_ring (fpQueues p ! c))
     | Some u \<Rightarrow> getUnit c p = Inr (int u, p\<lparr>fpQueues := (fpQueues p)[c := q],
                   fpBusy := (fpBusy p)[u := True]\<rparr>) \<and> last (fq_ring q) = u)"
proof -
  let ?q = "fpQueues p ! c"
  have len: "c < length (fpQueues p)" "length (fpBusy p) = fpNum p" using wf c by (auto simp: fp_wf_def)
  have q: "fq_wf ?q" "\<forall>u \<in> set (fqUnits ?q). u < fpNum p" using wf c by (auto simp: fp_wf_def)
  obtain u us where ring: "fq_ring ?q = u # us" using ring_Cons[OF q(1)] by blast
  obtain r where r: "getFU ?q = Inr (u, r)" "fq_wf r" "fq_ring r = us @ [u]" "fqUnits r = fqUnits ?q"
    using getFU_ring[OF q(1) ring] by blast
  have small: "\<forall>v \<in> set (us @ [] @ [u]). v < length (fpBusy p)"
    using q(2) len(2) ring_frame(2)[of ?q] ring by auto
  obtain x q' where s: "fu_scan (fpBusy p) u u r = Some (Inr (x, q'))" "fq_wf q'" "fqUnits q' = fqUnits r"
      "x = first_free c p" "x = None \<Longrightarrow> fq_ring q' = rotate1 (u # us)"
      "\<And>v. x = Some v \<Longrightarrow> last (fq_ring q') = v"
    using fu_scan_ring[OF r(2), of us "[]" u u "fpBusy p"] r(3) small ring by (auto simp: first_free_def)
  show ?thesis
  proof (cases x)
    case None
    then show ?thesis using s r(1,4) len c ring by (intro exI[of _ q']) (simp add: getUnit_def Let_def)
  next
    case (Some v)
    have "v \<in> set (u # us)" using s(4) Some ring find_SomeD[of _ "u # us" v] by (metis first_free_def)
    then have "v < fpNum p" using small len(2) by auto
    then show ?thesis using Some s r(1,4) len c by (intro exI[of _ q']) (simp add: getUnit_def Let_def)
  qed
qed

text \<open>The constructor builds a well-formed pool with every unit free.\<close>

lemma fold_addFU:
  "fold (\<lambda>k. addFU (b + k)) ks q =
     q\<lparr>fqUnits := fqUnits q @ map ((+) b) ks, fqSize := fqSize q + length ks\<rparr>"
  by (induction ks arbitrary: q) (simp_all add: addFU_def)

text \<open>The queues while a description is processed: classes in \<open>todo\<close> have only earlier units.\<close>

definition building :: "nat \<Rightarrow> nat set \<Rightarrow> nat \<Rightarrow> fu_pool \<Rightarrow> bool" where
  "building nOps todo b p \<longleftrightarrow>
     length (fpQueues p) = nOps \<and> length (fpCaps p) = nOps \<and> length (fpMaxLat p) = nOps \<and>
     length (fpPipelined p) = nOps \<and> fpToFree p = [] \<and>
     (\<forall>c < nOps. let q = fpQueues p ! c in
        fqIdx q = 0 \<and> fqSize q = length (fqUnits q) \<and> distinct (fqUnits q) \<and>
        (fpCaps p ! c \<longleftrightarrow> fqUnits q \<noteq> []) \<and>
        (\<forall>u \<in> set (fqUnits q). u < b \<and> (c \<in> todo \<longrightarrow> u < fpNum p)))"

lemma fu_add_op_ok:
  assumes "building nOps (insert c todo) (fpNum p + n) p" "c < nOps" "c \<notin> todo" "0 < n"
  shows "\<exists>p'. fu_add_op n (c, lat, pip) p = Inr p' \<and> fpNum p' = fpNum p \<and>
    building nOps todo (fpNum p + n) p'"
proof -
  let ?q = "fpQueues p ! c"
  let ?q' = "?q\<lparr>fqUnits := fqUnits ?q @ map ((+) (fpNum p)) [0..<n], fqSize := fqSize ?q + n\<rparr>"
  have q: "fqIdx ?q = 0" "fqSize ?q = length (fqUnits ?q)" "distinct (fqUnits ?q)"
    "\<forall>u \<in> set (fqUnits ?q). u < fpNum p"
    using assms(1,2) by (auto simp: building_def Let_def)
  have "distinct (fqUnits ?q @ map ((+) (fpNum p)) [0..<n])"
    using q(3,4) by (auto simp: distinct_map inj_on_def)
  with assms q show ?thesis
    by (auto simp: building_def fu_add_op_def fold_addFU Let_def nth_list_update)
qed

lemma fu_add_ops_ok:
  assumes "building nOps (fst ` set ops) (fpNum p + n) p" "\<forall>d \<in> set ops. fst d < nOps"
    and "distinct (map fst ops)" "0 < n"
  shows "\<exists>p'. foldE (fu_add_op n) ops p = Inr p' \<and> fpNum p' = fpNum p \<and>
    building nOps {} (fpNum p + n) p'"
  using assms
proof (induction ops arbitrary: p)
  case (Cons d ops)
  obtain c lat pip where d: "d = (c, lat, pip)" by (cases d)
  obtain p1 where p1: "fu_add_op n (c, lat, pip) p = Inr p1" "fpNum p1 = fpNum p"
      "building nOps (fst ` set ops) (fpNum p + n) p1"
    using fu_add_op_ok[of nOps c "fst ` set ops" p n lat pip] Cons.prems d by auto
  show ?case using Cons.IH[of p1] p1 Cons.prems(2-4) d by auto
qed simp

lemma building_mono:
  "building nOps {} b p \<Longrightarrow> b \<le> fpNum p \<Longrightarrow> fpNum p \<le> b' \<Longrightarrow> building nOps todo b' p"
  by (fastforce simp: building_def Let_def)

lemma fu_add_desc_ok:
  assumes "building nOps {} (fpNum p) p" "\<forall>o' \<in> set (snd d). fst o' < nOps" "distinct (map fst (snd d))"
  shows "\<exists>p'. fu_add_desc d p = Inr p' \<and> building nOps {} (fpNum p') p'"
proof -
  obtain n ops where d: "d = (n, ops)" by (cases d)
  show ?thesis
  proof (cases "n = 0")
    case True
    then show ?thesis using assms(1) d by (simp add: fu_add_desc_def)
  next
    case False
    have "building nOps (fst ` set ops) (fpNum p + n) p" by (rule building_mono[OF assms(1)]) auto
    then obtain p1 where p1: "foldE (fu_add_op n) ops p = Inr p1" "fpNum p1 = fpNum p"
        "building nOps {} (fpNum p + n) p1"
      using fu_add_ops_ok assms(2,3) d False by fastforce
    then have "building nOps {} (fpNum p + n) (p1\<lparr>fpNum := fpNum p + n\<rparr>)"
      by (simp add: building_def)
    then show ?thesis using p1 d False by (simp add: fu_add_desc_def)
  qed
qed

lemma new_FUPool_ok:
  assumes "\<forall>d \<in> set descs. (\<forall>o' \<in> set (snd d). fst o' < nOps) \<and> distinct (map fst (snd d))"
  shows "\<exists>p. new_FUPool nOps descs = Inr p \<and> fp_wf p \<and> fpToFree p = [] \<and>
    length (fpCaps p) = nOps \<and> fpBusy p = replicate (fpNum p) False"
proof -
  let ?p0 = "\<lparr>fpMaxLat = replicate nOps 0, fpPipelined = replicate nOps True,
      fpCaps = replicate nOps False, fpBusy = [], fpToFree = [],
      fpQueues = replicate nOps \<lparr>fqIdx = 0, fqSize = 0, fqUnits = []\<rparr>, fpNum = 0\<rparr>"
  have start: "building nOps {} (fpNum ?p0) ?p0" by (simp add: building_def)
  obtain p where p: "foldE fu_add_desc descs ?p0 = Inr p" "building nOps {} (fpNum p) p"
    using foldE_total[of "\<lambda>p. building nOps {} (fpNum p) p" ?p0 descs fu_add_desc]
      start assms fu_add_desc_ok by blast
  then show ?thesis
    by (auto simp: new_FUPool_def fp_wf_def building_def Let_def fq_wf_def)
qed

text \<open>At the end of the cycle exactly the units that were handed back become free.\<close>

lemma free_units_ok:
  assumes "fpToFree p = rev us" "distinct us" "\<forall>u \<in> set us. u < length (fpBusy p) \<and> fpBusy p ! u"
  shows "foldE free_unit us p =
    Inr (p\<lparr>fpToFree := [], fpBusy := fold (\<lambda>u b. b[u := False]) us (fpBusy p)\<rparr>)"
  using assms
proof (induction us arbitrary: p)
  case (Cons u us)
  let ?p = "p\<lparr>fpToFree := rev us, fpBusy := (fpBusy p)[u := False]\<rparr>"
  have "free_unit u p = Inr ?p" using Cons.prems by (simp add: free_unit_def)
  moreover have "\<forall>v \<in> set us. v < length (fpBusy ?p) \<and> fpBusy ?p ! v"
    using Cons.prems(2,3) by (auto simp: nth_list_update)
  ultimately show ?case using Cons.IH[of ?p] Cons.prems(2) by simp
qed simp

lemma nth_fold_clear:
  "i < length b \<Longrightarrow> fold (\<lambda>u b. b[u := False]) us b ! i \<longleftrightarrow> b ! i \<and> i \<notin> set us"
proof (induction us arbitrary: b)
  case (Cons u us)
  have "b[u := False] ! i \<longleftrightarrow> b ! i \<and> i \<noteq> u" using Cons.prems by (cases "u = i") auto
  with Cons show ?case by auto
qed simp

lemma length_fold_clear [simp]: "length (fold (\<lambda>u b. b[u := False]) us b) = length b"
  by (induction us arbitrary: b) auto

lemma processFreeUnits_ok:
  assumes "fp_wf p"
  shows "\<exists>p'. processFreeUnits p = Inr p' \<and> fp_wf p' \<and> fpToFree p' = [] \<and> fpNum p' = fpNum p \<and>
    (\<forall>u < fpNum p. fpBusy p' ! u \<longleftrightarrow> fpBusy p ! u \<and> u \<notin> set (fpToFree p))"
proof -
  have "processFreeUnits p = Inr (p\<lparr>fpToFree := [],
      fpBusy := fold (\<lambda>u b. b[u := False]) (rev (fpToFree p)) (fpBusy p)\<rparr>)"
    unfolding processFreeUnits_def by (rule free_units_ok) (use assms in \<open>auto simp: fp_wf_def\<close>)
  then show ?thesis using assms by (auto simp: fp_wf_def nth_fold_clear)
qed

lemma freeUnitNextCycle_ok:
  "fp_wf p \<Longrightarrow> u < fpNum p \<Longrightarrow> fpBusy p ! u \<Longrightarrow> u \<notin> set (fpToFree p) \<Longrightarrow>
   freeUnitNextCycle u p = Inr (p\<lparr>fpToFree := fpToFree p @ [u]\<rparr>) \<and>
   fp_wf (p\<lparr>fpToFree := fpToFree p @ [u]\<rparr>)"
  by (auto simp: freeUnitNextCycle_def fp_wf_def)

section \<open>Properties\<close>

text \<open>
  C37: \<open>getUnit\<close> answers that the pool lacks the capability, or hands out the first free unit in
  the order of the circular queue of the class and marks it busy, or says that none is free,
  exactly when all units of the class are busy.  No other unit changes, so no unit is ever handed
  out twice; the unit that was handed out becomes the last one of its queue.
\<close>

theorem getUnit_takes_the_first_free_unit:
  assumes "fp_wf p" "c < length (fpCaps p)"
  shows "\<exists>r p'. getUnit c p = Inr (r, p') \<and> fp_wf p' \<and> fpToFree p' = fpToFree p \<and>
    r = (if \<not> fpCaps p ! c then -2 else case first_free c p of None \<Rightarrow> -1 | Some u \<Rightarrow> int u) \<and>
    (\<forall>u < fpNum p. fpBusy p' ! u \<longleftrightarrow> fpBusy p ! u \<or> r = int u) \<and>
    (\<forall>u. r = int u \<longrightarrow> \<not> fpBusy p ! u \<and> last (fq_ring (fpQueues p' ! c)) = u) \<and>
    (r = -1 \<longrightarrow> fq_ring (fpQueues p' ! c) = rotate1 (fq_ring (fpQueues p ! c)))"
proof (cases "fpCaps p ! c")
  case False
  then show ?thesis using assms by (simp add: getUnit_def)
next
  case True
  have len: "c < length (fpQueues p)" "length (fpBusy p) = fpNum p"
    using assms by (auto simp: fp_wf_def)
  obtain q where q: "fq_wf q" "fqUnits q = fqUnits (fpQueues p ! c)"
      "case first_free c p of
         None \<Rightarrow> getUnit c p = Inr (-1, p\<lparr>fpQueues := (fpQueues p)[c := q]\<rparr>) \<and>
                 fq_ring q = rotate1 (fq_ring (fpQueues p ! c))
       | Some u \<Rightarrow> getUnit c p = Inr (int u, p\<lparr>fpQueues := (fpQueues p)[c := q],
                     fpBusy := (fpBusy p)[u := True]\<rparr>) \<and> last (fq_ring q) = u"
    using getUnit_ring[OF assms True] by blast
  have wf: "fp_wf (p\<lparr>fpQueues := (fpQueues p)[c := q]\<rparr>)"
    using assms q(1,2) by (auto simp: fp_wf_def nth_list_update)
  show ?thesis
  proof (cases "first_free c p")
    case None
    then show ?thesis using q(3) wf True len(1) by auto
  next
    case (Some u)
    then have u: "\<not> fpBusy p ! u" "u < fpNum p"
      using find_SomeD[of "\<lambda>u. \<not> fpBusy p ! u" "fq_ring (fpQueues p ! c)" u] assms True
      by (auto simp: first_free_def fp_wf_def)
    have "fp_wf (p\<lparr>fpQueues := (fpQueues p)[c := q], fpBusy := (fpBusy p)[u := True]\<rparr>)"
      using wf u(2) len(2) by (auto simp: fp_wf_def nth_list_update)
    then show ?thesis using q(3) Some True len u by (auto simp: nth_list_update)
  qed
qed

definition two_alus :: "fu_desc list" where
  "two_alus = [(2, [(1, 1, True)]), (1, [(2, 3, False)])]"

theorem getUnit_takes_the_first_free_unit_witness:
  "\<exists>p p'. new_FUPool 3 two_alus = Inr p \<and> getUnit 1 p = Inr (0, p') \<and> fpBusy p' ! 0"
proof -
  let ?p = "\<lparr>fpMaxLat = [0, 1, 3], fpPipelined = [True, True, False],
     fpCaps = [False, True, True], fpBusy = [False, False, False], fpToFree = [],
     fpQueues = [\<lparr>fqIdx = 0, fqSize = 0, fqUnits = []\<rparr>,
       \<lparr>fqIdx = 0, fqSize = 2, fqUnits = [0, 1]\<rparr>, \<lparr>fqIdx = 0, fqSize = 1, fqUnits = [2]\<rparr>],
     fpNum = 3\<rparr>"
  have run: "new_FUPool 3 two_alus = Inr ?p" by code_simp
  have wf: "fp_wf ?p" using new_FUPool_ok[of two_alus 3] run by (auto simp: two_alus_def)
  have free: "first_free 1 ?p = Some 0" by code_simp
  have "\<exists>r p'. getUnit 1 ?p = Inr (r, p') \<and> r = 0 \<and> fpBusy p' ! 0"
    using getUnit_takes_the_first_free_unit[OF wf, of 1] free by auto
  with run show ?thesis by blast
qed

end
