(* ===== verification/DepGraph.thy ===== *)
theory DepGraph
  imports Prelude
begin

text \<open>
  The dependence graph of the issue queue (\<open>dep_graph.hh\<close>): per flat register index the
  instruction that produces the register, if any, and the linked list of the instructions that
  wait for it, newest first.  The nodes of a list are not shared, so a list of sequence numbers
  stands for it.  The debug counters are left out.
\<close>

type_synonym dep_entry = "nat option \<times> nat list"
type_synonym dep_graph = "dep_entry list"

definition dg_resize :: "nat \<Rightarrow> dep_graph \<Rightarrow> dep_graph" where
  "dg_resize n g = take n g @ replicate (n - length g) (None, [])"

definition dg_reset :: "dep_graph \<Rightarrow> dep_graph" where
  "dg_reset g = map (\<lambda>_. (None, [])) g"

definition dg_insert :: "nat \<Rightarrow> nat \<Rightarrow> dep_graph \<Rightarrow> dep_graph res" where
  "dg_insert r sn g = bindE (vecGet g r) (\<lambda>(p, ds). vecSet g r (p, sn # ds))"

definition dg_setInst :: "nat \<Rightarrow> nat \<Rightarrow> dep_graph \<Rightarrow> dep_graph res" where
  "dg_setInst r sn g = bindE (vecGet g r) (\<lambda>(p, ds). vecSet g r (Some sn, ds))"

definition dg_clearInst :: "nat \<Rightarrow> dep_graph \<Rightarrow> dep_graph res" where
  "dg_clearInst r g = bindE (vecGet g r) (\<lambda>(p, ds). vecSet g r (None, ds))"

text \<open>\<open>remove\<close>: an empty list is left alone; otherwise the instruction must be on the list.\<close>

definition dg_remove :: "nat \<Rightarrow> nat \<Rightarrow> dep_graph \<Rightarrow> dep_graph res" where
  "dg_remove r sn g =
     bindE (vecGet g r) (\<lambda>(p, ds).
       if ds = [] then Inr g
       else bindE (assertE (sn \<in> set ds)) (\<lambda>_. vecSet g r (p, remove1 sn ds)))"

definition dg_pop :: "nat \<Rightarrow> dep_graph \<Rightarrow> (nat option \<times> dep_graph) res" where
  "dg_pop r g =
     bindE (vecGet g r) (\<lambda>(p, ds).
       case ds of
         [] \<Rightarrow> Inr (None, g)
       | d # ds \<Rightarrow> bindE (vecSet g r (p, ds)) (\<lambda>g. Inr (Some d, g)))"

definition dg_emptyAt :: "nat \<Rightarrow> dep_graph \<Rightarrow> bool res" where
  "dg_emptyAt r g = bindE (vecGet g r) (\<lambda>(p, ds). Inr (ds = []))"

definition dg_empty :: "dep_graph \<Rightarrow> bool" where
  "dg_empty g \<longleftrightarrow> list_all (\<lambda>e. snd e = []) g"

section \<open>What the issue queue uses of it\<close>

lemma dg_ops_at [simp]:
  assumes "r < length g"
  shows "dg_insert r sn g = Inr (g[r := (fst (g ! r), sn # snd (g ! r))])"
    "dg_setInst r sn g = Inr (g[r := (Some sn, snd (g ! r))])"
    "dg_clearInst r g = Inr (g[r := (None, snd (g ! r))])"
    "dg_emptyAt r g = Inr (snd (g ! r) = [])"
  using assms by (simp_all add: dg_insert_def dg_setInst_def dg_clearInst_def dg_emptyAt_def split_beta)

lemma dg_pop_at:
  "r < length g \<Longrightarrow> dg_pop r g = Inr (case snd (g ! r) of
     [] \<Rightarrow> (None, g) | d # ds \<Rightarrow> (Some d, g[r := (fst (g ! r), ds)]))"
  by (simp add: dg_pop_def split_beta split: list.split)

end
