(* ===== verification/InstQueue.thy ===== *)
theory InstQueue
  imports ROB MemDep FUPool DepGraph
begin

text \<open>
  The issue queue (\<open>inst_queue.hh\<close>, \<open>inst_queue.cc\<close>).  A pointer to an instruction is its sequence
  number; \<open>iqInst\<close> holds the instruction objects, which the queue, the memory dependence units
  and the lists share.  An operation class is a number; the queue of ready instructions of a
  class, a \<open>std::priority_queue\<close> with the oldest instruction on top, is the list of its sequence
  numbers in ascending order.

  \<open>readyIt[c]\<close> points at the node of class \<open>c\<close> in \<open>listOrder\<close>; there is at most one between calls,
  so an iterator is the class (following it when there is none is \<open>BadIterator\<close>).  In
  \<open>scheduleReadyInsts\<close>, where \<open>moveToYoungerInst\<close> inserts the new node before the old one is
  erased, the loop keeps the nodes before its iterator apart from those at and after it.

  \<open>freeEntries\<close>, \<open>count\<close> and \<open>maxEntries\<close> are \<open>unsigned\<close>, 32 bit words with their wrap-around.  The
  scheduled completion events of functional units are triples of the cycle, the instruction and
  the unit to be freed (-1 for none).  \<open>iqToExecSize\<close> and \<open>iqToExecPrev\<close> are the \<open>size\<close> fields of
  this cycle's and the previous slot of \<open>issueToExecuteQueue\<close>.  Statistics, tracing and the calls
  that tell the CPU that the stage was active are left out.

  Parameters of the model: \<open>isFixedMapping\<close> and \<open>isPinned\<close> of gem5's \<open>PhysRegId\<close>, the operation
  class of a static instruction (\<open>No_OpClass\<close> is \<open>icNoOp\<close>), and the register file of the CPU in
  \<open>scheduleReadyInsts\<close>.
\<close>

section \<open>State\<close>

record iq_cfg =
  icNumEntries :: "32 word"
  icWidth :: nat
  icThreads :: nat
  icPhysRegs :: nat
  icPolicy :: smt_policy
  icOpClass :: "dyn_inst \<Rightarrow> nat"
  icNoOp :: nat
  icFixed :: "phys_reg \<Rightarrow> bool"
  icPinned :: "phys_reg \<Rightarrow> bool"

record inst_queue =
  iqInst :: "nat \<Rightarrow> dyn_inst"
  iqMemDep :: "nat \<Rightarrow> mem_dep"
  iqList :: "nat \<Rightarrow> nat list"
  iqToExecute :: "nat list"
  iqDeferred :: "nat list"
  iqBlocked :: "nat list"
  iqRetry :: "nat list"
  iqReady :: "nat \<Rightarrow> nat list"
  iqNonSpec :: "nat set"
  iqOrder :: "(nat \<times> nat) list"
  iqOnList :: "nat \<Rightarrow> bool"
  iqGraph :: dep_graph
  iqScore :: "bool list"
  iqCount :: "nat \<Rightarrow> 32 word"
  iqMax :: "nat \<Rightarrow> 32 word"
  iqFree :: "32 word"
  iqWb :: int
  iqSquashedSeq :: "nat \<Rightarrow> nat"
  iqPool :: fu_pool
  iqEvents :: "(nat \<times> nat \<times> int) list"
  iqToExecSize :: int
  iqToExecPrev :: int
  iqPins :: pin_counts

definition iq_upd :: "nat \<Rightarrow> (dyn_inst \<Rightarrow> dyn_inst) \<Rightarrow> inst_queue \<Rightarrow> inst_queue" where
  "iq_upd sn f iq = iq\<lparr>iqInst := (iqInst iq)(sn := f (iqInst iq sn))\<rparr>"

text \<open>Reset of a flag, and \<open>markSrcRegReady()\<close> without an index.\<close>

definition reset_flag :: "inst_flag \<Rightarrow> dyn_inst \<Rightarrow> dyn_inst" where
  "reset_flag f i = i\<lparr>diFlags := diFlags i - {f}\<rparr>"

definition markRegReady :: "dyn_inst \<Rightarrow> dyn_inst" where
  "markRegReady i =
     (let i = i\<lparr>diReadyRegs := diReadyRegs i + 1\<rparr> in
      if diReadyRegs i = length (diSrcs i) then set_status CanIssue i else i)"

definition setSquashedInIQ :: "dyn_inst \<Rightarrow> dyn_inst" where
  "setSquashedInIQ i = set_status Squashed (set_status SquashedInIQ i)"

section \<open>Reset, sizes and draining\<close>

definition iq_resetState :: "iq_cfg \<Rightarrow> inst_queue \<Rightarrow> inst_queue" where
  "iq_resetState C iq = iq\<lparr>iqCount := (\<lambda>_. 0), iqList := (\<lambda>_. []), iqFree := icNumEntries C,
     iqScore := replicate (icPhysRegs C) False, iqSquashedSeq := (\<lambda>_. 0), iqReady := (\<lambda>_. []),
     iqOnList := (\<lambda>_. False), iqNonSpec := {}, iqOrder := [], iqDeferred := [], iqBlocked := [],
     iqRetry := [], iqWb := 0\<rparr>"

text \<open>
  The constructor.  \<open>pool\<close> and \<open>insts\<close> are the functional unit pool and the instructions of the
  program, \<open>threshold\<close> the value of the floating point expression of the threshold policy.
\<close>

definition new_InstQueue ::
  "iq_cfg \<Rightarrow> nat \<Rightarrow> nat \<Rightarrow> nat \<Rightarrow> 32 word \<Rightarrow> fu_pool \<Rightarrow> (nat \<Rightarrow> dyn_inst) \<Rightarrow> inst_queue res"
where
  "new_InstQueue C period ssits lfsts threshold pool insts =
     bindE (md_init period ssits lfsts) (\<lambda>md.
       if icPolicy C = PartitionedPolicy \<and> icThreads C = 0 then Inl DivByZero
       else Inr (iq_resetState C
         \<lparr>iqInst = insts, iqMemDep = (\<lambda>_. md), iqList = (\<lambda>_. []), iqToExecute = [], iqDeferred = [],
          iqBlocked = [], iqRetry = [], iqReady = (\<lambda>_. []), iqNonSpec = {}, iqOrder = [],
          iqOnList = (\<lambda>_. False), iqGraph = dg_resize (icPhysRegs C) [],
          iqScore = [], iqCount = (\<lambda>_. 0),
          iqMax = (\<lambda>t. if t < icThreads C then
              (case icPolicy C of
                 DynamicPolicy \<Rightarrow> icNumEntries C
               | PartitionedPolicy \<Rightarrow> icNumEntries C div of_nat (icThreads C)
               | ThresholdPolicy \<Rightarrow> threshold) else 0),
          iqFree = 0, iqWb = 0, iqSquashedSeq = (\<lambda>_. 0), iqPool = pool, iqEvents = [],
          iqToExecSize = 0, iqToExecPrev = 0,
          iqPins = \<lparr>numPinned = (\<lambda>_. 0), pinnedToComplete = (\<lambda>_. 0)\<rparr>\<rparr>))"

definition iq_isDrained :: "iq_cfg \<Rightarrow> inst_queue \<Rightarrow> bool" where
  "iq_isDrained C iq \<longleftrightarrow> dg_empty (iqGraph iq) \<and> iqToExecute iq = [] \<and> iqWb iq = 0 \<and>
     (\<forall>t \<in> set [0..<icThreads C]. md_isDrained maxThreads (iqMemDep iq t))"

definition iq_drainSanityCheck :: "iq_cfg \<Rightarrow> inst_queue \<Rightarrow> unit res" where
  "iq_drainSanityCheck C iq =
     bindE (assertE (dg_empty (iqGraph iq))) (\<lambda>_.
     bindE (assertE (iqToExecute iq = [])) (\<lambda>_.
       foldE (\<lambda>t _. md_drainSanityCheck maxThreads (iqMemDep iq t)) [0..<icThreads C] ()))"

definition iq_takeOverFrom :: "iq_cfg \<Rightarrow> inst_queue \<Rightarrow> inst_queue" where
  "iq_takeOverFrom C iq = iq_resetState C iq"

definition iq_entryAmount :: "iq_cfg \<Rightarrow> nat \<Rightarrow> 32 word res" where
  "iq_entryAmount C n =
     (if icPolicy C = PartitionedPolicy
      then (if n = 0 then Inl DivByZero else Inr (icNumEntries C div of_nat n))
      else Inr 0)"

definition iq_resetEntries :: "iq_cfg \<Rightarrow> nat list \<Rightarrow> inst_queue \<Rightarrow> inst_queue" where
  "iq_resetEntries C active iq =
     (if icPolicy C \<noteq> DynamicPolicy \<or> icThreads C > 1 then
        fold (\<lambda>t iq.
          if icPolicy C = PartitionedPolicy
          then iq\<lparr>iqMax := (iqMax iq)(t := icNumEntries C div of_nat (length active))\<rparr>
          else if icPolicy C = ThresholdPolicy \<and> length active = 1
          then iq\<lparr>iqMax := (iqMax iq)(t := icNumEntries C)\<rparr>
          else iq) active iq
      else iq)"

definition iq_numFreeEntries :: "inst_queue \<Rightarrow> 32 word" where
  "iq_numFreeEntries iq = iqFree iq"

definition iq_numFreeEntriesOf :: "inst_queue \<Rightarrow> nat \<Rightarrow> 32 word" where
  "iq_numFreeEntriesOf iq t = iqMax iq t - iqCount iq t"

definition iq_isFull :: "inst_queue \<Rightarrow> bool" where
  "iq_isFull iq \<longleftrightarrow> iqFree iq = 0"

definition iq_isFullOf :: "inst_queue \<Rightarrow> nat \<Rightarrow> bool" where
  "iq_isFullOf iq t \<longleftrightarrow> iq_numFreeEntriesOf iq t = 0"

definition iq_hasReadyInsts :: "nat \<Rightarrow> inst_queue \<Rightarrow> bool" where
  "iq_hasReadyInsts nOps iq \<longleftrightarrow> iqOrder iq \<noteq> [] \<or> (\<exists>c \<in> set [0..<nOps]. iqReady iq c \<noteq> [])"

text \<open>\<open>countInsts\<close> computes the number from \<open>freeEntries\<close>.\<close>

definition iq_countInsts :: "iq_cfg \<Rightarrow> inst_queue \<Rightarrow> 32 word" where
  "iq_countInsts C iq = icNumEntries C - iqFree iq"

definition check_count :: "iq_cfg \<Rightarrow> inst_queue \<Rightarrow> unit res" where
  "check_count C iq = assertE (iqFree iq = icNumEntries C - iq_countInsts C iq)"

section \<open>The ready queues and their age order\<close>

text \<open>\<open>push\<close> of a priority queue, and the two ways of inserting into \<open>listOrder\<close>.\<close>

fun ord_insert :: "nat \<times> nat \<Rightarrow> (nat \<times> nat) list \<Rightarrow> (nat \<times> nat) list" where
  "ord_insert e [] = [e]"
| "ord_insert e (x # xs) = (if snd x > snd e then e # x # xs else x # ord_insert e xs)"

fun ord_insert_younger :: "nat \<times> nat \<Rightarrow> (nat \<times> nat) list \<Rightarrow> (nat \<times> nat) list" where
  "ord_insert_younger e [] = [e]"
| "ord_insert_younger e (x # xs) = (if snd x < snd e then x # ord_insert_younger e xs else e # x # xs)"

definition addToOrderList :: "nat \<Rightarrow> inst_queue \<Rightarrow> inst_queue res" where
  "addToOrderList c iq =
     bindE (assertE (iqReady iq c \<noteq> [])) (\<lambda>_.
       Inr (iq\<lparr>iqOrder := ord_insert (c, hd (iqReady iq c)) (iqOrder iq),
               iqOnList := (iqOnList iq)(c := True)\<rparr>))"

text \<open>
  The common end of \<open>addReadyMemInst\<close> and \<open>addIfReady\<close>: the push, and the reordering of the list
  when the class is not on it or has an older instruction than last time.
\<close>

definition push_ready :: "nat \<Rightarrow> nat \<Rightarrow> inst_queue \<Rightarrow> inst_queue res" where
  "push_ready c sn iq =
     (let iq = iq\<lparr>iqReady := (iqReady iq)(c := insort sn (iqReady iq c))\<rparr> in
      if \<not> iqOnList iq c then addToOrderList c iq
      else case map_of (iqOrder iq) c of
        None \<Rightarrow> Inl BadIterator
      | Some oldest \<Rightarrow>
          if hd (iqReady iq c) < oldest
          then addToOrderList c (iq\<lparr>iqOrder := AList.delete c (iqOrder iq)\<rparr>)
          else Inr iq)"

definition addReadyMemInst :: "iq_cfg \<Rightarrow> nat \<Rightarrow> inst_queue \<Rightarrow> inst_queue res" where
  "addReadyMemInst C sn iq = push_ready (icOpClass C (iqInst iq sn)) sn iq"

text \<open>A call of a memory dependence unit, and the instructions that it passes to \<open>addReadyMemInst\<close>.\<close>

definition set_memDep :: "nat \<Rightarrow> mem_dep \<Rightarrow> inst_queue \<Rightarrow> inst_queue" where
  "set_memDep t md iq = iq\<lparr>iqMemDep := (iqMemDep iq)(t := md)\<rparr>"

definition addIfReady :: "iq_cfg \<Rightarrow> nat \<Rightarrow> inst_queue \<Rightarrow> inst_queue res" where
  "addIfReady C sn iq =
     (let i = iqInst iq sn in
      if \<not> has_status CanIssue i then Inr iq
      else if has_prop IsMemRef i then
        bindE (md_regsReady i (iqMemDep iq (diTid i))) (\<lambda>(md, out).
          foldE (addReadyMemInst C) out (set_memDep (diTid i) md iq))
      else push_ready (icOpClass C i) sn iq)"

section \<open>Insertion\<close>

definition add_source :: "iq_cfg \<Rightarrow> nat \<Rightarrow> nat \<Rightarrow> inst_queue \<Rightarrow> inst_queue res" where
  "add_source C sn k iq =
     bindE (vecGet (diReadySrc (iqInst iq sn)) k) (\<lambda>ready.
       if ready then Inr iq
       else bindE (vecGet (diSrcs (iqInst iq sn)) k) (\<lambda>reg.
         if icFixed C reg then Inr iq
         else bindE (vecGet (iqScore iq) (prFlat reg)) (\<lambda>b.
           if \<not> b then bindE (dg_insert (prFlat reg) sn (iqGraph iq)) (\<lambda>g. Inr (iq\<lparr>iqGraph := g\<rparr>))
           else bindE (markSrcRegReady k (iqInst iq sn)) (\<lambda>i. Inr (iq_upd sn (\<lambda>_. i) iq)))))"

definition addToDependents :: "iq_cfg \<Rightarrow> nat \<Rightarrow> inst_queue \<Rightarrow> inst_queue res" where
  "addToDependents C sn iq = foldE (add_source C sn) [0..<length (diSrcs (iqInst iq sn))] iq"

definition add_producer :: "iq_cfg \<Rightarrow> nat \<Rightarrow> phys_reg \<Rightarrow> inst_queue \<Rightarrow> inst_queue res" where
  "add_producer C sn reg iq =
     (if icFixed C reg then Inr iq
      else bindE (dg_emptyAt (prFlat reg) (iqGraph iq)) (\<lambda>e.
        if \<not> e then Inl PanicCall
        else bindE (dg_setInst (prFlat reg) sn (iqGraph iq)) (\<lambda>g.
             bindE (vecSet (iqScore iq) (prFlat reg) False) (\<lambda>sc.
               Inr (iq\<lparr>iqGraph := g, iqScore := sc\<rparr>)))))"

definition addToProducers :: "iq_cfg \<Rightarrow> nat \<Rightarrow> inst_queue \<Rightarrow> inst_queue res" where
  "addToProducers C sn iq = foldE (add_producer C sn) (diDests (iqInst iq sn)) iq"

text \<open>The part that both insertions start with: the entry is taken from the free ones.\<close>

definition take_entry :: "nat \<Rightarrow> inst_queue \<Rightarrow> inst_queue res" where
  "take_entry sn iq =
     bindE (assertE (iqFree iq \<noteq> 0)) (\<lambda>_.
       let t = diTid (iqInst iq sn) in
       Inr (iq_upd sn (set_status IqEntry)
         (iq\<lparr>iqList := (iqList iq)(t := iqList iq t @ [sn]), iqFree := iqFree iq - 1\<rparr>)))"

definition count_up :: "nat \<Rightarrow> inst_queue \<Rightarrow> inst_queue" where
  "count_up t iq = iq\<lparr>iqCount := (iqCount iq)(t := iqCount iq t + 1)\<rparr>"

definition count_down :: "nat \<Rightarrow> inst_queue \<Rightarrow> inst_queue" where
  "count_down t iq = iq\<lparr>iqCount := (iqCount iq)(t := iqCount iq t - 1)\<rparr>"

text \<open>A memory instruction is told to the memory dependence unit; another may be ready already.\<close>

definition announce :: "iq_cfg \<Rightarrow> nat \<Rightarrow> inst_queue \<Rightarrow> inst_queue res" where
  "announce C sn iq =
     (let i = iqInst iq sn; t = diTid i in
      if has_prop IsMemRef i then
        bindE (md_insert i (iqMemDep iq t)) (\<lambda>(md, i', out).
          foldE (addReadyMemInst C) out (set_memDep t md (iq_upd sn (\<lambda>_. i') iq)))
      else addIfReady C sn iq)"

definition announceNonSpec :: "nat \<Rightarrow> inst_queue \<Rightarrow> inst_queue res" where
  "announceNonSpec sn iq =
     (let i = iqInst iq sn; t = diTid i in
      if has_prop IsMemRef i then
        bindE (md_insertNonSpec i (iqMemDep iq t)) (\<lambda>md. Inr (set_memDep t md iq))
      else Inr iq)"

definition iq_insert :: "iq_cfg \<Rightarrow> nat \<Rightarrow> inst_queue \<Rightarrow> inst_queue res" where
  "iq_insert C sn iq =
     bindE (take_entry sn iq) (\<lambda>iq.
     bindE (addToDependents C sn iq) (\<lambda>iq.
     bindE (addToProducers C sn iq) (\<lambda>iq.
     bindE (announce C sn iq) (\<lambda>iq.
     let iq = count_up (diTid (iqInst iq sn)) iq in
     bindE (check_count C iq) (\<lambda>_. Inr iq)))))"

definition iq_insertNonSpec :: "iq_cfg \<Rightarrow> nat \<Rightarrow> inst_queue \<Rightarrow> inst_queue res" where
  "iq_insertNonSpec C sn iq =
     bindE (take_entry sn (iq\<lparr>iqNonSpec := insert sn (iqNonSpec iq)\<rparr>)) (\<lambda>iq.
     bindE (addToProducers C sn iq) (\<lambda>iq.
     bindE (announceNonSpec sn iq) (\<lambda>iq.
     let iq = count_up (diTid (iqInst iq sn)) iq in
     bindE (check_count C iq) (\<lambda>_. Inr iq))))"

definition iq_insertBarrier :: "iq_cfg \<Rightarrow> nat \<Rightarrow> inst_queue \<Rightarrow> inst_queue res" where
  "iq_insertBarrier C sn iq =
     (let i = iqInst iq sn; t = diTid i in
      iq_insertNonSpec C sn (set_memDep t (md_insertBarrier i (iqMemDep iq t)) iq))"

definition getInstToExecute :: "inst_queue \<Rightarrow> (nat \<times> inst_queue) res" where
  "getInstToExecute iq =
     (case iqToExecute iq of
        [] \<Rightarrow> Inl AssertFail
      | sn # rest \<Rightarrow> Inr (sn, iq\<lparr>iqToExecute := rest\<rparr>))"

end
