(* ===== verification/InstQueueIssue.thy ===== *)
theory InstQueueIssue
  imports InstQueue
begin

text \<open>
  The rest of the issue queue (\<open>inst_queue.cc\<close>): the issue of ready instructions, with the poison
  check of runahead, completion of functional units, wake-up, replay of memory instructions,
  commit and squash.
\<close>

section \<open>Memory instructions that come back\<close>

definition rescheduleMemInst :: "nat \<Rightarrow> inst_queue \<Rightarrow> inst_queue" where
  "rescheduleMemInst sn iq =
     (let i = reset_status CanIssue (reset_flag TranslationCompleted (reset_flag TranslationStarted (iqInst iq sn)));
          t = diTid i in
      set_memDep t (md_reschedule i (iqMemDep iq t)) (iq_upd sn (\<lambda>_. i) iq))"

definition replayMemInst :: "iq_cfg \<Rightarrow> nat \<Rightarrow> inst_queue \<Rightarrow> inst_queue res" where
  "replayMemInst C sn iq =
     (let t = diTid (iqInst iq sn) in
      bindE (md_replay (iqMemDep iq t)) (\<lambda>(md, out).
        foldE (addReadyMemInst C) out (set_memDep t md iq)))"

definition deferMemInst :: "nat \<Rightarrow> inst_queue \<Rightarrow> inst_queue" where
  "deferMemInst sn iq = iq\<lparr>iqDeferred := iqDeferred iq @ [sn]\<rparr>"

definition blockMemInst :: "nat \<Rightarrow> inst_queue \<Rightarrow> inst_queue" where
  "blockMemInst sn iq =
     (let iq = iq_upd sn (\<lambda>i. reset_status CanIssue (reset_status Issued i)) iq in
      iq\<lparr>iqBlocked := iqBlocked iq @ [sn]\<rparr>)"

definition iq_cacheUnblocked :: "inst_queue \<Rightarrow> inst_queue" where
  "iq_cacheUnblocked iq = iq\<lparr>iqRetry := iqRetry iq @ iqBlocked iq, iqBlocked := []\<rparr>"

text \<open>
  \<open>getDeferredMemInstToExecute\<close> returns the first deferred instruction whose translation is
  completed or that is squashed.  \<open>getBlockedMemInstToExecute\<close> removes the first instruction to
  be retried but returns a null pointer if it is executed already (its response was forged).
\<close>

definition translated :: "inst_queue \<Rightarrow> nat \<Rightarrow> bool" where
  "translated iq sn \<longleftrightarrow> has_flag TranslationCompleted (iqInst iq sn) \<or> has_status Squashed (iqInst iq sn)"

definition getDeferredMemInst :: "inst_queue \<Rightarrow> nat option \<times> inst_queue" where
  "getDeferredMemInst iq =
     (case find (translated iq) (iqDeferred iq) of
        None \<Rightarrow> (None, iq)
      | Some sn \<Rightarrow> (Some sn, iq\<lparr>iqDeferred := remove1 sn (iqDeferred iq)\<rparr>))"

definition getBlockedMemInst :: "inst_queue \<Rightarrow> nat option \<times> inst_queue" where
  "getBlockedMemInst iq =
     (case iqRetry iq of
        [] \<Rightarrow> (None, iq)
      | sn # rest \<Rightarrow>
          (if has_status Executed (iqInst iq sn) then None else Some sn, iq\<lparr>iqRetry := rest\<rparr>))"

section \<open>The two loops at the start of scheduleReadyInsts\<close>

text \<open>What a push into the ready queues leaves alone.\<close>

lemma push_ready_frame:
  assumes "push_ready c sn iq = Inr iq'"
  shows "iqDeferred iq' = iqDeferred iq" "iqRetry iq' = iqRetry iq" "iqInst iq' = iqInst iq"
    "iqReady iq' = (iqReady iq)(c := insort sn (iqReady iq c))" "iqFree iq' = iqFree iq"
    "iqCount iq' = iqCount iq" "iqToExecute iq' = iqToExecute iq" "iqScore iq' = iqScore iq"
    "iqGraph iq' = iqGraph iq" "iqMemDep iq' = iqMemDep iq" "iqPool iq' = iqPool iq"
    "iqList iq' = iqList iq" "iqNonSpec iq' = iqNonSpec iq" "iqPins iq' = iqPins iq"
  using assms by (auto simp: push_ready_def addToOrderList_def Let_def bindE_ok split: if_splits option.splits)

lemma getDeferred_less:
  "getDeferredMemInst iq = (Some sn, iq') \<Longrightarrow> length (iqDeferred iq') < length (iqDeferred iq)"
proof -
  assume "getDeferredMemInst iq = (Some sn, iq')"
  then have "sn \<in> set (iqDeferred iq)" "iq' = iq\<lparr>iqDeferred := remove1 sn (iqDeferred iq)\<rparr>"
    by (auto simp: getDeferredMemInst_def find_Some_iff split: option.splits)
  moreover from this(1) have "0 < length (iqDeferred iq)" by (rule length_pos_if_in_set)
  ultimately show ?thesis by (simp add: length_remove1)
qed

function sched_deferred :: "iq_cfg \<Rightarrow> inst_queue \<Rightarrow> inst_queue res" where
  "sched_deferred C iq =
     (case getDeferredMemInst iq of
        (None, iq) \<Rightarrow> Inr iq
      | (Some sn, iq) \<Rightarrow> bindE (addReadyMemInst C sn iq) (\<lambda>iq. sched_deferred C iq))"
  by pat_completeness auto
termination
  by (relation "measure (\<lambda>(C, iq). length (iqDeferred iq))")
     (auto simp: addReadyMemInst_def dest!: push_ready_frame(1) dest: getDeferred_less[OF sym])

function sched_retry :: "iq_cfg \<Rightarrow> inst_queue \<Rightarrow> inst_queue res" where
  "sched_retry C iq =
     (case getBlockedMemInst iq of
        (None, iq) \<Rightarrow> Inr iq
      | (Some sn, iq) \<Rightarrow> bindE (addReadyMemInst C sn iq) (\<lambda>iq. sched_retry C iq))"
  by pat_completeness auto
termination
  by (relation "measure (\<lambda>(C, iq). length (iqRetry iq))")
     (auto simp: addReadyMemInst_def getBlockedMemInst_def dest!: push_ready_frame(2) split: list.splits if_splits)

section \<open>Issue\<close>

text \<open>The check for poisoned sources of an instruction in runahead.\<close>

fun poisoned_source :: "phys_reg_file \<Rightarrow> phys_reg list \<Rightarrow> bool res" where
  "poisoned_source rf [] = Inr False"
| "poisoned_source rf (r # rs) =
     bindE (regPoisoned rf r) (\<lambda>p. if p then Inr True else poisoned_source rf rs)"

definition poison_check :: "phys_reg_file \<Rightarrow> nat \<Rightarrow> inst_queue \<Rightarrow> inst_queue res" where
  "poison_check rf sn iq =
     (let i = iqInst iq sn in
      if has_flag Runahead i then
        bindE (poisoned_source rf (diSrcs i)) (\<lambda>p.
          if p then bindE (setPoisoned i) (\<lambda>i. Inr (iq_upd sn (\<lambda>_. i) iq)) else Inr iq)
      else Inr iq)"

text \<open>
  An instruction leaves the queue of its class; the class goes to the place of its next
  instruction (\<open>moveToYoungerInst\<close>) among the nodes \<open>rest\<close> behind the iterator, or off the list.
\<close>

definition moveToYoungerInst :: "nat \<Rightarrow> inst_queue \<Rightarrow> (nat \<times> nat) list \<Rightarrow> (nat \<times> nat) list" where
  "moveToYoungerInst c iq rest = ord_insert_younger (c, hd (iqReady iq c)) rest"

definition pop_class :: "nat \<Rightarrow> inst_queue \<times> (nat \<times> nat) list \<Rightarrow> inst_queue \<times> (nat \<times> nat) list" where
  "pop_class c = (\<lambda>(iq, rest).
     let iq = iq\<lparr>iqReady := (iqReady iq)(c := tl (iqReady iq c))\<rparr> in
     if iqReady iq c \<noteq> [] then (iq, moveToYoungerInst c iq rest)
     else (iq\<lparr>iqOnList := (iqOnList iq)(c := False)\<rparr>, rest))"

text \<open>
  The instruction goes to the execute stage now, or a completion event is scheduled for it; the
  unit, if it has one, is handed back at the end of this cycle or by the event.
\<close>

definition start_execution :: "nat \<Rightarrow> nat \<Rightarrow> nat \<Rightarrow> int \<Rightarrow> nat \<Rightarrow> inst_queue \<Rightarrow> inst_queue res" where
  "start_execution now c sn idx lat iq =
     (let free = (\<lambda>iq. bindE (freeUnitNextCycle (nat idx) (iqPool iq)) (\<lambda>p. Inr (iq\<lparr>iqPool := p\<rparr>))) in
      if lat = 1 then
        let iq = iq\<lparr>iqToExecSize := iqToExecSize iq + 1, iqToExecute := iqToExecute iq @ [sn]\<rparr> in
        if idx \<ge> 0 then free iq else Inr iq
      else
        bindE (fu_isPipelined c (iqPool iq)) (\<lambda>pipelined.
          let iq = iq\<lparr>iqWb := iqWb iq + 1,
            iqEvents := iqEvents iq @ [(now + usub64 lat 1, sn, if pipelined then -1 else idx)]\<rparr> in
          if pipelined then free iq else Inr iq))"

text \<open>The end of an issue: flags and, for an instruction that does not access memory, its entry.\<close>

definition mark_issued :: "nat \<Rightarrow> dyn_inst \<Rightarrow> dyn_inst" where
  "mark_issued tick i =
     (let i = set_status Issued i in if diFirstIssue i = 2 ^ 64 - 1 then i\<lparr>diFirstIssue := tick\<rparr> else i)"

definition after_issue :: "iq_cfg \<Rightarrow> nat \<Rightarrow> nat \<Rightarrow> inst_queue \<Rightarrow> inst_queue res" where
  "after_issue C tick sn iq =
     (let iq = iq_upd sn (mark_issued tick) iq; i = iqInst iq sn; t = diTid i in
      if \<not> has_prop IsMemRef i then
        Inr (iq_upd sn (reset_status IqEntry) (count_down t (iq\<lparr>iqFree := iqFree iq + 1\<rparr>)))
      else bindE (md_issue i (iqMemDep iq t)) (\<lambda>md. Inr (set_memDep t md iq)))"

datatype issue_out = Dropped | Issuing | Busy

text \<open>
  One round of the loop at the node \<open>(c, oldest)\<close>: whether the instruction was dropped because it
  is squashed, issued, or found no free unit, and the nodes behind it afterwards.
\<close>

definition issue_one ::
  "iq_cfg \<Rightarrow> phys_reg_file \<Rightarrow> nat \<Rightarrow> nat \<Rightarrow> nat \<Rightarrow> nat \<Rightarrow> (nat \<times> nat) list \<Rightarrow> inst_queue
     \<Rightarrow> (issue_out \<times> inst_queue \<times> (nat \<times> nat) list) res"
where
  "issue_one C rf now tick c oldest rest iq =
     bindE (assertE (iqReady iq c \<noteq> [])) (\<lambda>_.
     let sn = hd (iqReady iq c) in
     bindE (assertE (sn = oldest)) (\<lambda>_.
     bindE (poison_check rf sn iq) (\<lambda>iq.
       if has_status Squashed (iqInst iq sn) then Inr (Dropped, pop_class c (iq, rest))
       else
         bindE (if c \<noteq> icNoOp C then getUnit c (iqPool iq) else Inr (-2, iqPool iq)) (\<lambda>(idx, pool).
         let iq = iq\<lparr>iqPool := pool\<rparr> in
         bindE (if c \<noteq> icNoOp C \<and> idx > -1 then fu_getOpLatency c pool else Inr 1) (\<lambda>lat.
           if idx \<noteq> -1 then
             bindE (start_execution now c sn idx lat iq) (\<lambda>iq.
             let (iq, rest) = pop_class c (iq, rest) in
             bindE (after_issue C tick sn iq) (\<lambda>iq. Inr (Issuing, iq, rest)))
           else Inr (Busy, iq, rest))))))"

text \<open>The work that is left to the loop: every round takes an instruction or a node from it.\<close>

definition issue_work :: "(nat \<times> nat) list \<Rightarrow> inst_queue \<Rightarrow> nat" where
  "issue_work order iq = sum_list (map (\<lambda>e. 1 + length (iqReady iq (fst e))) order)"

lemma ord_insert_younger_mset [simp]: "mset (ord_insert_younger e xs) = add_mset e (mset xs)"
  by (induction e xs rule: ord_insert_younger.induct) auto

lemma sum_map_mset: "sum_list (map f xs) = sum_mset (image_mset f (mset xs))"
  by (metis mset_map sum_mset_sum_list)

lemma issue_work_insert: "issue_work (ord_insert_younger e xs) iq = issue_work (e # xs) iq"
  by (simp add: issue_work_def sum_map_mset)

lemma issue_work_mono:
  "(\<And>d. length (iqReady iq' d) \<le> length (iqReady iq d)) \<Longrightarrow> issue_work rest iq' \<le> issue_work rest iq"
  by (induction rest) (auto simp: issue_work_def intro: add_mono)

lemma pop_class_work:
  assumes "iqReady iq c \<noteq> []" "pop_class c (iq, rest) = (iq', rest')"
  shows "issue_work rest' iq' < issue_work ((c, oldest) # rest) iq"
proof -
  let ?q = "iq\<lparr>iqReady := (iqReady iq)(c := tl (iqReady iq c))\<rparr>"
  have less: "length (iqReady ?q d) \<le> length (iqReady iq d)" for d by simp
  have le: "issue_work rest ?q \<le> issue_work rest iq" by (rule issue_work_mono[OF less])
  have len: "length (tl (iqReady iq c)) < length (iqReady iq c)" using assms(1) by (cases "iqReady iq c") auto
  show ?thesis
  proof (cases "tl (iqReady iq c) = []")
    case True
    then have "iqReady iq' = iqReady ?q" "rest' = rest" using assms(2) by (auto simp: pop_class_def Let_def)
    then have "issue_work rest' iq' = issue_work rest ?q" by (simp add: issue_work_def)
    then show ?thesis using le by (simp add: issue_work_def)
  next
    case False
    then have "iq' = ?q" "rest' = ord_insert_younger (c, hd (tl (iqReady iq c))) rest"
      using assms(2) by (auto simp: pop_class_def Let_def moveToYoungerInst_def)
    then have "issue_work rest' iq' = 1 + length (tl (iqReady iq c)) + issue_work rest ?q"
      by (simp only: issue_work_insert) (simp add: issue_work_def)
    then show ?thesis using le len by (simp add: issue_work_def)
  qed
qed

text \<open>The parts of a round other than the pop keep the ready queues.\<close>

lemma issue_parts_ready:
  "poison_check rf sn iq = Inr iq1 \<Longrightarrow> iqReady iq1 = iqReady iq"
  "start_execution now c sn idx lat iq = Inr iq1 \<Longrightarrow> iqReady iq1 = iqReady iq"
  "after_issue C tick sn iq = Inr iq1 \<Longrightarrow> iqReady iq1 = iqReady iq"
  by (auto simp: poison_check_def iq_upd_def start_execution_def after_issue_def count_down_def
      set_memDep_def Let_def bindE_ok split: if_splits)

lemma issue_one_work:
  assumes "issue_one C rf now tick c oldest rest iq = Inr (out, iq', rest')"
  shows "issue_work rest' iq' < issue_work ((c, oldest) # rest) iq"
proof -
  define sn where "sn = hd (iqReady iq c)"
  from assms obtain iq1 where r: "iqReady iq c \<noteq> []" and p: "poison_check rf sn iq = Inr iq1"
    and rest1: "(if has_status Squashed (iqInst iq1 sn) then Inr (Dropped, pop_class c (iq1, rest))
       else
         bindE (if c \<noteq> icNoOp C then getUnit c (iqPool iq1) else Inr (-2, iqPool iq1)) (\<lambda>(idx, pool).
         let iq = iq1\<lparr>iqPool := pool\<rparr> in
         bindE (if c \<noteq> icNoOp C \<and> idx > -1 then fu_getOpLatency c pool else Inr 1) (\<lambda>lat.
           if idx \<noteq> -1 then
             bindE (start_execution now c sn idx lat iq) (\<lambda>q.
             let (q, rest) = pop_class c (q, rest) in
             bindE (after_issue C tick sn q) (\<lambda>q. Inr (Issuing, q, rest)))
           else Inr (Busy, iq, rest)))) = Inr (out, iq', rest')"
    unfolding issue_one_def Let_def sn_def by (elim bindE_elim) (auto simp: assertE_ok Let_def)
  have same: "iqReady iq1 = iqReady iq" by (rule issue_parts_ready(1)[OF p])
  have work: "issue_work xs q = issue_work xs iq" if "iqReady q = iqReady iq" for xs q
    using that by (simp add: issue_work_def)
  show ?thesis
  proof (cases "has_status Squashed (iqInst iq1 sn)")
    case True
    then have "pop_class c (iq1, rest) = (iq', rest')" using rest1 by simp
    from pop_class_work[OF _ this] show ?thesis using r same work[OF same] by simp
  next
    case False
    then obtain idx pool lat where b:
      "(if idx \<noteq> -1 then
          bindE (start_execution now c sn idx lat (iq1\<lparr>iqPool := pool\<rparr>)) (\<lambda>iq.
          let (iq, rest) = pop_class c (iq, rest) in
          bindE (after_issue C tick sn iq) (\<lambda>iq. Inr (Issuing, iq, rest)))
        else Inr (Busy, iq1\<lparr>iqPool := pool\<rparr>, rest)) = Inr (out, iq', rest')"
      using rest1 by (auto simp: Let_def elim!: bindE_elim)
    show ?thesis
    proof (cases "idx = -1")
      case True
      then have "iqReady iq' = iqReady iq" "rest' = rest" using b same by auto
      then show ?thesis using work by (simp add: issue_work_def)
    next
      case False
      then obtain iq2 where s2: "start_execution now c sn idx lat (iq1\<lparr>iqPool := pool\<rparr>) = Inr iq2"
          "(case pop_class c (iq2, rest) of (q, r) \<Rightarrow>
             bindE (after_issue C tick sn q) (\<lambda>q. Inr (Issuing, q, r))) = Inr (out, iq', rest')"
        using b by (auto elim!: bindE_elim)
      obtain iq3 r where q: "pop_class c (iq2, rest) = (iq3, r)" by fastforce
      have s: "start_execution now c sn idx lat (iq1\<lparr>iqPool := pool\<rparr>) = Inr iq2"
          "pop_class c (iq2, rest) = (iq3, rest')" "after_issue C tick sn iq3 = Inr iq'"
        using s2 q by (auto simp: bindE_ok)
      have "iqReady iq2 = iqReady iq" using issue_parts_ready(2)[OF s(1)] same by simp
      moreover from this have "issue_work rest' iq3 < issue_work ((c, oldest) # rest) iq2"
        using pop_class_work[OF _ s(2)] r by simp
      moreover have "iqReady iq' = iqReady iq3" by (rule issue_parts_ready(3)[OF s(3)])
      ultimately show ?thesis using work by (simp add: issue_work_def)
    qed
  qed
qed

text \<open>
  The loop over \<open>listOrder\<close>: \<open>passed\<close> are the nodes before the iterator, youngest first, and \<open>n\<close>
  the number of instructions issued so far.
\<close>

function issue_loop ::
  "iq_cfg \<Rightarrow> phys_reg_file \<Rightarrow> nat \<Rightarrow> nat \<Rightarrow> nat \<Rightarrow> (nat \<times> nat) list \<Rightarrow> (nat \<times> nat) list \<Rightarrow> inst_queue
     \<Rightarrow> (nat \<times> inst_queue) res"
where
  "issue_loop C rf now tick n passed order iq =
     (if \<not> n < icWidth C then Inr (n, iq\<lparr>iqOrder := rev passed @ order\<rparr>)
      else case order of
        [] \<Rightarrow> Inr (n, iq\<lparr>iqOrder := rev passed\<rparr>)
      | (c, oldest) # rest \<Rightarrow>
          bindE (issue_one C rf now tick c oldest rest iq) (\<lambda>r.
            case r of
              (Dropped, iq, rest) \<Rightarrow> issue_loop C rf now tick n passed rest iq
            | (Issuing, iq, rest) \<Rightarrow> issue_loop C rf now tick (n + 1) passed rest iq
            | (Busy, iq, rest) \<Rightarrow> issue_loop C rf now tick n ((c, oldest) # passed) rest iq))"
  by pat_completeness auto
termination
  by (relation "measure (\<lambda>(C, rf, now, tick, n, passed, order, iq). issue_work order iq)")
     (auto dest: issue_one_work)

declare sched_deferred.simps [simp del] sched_retry.simps [simp del] issue_loop.simps [simp del]

definition scheduleReadyInsts :: "iq_cfg \<Rightarrow> phys_reg_file \<Rightarrow> nat \<Rightarrow> nat \<Rightarrow> inst_queue \<Rightarrow> (nat \<times> inst_queue) res" where
  "scheduleReadyInsts C rf now tick iq =
     bindE (sched_deferred C iq) (\<lambda>iq.
     bindE (sched_retry C iq) (\<lambda>iq.
       issue_loop C rf now tick 0 [] (iqOrder iq) iq))"

end
