(* ===== verification/InstQueueWake.thy ===== *)
theory InstQueueWake
  imports InstQueueIssue
begin

text \<open>
  The rest of the issue queue (\<open>inst_queue.cc\<close>): completion of functional units, the wake-up of
  dependents, commit, and squash.
\<close>

section \<open>Completion, non-speculative instructions and commit\<close>

text \<open>
  \<open>FUCompletion::process\<close> hands back the unit only if it was told to (\<open>setFreeFU\<close>); the
  \<open>unit\<close> of the event is -1 otherwise.
\<close>

definition processFUCompletion :: "bool \<Rightarrow> nat \<Rightarrow> int \<Rightarrow> inst_queue \<Rightarrow> inst_queue res" where
  "processFUCompletion switchedOut sn unit iq =
     bindE (assertE (\<not> switchedOut)) (\<lambda>_.
     let iq = iq\<lparr>iqWb := iqWb iq - 1\<rparr> in
     bindE (if unit > -1 then freeUnitNextCycle (nat unit) (iqPool iq) else Inr (iqPool iq)) (\<lambda>p.
       Inr (iq\<lparr>iqPool := p, iqToExecPrev := iqToExecPrev iq + 1, iqToExecute := iqToExecute iq @ [sn]\<rparr>)))"

definition scheduleNonSpec :: "iq_cfg \<Rightarrow> nat \<Rightarrow> inst_queue \<Rightarrow> inst_queue res" where
  "scheduleNonSpec C sn iq =
     bindE (assertE (sn \<in> iqNonSpec iq)) (\<lambda>_.
     let iq = iq_upd sn (\<lambda>i. set_status CanIssue (set_status AtCommit i)) iq;
         i = iqInst iq sn; t = diTid i in
     bindE (if \<not> has_prop IsMemRef i then addIfReady C sn iq
            else bindE (md_nonSpecInstReady i (iqMemDep iq t)) (\<lambda>out.
                   foldE (addReadyMemInst C) out iq)) (\<lambda>iq.
       Inr (iq\<lparr>iqNonSpec := iqNonSpec iq - {sn}\<rparr>)))"

definition iq_commit :: "iq_cfg \<Rightarrow> nat \<Rightarrow> nat \<Rightarrow> inst_queue \<Rightarrow> inst_queue res" where
  "iq_commit C sn t iq =
     (let iq = iq\<lparr>iqList := (iqList iq)(t := dropWhile (\<lambda>s. s \<le> sn) (iqList iq t))\<rparr> in
      bindE (check_count C iq) (\<lambda>_. Inr iq))"

section \<open>Wake-up\<close>

text \<open>One instruction of the chain of a register, and the chain, which empties the list.\<close>

definition wake_dependent :: "iq_cfg \<Rightarrow> nat \<Rightarrow> inst_queue \<Rightarrow> inst_queue res" where
  "wake_dependent C sn iq = addIfReady C sn (iq_upd sn markRegReady iq)"

lemma addReadyMemInst_graph: "foldE (addReadyMemInst C) out iq = Inr iq' \<Longrightarrow> iqGraph iq' = iqGraph iq"
  by (induction out arbitrary: iq) (auto simp: addReadyMemInst_def bindE_ok dest!: push_ready_frame(9))

lemma addIfReady_graph: "addIfReady C sn iq = Inr iq' \<Longrightarrow> iqGraph iq' = iqGraph iq"
  by (auto simp: addIfReady_def set_memDep_def Let_def bindE_ok split_beta
        dest!: addReadyMemInst_graph push_ready_frame(9) split: if_splits)

lemma dg_pop_Some:
  assumes "dg_pop r g = Inr (Some d, g')"
  shows "r < length g" "snd (g ! r) = d # snd (g' ! r)" "g' = g[r := (fst (g ! r), snd (g' ! r))]"
  using assms by (auto simp: dg_pop_def vecGet_def vecSet_def bindE_def split: list.splits if_splits prod.splits)

function wake_chain :: "iq_cfg \<Rightarrow> nat \<Rightarrow> nat \<Rightarrow> inst_queue \<Rightarrow> (nat \<times> inst_queue) res" where
  "wake_chain C r n iq =
     bindE (dg_pop r (iqGraph iq)) (\<lambda>p.
       case p of
         (None, g) \<Rightarrow> Inr (n, iq\<lparr>iqGraph := g\<rparr>)
       | (Some d, g) \<Rightarrow>
           bindE (wake_dependent C d (iq\<lparr>iqGraph := g\<rparr>)) (\<lambda>iq. wake_chain C r (n + 1) iq))"
  by pat_completeness auto
termination
  by (relation "measure (\<lambda>(C, r, n, iq). length (snd (iqGraph iq ! r)))")
     (auto simp: wake_dependent_def iq_upd_def dest!: addIfReady_graph dg_pop_Some(2))

declare wake_chain.simps [simp del]

text \<open>
  One destination register: a write to it is counted off its pinned writes; when it was the last,
  its dependents are woken, the head of its list is cleared and the scoreboard has it ready.
\<close>

definition count_write :: "iq_cfg \<Rightarrow> nat \<Rightarrow> phys_reg \<Rightarrow> inst_queue \<Rightarrow> inst_queue res" where
  "count_write C sn reg iq =
     (let pc = iqPins iq;
          iq = iq\<lparr>iqPins := pc\<lparr>pinnedToComplete := (pinnedToComplete pc)(reg := pinnedToComplete pc reg - 1)\<rparr>\<rparr> in
      if icPinned C reg
      then bindE (setPinnedRegsWritten (iqInst iq sn)) (\<lambda>i. Inr (iq_upd sn (\<lambda>_. i) iq))
      else Inr iq)"

definition release_register :: "iq_cfg \<Rightarrow> nat \<Rightarrow> nat \<Rightarrow> inst_queue \<Rightarrow> (nat \<times> inst_queue) res" where
  "release_register C r n iq =
     bindE (wake_chain C r n iq) (\<lambda>(n, iq).
     bindE (dg_emptyAt r (iqGraph iq)) (\<lambda>e.
     bindE (assertE e) (\<lambda>_.
     bindE (dg_clearInst r (iqGraph iq)) (\<lambda>g.
     bindE (vecSet (iqScore iq) r True) (\<lambda>sc.
       Inr (n, iq\<lparr>iqGraph := g, iqScore := sc\<rparr>))))))"

definition wake_register :: "iq_cfg \<Rightarrow> nat \<Rightarrow> phys_reg \<Rightarrow> nat \<times> inst_queue \<Rightarrow> (nat \<times> inst_queue) res" where
  "wake_register C sn reg = (\<lambda>(n, iq).
     if icFixed C reg then Inr (n, iq)
     else
       bindE (count_write C sn reg iq) (\<lambda>iq.
         if pinnedToComplete (iqPins iq) reg \<noteq> 0 then Inr (n, iq)
         else release_register C (prFlat reg) n iq))"

text \<open>
  The first part of \<open>wakeDependents\<close>, for an instruction that the memory dependence unit knows,
  and the whole.  The result is the number of dependents.
\<close>

definition complete_mem :: "iq_cfg \<Rightarrow> nat \<Rightarrow> inst_queue \<Rightarrow> inst_queue res" where
  "complete_mem C sn iq =
     (let i = iqInst iq sn; t = diTid i;
          complete = bindE (md_completeInst i (iqMemDep iq t)) (\<lambda>(md, out).
            foldE (addReadyMemInst C) out (set_memDep t md iq)) in
      if has_prop IsMemRef i then
        bindE complete (\<lambda>iq.
          Inr (count_down t (iq_upd sn (set_flag MemOpDone) (iq\<lparr>iqFree := iqFree iq + 1\<rparr>))))
      else if has_prop IsReadBarrier i \<or> has_prop IsWriteBarrier i then complete
      else Inr iq)"

definition wakeDependents :: "iq_cfg \<Rightarrow> nat \<Rightarrow> inst_queue \<Rightarrow> (nat \<times> inst_queue) res" where
  "wakeDependents C sn iq =
     bindE (assertE (\<not> has_status Squashed (iqInst iq sn))) (\<lambda>_.
     bindE (complete_mem C sn iq) (\<lambda>iq.
       foldE (wake_register C sn) (diDests (iqInst iq sn)) (0, iq)))"

section \<open>Squash\<close>

definition iq_violation :: "nat \<Rightarrow> nat \<Rightarrow> inst_queue \<Rightarrow> inst_queue res" where
  "iq_violation store load iq =
     (let t = diTid (iqInst iq store) in
      bindE (md_violation (iqInst iq store) (iqInst iq load) (iqMemDep iq t)) (\<lambda>md.
        Inr (set_memDep t md iq)))"

definition acq_rel :: "dyn_inst \<Rightarrow> bool" where
  "acq_rel i \<longleftrightarrow> has_prop IsFullMemBarrier i \<and>
     (has_prop IsLoad i \<or> (has_prop IsStore i \<and> \<not> has_prop IsStoreConditional i))"

definition in_dep_graph :: "dyn_inst \<Rightarrow> bool" where
  "in_dep_graph i \<longleftrightarrow> acq_rel i \<or>
     (\<not> has_prop IsNonSpeculative i \<and> \<not> has_prop IsStoreConditional i \<and> \<not> has_prop IsAtomic i \<and>
      \<not> has_prop IsReadBarrier i \<and> \<not> has_prop IsWriteBarrier i)"

definition remove_source :: "iq_cfg \<Rightarrow> nat \<Rightarrow> nat \<Rightarrow> inst_queue \<Rightarrow> inst_queue res" where
  "remove_source C sn k iq =
     bindE (vecGet (diSrcs (iqInst iq sn)) k) (\<lambda>reg.
     bindE (vecGet (diReadySrc (iqInst iq sn)) k) (\<lambda>ready.
       if \<not> ready \<and> \<not> icFixed C reg
       then bindE (dg_remove (prFlat reg) sn (iqGraph iq)) (\<lambda>g. Inr (iq\<lparr>iqGraph := g\<rparr>))
       else Inr iq))"

text \<open>
  An instruction that has not issued, or a memory instruction that is not finished, is taken out
  of the dependence graph or of the non-speculative instructions; it is marked so that it flows
  through the rest of the pipeline, and its entry is free.
\<close>

definition squash_waiting :: "iq_cfg \<Rightarrow> nat \<Rightarrow> inst_queue \<Rightarrow> inst_queue res" where
  "squash_waiting C sn iq =
     (let i = iqInst iq sn in
      bindE (if in_dep_graph i then foldE (remove_source C sn) [0..<length (diSrcs i)] iq
             else if \<not> has_prop IsStoreConditional i \<or> \<not> has_status Completed i then
               (if sn \<notin> iqNonSpec iq
                then bindE (assertE (diFault i \<noteq> None \<or> has_prop IsMemRef i \<or> has_flag Runahead i)) (\<lambda>_. Inr iq)
                else Inr (iq\<lparr>iqNonSpec := iqNonSpec iq - {sn}\<rparr>))
             else Inr iq) (\<lambda>iq.
        let iq = iq_upd sn (\<lambda>i. reset_status IqEntry (set_status CanCommit (set_status Issued (setSquashedInIQ i)))) iq in
        Inr (let iq = count_down (diTid (iqInst iq sn)) iq in iq\<lparr>iqFree := iqFree iq + 1\<rparr>)))"

definition clear_dest :: "iq_cfg \<Rightarrow> phys_reg \<Rightarrow> inst_queue \<Rightarrow> inst_queue res" where
  "clear_dest C reg iq =
     (if icFixed C reg then Inr iq
      else
        bindE (dg_emptyAt (prFlat reg) (iqGraph iq)) (\<lambda>e.
        bindE (assertE e) (\<lambda>_.
        bindE (dg_clearInst (prFlat reg) (iqGraph iq)) (\<lambda>g. Inr (iq\<lparr>iqGraph := g\<rparr>)))))"

definition iq_squash_one :: "iq_cfg \<Rightarrow> nat \<Rightarrow> inst_queue \<Rightarrow> inst_queue res" where
  "iq_squash_one C sn iq =
     (let i = iqInst iq sn in
      bindE (if \<not> has_status Issued i \<or> (has_prop IsMemRef i \<and> \<not> has_flag MemOpDone i)
             then squash_waiting C sn iq else Inr iq) (\<lambda>iq.
        foldE (clear_dest C) (diDests i) iq))"

text \<open>
  The loop of \<open>doSquash\<close> goes from the youngest instruction of the thread to the oldest, until it
  meets one that is not younger than \<open>sq\<close>.  It steps over instructions that are squashed in the
  queue already (\<open>skipped\<close>, which stay on the list) and erases the others.
\<close>

fun squash_walk :: "iq_cfg \<Rightarrow> nat \<Rightarrow> nat \<Rightarrow> nat list \<Rightarrow> nat list \<Rightarrow> inst_queue \<Rightarrow> inst_queue res" where
  "squash_walk C t sq skipped [] iq = Inr (iq\<lparr>iqList := (iqList iq)(t := skipped)\<rparr>)"
| "squash_walk C t sq skipped (sn # xs) iq =
     (if \<not> sn > sq then Inr (iq\<lparr>iqList := (iqList iq)(t := rev (sn # xs) @ skipped)\<rparr>)
      else if diTid (iqInst iq sn) \<noteq> t \<or> has_status SquashedInIQ (iqInst iq sn)
      then squash_walk C t sq (sn # skipped) xs iq
      else bindE (iq_squash_one C sn iq) (squash_walk C t sq skipped xs))"

definition iq_doSquash :: "iq_cfg \<Rightarrow> nat \<Rightarrow> inst_queue \<Rightarrow> inst_queue res" where
  "iq_doSquash C t iq = squash_walk C t (iqSquashedSeq iq t) [] (rev (iqList iq t)) iq"

text \<open>\<open>doneSeq\<close> is the sequence number that the commit stage sent (\<open>doneSeqNum\<close>).\<close>

definition iq_squash :: "iq_cfg \<Rightarrow> nat \<Rightarrow> nat \<Rightarrow> inst_queue \<Rightarrow> inst_queue res" where
  "iq_squash C doneSeq t iq =
     bindE (iq_doSquash C t (iq\<lparr>iqSquashedSeq := (iqSquashedSeq iq)(t := doneSeq)\<rparr>)) (\<lambda>iq.
     bindE (md_squash (iqSquashedSeq iq t) t (iqMemDep iq t)) (\<lambda>md. Inr (set_memDep t md iq)))"

end
