(* ===== verification/InstQueueAge.thy ===== *)
theory InstQueueAge
  imports InstQueueWake
begin

text \<open>
  The age order of the issue queue: \<open>listOrder\<close> has one node for each operation class with ready
  instructions, which names the oldest of them, and the nodes are sorted by age.  The first node
  is therefore the oldest ready instruction of the queue.
\<close>

section \<open>The queues of ready instructions\<close>

text \<open>What the issue queue relies on of \<open>std::priority_queue\<close> with \<open>PqCompare\<close>.\<close>

locale ready_queue =
  fixes push :: "nat \<Rightarrow> 'q \<Rightarrow> 'q" and top :: "'q \<Rightarrow> nat" and pop :: "'q \<Rightarrow> 'q"
    and elems :: "'q \<Rightarrow> nat multiset" and good :: "'q \<Rightarrow> bool"
  assumes good_push: "good q \<Longrightarrow> good (push x q)"
    and elems_push: "good q \<Longrightarrow> elems (push x q) = add_mset x (elems q)"
    and good_pop: "good q \<Longrightarrow> elems q \<noteq> {#} \<Longrightarrow> good (pop q)"
    and elems_pop: "good q \<Longrightarrow> elems q \<noteq> {#} \<Longrightarrow> elems (pop q) = elems q - {#top q#}"
    and top_in: "good q \<Longrightarrow> elems q \<noteq> {#} \<Longrightarrow> top q \<in># elems q"
    and top_least: "good q \<Longrightarrow> x \<in># elems q \<Longrightarrow> top q \<le> x"
begin

lemma top_push:
  assumes "good q"
  shows "top (push x q) = (if elems q = {#} then x else min x (top q))"
proof -
  let ?q = "push x q"
  have g: "good ?q" "elems ?q = add_mset x (elems q)" using good_push elems_push assms by auto
  then have t: "top ?q \<in># add_mset x (elems q)" "\<And>y. y \<in># add_mset x (elems q) \<Longrightarrow> top ?q \<le> y"
    using top_in[OF g(1)] top_least[OF g(1)] by auto
  show ?thesis
  proof (cases "elems q = {#}")
    case True
    then show ?thesis using t(1) by simp
  next
    case False
    then have "top q \<in># elems q" "\<And>y. y \<in># elems q \<Longrightarrow> top q \<le> y"
      using top_in[OF assms] top_least[OF assms] by auto
    then show ?thesis using t False by (intro antisym) (auto simp: min_def intro: order.trans)
  qed
qed

lemma top_pop_younger:
  assumes "good q" "elems q \<noteq> {#}" "elems (pop q) \<noteq> {#}"
  shows "top q \<le> top (pop q)"
  using top_in[OF good_pop[OF assms(1,2)] assms(3)] elems_pop[OF assms(1,2)]
  by (auto intro: top_least[OF assms(1)] dest: in_diffD)

lemma top_is_Min: "good q \<Longrightarrow> elems q \<noteq> {#} \<Longrightarrow> top q = Min (set_mset (elems q))"
  using top_in top_least by (intro Min_eqI[symmetric]) auto

end

interpretation pq: ready_queue insort hd tl mset sorted
proof
  fix q :: "nat list" and x
  show "sorted q \<Longrightarrow> sorted (insort x q)" by (simp add: sorted_insort)
  show "mset (insort x q) = add_mset x (mset q)" by simp
  show "sorted q \<Longrightarrow> mset q \<noteq> {#} \<Longrightarrow> sorted (tl q)" by (simp add: sorted_tl)
  show "mset q \<noteq> {#} \<Longrightarrow> mset (tl q) = mset q - {#hd q#}" by (cases q) auto
  show "mset q \<noteq> {#} \<Longrightarrow> hd q \<in># mset q" by simp
  show "sorted q \<Longrightarrow> x \<in># mset q \<Longrightarrow> hd q \<le> x" by (cases q) auto
qed

section \<open>The age order\<close>

text \<open>The nodes agree with the ready queues and their flags; the list is sorted by age.\<close>

definition age_order :: "(nat \<Rightarrow> nat list) \<Rightarrow> (nat \<Rightarrow> bool) \<Rightarrow> (nat \<times> nat) list \<Rightarrow> bool" where
  "age_order ready onList order \<longleftrightarrow>
     distinct (map fst order) \<and> sorted (map snd order) \<and>
     (\<forall>c. sorted (ready c) \<and> (onList c \<longleftrightarrow> ready c \<noteq> []) \<and>
        map_of order c = (if ready c = [] then None else Some (hd (ready c))))"

definition iq_age :: "inst_queue \<Rightarrow> bool" where
  "iq_age iq \<longleftrightarrow> age_order (iqReady iq) (iqOnList iq) (iqOrder iq)"

lemma age_order_empty [simp]: "age_order (\<lambda>_. []) (\<lambda>_. False) []"
  by (simp add: age_order_def)

lemma ord_insert_mset [simp]: "mset (ord_insert e xs) = add_mset e (mset xs)"
  by (induction e xs rule: ord_insert.induct) auto

lemma ord_insert_sets [simp]: "set (ord_insert e xs) = insert e (set xs)"
  "set (ord_insert_younger e xs) = insert e (set xs)"
  by (metis mset_eq_setD ord_insert_mset list.set(2) mset.simps(2))
     (metis mset_eq_setD ord_insert_younger_mset list.set(2) mset.simps(2))

lemma ord_insert_sorted:
  "sorted (map snd xs) \<Longrightarrow> sorted (map snd (ord_insert e xs))"
  "sorted (map snd xs) \<Longrightarrow> sorted (map snd (ord_insert_younger e xs))"
  by (induction e xs rule: ord_insert.induct) (auto simp: not_less)

lemma perm_keys:
  assumes "mset ys = mset xs"
  shows "distinct (map fst ys) = distinct (map fst xs)" "distinct (map fst xs) \<Longrightarrow> map_of ys = map_of xs"
proof -
  have "mset (map fst ys) = mset (map fst xs)" using assms by simp
  then show d: "distinct (map fst ys) = distinct (map fst xs)" by (rule mset_eq_imp_distinct_iff)
  show "map_of ys = map_of xs" if "distinct (map fst xs)"
    using that d assms by (intro map_of_inject_set[THEN iffD2]) (auto dest: mset_eq_setD)
qed

text \<open>Any reordering of the nodes that is sorted by age will do.\<close>

lemma age_order_perm:
  assumes "age_order ready onList order" "mset order' = mset order" "sorted (map snd order')"
  shows "age_order ready onList order'"
  using assms perm_keys[OF assms(2)] by (auto simp: age_order_def)

text \<open>A new node, and the removal of one.\<close>

lemma age_order_add:
  assumes "age_order ready onList order" "ready c = []" "q \<noteq> []" "sorted q"
    and "mset order' = add_mset (c, hd q) (mset order)" "sorted (map snd order')"
  shows "age_order (ready(c := q)) (onList(c := True)) order'"
proof -
  have c: "map_of order c = None" using assms(1,2) by (simp add: age_order_def)
  have m: "mset order' = mset ((c, hd q) # order)" using assms(5) by simp
  have d: "distinct (map fst ((c, hd q) # order))"
    using assms(1) c[unfolded map_of_eq_None_iff] by (simp add: age_order_def)
  from perm_keys[OF m] d have "distinct (map fst order')" "map_of order' = map_of ((c, hd q) # order)"
    by blast+
  then show ?thesis using assms by (auto simp: age_order_def)
qed

lemma age_order_del:
  assumes "age_order ready onList order" "mset order = add_mset (c, sn) (mset rest)" "sorted (map snd rest)"
  shows "age_order (ready(c := [])) (onList(c := False)) rest"
proof -
  have m: "mset order = mset ((c, sn) # rest)" using assms(2) by simp
  have d: "distinct (map fst ((c, sn) # rest))"
    using assms(1) perm_keys(1)[OF m] by (simp add: age_order_def)
  have "map_of order = map_of ((c, sn) # rest)" by (rule perm_keys(2)[OF m d])
  then have "\<And>e. map_of rest e = (if e = c then None else map_of order e)"
    using d by (auto simp: map_of_eq_None_iff)
  then show ?thesis using assms d by (auto simp: age_order_def)
qed

section \<open>Pushes and pops\<close>

text \<open>A push finds the iterator of its class and keeps the order.\<close>

lemma age_order_same_top:
  assumes "age_order ready onList order" "ready c \<noteq> []" "q \<noteq> []" "sorted q" "hd q = hd (ready c)"
  shows "age_order (ready(c := q)) onList order"
  using assms by (auto simp: age_order_def)

lemma age_order_node:
  assumes "age_order ready onList order" "ready c \<noteq> []"
  shows "(c, hd (ready c)) \<in> set order"
  using assms by (auto simp: age_order_def intro: map_of_SomeD)

lemma delete_node:
  assumes "age_order ready onList order" "ready c \<noteq> []"
  shows "mset order = add_mset (c, hd (ready c)) (mset (AList.delete c order))"
    "sorted (map snd (AList.delete c order))"
proof -
  have d: "distinct (map fst order)" "sorted (map snd order)" using assms(1) by (auto simp: age_order_def)
  have f: "AList.delete c order = filter (\<lambda>e. fst e \<noteq> c) order" by (auto simp: AList.delete_eq case_prod_unfold intro!: filter_cong)
  show "sorted (map snd (AList.delete c order))" using d(2) by (simp add: f sorted_filter)
  have "(c, hd (ready c)) \<in> set order" by (rule age_order_node[OF assms])
  then have "filter (\<lambda>e. fst e = c) order = [(c, hd (ready c))]"
    using d(1) by (induction order) (auto simp: image_iff filter_empty_conv intro!: filter_False)
  moreover have "mset order = mset (filter (\<lambda>e. fst e = c) order) + mset (filter (\<lambda>e. fst e \<noteq> c) order)"
    by (simp add: multiset_partition)
  ultimately show "mset order = add_mset (c, hd (ready c)) (mset (AList.delete c order))" by (simp add: f)
qed

lemma push_ready_ok:
  assumes "iq_age iq"
  shows "\<exists>iq'. push_ready c sn iq = Inr iq' \<and> iq_age iq'"
proof -
  let ?q = "insort sn (iqReady iq c)"
  note age = assms[unfolded iq_age_def]
  have sq: "sorted ?q" "?q \<noteq> []" and on: "iqOnList iq c \<longleftrightarrow> iqReady iq c \<noteq> []"
    using age by (auto simp: age_order_def sorted_insort)
  have top: "hd ?q = (if iqReady iq c = [] then sn else min sn (hd (iqReady iq c)))"
    using pq.top_push[of "iqReady iq c" sn] age by (auto simp: age_order_def)
  have so: "sorted (map snd (iqOrder iq))" using age by (simp add: age_order_def)
  show ?thesis
  proof (cases "iqReady iq c = []")
    case True
    then have "age_order ((iqReady iq)(c := ?q)) ((iqOnList iq)(c := True)) (ord_insert (c, hd ?q) (iqOrder iq))"
      using sq by (intro age_order_add[OF age]) (auto simp: so ord_insert_sorted)
    then show ?thesis using True on sq(2) by (auto simp: push_ready_def addToOrderList_def iq_age_def Let_def assertE_def)
  next
    case False
    then have node: "map_of (iqOrder iq) c = Some (hd (iqReady iq c))" using age by (auto simp: age_order_def)
    show ?thesis
    proof (cases "hd ?q < hd (iqReady iq c)")
      case True
      let ?o = "AList.delete c (iqOrder iq)"
      note del = delete_node[OF age False]
      have "age_order ((iqReady iq)(c := [])) ((iqOnList iq)(c := False)) ?o"
        by (rule age_order_del[OF age del])
      from age_order_add[OF this _ sq(2,1), where order' = "ord_insert (c, hd ?q) ?o"]
      have "age_order ((iqReady iq)(c := ?q)) ((iqOnList iq)(c := True)) (ord_insert (c, hd ?q) ?o)"
        by (simp add: del(2) ord_insert_sorted)
      then show ?thesis using True False on node sq(2)
        by (auto simp: push_ready_def addToOrderList_def iq_age_def Let_def assertE_def)
    next
      case same: False
      then have "hd ?q = hd (iqReady iq c)" using top False by (auto simp: min_def split: if_splits)
      then have "age_order ((iqReady iq)(c := ?q)) (iqOnList iq) (iqOrder iq)"
        using age_order_same_top[OF age False sq(2,1)] by simp
      then show ?thesis using same False on node sq(2)
        by (auto simp: push_ready_def iq_age_def Let_def)
    qed
  qed
qed

text \<open>
  The loop of \<open>scheduleReadyInsts\<close> stands at a node behind the nodes \<open>ps\<close>; the pop of its class
  leaves the order intact, and what is left behind the iterator is not older than the node was.
\<close>

lemma sorted_middle:
  assumes "sorted (xs @ (y::nat) # ys)" "sorted zs" "\<forall>z \<in> set zs. z = y' \<or> z \<in> set ys" "y \<le> y'"
  shows "sorted (xs @ zs)"
  using assms by (fastforce simp: sorted_append)

lemma pop_class_age:
  assumes "age_order (iqReady iq) (iqOnList iq) (ps @ (c, sn) # rest)" "pop_class c (iq, rest) = (iq', rest')"
  shows "age_order (iqReady iq') (iqOnList iq') (ps @ rest')" "iqReady iq c \<noteq> []" "sn = hd (iqReady iq c)"
proof -
  let ?o = "ps @ (c, sn) # rest"
  have d: "distinct (map fst ?o)" "sorted (map snd ?o)" using assms(1) by (auto simp: age_order_def)
  have "map_of ?o c = Some sn" using d(1) by (intro map_of_is_SomeI) auto
  then show ne: "iqReady iq c \<noteq> []" and sn: "sn = hd (iqReady iq c)"
    using assms(1) by (auto simp: age_order_def split: if_splits)
  have sr: "sorted (map snd ps @ map snd rest)" using d(2) by (auto simp: sorted_append)
  have del: "age_order ((iqReady iq)(c := [])) ((iqOnList iq)(c := False)) (ps @ rest)"
    by (rule age_order_del[OF assms(1), of _ sn]) (use sr in simp_all)
  let ?q = "tl (iqReady iq c)"
  show "age_order (iqReady iq') (iqOnList iq') (ps @ rest')"
  proof (cases "?q = []")
    case True
    then have "iqReady iq' = (iqReady iq)(c := [])" "iqOnList iq' = (iqOnList iq)(c := False)" "rest' = rest"
      using assms(2) by (auto simp: pop_class_def Let_def)
    then show ?thesis using del by simp
  next
    case False
    then have r: "iqReady iq' = (iqReady iq)(c := ?q)" "iqOnList iq' = iqOnList iq"
        "rest' = ord_insert_younger (c, hd ?q) rest"
      using assms(2) by (auto simp: pop_class_def Let_def moveToYoungerInst_def)
    have s: "sorted (iqReady iq c)" using assms(1) by (simp add: age_order_def)
    have y: "sn \<le> hd ?q" using pq.top_pop_younger[OF s] ne False sn by simp
    have "sorted (map snd ps @ map snd rest')"
    proof (rule sorted_middle)
      show "sorted (map snd ps @ sn # map snd rest)" using d(2) by simp
      show "sorted (map snd rest')" using sr r(3) ord_insert_sorted(2) by (auto simp: sorted_append)
    qed (use r(3) y in auto)
    moreover have "iqOnList iq c" using assms(1) ne by (auto simp: age_order_def)
    moreover have "mset (ps @ rest') = add_mset (c, hd ?q) (mset (ps @ rest))" using r(3) by simp
    ultimately have "age_order (((iqReady iq)(c := []))(c := ?q)) (((iqOnList iq)(c := False))(c := True)) (ps @ rest')"
      using False s by (intro age_order_add[OF del]) (auto simp: sorted_tl)
    then show ?thesis using r \<open>iqOnList iq c\<close> by (simp add: fun_upd_idem)
  qed
qed

end
