(* ===== verification/InstQueueInv.thy ===== *)
theory InstQueueInv
  imports InstQueueAge
begin

text \<open>
  The invariant of the issue queue: the age order, and the account of its entries, by which the
  free entries and the entries of the threads add up to the size of the queue.  Every operation
  keeps it.
\<close>

section \<open>The invariant\<close>

definition iq_entries :: "inst_queue \<Rightarrow> 32 word" where
  "iq_entries iq = iqFree iq + (\<Sum>t < maxThreads. iqCount iq t)"

text \<open>With \<open>order\<close> in the place of \<open>listOrder\<close>, which the loop of the issue takes apart.\<close>

definition iq_at :: "32 word \<Rightarrow> (nat \<times> nat) list \<Rightarrow> inst_queue \<Rightarrow> bool" where
  "iq_at k order iq \<longleftrightarrow> age_order (iqReady iq) (iqOnList iq) order \<and> iq_entries iq = k \<and>
     (\<forall>sn. diTid (iqInst iq sn) < maxThreads)"

definition iq_good :: "32 word \<Rightarrow> inst_queue \<Rightarrow> bool" where
  "iq_good k iq \<longleftrightarrow> iq_at k (iqOrder iq) iq"

lemma iq_good_age: "iq_good k iq \<Longrightarrow> iq_age iq"
  by (simp add: iq_good_def iq_at_def iq_age_def)

lemma iq_good_tid: "iq_good k iq \<Longrightarrow> diTid (iqInst iq sn) < maxThreads"
  by (simp add: iq_good_def iq_at_def)

lemma iq_good_entries: "iq_good k iq \<Longrightarrow> iq_entries iq = k"
  by (simp add: iq_good_def iq_at_def)

text \<open>What the invariant does not speak of.\<close>

lemma iq_at_frame:
  assumes "iq_at k order iq" "iqReady iq' = iqReady iq" "iqOnList iq' = iqOnList iq"
    "iqFree iq' = iqFree iq" "iqCount iq' = iqCount iq"
    "\<And>sn. diTid (iqInst iq' sn) = diTid (iqInst iq sn)"
  shows "iq_at k order iq'"
  using assms by (simp add: iq_at_def iq_entries_def)

lemma iq_good_frame:
  assumes "iq_good k iq" "iqReady iq' = iqReady iq" "iqOnList iq' = iqOnList iq"
    "iqOrder iq' = iqOrder iq" "iqFree iq' = iqFree iq" "iqCount iq' = iqCount iq"
    "\<And>sn. diTid (iqInst iq' sn) = diTid (iqInst iq sn)"
  shows "iq_good k iq'"
  using assms iq_at_frame[of k "iqOrder iq" iq iq'] by (simp add: iq_good_def)

lemma iq_at_other [simp]:
  "iq_at k order (iq\<lparr>iqGraph := x0\<rparr>) = iq_at k order iq"
  "iq_at k order (iq\<lparr>iqScore := x1\<rparr>) = iq_at k order iq"
  "iq_at k order (iq\<lparr>iqPool := x2\<rparr>) = iq_at k order iq"
  "iq_at k order (iq\<lparr>iqPins := x3\<rparr>) = iq_at k order iq"
  "iq_at k order (iq\<lparr>iqNonSpec := x4\<rparr>) = iq_at k order iq"
  "iq_at k order (iq\<lparr>iqList := x5\<rparr>) = iq_at k order iq"
  "iq_at k order (iq\<lparr>iqToExecute := x6\<rparr>) = iq_at k order iq"
  "iq_at k order (iq\<lparr>iqToExecSize := x7\<rparr>) = iq_at k order iq"
  "iq_at k order (iq\<lparr>iqToExecPrev := x8\<rparr>) = iq_at k order iq"
  "iq_at k order (iq\<lparr>iqWb := x9\<rparr>) = iq_at k order iq"
  "iq_at k order (iq\<lparr>iqEvents := x10\<rparr>) = iq_at k order iq"
  "iq_at k order (iq\<lparr>iqDeferred := x11\<rparr>) = iq_at k order iq"
  "iq_at k order (iq\<lparr>iqBlocked := x12\<rparr>) = iq_at k order iq"
  "iq_at k order (iq\<lparr>iqRetry := x13\<rparr>) = iq_at k order iq"
  "iq_at k order (iq\<lparr>iqMax := x14\<rparr>) = iq_at k order iq"
  "iq_at k order (iq\<lparr>iqSquashedSeq := x15\<rparr>) = iq_at k order iq"
  by (simp_all add: iq_at_def iq_entries_def)

lemma iq_good_other [simp]:
  "iq_good k (iq\<lparr>iqGraph := x0\<rparr>) = iq_good k iq"
  "iq_good k (iq\<lparr>iqScore := x1\<rparr>) = iq_good k iq"
  "iq_good k (iq\<lparr>iqPool := x2\<rparr>) = iq_good k iq"
  "iq_good k (iq\<lparr>iqPins := x3\<rparr>) = iq_good k iq"
  "iq_good k (iq\<lparr>iqNonSpec := x4\<rparr>) = iq_good k iq"
  "iq_good k (iq\<lparr>iqList := x5\<rparr>) = iq_good k iq"
  "iq_good k (iq\<lparr>iqToExecute := x6\<rparr>) = iq_good k iq"
  "iq_good k (iq\<lparr>iqToExecSize := x7\<rparr>) = iq_good k iq"
  "iq_good k (iq\<lparr>iqToExecPrev := x8\<rparr>) = iq_good k iq"
  "iq_good k (iq\<lparr>iqWb := x9\<rparr>) = iq_good k iq"
  "iq_good k (iq\<lparr>iqEvents := x10\<rparr>) = iq_good k iq"
  "iq_good k (iq\<lparr>iqDeferred := x11\<rparr>) = iq_good k iq"
  "iq_good k (iq\<lparr>iqBlocked := x12\<rparr>) = iq_good k iq"
  "iq_good k (iq\<lparr>iqRetry := x13\<rparr>) = iq_good k iq"
  "iq_good k (iq\<lparr>iqMax := x14\<rparr>) = iq_good k iq"
  "iq_good k (iq\<lparr>iqSquashedSeq := x15\<rparr>) = iq_good k iq"
  by (simp_all add: iq_good_def)

lemma iq_good_set_memDep [simp]: "iq_good k (set_memDep t md iq) = iq_good k iq"
  by (auto simp: iq_good_def iq_at_def iq_entries_def set_memDep_def)

lemma iq_good_upd: "iq_good k iq \<Longrightarrow> (\<And>i. diTid (f i) = diTid i) \<Longrightarrow> iq_good k (iq_upd sn f iq)"
  by (erule iq_good_frame) (auto simp: iq_upd_def)

lemma iq_good_set: "iq_good k iq \<Longrightarrow> diTid i = diTid (iqInst iq sn) \<Longrightarrow> iq_good k (iq_upd sn (\<lambda>_. i) iq)"
  by (erule iq_good_frame) (auto simp: iq_upd_def)

lemma tid_simps [simp]:
  "diTid (reset_flag f i) = diTid i" "diTid (markRegReady i) = diTid i" "diTid (setSquashedInIQ i) = diTid i"
  by (simp_all add: reset_flag_def markRegReady_def setSquashedInIQ_def Let_def)

lemma tid_ops:
  "setPoisoned i = Inr j \<Longrightarrow> diTid j = diTid i" "setPinnedRegsWritten i = Inr j \<Longrightarrow> diTid j = diTid i"
  "markSrcRegReady k i = Inr j \<Longrightarrow> diTid j = diTid i"
  by (auto simp: setPoisoned_def setPinnedRegsWritten_def markSrcRegReady_def Let_def bindE_ok)

text \<open>The counters.\<close>

lemma sum_at:
  fixes f :: "nat \<Rightarrow> 32 word"
  assumes "t < n"
  shows "(\<Sum>u<n. (f(t := x)) u) = (\<Sum>u<n. f u) - f t + x"
proof -
  have "(\<Sum>u<n. (f(t := x)) u) = x + (\<Sum>u \<in> {..<n} - {t}. (f(t := x)) u)"
    using assms by (subst sum.remove[of _ t]) auto
  also have "(\<Sum>u \<in> {..<n} - {t}. (f(t := x)) u) = (\<Sum>u \<in> {..<n} - {t}. f u)" by (rule sum.cong) auto
  also have "\<dots> = (\<Sum>u<n. f u) - f t" using assms by (subst (2) sum.remove[of _ t]) auto
  finally show ?thesis by simp
qed

lemma iq_at_counts:
  assumes "iq_at k order iq" "t < maxThreads"
  shows "iq_at (k + 1) order (count_up t iq)" "iq_at (k - 1) order (count_down t iq)"
    "iq_at (k + 1) order (iq\<lparr>iqFree := iqFree iq + 1\<rparr>)" "iq_at (k - 1) order (iq\<lparr>iqFree := iqFree iq - 1\<rparr>)"
  using assms sum_at[OF assms(2), of "iqCount iq"]
  by (auto simp: iq_at_def iq_entries_def count_up_def count_down_def)

lemma iq_good_counts:
  assumes "iq_good k iq" "t < maxThreads"
  shows "iq_good (k + 1) (count_up t iq)" "iq_good (k - 1) (count_down t iq)"
    "iq_good (k + 1) (iq\<lparr>iqFree := iqFree iq + 1\<rparr>)" "iq_good (k - 1) (iq\<lparr>iqFree := iqFree iq - 1\<rparr>)"
  using iq_at_counts[OF assms(1)[unfolded iq_good_def] assms(2)]
  by (auto simp: iq_good_def count_up_def count_down_def)

section \<open>Ready instructions\<close>

lemma push_ready_good:
  assumes "iq_good k iq"
  shows "on_ok (push_ready c sn iq) (iq_good k)"
proof (rule on_okI)
  fix iq'
  assume r: "push_ready c sn iq = Inr iq'"
  then have "iq_age iq'" using push_ready_ok[OF iq_good_age[OF assms], of c sn] by auto
  then show "iq_good k iq'" using assms push_ready_frame[OF r]
    by (simp add: iq_good_def iq_at_def iq_age_def iq_entries_def)
qed

lemma handed_over_good: "iq_good k iq \<Longrightarrow> on_ok (foldE (addReadyMemInst C) out iq) (iq_good k)"
  by (rule on_ok_foldE) (auto simp: addReadyMemInst_def intro: push_ready_good)

lemma addIfReady_good: "iq_good k iq \<Longrightarrow> on_ok (addIfReady C sn iq) (iq_good k)"
  by (auto simp: addIfReady_def Let_def intro!: push_ready_good handed_over_good
        on_ok_mono[OF on_ok_any[of "md_regsReady i md" for i md]])

section \<open>Insertion\<close>

lemma take_entry_good:
  assumes "iq_good k iq"
  shows "on_ok (take_entry sn iq) (iq_good (k - 1))"
proof -
  let ?t = "diTid (iqInst iq sn)"
  let ?a = "iq\<lparr>iqList := (iqList iq)(?t := iqList iq ?t @ [sn])\<rparr>"
  have "iq_good (k - 1) (?a\<lparr>iqFree := iqFree ?a - 1\<rparr>)"
    using iq_good_counts(4)[of k ?a ?t] assms iq_good_tid[OF assms] by simp
  then show ?thesis by (simp add: take_entry_def Let_def iq_good_upd)
qed

lemma add_source_good: "iq_good k iq \<Longrightarrow> on_ok (add_source C sn i iq) (iq_good k)"
  by (auto simp: on_ok_def add_source_def bindE_ok tid_ops(3) intro!: iq_good_set split: if_splits)

lemma addToDependents_good: "iq_good k iq \<Longrightarrow> on_ok (addToDependents C sn iq) (iq_good k)"
  unfolding addToDependents_def by (rule on_ok_foldE) (auto intro: add_source_good)

lemma add_producer_good: "iq_good k iq \<Longrightarrow> on_ok (add_producer C sn r iq) (iq_good k)"
  by (auto simp: on_ok_def add_producer_def bindE_ok split: if_splits)

lemma addToProducers_good: "iq_good k iq \<Longrightarrow> on_ok (addToProducers C sn iq) (iq_good k)"
  unfolding addToProducers_def by (rule on_ok_foldE) (auto intro: add_producer_good)

lemma md_insert_tid: "on_ok (md_insert i md) (\<lambda>(md', j, out). diTid j = diTid i)"
  unfolding md_insert_def Let_def by (auto intro!: on_ok_mono[OF on_ok_any])

lemma announce_good: "iq_good k iq \<Longrightarrow> on_ok (announce C sn iq) (iq_good k)"
  by (auto simp: announce_def Let_def intro!: on_ok_mono[OF md_insert_tid] handed_over_good addIfReady_good iq_good_set)

lemma announceNonSpec_good: "iq_good k iq \<Longrightarrow> on_ok (announceNonSpec sn iq) (iq_good k)"
  by (auto simp: announceNonSpec_def Let_def intro!: on_ok_mono[OF on_ok_any])

lemma counted_good:
  assumes "iq_good (k - 1) q"
  shows "on_ok (check_count C (count_up (diTid (iqInst q sn)) q)) (\<lambda>_. iq_good k (count_up (diTid (iqInst q sn)) q))"
  using iq_good_counts(1)[OF assms iq_good_tid[OF assms], of sn] by (simp add: on_ok_def)

lemma iq_insert_good: "iq_good k iq \<Longrightarrow> on_ok (iq_insert C sn iq) (iq_good k)"
  unfolding iq_insert_def Let_def on_ok_simps
  by (intro on_ok_mono[OF take_entry_good] on_ok_mono[OF addToDependents_good]
        on_ok_mono[OF addToProducers_good] on_ok_mono[OF announce_good] counted_good)

lemma iq_insertNonSpec_good: "iq_good k iq \<Longrightarrow> on_ok (iq_insertNonSpec C sn iq) (iq_good k)"
  unfolding iq_insertNonSpec_def Let_def on_ok_simps
  by (intro on_ok_mono[OF take_entry_good] on_ok_mono[OF addToProducers_good]
        on_ok_mono[OF announceNonSpec_good] counted_good) (simp_all add: iq_good_other)

lemma iq_insertBarrier_good: "iq_good k iq \<Longrightarrow> on_ok (iq_insertBarrier C sn iq) (iq_good k)"
  by (simp add: iq_insertBarrier_def Let_def iq_insertNonSpec_good)

section \<open>Issue\<close>

lemma iq_at_tid: "iq_at k order iq \<Longrightarrow> diTid (iqInst iq sn) < maxThreads"
  by (simp add: iq_at_def)

lemma iq_at_set: "iq_at k order iq \<Longrightarrow> diTid i = diTid (iqInst iq sn) \<Longrightarrow> iq_at k order (iq_upd sn (\<lambda>_. i) iq)"
  by (erule iq_at_frame) (auto simp: iq_upd_def)

lemma iq_at_upd: "iq_at k order iq \<Longrightarrow> (\<And>i. diTid (f i) = diTid i) \<Longrightarrow> iq_at k order (iq_upd sn f iq)"
  by (erule iq_at_frame) (auto simp: iq_upd_def)

lemma iq_at_set_memDep [simp]: "iq_at k order (set_memDep t md iq) = iq_at k order iq"
  by (auto simp: iq_at_def iq_entries_def set_memDep_def)

lemma poison_check_at: "iq_at k order iq \<Longrightarrow> on_ok (poison_check rf sn iq) (iq_at k order)"
  by (auto simp: poison_check_def Let_def on_ok_def bindE_ok intro: iq_at_set tid_ops(1) split: if_splits)

lemma start_execution_at: "iq_at k order iq \<Longrightarrow> on_ok (start_execution now c sn idx lat iq) (iq_at k order)"
  by (auto simp: start_execution_def Let_def on_ok_def bindE_ok split: if_splits)

lemma after_issue_at:
  assumes "iq_at k order iq"
  shows "on_ok (after_issue C tick sn iq) (iq_at k order)"
proof -
  define q where "q = iq_upd sn (mark_issued tick) iq"
  have q: "iq_at k order q" using assms unfolding q_def by (rule iq_at_upd) (simp add: mark_issued_def Let_def)
  let ?t = "diTid (iqInst q sn)"
  have t: "?t < maxThreads" by (rule iq_at_tid[OF q])
  have "iq_at k order (count_down ?t (q\<lparr>iqFree := iqFree q + 1\<rparr>))"
    using iq_at_counts(2)[OF iq_at_counts(3)[OF q t] t] by simp
  then have "iq_at k order (iq_upd sn (reset_status IqEntry) (count_down ?t (q\<lparr>iqFree := iqFree q + 1\<rparr>)))"
    by (rule iq_at_upd) simp
  then show ?thesis using q
    unfolding after_issue_def Let_def q_def[symmetric] by (auto simp: on_ok_def bindE_ok)
qed

lemma pop_class_at:
  assumes "iq_at k (ps @ (c, sn) # rest) iq"
  shows "case pop_class c (iq, rest) of (iq', rest') \<Rightarrow> iq_at k (ps @ rest') iq'"
proof -
  obtain iq' rest' where p: "pop_class c (iq, rest) = (iq', rest')" by fastforce
  have "age_order (iqReady iq') (iqOnList iq') (ps @ rest')"
    using pop_class_age(1)[OF _ p, of ps sn] assms by (simp add: iq_at_def)
  moreover have "iqFree iq' = iqFree iq" "iqCount iq' = iqCount iq" "iqInst iq' = iqInst iq"
    using p by (auto simp: pop_class_def Let_def split: if_splits)
  ultimately show ?thesis using assms p by (simp add: iq_at_def iq_entries_def)
qed

text \<open>The list that the loop holds apart, after a round.\<close>

definition nodes_after :: "(nat \<times> nat) list \<Rightarrow> nat \<times> nat \<Rightarrow> issue_out \<Rightarrow> (nat \<times> nat) list \<Rightarrow> (nat \<times> nat) list" where
  "nodes_after ps e out rest = ps @ (if out = Busy then e # rest else rest)"

lemma issue_one_at:
  assumes "iq_at k (ps @ (c, oldest) # rest) iq"
  shows "on_ok (issue_one C rf now tick c oldest rest iq)
    (\<lambda>(out, iq', rest'). iq_at k (nodes_after ps (c, oldest) out rest') iq')"
  unfolding issue_one_def Let_def on_ok_simps nodes_after_def using assms
  by (auto simp: split_beta intro!: on_ok_mono[OF poison_check_at] on_ok_mono[OF on_ok_any[of "getUnit c p" for c p]]
        on_ok_mono[OF on_ok_any[of "fu_getOpLatency c p" for c p]] on_ok_mono[OF start_execution_at]
        on_ok_mono[OF after_issue_at] pop_class_at[unfolded split_beta])

text \<open>The invariant rule of the loop.\<close>

lemma issue_loop_rule:
  assumes stop: "\<And>n passed order iq. \<not> n < icWidth C \<or> order = [] \<Longrightarrow> P n passed order iq \<Longrightarrow>
      R n (iq\<lparr>iqOrder := rev passed @ order\<rparr>)"
    and step: "\<And>n passed c oldest rest iq out iq' rest'. n < icWidth C \<Longrightarrow> P n passed ((c, oldest) # rest) iq \<Longrightarrow>
      issue_one C rf now tick c oldest rest iq = Inr (out, iq', rest') \<Longrightarrow>
      (case out of Dropped \<Rightarrow> P n passed rest' iq' | Issuing \<Rightarrow> P (n + 1) passed rest' iq'
        | Busy \<Rightarrow> P n ((c, oldest) # passed) rest' iq')"
    and start: "P n passed order iq"
  shows "on_ok (issue_loop C rf now tick n passed order iq) (\<lambda>(n', iq'). R n' iq')"
  using start
proof (induction "issue_work order iq" arbitrary: n passed order iq rule: less_induct)
  case less
  show ?case
  proof (cases "n < icWidth C \<and> order \<noteq> []")
    case False
    then have "issue_loop C rf now tick n passed order iq = Inr (n, iq\<lparr>iqOrder := rev passed @ order\<rparr>)"
      by (subst issue_loop.simps) auto
    then show ?thesis using stop[OF _ less.prems] False by auto
  next
    case True
    then obtain c oldest rest where o: "order = (c, oldest) # rest" by (metis neq_Nil_conv surj_pair)
    let ?m = "issue_one C rf now tick c oldest rest iq"
    let ?k = "\<lambda>r. case r of
        (Dropped, iq, rest) \<Rightarrow> issue_loop C rf now tick n passed rest iq
      | (Issuing, iq, rest) \<Rightarrow> issue_loop C rf now tick (n + 1) passed rest iq
      | (Busy, iq, rest) \<Rightarrow> issue_loop C rf now tick n ((c, oldest) # passed) rest iq"
    have eq: "issue_loop C rf now tick n passed order iq = bindE ?m ?k"
      using True o by (subst issue_loop.simps) simp
    have body: "on_ok (?k r) (\<lambda>(n', iq'). R n' iq')" if r: "?m = Inr r" for r
    proof -
      obtain out iq' rest' where out: "r = (out, iq', rest')" by (cases r)
      have w: "issue_work rest' iq' < issue_work order iq"
        using issue_one_work r out o by blast
      have nx: "case out of Dropped \<Rightarrow> P n passed rest' iq' | Issuing \<Rightarrow> P (n + 1) passed rest' iq'
          | Busy \<Rightarrow> P n ((c, oldest) # passed) rest' iq'"
        using step[of n passed c oldest rest iq out iq' rest'] True less.prems o r out by simp
      show ?thesis
        by (cases out) (use less.hyps[OF w] nx out in simp_all)
    qed
    show ?thesis unfolding eq by (rule on_ok_bindI) (rule body)
  qed
qed

lemma issue_loop_good:
  assumes "iq_at k (rev passed @ order) iq"
  shows "on_ok (issue_loop C rf now tick n passed order iq) (\<lambda>(n', iq'). iq_good k iq')"
proof (rule issue_loop_rule[where P = "\<lambda>n passed order iq. iq_at k (rev passed @ order) iq", OF _ _ assms])
  fix n passed c oldest rest iq out iq' rest'
  assume "iq_at k (rev passed @ (c, oldest) # rest) iq"
    and r: "issue_one C rf now tick c oldest rest iq = Inr (out, iq', rest')"
  from on_okD[OF issue_one_at[OF this(1)] r]
  show "case out of Dropped \<Rightarrow> iq_at k (rev passed @ rest') iq' | Issuing \<Rightarrow> iq_at k (rev passed @ rest') iq'
      | Busy \<Rightarrow> iq_at k (rev ((c, oldest) # passed) @ rest') iq'"
    by (cases out) (simp_all add: nodes_after_def)
qed (simp add: iq_good_def iq_at_def iq_entries_def)

text \<open>The invariant rules of the two loops before it.\<close>

lemma sched_deferred_rule:
  assumes "P iq" "\<And>q. P q \<Longrightarrow> P (snd (getDeferredMemInst q))" "\<And>c sn q. P q \<Longrightarrow> on_ok (push_ready c sn q) P"
  shows "on_ok (sched_deferred C iq) P"
  using assms(1)
proof (induction C iq rule: sched_deferred.induct)
  case (1 C iq)
  obtain x iq1 where g: "getDeferredMemInst iq = (x, iq1)" by fastforce
  then have good: "P iq1" using assms(2)[OF "1.prems"] by simp
  show ?case
  proof (cases x)
    case None
    then show ?thesis using g good by (subst sched_deferred.simps) simp
  next
    case (Some sn)
    have "on_ok (sched_deferred C q) P" if "addReadyMemInst C sn iq1 = Inr q" for q
      using "1.IH"[OF g[symmetric] Some that] on_okD[OF assms(3)[OF good] that[unfolded addReadyMemInst_def]] by simp
    then show ?thesis using g Some by (subst sched_deferred.simps) (simp del: on_ok_simps(3) add: on_ok_bindI)
  qed
qed

lemma sched_retry_rule:
  assumes "P iq" "\<And>q. P q \<Longrightarrow> P (snd (getBlockedMemInst q))" "\<And>c sn q. P q \<Longrightarrow> on_ok (push_ready c sn q) P"
  shows "on_ok (sched_retry C iq) P"
  using assms(1)
proof (induction C iq rule: sched_retry.induct)
  case (1 C iq)
  obtain x iq1 where g: "getBlockedMemInst iq = (x, iq1)" by fastforce
  then have good: "P iq1" using assms(2)[OF "1.prems"] by simp
  show ?case
  proof (cases x)
    case None
    then show ?thesis using g good by (subst sched_retry.simps) simp
  next
    case (Some sn)
    have "on_ok (sched_retry C q) P" if "addReadyMemInst C sn iq1 = Inr q" for q
      using "1.IH"[OF g[symmetric] Some that] on_okD[OF assms(3)[OF good] that[unfolded addReadyMemInst_def]] by simp
    then show ?thesis using g Some by (subst sched_retry.simps) (simp del: on_ok_simps(3) add: on_ok_bindI)
  qed
qed

lemma sched_deferred_good: "iq_good k iq \<Longrightarrow> on_ok (sched_deferred C iq) (iq_good k)"
  by (rule sched_deferred_rule) (auto simp: getDeferredMemInst_def push_ready_good split: option.split)

lemma sched_retry_good: "iq_good k iq \<Longrightarrow> on_ok (sched_retry C iq) (iq_good k)"
  by (rule sched_retry_rule) (auto simp: getBlockedMemInst_def push_ready_good split: list.split)

lemma scheduleReadyInsts_good: "iq_good k iq \<Longrightarrow> on_ok (scheduleReadyInsts C rf now tick iq) (\<lambda>(n, iq'). iq_good k iq')"
  unfolding scheduleReadyInsts_def on_ok_simps
  by (intro on_ok_mono[OF sched_deferred_good] on_ok_mono[OF sched_retry_good] issue_loop_good)
     (simp_all add: iq_good_def)

end
