(* ===== verification/InstQueueProps.thy ===== *)
theory InstQueueProps
  imports InstQueueInv MemDepOps
begin

text \<open>
  The operations of the issue queue as one state machine, the invariant of the states it reaches,
  and the properties of the queue.
\<close>

section \<open>The other operations\<close>

lemma processFUCompletion_good: "iq_good k iq \<Longrightarrow> on_ok (processFUCompletion so sn u iq) (iq_good k)"
  by (auto simp: processFUCompletion_def Let_def on_ok_def bindE_ok)

lemma scheduleNonSpec_good:
  assumes "iq_good k iq"
  shows "on_ok (scheduleNonSpec C sn iq) (iq_good k)"
proof -
  let ?q = "iq_upd sn (\<lambda>i. set_status CanIssue (set_status AtCommit i)) iq"
  have "iq_good k ?q" using assms by (rule iq_good_upd) simp
  then show ?thesis
    by (auto simp: scheduleNonSpec_def Let_def intro!: on_ok_mono[OF addIfReady_good]
          on_ok_mono[OF on_ok_any[of "md_nonSpecInstReady i md" for i md]] on_ok_mono[OF handed_over_good])
qed

lemma iq_commit_good: "iq_good k iq \<Longrightarrow> on_ok (iq_commit C sn t iq) (iq_good k)"
  by (auto simp: iq_commit_def Let_def on_ok_def bindE_ok)

lemma replayMemInst_good: "iq_good k iq \<Longrightarrow> on_ok (replayMemInst C sn iq) (iq_good k)"
  by (auto simp: replayMemInst_def Let_def intro!: handed_over_good
        on_ok_mono[OF on_ok_any[of "md_replay md" for md]])

lemma rescheduleMemInst_good: "iq_good k iq \<Longrightarrow> iq_good k (rescheduleMemInst sn iq)"
  by (simp add: rescheduleMemInst_def Let_def iq_good_set)

lemma blockMemInst_good: "iq_good k iq \<Longrightarrow> iq_good k (blockMemInst sn iq)"
  by (simp add: blockMemInst_def Let_def iq_good_upd)

lemma iq_resetEntries_good: "iq_good k iq \<Longrightarrow> iq_good k (iq_resetEntries C active iq)"
proof -
  have "iq_good k (fold (\<lambda>t iq. if P then iq\<lparr>iqMax := (iqMax iq)(t := x)\<rparr>
      else if Q then iq\<lparr>iqMax := (iqMax iq)(t := y)\<rparr> else iq) ts iq)" if "iq_good k iq" for P Q x y ts iq
    using that by (induction ts arbitrary: iq) auto
  then show "iq_good k iq \<Longrightarrow> iq_good k (iq_resetEntries C active iq)"
    by (simp add: iq_resetEntries_def)
qed

lemma iq_violation_good: "iq_good k iq \<Longrightarrow> on_ok (iq_violation st ld iq) (iq_good k)"
  by (auto simp: iq_violation_def Let_def on_ok_def bindE_ok)

section \<open>Wake-up\<close>

lemma wake_dependent_good: "iq_good k iq \<Longrightarrow> on_ok (wake_dependent C sn iq) (iq_good k)"
  by (simp add: wake_dependent_def addIfReady_good iq_good_upd)

lemma wake_chain_good: "iq_good k iq \<Longrightarrow> on_ok (wake_chain C r n iq) (\<lambda>(n', iq'). iq_good k iq')"
proof (induction "length (snd (iqGraph iq ! r))" arbitrary: n iq rule: less_induct)
  case less
  show ?case
  proof (subst wake_chain.simps, rule on_ok_bindI)
    fix p
    assume p: "dg_pop r (iqGraph iq) = Inr p"
    obtain d g where dg: "p = (d, g)" by fastforce
    show "on_ok (case p of (None, g) \<Rightarrow> Inr (n, iq\<lparr>iqGraph := g\<rparr>)
       | (Some d, g) \<Rightarrow> bindE (wake_dependent C d (iq\<lparr>iqGraph := g\<rparr>)) (wake_chain C r (n + 1)))
       (\<lambda>(n', iq'). iq_good k iq')"
    proof (cases d)
      case None
      then show ?thesis using less.prems dg by simp
    next
      case (Some sn)
      let ?a = "iq\<lparr>iqGraph := g\<rparr>"
      have "on_ok (wake_chain C r (n + 1) q) (\<lambda>(n', iq'). iq_good k iq')" if q: "wake_dependent C sn ?a = Inr q" for q
      proof (rule less.hyps)
        have "iqGraph q = g" using addIfReady_graph[OF q[unfolded wake_dependent_def]] by (simp add: iq_upd_def)
        then show "length (snd (iqGraph q ! r)) < length (snd (iqGraph iq ! r))"
          using dg_pop_Some(2)[of r "iqGraph iq" sn g] p dg Some by simp
        show "iq_good k q" using on_okD[OF wake_dependent_good[of k ?a] q] less.prems by simp
      qed
      then show ?thesis using dg Some by (auto intro: on_ok_bindI simp del: on_ok_simps(3))
    qed
  qed
qed

lemma count_write_good: "iq_good k iq \<Longrightarrow> on_ok (count_write C sn reg iq) (iq_good k)"
  by (auto simp: count_write_def Let_def on_ok_def bindE_ok tid_ops(2) intro!: iq_good_set)

lemma release_register_good:
  "iq_good k iq \<Longrightarrow> on_ok (release_register C r n iq) (\<lambda>(n', iq'). iq_good k iq')"
  using wake_chain_good[of k iq C r n] by (auto simp: release_register_def on_ok_def bindE_ok)

lemma wake_register_good:
  "iq_good k iq \<Longrightarrow> on_ok (wake_register C sn reg (n, iq)) (\<lambda>(n', iq'). iq_good k iq')"
  by (auto simp: wake_register_def intro!: on_ok_mono[OF count_write_good] release_register_good)

lemma complete_mem_good:
  assumes "iq_good k iq"
  shows "on_ok (complete_mem C sn iq) (iq_good k)"
proof -
  let ?i = "iqInst iq sn" let ?t = "diTid ?i"
  define complete where "complete = bindE (md_completeInst ?i (iqMemDep iq ?t)) (\<lambda>(md, out).
      foldE (addReadyMemInst C) out (set_memDep ?t md iq))"
  have c: "on_ok complete (iq_good k)" unfolding complete_def using assms
    by (auto intro!: handed_over_good on_ok_mono[OF on_ok_any[of "md_completeInst i md" for i md]])
  have "iq_good k (count_down ?t (iq_upd sn (set_flag MemOpDone) (q\<lparr>iqFree := iqFree q + 1\<rparr>)))"
    if "iq_good k q" for q
    using iq_good_counts(2)[OF iq_good_upd[OF iq_good_counts(3)[OF that iq_good_tid[OF assms]]] iq_good_tid[OF assms]]
    by simp
  then show ?thesis unfolding complete_mem_def Let_def complete_def[symmetric] using assms c
    by (auto intro: on_ok_mono[OF c])
qed

lemma wakeDependents_good: "iq_good k iq \<Longrightarrow> on_ok (wakeDependents C sn iq) (\<lambda>(n, iq'). iq_good k iq')"
  unfolding wakeDependents_def on_ok_simps
  by (intro impI on_ok_mono[OF complete_mem_good] on_ok_foldE)
     (auto intro: wake_register_good)

section \<open>Squash\<close>

lemma squash_waiting_good:
  assumes "iq_good k iq"
  shows "on_ok (squash_waiting C sn iq) (iq_good k)"
proof -
  have src: "on_ok (foldE (remove_source C sn) xs iq) (iq_good k)" for xs
    by (rule on_ok_foldE) (auto simp: assms remove_source_def on_ok_def bindE_ok split: if_splits)
  let ?u = "\<lambda>q. iq_upd sn (\<lambda>i. reset_status IqEntry (set_status CanCommit (set_status Issued (setSquashedInIQ i)))) q"
  have "iq_good k ((count_down (diTid (iqInst (?u q) sn)) (?u q))\<lparr>iqFree := iqFree (count_down (diTid (iqInst (?u q) sn)) (?u q)) + 1\<rparr>)"
    if q: "iq_good k q" for q
  proof -
    have u: "iq_good k (?u q)" using q by (rule iq_good_upd) simp
    note t = iq_good_tid[OF u, of sn]
    show ?thesis using iq_good_counts(3)[OF iq_good_counts(2)[OF u t] t] by simp
  qed
  then show ?thesis unfolding squash_waiting_def Let_def
    by (auto simp: assms intro!: on_ok_mono[OF src])
qed

lemma clear_dest_good: "iq_good k iq \<Longrightarrow> on_ok (clear_dest C r iq) (iq_good k)"
  by (auto simp: clear_dest_def on_ok_def bindE_ok)

lemma iq_squash_one_good: "iq_good k iq \<Longrightarrow> on_ok (iq_squash_one C sn iq) (iq_good k)"
  unfolding iq_squash_one_def Let_def
  by (auto intro!: on_ok_mono[OF squash_waiting_good] on_ok_foldE clear_dest_good)

lemma squash_walk_good: "iq_good k iq \<Longrightarrow> on_ok (squash_walk C t sq skipped xs iq) (iq_good k)"
proof (induction xs arbitrary: skipped iq)
  case (Cons sn xs)
  have "on_ok (squash_walk C t sq skipped xs q) (iq_good k)" if "iq_squash_one C sn iq = Inr q" for q
    by (rule Cons.IH[OF on_okD[OF iq_squash_one_good[OF Cons.prems] that]])
  then show ?case using Cons by (auto intro: on_ok_bindI simp del: on_ok_simps(3))
qed simp

lemma iq_squash_good: "iq_good k iq \<Longrightarrow> on_ok (iq_squash C sq t iq) (iq_good k)"
  unfolding iq_squash_def iq_doSquash_def on_ok_simps
  by (intro on_ok_mono[OF squash_walk_good]) (auto intro: on_ok_mono[OF on_ok_any])

section \<open>The state machine\<close>

datatype iq_op =
    OpAdd nat | OpAddNonSpec nat | OpAddBarrier nat | OpNext | OpUnitDone bool nat int
  | OpSchedule phys_reg_file nat nat | OpScheduleNonSpec nat | OpCommitTo nat nat | OpWake nat
  | OpRescheduleMem nat | OpReplayMem nat | OpDefer nat | OpBlock nat | OpUnblocked
  | OpViolates nat nat | OpSquashTo nat nat | OpTakeOver | OpPartition "nat list"
  | OpOutside "nat \<Rightarrow> dyn_inst" fu_pool pin_counts int int

text \<open>
  \<open>OpOutside\<close> stands for what the other stages and the end of a cycle do between two calls: they
  change the instructions, release units, pin registers and advance the queue to execute.
\<close>

fun iq_apply :: "iq_cfg \<Rightarrow> iq_op \<Rightarrow> inst_queue \<Rightarrow> inst_queue res" where
  "iq_apply C (OpAdd sn) iq = iq_insert C sn iq"
| "iq_apply C (OpAddNonSpec sn) iq = iq_insertNonSpec C sn iq"
| "iq_apply C (OpAddBarrier sn) iq = iq_insertBarrier C sn iq"
| "iq_apply C OpNext iq = bindE (getInstToExecute iq) (\<lambda>(_, iq). Inr iq)"
| "iq_apply C (OpUnitDone so sn u) iq = processFUCompletion so sn u iq"
| "iq_apply C (OpSchedule rf now tick) iq = bindE (scheduleReadyInsts C rf now tick iq) (\<lambda>(_, iq). Inr iq)"
| "iq_apply C (OpScheduleNonSpec sn) iq = scheduleNonSpec C sn iq"
| "iq_apply C (OpCommitTo sn t) iq = iq_commit C sn t iq"
| "iq_apply C (OpWake sn) iq = bindE (wakeDependents C sn iq) (\<lambda>(_, iq). Inr iq)"
| "iq_apply C (OpRescheduleMem sn) iq = Inr (rescheduleMemInst sn iq)"
| "iq_apply C (OpReplayMem sn) iq = replayMemInst C sn iq"
| "iq_apply C (OpDefer sn) iq = Inr (deferMemInst sn iq)"
| "iq_apply C (OpBlock sn) iq = Inr (blockMemInst sn iq)"
| "iq_apply C OpUnblocked iq = Inr (iq_cacheUnblocked iq)"
| "iq_apply C (OpViolates st ld) iq = iq_violation st ld iq"
| "iq_apply C (OpSquashTo sq t) iq = iq_squash C sq t iq"
| "iq_apply C OpTakeOver iq = Inr (iq_takeOverFrom C iq)"
| "iq_apply C (OpPartition active) iq = Inr (iq_resetEntries C active iq)"
| "iq_apply C (OpOutside I pool pins now prev) iq =
     Inr (iq\<lparr>iqInst := I, iqPool := pool, iqPins := pins, iqToExecSize := now, iqToExecPrev := prev\<rparr>)"

text \<open>The threads of the instructions are threads of the CPU.\<close>

definition threads_ok :: "(nat \<Rightarrow> dyn_inst) \<Rightarrow> bool" where
  "threads_ok I \<longleftrightarrow> (\<forall>sn. diTid (I sn) < maxThreads)"

fun iq_allowed :: "iq_op \<Rightarrow> bool" where
  "iq_allowed (OpOutside I pool pins now prev) \<longleftrightarrow> threads_ok I"
| "iq_allowed op \<longleftrightarrow> True"

inductive iq_reach :: "iq_cfg \<Rightarrow> inst_queue \<Rightarrow> bool" for C where
  start: "new_InstQueue C period ssits lfsts threshold pool I = Inr iq \<Longrightarrow> threads_ok I \<Longrightarrow> iq_reach C iq"
| step: "iq_reach C iq \<Longrightarrow> iq_allowed op \<Longrightarrow> iq_apply C op iq = Inr iq' \<Longrightarrow> iq_reach C iq'"

lemma reset_good: "\<forall>sn. diTid (iqInst iq sn) < maxThreads \<Longrightarrow> iq_good (icNumEntries C) (iq_resetState C iq)"
  by (simp add: iq_good_def iq_at_def iq_entries_def iq_resetState_def)

lemma iq_apply_good:
  assumes "iq_good (icNumEntries C) iq" "iq_allowed op"
  shows "on_ok (iq_apply C op iq) (iq_good (icNumEntries C))"
proof (cases op)
  case OpNext
  then show ?thesis using assms(1) by (simp add: getInstToExecute_def split: list.split)
next
  case (OpSchedule rf now tick)
  then show ?thesis by (auto intro: on_ok_mono[OF scheduleReadyInsts_good[OF assms(1)]])
next
  case (OpWake sn)
  then show ?thesis by (auto intro: on_ok_mono[OF wakeDependents_good[OF assms(1)]])
next
  case (OpTakeOver)
  then show ?thesis using reset_good iq_good_tid[OF assms(1)] by (simp add: iq_takeOverFrom_def)
next
  case (OpOutside I pool pins now prev)
  then show ?thesis using assms by (simp add: iq_good_def iq_at_def iq_entries_def threads_ok_def)
qed (use assms(1) in \<open>simp_all add: iq_insert_good iq_insertNonSpec_good iq_insertBarrier_good
  processFUCompletion_good scheduleNonSpec_good iq_commit_good rescheduleMemInst_good replayMemInst_good
  deferMemInst_def blockMemInst_good iq_cacheUnblocked_def iq_violation_good iq_squash_good iq_resetEntries_good\<close>)

lemma iq_reach_good: "iq_reach C iq \<Longrightarrow> iq_good (icNumEntries C) iq"
proof (induction rule: iq_reach.induct)
  case (start period ssits lfsts threshold pool I iq)
  then show ?case by (auto simp: new_InstQueue_def bindE_ok threads_ok_def intro!: reset_good split: if_splits)
next
  case (step iq op iq')
  then show ?case using on_okD[OF iq_apply_good] by blast
qed

section \<open>A queue with two instructions\<close>

definition ex_iq_inst :: "nat \<Rightarrow> dyn_inst" where
  "ex_iq_inst sn = \<lparr>diSeq = sn, diTid = 0, diPC = (4 * sn, 0), diProps = {}, diStatus = {CanIssue},
     diFlags = {}, diSrcs = [], diDests = [], diReadyRegs = 0, diReadySrc = [], diSavedReq = None,
     diFault = None, diFlatDests = [], diFirstIssue = 0\<rparr>"

text \<open>The class of an instruction is its sequence number modulo 2.\<close>

definition ex_iq_cfg :: iq_cfg where
  "ex_iq_cfg = \<lparr>icNumEntries = 4, icWidth = 2, icThreads = 1, icPhysRegs = 2, icPolicy = DynamicPolicy,
     icOpClass = (\<lambda>i. diSeq i mod 2), icNoOp = 1, icFixed = (\<lambda>_. False), icPinned = (\<lambda>_. False)\<rparr>"

text \<open>An insertion of such an instruction is a push.\<close>

lemma ex_insert:
  assumes "iqInst iq sn = ex_iq_inst sn" "iqFree iq \<noteq> 0"
  shows "iq_insert ex_iq_cfg sn iq = bindE (push_ready (sn mod 2) sn
     (iq_upd sn (set_status IqEntry) (iq\<lparr>iqList := (iqList iq)(0 := iqList iq 0 @ [sn]), iqFree := iqFree iq - 1\<rparr>)))
     (\<lambda>q. Inr (count_up (diTid (iqInst q sn)) q))"
  using assms
  by (simp add: iq_insert_def take_entry_def assertE_def Let_def iq_upd_def addToDependents_def addToProducers_def announce_def
    addIfReady_def ex_iq_inst_def has_prop_def has_status_def set_status_def ex_iq_cfg_def check_count_def iq_countInsts_def count_up_def)

lemma ex_run:
  "\<exists>iq. iq_reach ex_iq_cfg iq \<and> iqOrder iq = [(0,2),(1,3)] \<and> iqReady iq 0 = [2,4] \<and> iqFree iq = 1 \<and> iqCount iq 0 = 3"
proof -
  obtain md where md: "md_init 100 4 4 = Inr md" using md_init_ok[of 4 4 100] by auto
  obtain iq0 where i: "new_InstQueue ex_iq_cfg 100 4 4 0 p ex_iq_inst = Inr iq0"
     "iqOrder iq0 = []" "iqReady iq0 = (\<lambda>_. [])" "iqFree iq0 = 4" "iqCount iq0 = (\<lambda>_. 0)" "iqInst iq0 = ex_iq_inst" "iqOnList iq0 = (\<lambda>_. False)"
   by (simp add: new_InstQueue_def md ex_iq_cfg_def iq_resetState_def)
  obtain iq1 where i1: "iq_insert ex_iq_cfg 4 iq0 = Inr iq1" "iqOrder iq1 = [(0,4)]" "iqReady iq1 = (\<lambda>_. [])(0 := [4])" "iqFree iq1 = 3" "iqCount iq1 = (\<lambda>_. 0)(0:=1)" "iqInst iq1 = ex_iq_inst(4 := set_status IqEntry (ex_iq_inst 4))" "iqOnList iq1 = (\<lambda>_. False)(0:=True)"
   by (subst (asm) ex_insert) (simp_all add: i push_ready_def addToOrderList_def assertE_def Let_def count_up_def iq_upd_def ex_iq_inst_def set_status_def)
  let ?upd = "\<lambda>I sn. I(sn := set_status IqEntry (ex_iq_inst sn))"
  obtain iq2 where i2: "iq_insert ex_iq_cfg 3 iq1 = Inr iq2" "iqOrder iq2 = [(1,3),(0,4)]"
      "iqReady iq2 = (\<lambda>_. [])(0 := [4], 1 := [3])" "iqFree iq2 = 2" "iqCount iq2 = (\<lambda>_. 0)(0 := 2)"
      "iqInst iq2 = ?upd (?upd ex_iq_inst 4) 3" "iqOnList iq2 = (\<lambda>_. False)(0 := True, 1 := True)"
    by (subst (asm) ex_insert) (simp_all add: i1 push_ready_def addToOrderList_def assertE_def Let_def count_up_def iq_upd_def ex_iq_inst_def set_status_def)
  obtain iq3 where i3: "iq_insert ex_iq_cfg 2 iq2 = Inr iq3" "iqOrder iq3 = [(0,2),(1,3)]"
      "iqReady iq3 0 = [2, 4]" "iqFree iq3 = 1" "iqCount iq3 = (\<lambda>_. 0)(0 := 3)"
    by (subst (asm) ex_insert) (simp_all add: i2 push_ready_def addToOrderList_def assertE_def Let_def count_up_def iq_upd_def ex_iq_inst_def set_status_def)
  have "threads_ok ex_iq_inst" by (simp add: threads_ok_def ex_iq_inst_def maxThreads_def)
  from iq_reach.start[OF i(1) this] have "iq_reach ex_iq_cfg iq0" .
  then have "iq_reach ex_iq_cfg iq3"
    using iq_reach.step[of ex_iq_cfg iq0 "OpAdd 4" iq1] iq_reach.step[of ex_iq_cfg iq1 "OpAdd 3" iq2]
      iq_reach.step[of ex_iq_cfg iq2 "OpAdd 2" iq3] i1(1) i2(1) i3(1) by simp
  then show ?thesis using i3 by auto
qed
section \<open>Properties\<close>

text \<open>
  C12: In every state that the issue queue reaches, whatever the other stages do between its
  operations, \<open>listOrder\<close> is sorted by age, holds exactly one node for each class with ready
  instructions, and the node names the oldest of them; an instruction that becomes ready can
  always be pushed (no iterator dangles).  So the first node is the oldest ready instruction.
\<close>

theorem age_order_names_the_oldest:
  assumes "iq_reach C iq"
  shows "sorted (map snd (iqOrder iq)) \<and> distinct (map fst (iqOrder iq)) \<and>
    set (iqOrder iq) = {(c, Min (set (iqReady iq c))) |c. iqReady iq c \<noteq> []} \<and>
    (\<forall>c sn. \<exists>iq'. push_ready c sn iq = Inr iq')"
proof -
  have age: "iq_age iq" using iq_good_age[OF iq_reach_good[OF assms]] .
  then have o: "age_order (iqReady iq) (iqOnList iq) (iqOrder iq)" by (simp add: iq_age_def)
  then have top: "hd (iqReady iq c) = Min (set (iqReady iq c))" if "iqReady iq c \<noteq> []" for c
    using pq.top_is_Min[of "iqReady iq c"] that by (simp add: age_order_def)
  have "distinct (map fst (iqOrder iq))" using o by (simp add: age_order_def)
  then have "(c, sn) \<in> set (iqOrder iq) \<longleftrightarrow> map_of (iqOrder iq) c = Some sn" for c sn
    by (rule map_of_eq_Some_iff[symmetric])
  then have "set (iqOrder iq) = {(c, Min (set (iqReady iq c))) |c. iqReady iq c \<noteq> []}"
    using o top by (auto simp: age_order_def split: if_splits)
  moreover have "\<forall>c sn. \<exists>iq'. push_ready c sn iq = Inr iq'" using push_ready_ok[OF age] by blast
  ultimately show ?thesis using o by (simp add: age_order_def)
qed

theorem age_order_names_the_oldest_witness:
  "\<exists>iq. iq_reach ex_iq_cfg iq \<and> iqOrder iq = [(0, 2), (1, 3)] \<and>
     set (iqOrder iq) = {(c, Min (set (iqReady iq c))) |c. iqReady iq c \<noteq> []}"
proof -
  obtain iq where iq: "iq_reach ex_iq_cfg iq" "iqOrder iq = [(0, 2), (1, 3)]" using ex_run by blast
  from age_order_names_the_oldest[OF iq(1)] iq show ?thesis by blast
qed

text \<open>
  C39: No entry of the issue queue is lost or handed out twice: in every reachable state the free
  entries and the entries counted for the threads add up to the size of the queue (as the 32 bit
  unsigned numbers that they are), so that the queue is full exactly when the threads hold all
  of it.
\<close>

theorem entries_add_up:
  assumes "iq_reach C iq"
  shows "iqFree iq + (\<Sum>t < maxThreads. iqCount iq t) = icNumEntries C \<and>
    (iq_isFull iq \<longleftrightarrow> (\<Sum>t < maxThreads. iqCount iq t) = icNumEntries C)"
  using iq_good_entries[OF iq_reach_good[OF assms]] by (auto simp: iq_entries_def iq_isFull_def)

theorem entries_add_up_witness:
  "\<exists>iq. iq_reach ex_iq_cfg iq \<and> iqFree iq = 1 \<and> (\<Sum>t < maxThreads. iqCount iq t) = 3"
proof -
  obtain iq where iq: "iq_reach ex_iq_cfg iq" "iqFree iq = 1" using ex_run by blast
  from entries_add_up[OF iq(1)] iq show ?thesis by (auto simp: ex_iq_cfg_def algebra_simps intro!: exI[of _ iq])
qed

end
