(* ===== verification/InstQueueFlow.thy ===== *)
theory InstQueueFlow
  imports InstQueueProps
begin

text \<open>
  Data flow through the issue queue: an issue hands the poison of the source registers to the
  instruction, within the width of the machine, and a register that is written releases exactly
  the instructions that wait for it.
\<close>

section \<open>Poison at issue\<close>

definition executing :: "inst_queue \<Rightarrow> nat" where
  "executing iq = length (iqToExecute iq) + length (iqEvents iq)"

text \<open>What an issue may have done to an instruction.\<close>

definition poison_known :: "phys_reg_file \<Rightarrow> dyn_inst \<Rightarrow> bool" where
  "poison_known rf i \<longleftrightarrow> (has_flag Runahead i \<longrightarrow>
     (\<exists>p. poisoned_source rf (diSrcs i) = Inr p \<and> (p \<longrightarrow> has_flag Poisoned i)))"

definition issue_view :: "phys_reg_file \<Rightarrow> dyn_inst \<Rightarrow> dyn_inst \<Rightarrow> bool" where
  "issue_view rf i0 i \<longleftrightarrow> diSrcs i = diSrcs i0 \<and> (has_flag Runahead i \<longleftrightarrow> has_flag Runahead i0) \<and>
     (has_flag Poisoned i0 \<longrightarrow> has_flag Poisoned i) \<and>
     (has_flag Poisoned i \<longrightarrow> has_flag Poisoned i0 \<or>
        (has_flag Runahead i0 \<and> poisoned_source rf (diSrcs i0) = Inr True)) \<and>
     (has_status Issued i \<longrightarrow> has_status Issued i0 \<or> poison_known rf i)"

lemma issue_view_refl [simp]: "issue_view rf i i"
  by (simp add: issue_view_def)

definition iq_view :: "phys_reg_file \<Rightarrow> inst_queue \<Rightarrow> inst_queue \<Rightarrow> bool" where
  "iq_view rf iq0 iq \<longleftrightarrow> (\<forall>sn. issue_view rf (iqInst iq0 sn) (iqInst iq sn))"

lemma poison_check_view:
  assumes "iq_view rf iq0 iq"
  shows "on_ok (poison_check rf sn iq) (\<lambda>iq'. iq_view rf iq0 iq' \<and> poison_known rf (iqInst iq' sn) \<and>
    executing iq' = executing iq)"
proof (rule on_okI)
  fix iq'
  assume r: "poison_check rf sn iq = Inr iq'"
  let ?i = "iqInst iq sn"
  have v: "issue_view rf (iqInst iq0 sn) ?i" using assms by (simp add: iq_view_def)
  show "iq_view rf iq0 iq' \<and> poison_known rf (iqInst iq' sn) \<and> executing iq' = executing iq"
  proof (cases "has_flag Runahead ?i")
    case False
    then have "iq' = iq" using r by (simp add: poison_check_def Let_def)
    then show ?thesis using assms False by (simp add: poison_known_def)
  next
    case True
    then obtain p where p: "poisoned_source rf (diSrcs ?i) = Inr p"
      and q: "(if p then bindE (setPoisoned ?i) (\<lambda>i. Inr (iq_upd sn (\<lambda>_. i) iq)) else Inr iq) = Inr iq'"
      using r by (auto simp: poison_check_def Let_def elim!: bindE_elim)
    then have q: "iq' = (if p then iq_upd sn (set_flag Poisoned) iq else iq)"
      using True by (auto simp: setPoisoned_def bindE_ok iq_upd_def split: if_splits)
    have "issue_view rf (iqInst iq0 sn) (iqInst iq' sn)" "poison_known rf (iqInst iq' sn)"
      using v p q True by (auto simp: issue_view_def poison_known_def iq_upd_def)
    then show ?thesis using assms q by (auto simp: iq_view_def iq_upd_def executing_def)
  qed
qed

lemma start_execution_one:
  "on_ok (start_execution now c sn idx lat iq) (\<lambda>iq'. iqInst iq' = iqInst iq \<and> executing iq' = executing iq + 1)"
  by (auto simp: start_execution_def Let_def executing_def on_ok_def bindE_ok split: if_splits)

lemma pop_class_rest:
  "case pop_class c (iq, rest) of (iq', rest') \<Rightarrow> iqInst iq' = iqInst iq \<and> executing iq' = executing iq"
  by (simp add: pop_class_def Let_def executing_def)

lemma after_issue_view:
  assumes "iq_view rf iq0 iq" "poison_known rf (iqInst iq sn)"
  shows "on_ok (after_issue C tick sn iq) (\<lambda>iq'. iq_view rf iq0 iq' \<and> executing iq' = executing iq)"
proof -
  have keep: "issue_view rf i0 (mark_issued tick i)" "issue_view rf i0 (reset_status IqEntry (mark_issued tick i))"
    if "issue_view rf i0 i" "poison_known rf i" for i0 i
    using that by (auto simp: mark_issued_def Let_def issue_view_def poison_known_def has_flag_def has_status_def
        set_status_def reset_status_def)
  have v: "issue_view rf (iqInst iq0 s) (iqInst iq s)" for s using assms(1) by (simp add: iq_view_def)
  show ?thesis using v assms(2) keep
    by (auto simp: after_issue_def Let_def on_ok_def bindE_ok executing_def iq_upd_def count_down_def
        set_memDep_def iq_view_def split: if_splits)
qed

text \<open>One round, and the loop.\<close>

lemma issue_tail_view:
  assumes "iq_view rf iq0 q" "poison_known rf (iqInst q sn)"
  shows "on_ok (bindE (start_execution now c sn idx lat q) (\<lambda>q.
      let (q, rest) = pop_class c (q, rest) in
      bindE (after_issue C tick sn q) (\<lambda>q. Inr (Issuing, q, rest))))
    (\<lambda>(out, iq', rest'). iq_view rf iq0 iq' \<and> executing iq' = executing q + (if out = Issuing then 1 else 0))"
proof (rule on_ok_bindI)
  fix q1
  assume "start_execution now c sn idx lat q = Inr q1"
  then have q1: "iqInst q1 = iqInst q" "executing q1 = executing q + 1"
    using on_okD[OF start_execution_one] by blast+
  obtain q2 rest' where q2: "pop_class c (q1, rest) = (q2, rest')" by fastforce
  then have i2: "iqInst q2 = iqInst q" "executing q2 = executing q + 1"
    using pop_class_rest[where c = c and iq = q1 and rest = rest] q1 by simp_all
  have "iq_view rf iq0 q2" "poison_known rf (iqInst q2 sn)" using assms i2(1) by (simp_all add: iq_view_def)
  from after_issue_view[OF this]
  show "on_ok (let (q, rest) = pop_class c (q1, rest) in bindE (after_issue C tick sn q) (\<lambda>q. Inr (Issuing, q, rest)))
    (\<lambda>(out, iq', rest'). iq_view rf iq0 iq' \<and> executing iq' = executing q + (if out = Issuing then 1 else 0))"
    using q2 i2(2) by (auto intro: on_ok_mono)
qed

lemma issue_one_view:
  assumes "iq_view rf iq0 iq"
  shows "on_ok (issue_one C rf now tick c oldest rest iq) (\<lambda>(out, iq', rest').
    iq_view rf iq0 iq' \<and> executing iq' = executing iq + (if out = Issuing then 1 else 0))"
proof -
  define sn where "sn = hd (iqReady iq c)"
  have pool: "iq_view rf iq0 (q\<lparr>iqPool := p\<rparr>) = iq_view rf iq0 q" "executing (q\<lparr>iqPool := p\<rparr>) = executing q" for q p
    by (simp_all add: iq_view_def executing_def)
  have dropped: "case pop_class c (q, rest) of (q', rest') \<Rightarrow> iq_view rf iq0 q' \<and> executing q' = executing q"
    if "iq_view rf iq0 q" for q
    using pop_class_rest[where c = c and iq = q and rest = rest] that by (auto simp: iq_view_def split: prod.splits)
  show ?thesis
    unfolding issue_one_def Let_def sn_def[symmetric]
  proof (rule on_ok_bindI, rule on_ok_bindI, subst on_ok_simps(3), rule on_ok_mono[OF poison_check_view[OF assms]])
    fix q
    assume q: "iq_view rf iq0 q \<and> poison_known rf (iqInst q sn) \<and> executing q = executing iq"
    let ?Q = "\<lambda>(out, iq', rest'). iq_view rf iq0 iq' \<and> executing iq' = executing iq + (if out = Issuing then 1 else 0)"
    let ?T = "\<lambda>idx pool lat. if idx \<noteq> -1 then
        bindE (start_execution now c sn idx lat (q\<lparr>iqPool := pool\<rparr>)) (\<lambda>q.
        case pop_class c (q, rest) of (q, rest) \<Rightarrow>
        bindE (after_issue C tick sn q) (\<lambda>q. Inr (Issuing, q, rest)))
      else Inr (Busy, q\<lparr>iqPool := pool\<rparr>, rest)"
    have T: "on_ok (?T idx pool lat) ?Q" for idx pool lat
      using issue_tail_view[of rf iq0 "q\<lparr>iqPool := pool\<rparr>" sn now c idx lat rest C tick, unfolded Let_def] q
      by (simp add: pool del: on_ok_simps(3))
    have two: "on_ok (bindE m (\<lambda>(idx, pool). bindE (m' idx pool) (\<lambda>lat. ?T idx pool lat))) ?Q" for m m'
    proof (rule on_ok_bindI)
      fix r :: "int \<times> fu_pool"
      obtain idx pool where "r = (idx, pool)" by (cases r)
      then show "on_ok (case r of (idx, pool) \<Rightarrow> bindE (m' idx pool) (\<lambda>lat. ?T idx pool lat)) ?Q"
        by (simp only: prod.case) (rule on_ok_bindI, rule T)
    qed
    show "on_ok (if has_status Squashed (iqInst q sn) then Inr (Dropped, pop_class c (q, rest))
       else
         bindE (if c \<noteq> icNoOp C then getUnit c (iqPool q) else Inr (-2, iqPool q)) (\<lambda>(idx, pool).
         bindE (if c \<noteq> icNoOp C \<and> -1 < idx then fu_getOpLatency c pool else Inr 1) (\<lambda>lat.
           if idx \<noteq> -1 then
             bindE (start_execution now c sn idx lat (q\<lparr>iqPool := pool\<rparr>)) (\<lambda>q.
             case pop_class c (q, rest) of (q, rest) \<Rightarrow>
             bindE (after_issue C tick sn q) (\<lambda>q. Inr (Issuing, q, rest)))
           else Inr (Busy, q\<lparr>iqPool := pool\<rparr>, rest))))
      (\<lambda>(out, iq', rest'). iq_view rf iq0 iq' \<and> executing iq' = executing iq + (if out = Issuing then 1 else 0))"
    proof (cases "has_status Squashed (iqInst q sn)")
      case True
      then show ?thesis using q dropped[of q] by (simp add: split_beta)
    next
      case False
      then show ?thesis by (simp only: if_False) (rule two)
    qed
  qed
qed

lemma issue_loop_view:
  assumes "iq_view rf iq0 iq" "n \<le> icWidth C"
  shows "on_ok (issue_loop C rf now tick n passed order iq) (\<lambda>(n', iq').
    n' \<le> icWidth C \<and> iq_view rf iq0 iq' \<and> executing iq' + n = executing iq + n')"
proof (rule issue_loop_rule[where P = "\<lambda>m ps os q. m \<le> icWidth C \<and> iq_view rf iq0 q \<and> executing q + n = executing iq + m"])
  fix m ps c oldest rest q out q' rest'
  assume m: "m < icWidth C" and p: "m \<le> icWidth C \<and> iq_view rf iq0 q \<and> executing q + n = executing iq + m"
    and r: "issue_one C rf now tick c oldest rest q = Inr (out, q', rest')"
  have "iq_view rf iq0 q'" "executing q' = executing q + (if out = Issuing then 1 else 0)"
    using on_okD[OF issue_one_view r] p by auto
  then show "case out of
      Dropped \<Rightarrow> m \<le> icWidth C \<and> iq_view rf iq0 q' \<and> executing q' + n = executing iq + m
    | Issuing \<Rightarrow> m + 1 \<le> icWidth C \<and> iq_view rf iq0 q' \<and> executing q' + n = executing iq + (m + 1)
    | Busy \<Rightarrow> m \<le> icWidth C \<and> iq_view rf iq0 q' \<and> executing q' + n = executing iq + m"
    using m p by (cases out) auto
qed (use assms in \<open>auto simp: iq_view_def executing_def\<close>)

lemma push_ready_view:
  "iq_view rf iq0 iq \<Longrightarrow> on_ok (push_ready c sn iq) (\<lambda>iq'. iq_view rf iq0 iq' \<and> executing iq' = executing iq)"
  by (rule on_okI) (auto simp: push_ready_def addToOrderList_def iq_view_def executing_def Let_def bindE_ok
      split: if_splits option.splits)

lemma scheduleReadyInsts_view:
  "on_ok (scheduleReadyInsts C rf now tick iq) (\<lambda>(n, iq').
     n \<le> icWidth C \<and> iq_view rf iq iq' \<and> executing iq' = executing iq + n)"
proof -
  let ?P = "\<lambda>q. iq_view rf iq q \<and> executing q = executing iq"
  have start: "?P iq" by (simp add: iq_view_def)
  have push: "on_ok (push_ready c sn q) ?P" if "?P q" for c sn q
    using that push_ready_view[of rf iq q c sn] by (auto intro: on_ok_mono)
  have get: "?P (snd (getDeferredMemInst q))" "?P (snd (getBlockedMemInst q))" if "?P q" for q
    using that by (auto simp: getDeferredMemInst_def getBlockedMemInst_def iq_view_def executing_def
        split: option.splits list.splits)
  have loop: "on_ok (issue_loop C rf now tick 0 [] (iqOrder q) q) (\<lambda>(n, iq').
      n \<le> icWidth C \<and> iq_view rf iq iq' \<and> executing iq' = executing iq + n)" if "?P q" for q
    using that by (auto intro: on_ok_mono[OF issue_loop_view[of rf iq q 0 C]])
  show ?thesis unfolding scheduleReadyInsts_def on_ok_simps
    by (rule on_ok_mono[OF sched_deferred_rule[of ?P, OF start get(1) push]], assumption+)
       (rule on_ok_mono[OF sched_retry_rule[of ?P, OF _ get(2) push]], assumption+, rule loop)
qed

text \<open>
  C11: An issue never exceeds the width of the machine and sends as many instructions to the
  execute stage or to a unit as it counts.  It carries the poison of runahead along: a runahead
  instruction that is issued is poisoned if one of its source registers is, and an instruction is
  poisoned by the issue only if it is a runahead instruction with a poisoned source.
\<close>

theorem issue_carries_the_poison_within_the_width:
  assumes "scheduleReadyInsts C rf now tick iq = Inr (n, iq')"
  shows "n \<le> icWidth C \<and> executing iq' = executing iq + n \<and>
    (\<forall>sn. let i = iqInst iq sn; i' = iqInst iq' sn in
      (has_status Issued i' \<and> \<not> has_status Issued i \<and> has_flag Runahead i \<longrightarrow>
         (\<exists>p. poisoned_source rf (diSrcs i) = Inr p \<and> (p \<longrightarrow> has_flag Poisoned i'))) \<and>
      (has_flag Poisoned i' \<and> \<not> has_flag Poisoned i \<longrightarrow>
         has_flag Runahead i \<and> poisoned_source rf (diSrcs i) = Inr True))"
proof -
  have v: "n \<le> icWidth C \<and> iq_view rf iq iq' \<and> executing iq' = executing iq + n"
    using on_okD[OF scheduleReadyInsts_view assms] by simp
  then have "issue_view rf (iqInst iq sn) (iqInst iq' sn)" for sn by (simp add: iq_view_def)
  then show ?thesis using v unfolding issue_view_def poison_known_def Let_def by metis
qed

text \<open>A queue whose only ready instruction, of the class without a unit, has a poisoned source.\<close>

definition ex_poison_file :: phys_reg_file where
  "ex_poison_file = \<lparr>regVals = (\<lambda>_. []), vecVals = (\<lambda>_. []), regIds = (\<lambda>_. []),
     poisonedRegs = [False, True], numPhys = (\<lambda>_. 0), totalNumRegs = 2\<rparr>"

definition ex_poison_inst :: dyn_inst where
  "ex_poison_inst = (ex_iq_inst 7)\<lparr>diFlags := {Runahead},
     diSrcs := [\<lparr>prClass = IntRegClass, prIndex = 0, prFlat = 0\<rparr>, \<lparr>prClass = IntRegClass, prIndex = 1, prFlat = 1\<rparr>]\<rparr>"

definition ex_poison_iq :: "mem_dep \<Rightarrow> fu_pool \<Rightarrow> inst_queue" where
  "ex_poison_iq md pool = \<lparr>iqInst = (\<lambda>_. ex_poison_inst), iqMemDep = (\<lambda>_. md), iqList = (\<lambda>_. []), iqToExecute = [],
     iqDeferred = [], iqBlocked = [], iqRetry = [], iqReady = (\<lambda>_. [])(1 := [7]), iqNonSpec = {},
     iqOrder = [(1, 7)], iqOnList = (\<lambda>_. False)(1 := True), iqGraph = [], iqScore = [],
     iqCount = (\<lambda>_. 0)(0 := 1), iqMax = (\<lambda>_. 4), iqFree = 3, iqWb = 0, iqSquashedSeq = (\<lambda>_. 0),
     iqPool = pool, iqEvents = [], iqToExecSize = 0, iqToExecPrev = 0,
     iqPins = \<lparr>numPinned = (\<lambda>_. 0), pinnedToComplete = (\<lambda>_. 0)\<rparr>\<rparr>"

lemma ex_poison_run:
  "\<exists>iq'. scheduleReadyInsts ex_iq_cfg ex_poison_file 0 0 (ex_poison_iq md pool) = Inr (1, iq') \<and>
     has_status Issued (iqInst iq' 7) \<and> iqToExecute iq' = [7]"
proof -
  have p: "poisoned_source ex_poison_file (diSrcs ex_poison_inst) = Inr True"
    by (simp add: ex_poison_inst_def ex_poison_file_def regPoisoned_def vecGet_def)
  have one: "\<exists>iq'. issue_one ex_iq_cfg ex_poison_file 0 0 1 7 [] (ex_poison_iq md pool) = Inr (Issuing, iq', []) \<and>
     has_status Issued (iqInst iq' 7) \<and> iqToExecute iq' = [7]"
    by (simp add: issue_one_def ex_poison_iq_def poison_check_def p setPoisoned_def iq_upd_def assertE_def Let_def
        start_execution_def pop_class_def after_issue_def mark_issued_def count_down_def ex_iq_cfg_def)
       (simp add: ex_poison_inst_def ex_iq_inst_def has_flag_def has_status_def set_flag_def set_status_def
        has_prop_def reset_status_def)
  then obtain iq' where "issue_one ex_iq_cfg ex_poison_file 0 0 1 7 [] (ex_poison_iq md pool) = Inr (Issuing, iq', [])"
     "has_status Issued (iqInst iq' 7)" "iqToExecute iq' = [7]" by blast
  moreover have "sched_deferred ex_iq_cfg (ex_poison_iq md pool) = Inr (ex_poison_iq md pool)"
    "sched_retry ex_iq_cfg (ex_poison_iq md pool) = Inr (ex_poison_iq md pool)"
    by (simp_all add: sched_deferred.simps sched_retry.simps getDeferredMemInst_def getBlockedMemInst_def ex_poison_iq_def)
  moreover have "iqOrder (ex_poison_iq md pool) = [(1, 7)]" "icWidth ex_iq_cfg = 2"
    by (simp_all add: ex_poison_iq_def ex_iq_cfg_def)
  ultimately show ?thesis
    by (simp add: scheduleReadyInsts_def issue_loop.simps)
qed

theorem issue_carries_the_poison_within_the_width_witness:
  "\<exists>iq iq'. scheduleReadyInsts ex_iq_cfg ex_poison_file 0 0 iq = Inr (1, iq') \<and>
     \<not> has_flag Poisoned (iqInst iq 7) \<and> has_flag Poisoned (iqInst iq' 7)"
proof -
  let ?iq = "ex_poison_iq undefined undefined"
  obtain iq' where r: "scheduleReadyInsts ex_iq_cfg ex_poison_file 0 0 ?iq = Inr (1, iq')" "has_status Issued (iqInst iq' 7)"
    using ex_poison_run by blast
  have i: "\<not> has_status Issued (iqInst ?iq 7)" "has_flag Runahead (iqInst ?iq 7)" "\<not> has_flag Poisoned (iqInst ?iq 7)"
    "poisoned_source ex_poison_file (diSrcs (iqInst ?iq 7)) = Inr True"
    by (simp_all add: ex_poison_iq_def ex_poison_inst_def ex_iq_inst_def has_status_def has_flag_def
        ex_poison_file_def regPoisoned_def vecGet_def)
  then have "has_flag Poisoned (iqInst iq' 7)"
    using issue_carries_the_poison_within_the_width[OF r(1)] r(2) by (auto simp: Let_def)
  then show ?thesis using r(1) i(3) by blast
qed

section \<open>The last write to a register\<close>

lemma push_ready_adds: "push_ready c sn iq = Inr iq' \<Longrightarrow> set (iqReady iq' d) = (if d = c then insert sn (set (iqReady iq c)) else set (iqReady iq d))"
  by (auto simp: push_ready_frame(4) set_insort_key)

lemma handed_over_frame:
  assumes "foldE (addReadyMemInst C) out iq = Inr iq'"
  shows "iqInst iq' = iqInst iq \<and> iqScore iq' = iqScore iq \<and> iqMemDep iq' = iqMemDep iq
    \<and> (\<forall>c. set (iqReady iq c) \<subseteq> set (iqReady iq' c))"
  using assms by (rule foldE_inv) (auto simp: addReadyMemInst_def push_ready_adds push_ready_frame(3,8,10) split: if_splits)

text \<open>
  What a memory dependence unit does when it is told that the registers of an instruction are
  ready: only the entries of the places given change, and only in this one field.
\<close>

definition md_told :: "nat set \<Rightarrow> mem_dep \<Rightarrow> mem_dep \<Rightarrow> bool" where
  "md_told D md md' \<longleftrightarrow> md' = md\<lparr>mdHeap := mdHeap md'\<rparr> \<and> length (mdHeap md') = length (mdHeap md) \<and>
     (\<forall>p < length (mdHeap md).
        mdHeap md' ! p = (mdHeap md ! p)\<lparr>meRegsReady := meRegsReady (mdHeap md' ! p)\<rparr> \<and>
        (meRegsReady (mdHeap md ! p) \<longrightarrow> meRegsReady (mdHeap md' ! p)) \<and>
        (p \<notin> D \<longrightarrow> mdHeap md' ! p = mdHeap md ! p))"

lemma md_told_refl [simp]: "md_told D md md"
  by (simp add: md_told_def)

lemma md_told_trans: "md_told D md md1 \<Longrightarrow> md_told E md1 md2 \<Longrightarrow> D \<union> E \<subseteq> F \<Longrightarrow> md_told F md md2"
proof -
  assume a: "md_told D md md1" and b: "md_told E md1 md2" and F: "D \<union> E \<subseteq> F"
  have "md2 = md\<lparr>mdHeap := mdHeap md2\<rparr>" using a b by (simp add: md_told_def) (metis mem_dep.update_convs(1) mem_dep.surjective)
  moreover have "mdHeap md2 ! p = (mdHeap md ! p)\<lparr>meRegsReady := meRegsReady (mdHeap md2 ! p)\<rparr>
      \<and> (meRegsReady (mdHeap md ! p) \<longrightarrow> meRegsReady (mdHeap md2 ! p)) \<and> (p \<notin> F \<longrightarrow> mdHeap md2 ! p = mdHeap md ! p)"
    if p: "p < length (mdHeap md)" for p
  proof -
    obtain x where x: "mdHeap md1 ! p = (mdHeap md ! p)\<lparr>meRegsReady := x\<rparr>"
      using a p unfolding md_told_def by blast
    obtain y where y: "mdHeap md2 ! p = (mdHeap md1 ! p)\<lparr>meRegsReady := y\<rparr>"
      using a b p unfolding md_told_def by metis
    have "mdHeap md2 ! p = (mdHeap md ! p)\<lparr>meRegsReady := meRegsReady (mdHeap md2 ! p)\<rparr>" using x y by simp
    moreover have "meRegsReady (mdHeap md ! p) \<Longrightarrow> meRegsReady (mdHeap md2 ! p)"
      using a b p unfolding md_told_def by metis
    moreover have "p \<notin> F \<Longrightarrow> mdHeap md2 ! p = mdHeap md ! p"
      using a b p F unfolding md_told_def by (metis UnI1 UnI2 subsetD)
    ultimately show ?thesis by blast
  qed
  ultimately show ?thesis using a b by (simp add: md_told_def)
qed

lemma md_find_told: "md_told D md md' \<Longrightarrow> md_find sn md' = md_find sn md"
  unfolding md_told_def md_find_def by (metis mem_dep.select_convs(2) mem_dep.surjective mem_dep.update_convs(1))

lemma regsReady_told:
  assumes "md_regsReady i md = Inr (md', out)"
  shows "\<exists>p. md_find (diSeq i) md = Inr p \<and> md_told {p} md md' \<and>
    (p < length (mdHeap md') \<longrightarrow> meRegsReady (mdHeap md' ! p) \<and>
      (meMemDeps (mdHeap md' ! p) = 0 \<longrightarrow> out = [meInst (mdHeap md' ! p)]))"
proof -
  obtain p where p: "md_find (diSeq i) md = Inr p" "md' = upd_entry p (\<lambda>e. e\<lparr>meRegsReady := True\<rparr>) md"
    "(if meMemDeps (mdHeap md' ! p) = 0 then moveToReady p md' else Inr []) = Inr out"
    using assms by (auto simp: md_regsReady_def Let_def elim!: bindE_elim)
  have v: "mdHeap md' ! q = (if q = p then (mdHeap md ! p)\<lparr>meRegsReady := True\<rparr> else mdHeap md ! q)"
    if "q < length (mdHeap md)" for q
    using that p(2) by (simp add: upd_entry_def nth_list_update)
  have l: "length (mdHeap md') = length (mdHeap md)" "md' = md\<lparr>mdHeap := mdHeap md'\<rparr>"
    using p(2) by (simp_all add: upd_entry_def)
  have "md_told {p} md md'" using l v by (simp add: md_told_def)
  moreover have "out = [meInst (mdHeap md' ! p)]" if "meMemDeps (mdHeap md' ! p) = 0"
    using p(3) that by (auto simp: moveToReady_def elim!: bindE_elim)
  ultimately show ?thesis using p(1) v l(1) by auto
qed

text \<open>
  The entries of the memory instructions of a list, and a memory instruction that the unit of its
  thread has been told about: it is in its ready queue if it waits for no memory instruction.
\<close>

definition md_places :: "inst_queue \<Rightarrow> nat list \<Rightarrow> nat \<Rightarrow> nat set" where
  "md_places iq ds t = {p. \<exists>d \<in> set ds. has_prop IsMemRef (iqInst iq d) \<and> diTid (iqInst iq d) = t \<and>
     md_find (diSeq (iqInst iq d)) (iqMemDep iq t) = Inr p}"

definition mem_told :: "iq_cfg \<Rightarrow> inst_queue \<Rightarrow> nat \<Rightarrow> bool" where
  "mem_told C iq d \<longleftrightarrow> (let i = iqInst iq d; md = iqMemDep iq (diTid i) in
     case md_find (diSeq i) md of
       Inl _ \<Rightarrow> False
     | Inr p \<Rightarrow> p < length (mdHeap md) \<longrightarrow> meRegsReady (mdHeap md ! p) \<and>
         (meMemDeps (mdHeap md ! p) = 0 \<and> meInst (mdHeap md ! p) = d \<longrightarrow> d \<in> set (iqReady iq (icOpClass C i))))"

lemma mem_told_mono:
  assumes "mem_told C iq d" "iqInst iq' d = iqInst iq d" "\<And>c. set (iqReady iq c) \<subseteq> set (iqReady iq' c)"
    "md_told D (iqMemDep iq (diTid (iqInst iq d))) (iqMemDep iq' (diTid (iqInst iq d)))"
  shows "mem_told C iq' d"
proof -
  let ?t = "diTid (iqInst iq d)"
  have same: "meMemDeps (mdHeap (iqMemDep iq' ?t) ! p) = meMemDeps (mdHeap (iqMemDep iq ?t) ! p)"
    "meInst (mdHeap (iqMemDep iq' ?t) ! p) = meInst (mdHeap (iqMemDep iq ?t) ! p)"
    if "p < length (mdHeap (iqMemDep iq ?t))" for p
  proof -
    obtain x where "mdHeap (iqMemDep iq' ?t) ! p = (mdHeap (iqMemDep iq ?t) ! p)\<lparr>meRegsReady := x\<rparr>"
      using assms(4) \<open>p < _\<close> by (auto simp: md_told_def)
    then show "meMemDeps (mdHeap (iqMemDep iq' ?t) ! p) = meMemDeps (mdHeap (iqMemDep iq ?t) ! p)"
      "meInst (mdHeap (iqMemDep iq' ?t) ! p) = meInst (mdHeap (iqMemDep iq ?t) ! p)" by simp_all
  qed
  have len: "length (mdHeap (iqMemDep iq' ?t)) = length (mdHeap (iqMemDep iq ?t))"
    and mono: "\<And>p. p < length (mdHeap (iqMemDep iq ?t)) \<Longrightarrow> meRegsReady (mdHeap (iqMemDep iq ?t) ! p) \<Longrightarrow>
      meRegsReady (mdHeap (iqMemDep iq' ?t) ! p)"
    using assms(4) by (auto simp: md_told_def)
  show ?thesis
    using assms(1,3) by (auto simp: mem_told_def Let_def assms(2) md_find_told[OF assms(4)] len same mono split: sum.splits)
qed

lemma addIfReady_frame:
  assumes "addIfReady C sn iq = Inr iq'"
  shows "iqInst iq' = iqInst iq" "iqScore iq' = iqScore iq" "set (iqReady iq c) \<subseteq> set (iqReady iq' c)"
    "has_status CanIssue (iqInst iq sn) \<Longrightarrow> \<not> has_prop IsMemRef (iqInst iq sn) \<Longrightarrow>
      sn \<in> set (iqReady iq' (icOpClass C (iqInst iq sn)))"
    "md_told (md_places iq [sn] t) (iqMemDep iq t) (iqMemDep iq' t)"
    "has_status CanIssue (iqInst iq sn) \<Longrightarrow> has_prop IsMemRef (iqInst iq sn) \<Longrightarrow> mem_told C iq' sn"
proof -
  let ?i = "iqInst iq sn"
  have "iqInst iq' = iqInst iq \<and> iqScore iq' = iqScore iq \<and> set (iqReady iq c) \<subseteq> set (iqReady iq' c) \<and>
    (has_status CanIssue ?i \<longrightarrow> \<not> has_prop IsMemRef ?i \<longrightarrow> sn \<in> set (iqReady iq' (icOpClass C ?i))) \<and>
    md_told (md_places iq [sn] t) (iqMemDep iq t) (iqMemDep iq' t) \<and>
    (has_status CanIssue ?i \<longrightarrow> has_prop IsMemRef ?i \<longrightarrow> mem_told C iq' sn)"
  proof (cases "has_status CanIssue ?i \<and> has_prop IsMemRef ?i")
    case True
    then obtain md out where r: "md_regsReady ?i (iqMemDep iq (diTid ?i)) = Inr (md, out)"
      "foldE (addReadyMemInst C) out (set_memDep (diTid ?i) md iq) = Inr iq'"
      using assms by (auto simp: addIfReady_def Let_def elim!: bindE_elim)
    obtain p where p: "md_find (diSeq ?i) (iqMemDep iq (diTid ?i)) = Inr p" "md_told {p} (iqMemDep iq (diTid ?i)) md"
      "p < length (mdHeap md) \<longrightarrow> meRegsReady (mdHeap md ! p) \<and>
        (meMemDeps (mdHeap md ! p) = 0 \<longrightarrow> out = [meInst (mdHeap md ! p)])"
      using regsReady_told[OF r(1)] by (elim exE conjE)
    note h = handed_over_frame[OF r(2)]
    then have f: "iqInst iq' = iqInst iq" "iqMemDep iq' = (iqMemDep iq)(diTid ?i := md)" "iqScore iq' = iqScore iq"
      "set (iqReady iq c) \<subseteq> set (iqReady iq' c)"
      by (simp_all add: set_memDep_def)
    have "md_told (md_places iq [sn] t) (iqMemDep iq t) (iqMemDep iq' t)"
    proof (cases "t = diTid ?i")
      case t: True
      have "{p} \<union> {} \<subseteq> md_places iq [sn] t" using p(1) True t by (simp add: md_places_def)
      from md_told_trans[OF p(2) md_told_refl this] show ?thesis using f(2) t by simp
    qed (simp add: f(2))
    moreover have "mem_told C iq' sn"
    proof -
      have "sn \<in> set (iqReady iq' (icOpClass C ?i))" if "out = [sn]"
        using r(2) that by (auto simp: addReadyMemInst_def push_ready_adds set_memDep_def bindE_ok)
      then show ?thesis using p(3) 
        unfolding mem_told_def Let_def f(1,2) fun_upd_same md_find_told[OF p(2)] p(1) sum.case by auto
    qed
    ultimately show ?thesis using True f by blast
  next
    case False
    then show ?thesis using assms
      by (auto simp: addIfReady_def Let_def push_ready_adds push_ready_frame(3,8,10) split: if_splits)
  qed
  then show "iqInst iq' = iqInst iq" "iqScore iq' = iqScore iq" "set (iqReady iq c) \<subseteq> set (iqReady iq' c)"
    "has_status CanIssue ?i \<Longrightarrow> \<not> has_prop IsMemRef ?i \<Longrightarrow> sn \<in> set (iqReady iq' (icOpClass C ?i))"
    "md_told (md_places iq [sn] t) (iqMemDep iq t) (iqMemDep iq' t)"
    "has_status CanIssue ?i \<Longrightarrow> has_prop IsMemRef ?i \<Longrightarrow> mem_told C iq' sn" by blast+
qed

text \<open>Marking a source ready a number of times.\<close>

lemma marks:
  "diReadyRegs ((markRegReady ^^ k) i) = diReadyRegs i + k" "diSrcs ((markRegReady ^^ k) i) = diSrcs i"
  "has_prop p ((markRegReady ^^ k) i) = has_prop p i"
  "diSeq ((markRegReady ^^ k) i) = diSeq i" "diTid ((markRegReady ^^ k) i) = diTid i"
  by (induction k) (auto simp: markRegReady_def Let_def set_status_def has_prop_def)

lemma marks_ready: "k > 0 \<Longrightarrow> diReadyRegs i + k = length (diSrcs i) \<Longrightarrow> has_status CanIssue ((markRegReady ^^ k) i)"
  using marks(1,2)[of "k - 1" i] by (cases k) (auto simp: markRegReady_def Let_def)

lemma wake_chain_range:
  assumes "wake_chain C r n iq = Inr x"
  shows "r < length (iqGraph iq)"
  using assms by (subst (asm) wake_chain.simps) (auto simp: dg_pop_def elim!: bindE_elim dest: vecGet_ok[THEN iffD1])

lemma wake_chain_spec:
  assumes "wake_chain C r n iq = Inr (n', iq')" "snd (iqGraph iq ! r) = ds"
  shows "n' = n + length ds \<and> iqGraph iq' = (iqGraph iq)[r := (fst (iqGraph iq ! r), [])] \<and>
    iqScore iq' = iqScore iq \<and> (\<forall>d. iqInst iq' d = (markRegReady ^^ count_list ds d) (iqInst iq d)) \<and>
    (\<forall>c. set (iqReady iq c) \<subseteq> set (iqReady iq' c)) \<and>
    (\<forall>d \<in> set ds. has_status CanIssue (iqInst iq' d) \<and> \<not> has_prop IsMemRef (iqInst iq' d) \<longrightarrow>
       d \<in> set (iqReady iq' (icOpClass C (iqInst iq' d)))) \<and>
    (\<forall>t. md_told (md_places iq ds t) (iqMemDep iq t) (iqMemDep iq' t)) \<and>
    (\<forall>d \<in> set ds. has_status CanIssue (iqInst iq' d) \<and> has_prop IsMemRef (iqInst iq' d) \<longrightarrow> mem_told C iq' d)"
  using assms
proof (induction ds arbitrary: n iq)
  case Nil
  note r = wake_chain_range[OF Nil.prems(1)]
  have "(iqGraph iq)[r := (fst (iqGraph iq ! r), [])] = iqGraph iq"
    using r Nil.prems(2) by (metis list_update_id prod.collapse)
  moreover have "n' = n" "iq' = iq"
    using Nil.prems r by (simp_all add: wake_chain.simps[of C r n iq] dg_pop_at)
  ultimately show ?case by simp
next
  case (Cons d ds)
  let ?g = "(iqGraph iq)[r := (fst (iqGraph iq ! r), ds)]"
  have r: "r < length (iqGraph iq)" by (rule wake_chain_range[OF Cons.prems(1)])
  then have "dg_pop r (iqGraph iq) = Inr (Some d, ?g)" using Cons.prems(2) by (simp add: dg_pop_at)
  then obtain q where q: "wake_dependent C d (iq\<lparr>iqGraph := ?g\<rparr>) = Inr q" "wake_chain C r (n + 1) q = Inr (n', iq')"
    using Cons.prems(1) by (subst (asm) wake_chain.simps) (auto elim!: bindE_elim)
  let ?a = "iq_upd d markRegReady (iq\<lparr>iqGraph := ?g\<rparr>)"
  note w = q(1)[unfolded wake_dependent_def]
  note f = addIfReady_frame[OF w]
  have g: "iqGraph q = ?g" using addIfReady_graph[OF w] by (simp add: iq_upd_def)
  have i: "iqInst q = (iqInst iq)(d := markRegReady (iqInst iq d))" "iqScore q = iqScore iq"
    using f(1,2) by (simp_all add: iq_upd_def)
  have m: "set (iqReady iq c) \<subseteq> set (iqReady q c)" for c using f(3)[of c] by (simp add: iq_upd_def)
  have p: "d \<in> set (iqReady q (icOpClass C (iqInst q d)))"
    if "has_status CanIssue (iqInst q d)" "\<not> has_prop IsMemRef (iqInst q d)"
    using f(4) that f(1) by simp
  note ih = Cons.IH[OF q(2)] 
  have ih: "n' = n + 1 + length ds" "iqGraph iq' = (iqGraph iq)[r := (fst (iqGraph iq ! r), [])]"
    "iqScore iq' = iqScore iq" "\<And>e. iqInst iq' e = (markRegReady ^^ count_list ds e) (iqInst q e)"
    "\<And>c. set (iqReady q c) \<subseteq> set (iqReady iq' c)"
    "\<And>e. e \<in> set ds \<Longrightarrow> has_status CanIssue (iqInst iq' e) \<Longrightarrow> \<not> has_prop IsMemRef (iqInst iq' e) \<Longrightarrow>
       e \<in> set (iqReady iq' (icOpClass C (iqInst iq' e)))"
    "\<And>t. md_told (md_places q ds t) (iqMemDep q t) (iqMemDep iq' t)"
    "\<And>e. e \<in> set ds \<Longrightarrow> has_status CanIssue (iqInst iq' e) \<Longrightarrow> has_prop IsMemRef (iqInst iq' e) \<Longrightarrow> mem_told C iq' e"
    using ih r g i(2) by auto
  have same: "diSeq (iqInst q e) = diSeq (iqInst iq e)" "diTid (iqInst q e) = diTid (iqInst iq e)"
    "has_prop x (iqInst q e) = has_prop x (iqInst iq e)" for e x
    using i(1) marks(3-5)[where k = 1 and i = "iqInst iq e"] by auto
  have step: "md_told (md_places iq [d] t) (iqMemDep iq t) (iqMemDep q t)" for t
    using f(5)[of t] marks(3-5)[where k = 1 and i = "iqInst iq d"] by (simp add: iq_upd_def md_places_def)
  have told: "md_told (md_places iq (d # ds) t) (iqMemDep iq t) (iqMemDep iq' t)" for t
    by (rule md_told_trans[OF step ih(7)]) (auto simp: md_places_def same md_find_told[OF step])
  have mem: "mem_told C iq' e"
    if "e \<in> set (d # ds)" "has_status CanIssue (iqInst iq' e)" "has_prop IsMemRef (iqInst iq' e)" for e
  proof (cases "e \<in> set ds")
    case False
    then have e: "e = d" "iqInst iq' d = iqInst q d" using that(1) ih(4)[of d] by (auto simp: count_list_0_iff)
    then have "mem_told C q d" using f(1,6) that(2,3) by simp
    then show ?thesis using mem_told_mono[OF _ e(2) ih(5) ih(7)] e(1) by simp
  qed (use ih(8) that in blast)
  have "iqInst iq' e = (markRegReady ^^ count_list (d # ds) e) (iqInst iq e)" for e
    using ih(4)[of e] i(1) by (simp add: funpow_swap1)
  moreover have "e \<in> set (iqReady iq' (icOpClass C (iqInst iq' e)))"
    if "e \<in> set (d # ds)" "has_status CanIssue (iqInst iq' e)" "\<not> has_prop IsMemRef (iqInst iq' e)" for e
  proof (cases "e \<in> set ds")
    case False
    then have "e = d" "iqInst iq' d = iqInst q d" using that(1) ih(4)[of d] by (auto simp: count_list_0_iff)
    then show ?thesis using p that(2,3) ih(5) by auto
  qed (use ih(6) that in blast)
  moreover have "set (iqReady iq c) \<subseteq> set (iqReady iq' c)" for c using m[of c] ih(5)[of c] by blast
  ultimately show ?case using ih(1,2,3) told mem by auto
qed

text \<open>
  C14: When the last write to a physical register is done, every instruction on its chain has one
  source more ready for each of its entries there and no other instruction is touched.  Those
  whose sources are all ready are passed on: one that does not access memory is in the ready
  queue of its class; for one that does, the memory dependence unit of its thread has noted that
  its registers are ready, and it is in the ready queue of its class if its entry waits for no
  other memory instruction.  Nothing leaves a ready queue; the memory dependence units change in
  the entries of instructions of the chain only, and there only in this note; the chain is empty,
  the register has no producer, and the scoreboard has it ready.  The number that is returned is
  the length of the chain.
\<close>

theorem last_write_releases_the_waiting:
  assumes "release_register C r n iq = Inr (n', iq')"
  shows "let ds = snd (iqGraph iq ! r) in
    n' = n + length ds \<and> iqGraph iq' = (iqGraph iq)[r := (None, [])] \<and> iqScore iq' = (iqScore iq)[r := True] \<and>
    (\<forall>d. diReadyRegs (iqInst iq' d) = diReadyRegs (iqInst iq d) + count_list ds d \<and>
       (d \<notin> set ds \<longrightarrow> iqInst iq' d = iqInst iq d)) \<and>
    (\<forall>d \<in> set ds. diReadyRegs (iqInst iq' d) = length (diSrcs (iqInst iq d)) \<longrightarrow>
       (if has_prop IsMemRef (iqInst iq d) then mem_told C iq' d
        else d \<in> set (iqReady iq' (icOpClass C (iqInst iq' d))))) \<and>
    (\<forall>t. md_told (md_places iq ds t) (iqMemDep iq t) (iqMemDep iq' t)) \<and>
    (\<forall>c. set (iqReady iq c) \<subseteq> set (iqReady iq' c))"
proof -
  obtain m q where w: "wake_chain C r n iq = Inr (m, q)"
    and rest: "bindE (dg_emptyAt r (iqGraph q)) (\<lambda>e. bindE (assertE e) (\<lambda>_.
      bindE (dg_clearInst r (iqGraph q)) (\<lambda>g. bindE (vecSet (iqScore q) r True) (\<lambda>sc.
        Inr (m, q\<lparr>iqGraph := g, iqScore := sc\<rparr>))))) = Inr (n', iq')"
    using assms by (auto simp: release_register_def elim!: bindE_elim)
  note spec = wake_chain_spec[OF w refl]
  have "r < length (iqGraph q)" "snd (iqGraph q ! r) = []" using spec wake_chain_range[OF w] by simp_all
  then have iq': "n' = m" "iqGraph iq' = (iqGraph q)[r := (None, [])]" "iqScore iq' = (iqScore q)[r := True]"
      "iqInst iq' = iqInst q" "iqReady iq' = iqReady q" "iqMemDep iq' = iqMemDep q"
    using rest by (auto simp: bindE_ok assertE_ok vecSet_ok)
  have c: "has_status CanIssue (iqInst q d)"
    if "d \<in> set (snd (iqGraph iq ! r))" "diReadyRegs (iqInst q d) = length (diSrcs (iqInst iq d))" for d
  proof -
    have "0 < count_list (snd (iqGraph iq ! r)) d" using that(1) by (metis count_list_0_iff neq0_conv)
    from marks_ready[OF this, of "iqInst iq d"] show ?thesis using spec that(2) by (simp add: marks(1))
  qed
  have "mem_told C iq' d = mem_told C q d" for d unfolding mem_told_def iq' by (rule refl)
  then show ?thesis unfolding Let_def iq' using spec c by (auto simp: marks count_list_0_iff)
qed

text \<open>A queue in which two instructions wait for register 1; the one with number 5 accesses memory.\<close>

definition ex_wait_inst :: "nat \<Rightarrow> dyn_inst" where
  "ex_wait_inst sn = (ex_iq_inst sn)\<lparr>diStatus := {}, diSrcs := [\<lparr>prClass = IntRegClass, prIndex = 1, prFlat = 1\<rparr>],
     diReadySrc := [False], diProps := (if sn = 5 then {IsMemRef, IsLoad} else {})\<rparr>"

definition ex_wait_md :: mem_dep where
  "ex_wait_md = \<lparr>mdHeap = [new_MemDepEntry 5], mdHash = [(5, 0)], mdList = (\<lambda>_. [])(0 := [5]), mdReplay = [],
     mdPred = no_store_set, mdLoadBars = [], mdStoreBars = []\<rparr>"

definition ex_wait_iq :: inst_queue where
  "ex_wait_iq = (ex_poison_iq ex_wait_md undefined)\<lparr>iqInst := ex_wait_inst, iqReady := (\<lambda>_. []), iqOrder := [],
     iqOnList := (\<lambda>_. False), iqGraph := [(None, []), (Some 2, [3, 5])], iqScore := [False, False]\<rparr>"

lemmas ex_wait_defs = ex_wait_iq_def ex_poison_iq_def ex_wait_inst_def ex_iq_inst_def ex_iq_cfg_def ex_wait_md_def

lemma ex_wait_run:
  "\<exists>iq'. release_register ex_iq_cfg 1 0 ex_wait_iq = Inr (2, iq')"
proof -
  let ?g = "[(None, []), (Some 2, [5])]" and ?h = "[(None, []), (Some 2, [])]"
  obtain q where q: "wake_dependent ex_iq_cfg 3 (ex_wait_iq\<lparr>iqGraph := ?g\<rparr>) = Inr q" "iqGraph q = ?g" "iqScore q = [False, False]"
    "iqInst q = ex_wait_inst(3 := markRegReady (ex_wait_inst 3))" "iqMemDep q 0 = ex_wait_md"
    "iqReady q = (\<lambda>_. [])(1 := [3])" "iqOnList q = (\<lambda>_. False)(1 := True)" "iqOrder q = [(1, 3)]"
    by (simp add: wake_dependent_def addIfReady_def push_ready_def addToOrderList_def assertE_def iq_upd_def Let_def
        ex_wait_defs markRegReady_def has_status_def has_prop_def set_status_def)
  obtain w where w: "wake_dependent ex_iq_cfg 5 (q\<lparr>iqGraph := ?h\<rparr>) = Inr w" "iqGraph w = ?h" "iqScore w = [False, False]"
    using q(3-8)
    by (simp add: wake_dependent_def addIfReady_def push_ready_def assertE_def iq_upd_def Let_def
        ex_wait_defs markRegReady_def has_status_def has_prop_def set_status_def md_regsReady_def md_find_def
        moveToReady_def upd_entry_def new_MemDepEntry_def addReadyMemInst_def set_memDep_def)
  have "dg_pop 1 (iqGraph ex_wait_iq) = Inr (Some 3, ?g)" "dg_pop 1 ?g = Inr (Some 5, ?h)" "dg_pop 1 ?h = Inr (None, ?h)"
    by (simp_all add: dg_pop_at ex_wait_iq_def ex_poison_iq_def)
  then have "wake_chain ex_iq_cfg 1 0 ex_wait_iq = Inr (2, w\<lparr>iqGraph := ?h\<rparr>)"
    using q(1,2) w by (simp add: wake_chain.simps[of _ "Suc 0" 0 ex_wait_iq] wake_chain.simps[of _ "Suc 0" _ q]
        wake_chain.simps[of _ "Suc 0" _ w] numeral_2_eq_2)
  then show ?thesis using w by (simp add: release_register_def assertE_def vecSet_def)
qed

theorem last_write_releases_the_waiting_witness:
  "\<exists>iq'. release_register ex_iq_cfg 1 0 ex_wait_iq = Inr (2, iq') \<and> iqScore iq' = [False, True] \<and>
     3 \<in> set (iqReady iq' (icOpClass ex_iq_cfg (iqInst iq' 3))) \<and> mem_told ex_iq_cfg iq' 5"
proof -
  obtain iq' where r: "release_register ex_iq_cfg 1 0 ex_wait_iq = Inr (2, iq')" using ex_wait_run by blast
  have i: "snd (iqGraph ex_wait_iq ! 1) = [3, 5]" "iqScore ex_wait_iq = [False, False]"
    "\<not> has_prop IsMemRef (iqInst ex_wait_iq 3)" "has_prop IsMemRef (iqInst ex_wait_iq 5)"
    "diReadyRegs (iqInst ex_wait_iq d) + 1 = length (diSrcs (iqInst ex_wait_iq d))" for d
    by (simp_all add: ex_wait_defs has_prop_def)
  from last_write_releases_the_waiting[OF r] i(1-4) i(5)[of 3] i(5)[of 5] show ?thesis using r by (auto simp: Let_def)
qed

end
