(* ===== verification/LsqUnit.thy ===== *)
theory LsqUnit
  imports DynInst
begin

text \<open>
  The load/store queue of a thread (\<open>lsq_unit.hh\<close>, \<open>lsq_unit.cc\<close>) with the cache ports of
  \<open>lsq.cc\<close> and the sending of a request (\<open>lsq.hh\<close>, \<open>lsq.cc\<close>).

  gem5's \<open>CircularQueue\<close> is the list of its entries from head to tail; an iterator or an index is
  the position counted from the start of the run, so that the entry at position \<open>p\<close> is entry
  \<open>p - head\<close> of the list and \<open>end()\<close> is the position behind the tail.  An entry that is in the
  queue is valid: it is set when the queue grows and cleared when it leaves.  A pointer to an
  instruction is its sequence number; \<open>luInst\<close> holds the objects, \<open>luEff\<close>, \<open>luEffSize\<close>,
  \<open>luMem\<close>, \<open>luSqIt\<close> and \<open>luLqIt\<close> their members \<open>effAddr\<close>, \<open>effSize\<close>, \<open>memData\<close>, \<open>sqIt\<close> and
  \<open>lqIt\<close>.  Addresses are 64 bit words, data are bytes.

  What the unit calls in other parts is recorded: \<open>luResched\<close>, \<open>luReplay\<close> and \<open>luBlockMem\<close> list
  the instructions passed to \<open>rescheduleMemInst\<close>, \<open>replayMemInst\<close> and \<open>blockMemInst\<close> of the
  execute stage, \<open>luEvents\<close> the write-back events that were scheduled, \<open>luToCommit\<close> and \<open>luAccDone\<close> the
  calls of \<open>instToCommit\<close> and \<open>completeAcc\<close>.  Parameters are the answers
  of the data cache and of the runahead cache, the contents of fresh memory, the outcome of
  \<open>handleLockedWrite\<close>, and \<open>initiateAcc\<close> of the instruction.  The bookkeeping of hardware
  transactions, the checker and the statistics are left out.
\<close>

section \<open>State\<close>

datatype req_attr =
    ReqLLSC | ReqMasked | ReqStrictlyOrdered | ReqCacheMaint | ReqLocalAccess | ReqRelease
  | ReqNoData | ReqBlockZero | ReqAtomic | ReqSplit | ReqRunahead | ReqPoisoned | ReqWriteBack
  | ReqBuilt | ReqSent | ReqRetry | ReqComplete | ReqDiscarded

text \<open>
  A request has \<open>mqFrags\<close> packets once they are built, of which \<open>mqUnsent\<close> are unsent (of a split
  request); \<open>mqOut\<close> are in flight and \<open>mqRc\<close> were answered by the runahead cache.
\<close>

record mem_req =
  mqSn :: nat
  mqVaddr :: "64 word"
  mqSize :: nat
  mqAttrs :: "req_attr set"
  mqFrags :: nat
  mqUnsent :: nat
  mqOut :: nat
  mqRc :: nat

record lq_entry =
  leSn :: nat
  leReq :: "mem_req option"

record sq_entry =
  seSn :: nat
  seReq :: "mem_req option"
  seSize :: nat
  seData :: "8 word list"
  seCanWB :: bool
  seCommitted :: bool
  seCompleted :: bool
  seAllZeros :: bool

record cache_ports =
  cpBlocked :: bool
  cpUsedLoad :: nat
  cpUsedStore :: nat
  cpLoadPorts :: nat
  cpStorePorts :: nat

record lsq_cfg =
  lcShift :: nat
  lcCheckLoads :: bool
  lcTSO :: bool
  lcMaxData :: nat
  lcDataPrefetch :: "dyn_inst \<Rightarrow> bool"

record lsq_unit =
  luLoads :: "lq_entry list"
  luLHead :: nat
  luLCap :: nat
  luStores :: "sq_entry list"
  luSHead :: nat
  luSCap :: nat
  luWB :: nat
  luToWB :: int
  luStalled :: bool
  luStallSn :: nat
  luStallIdx :: nat
  luStoreBlocked :: bool
  luInFlight :: bool
  luViolator :: "nat option"
  luPorts :: cache_ports
  luInst :: "nat \<Rightarrow> dyn_inst"
  luEff :: "nat \<Rightarrow> 64 word"
  luEffSize :: "nat \<Rightarrow> nat"
  luMem :: "nat \<Rightarrow> 8 word list option"
  luSqIt :: "nat \<Rightarrow> nat"
  luLqIt :: "nat \<Rightarrow> nat"
  luResched :: "nat list"
  luReplay :: "nat list"
  luBlockMem :: "nat list"
  luEvents :: "nat list"
  luToCommit :: "nat list"
  luAccDone :: "nat list"

definition sq_end :: "lsq_unit \<Rightarrow> nat" where "sq_end u = luSHead u + length (luStores u)"

definition lq_end :: "lsq_unit \<Rightarrow> nat" where "lq_end u = luLHead u + length (luLoads u)"

definition sq_at :: "lsq_unit \<Rightarrow> nat \<Rightarrow> sq_entry res" where
  "sq_at u p = (if luSHead u \<le> p then vecGet (luStores u) (p - luSHead u) else Inl OutOfRange)"

definition lq_at :: "lsq_unit \<Rightarrow> nat \<Rightarrow> lq_entry res" where
  "lq_at u p = (if luLHead u \<le> p then vecGet (luLoads u) (p - luLHead u) else Inl OutOfRange)"

definition upd_sq :: "nat \<Rightarrow> (sq_entry \<Rightarrow> sq_entry) \<Rightarrow> lsq_unit \<Rightarrow> lsq_unit" where
  "upd_sq p f u = u\<lparr>luStores := (luStores u)[p - luSHead u := f (luStores u ! (p - luSHead u))]\<rparr>"

definition upd_lq :: "nat \<Rightarrow> (lq_entry \<Rightarrow> lq_entry) \<Rightarrow> lsq_unit \<Rightarrow> lsq_unit" where
  "upd_lq p f u = u\<lparr>luLoads := (luLoads u)[p - luLHead u := f (luLoads u ! (p - luLHead u))]\<rparr>"

definition lu_inst :: "nat \<Rightarrow> (dyn_inst \<Rightarrow> dyn_inst) \<Rightarrow> lsq_unit \<Rightarrow> lsq_unit" where
  "lu_inst sn f u = u\<lparr>luInst := (luInst u)(sn := f (luInst u sn))\<rparr>"

definition unset_flag :: "inst_flag \<Rightarrow> dyn_inst \<Rightarrow> dyn_inst" where
  "unset_flag f i = i\<lparr>diFlags := diFlags i - {f}\<rparr>"

section \<open>Reset and sizes\<close>

definition lsu_resetState :: "lsq_unit \<Rightarrow> lsq_unit" where
  "lsu_resetState u = u\<lparr>luToWB := 0, luWB := luSHead u, luViolator := None, luStalled := False\<rparr>"

definition lsu_drainSanityCheck :: "lsq_unit \<Rightarrow> unit res" where
  "lsu_drainSanityCheck u = bindE (assertE (luLoads u = [])) (\<lambda>_. assertE (luToWB u = 0))"

definition lqFull :: "lsq_unit \<Rightarrow> bool" where "lqFull u \<longleftrightarrow> length (luLoads u) = luLCap u"

definition sqFull :: "lsq_unit \<Rightarrow> bool" where "sqFull u \<longleftrightarrow> length (luStores u) = luSCap u"

definition numFreeLoadEntries :: "lsq_unit \<Rightarrow> nat" where
  "numFreeLoadEntries u = luLCap u - length (luLoads u)"

definition numFreeStoreEntries :: "lsq_unit \<Rightarrow> nat" where
  "numFreeStoreEntries u = luSCap u - length (luStores u)"

definition getLoadHeadSeqNum :: "lsq_unit \<Rightarrow> nat" where
  "getLoadHeadSeqNum u = (case luLoads u of [] \<Rightarrow> 0 | e # _ \<Rightarrow> leSn e)"

definition getStoreHeadSeqNum :: "lsq_unit \<Rightarrow> nat" where
  "getStoreHeadSeqNum u = (case luStores u of [] \<Rightarrow> 0 | e # _ \<Rightarrow> seSn e)"

definition getMemDepViolator :: "lsq_unit \<Rightarrow> nat option \<times> lsq_unit" where
  "getMemDepViolator u = (luViolator u, u\<lparr>luViolator := None\<rparr>)"

section \<open>Insertion\<close>

definition new_sq_entry :: "8 word list \<Rightarrow> nat \<Rightarrow> sq_entry" where
  "new_sq_entry old sn = \<lparr>seSn = sn, seReq = None, seSize = 0, seData = old, seCanWB = False,
     seCommitted = False, seCompleted = False, seAllZeros = False\<rparr>"

definition insertLoad :: "nat \<Rightarrow> lsq_unit \<Rightarrow> lsq_unit res" where
  "insertLoad sn u =
     bindE (assertE (\<not> lqFull u)) (\<lambda>_.
     bindE (assertE (length (luLoads u) < luLCap u)) (\<lambda>_.
       Inr (u\<lparr>luLoads := luLoads u @ [\<lparr>leSn = sn, leReq = None\<rparr>],
              luSqIt := (luSqIt u)(sn := sq_end u), luLqIt := (luLqIt u)(sn := lq_end u)\<rparr>)))"

text \<open>\<open>old\<close> is what the data array of the entry, which is not cleared, held before.\<close>

definition insertStore :: "8 word list \<Rightarrow> nat \<Rightarrow> lsq_unit \<Rightarrow> lsq_unit res" where
  "insertStore old sn u =
     bindE (assertE (\<not> sqFull u)) (\<lambda>_.
     bindE (assertE (length (luStores u) < luSCap u)) (\<lambda>_.
       Inr (u\<lparr>luStores := luStores u @ [new_sq_entry old sn],
              luSqIt := (luSqIt u)(sn := sq_end u), luLqIt := (luLqIt u)(sn := lq_end u)\<rparr>)))"

definition lsu_insert :: "8 word list \<Rightarrow> nat \<Rightarrow> lsq_unit \<Rightarrow> lsq_unit res" where
  "lsu_insert old sn u =
     (let i = luInst u sn in
      bindE (assertE (has_prop IsMemRef i)) (\<lambda>_.
      bindE (assertE (has_prop IsLoad i \<or> has_prop IsStore i \<or> has_prop IsAtomic i)) (\<lambda>_.
      bindE (if has_prop IsLoad i then insertLoad sn u else insertStore old sn u) (\<lambda>u.
        Inr (lu_inst sn (set_status LsqEntry) u)))))"

section \<open>Address ranges\<close>

datatype coverage = FullCoverage | PartialCoverage | NoCoverage

text \<open>
  \<open>getAddrRangeCoverage\<close>: the load request \<open>rq\<close> against the store entry \<open>e\<close>, whose
  instruction has the address \<open>st_s\<close> and is atomic or not.
\<close>

definition getAddrRangeCoverage :: "mem_req \<Rightarrow> 64 word \<Rightarrow> bool \<Rightarrow> sq_entry \<Rightarrow> coverage res" where
  "getAddrRangeCoverage rq st_s atomic e =
     (let req_s = mqVaddr rq; req_e = req_s + of_nat (mqSize rq); st_e = st_s + of_nat (seSize e);
          lower = (req_s \<ge> st_s); upper = (req_e \<le> st_e);
          lower_part = (req_s < st_e); upper_part = (req_e > st_s);
          llsc = (ReqLLSC \<in> mqAttrs rq) in
      if \<not> atomic \<and> lower \<and> upper \<and> \<not> llsc then
        (case seReq e of None \<Rightarrow> Inl NullDeref
         | Some r \<Rightarrow> Inr (if ReqMasked \<in> mqAttrs r then PartialCoverage else FullCoverage))
      else if (\<not> llsc \<and> ((lower \<and> lower_part) \<or> (upper \<and> upper_part) \<or> (lower_part \<and> upper_part)))
           \<or> (llsc \<and> (lower \<or> upper_part) \<and> (upper \<or> lower_part))
           \<or> (atomic \<and> (lower \<or> upper_part) \<and> (upper \<or> lower_part))
      then Inr PartialCoverage
      else Inr NoCoverage)"

section \<open>Memory order violations\<close>

datatype lsq_fault = StrictlyOrderedLoad nat | OrderViolation nat nat

text \<open>
  The loop of \<open>checkViolations\<close> over the loads \<open>ls\<close> from the iterator on, for an instruction
  \<open>sn\<close> with the shifted addresses \<open>a1\<close> and \<open>a2\<close>.
\<close>

definition shifted :: "lsq_cfg \<Rightarrow> lsq_unit \<Rightarrow> nat \<Rightarrow> 64 word \<times> 64 word" where
  "shifted L u sn = (drop_bit (lcShift L) (luEff u sn),
     drop_bit (lcShift L) (luEff u sn + of_nat (luEffSize u sn) - 1))"

fun check_loads :: "lsq_cfg \<Rightarrow> nat \<Rightarrow> lq_entry list \<Rightarrow> lsq_unit \<Rightarrow> lsq_fault option \<times> lsq_unit" where
  "check_loads L sn [] u = (None, u)"
| "check_loads L sn (e # ls) u =
     (let ld = leSn e; i = luInst u ld; (a1, a2) = shifted L u sn; (l1, l2) = shifted L u ld in
      if \<not> has_flag EffAddrValid i \<or> has_flag IsStrictlyOrdered i then check_loads L sn ls u
      else if a2 \<ge> l1 \<and> a1 \<le> l2 then
        if has_prop IsLoad (luInst u sn) then
          if has_flag HitExternalSnoop i \<and> (case luViolator u of None \<Rightarrow> True | Some v \<Rightarrow> ld < v)
          then (Some (OrderViolation sn ld), u\<lparr>luViolator := Some ld\<rparr>)
          else check_loads L sn ls (lu_inst ld (set_flag PossibleLoadViolation) u)
        else if (case luViolator u of None \<Rightarrow> False | Some v \<Rightarrow> ld > v) then (None, u)
        else (Some (OrderViolation sn ld), u\<lparr>luViolator := Some ld\<rparr>)
      else check_loads L sn ls u)"

definition checkViolations :: "lsq_cfg \<Rightarrow> nat \<Rightarrow> nat \<Rightarrow> lsq_unit \<Rightarrow> lsq_fault option \<times> lsq_unit" where
  "checkViolations L it sn u = check_loads L sn (drop (it - luLHead u) (luLoads u)) u"

section \<open>Commit and squash\<close>

definition lsu_commitLoad :: "lsq_unit \<Rightarrow> lsq_unit res" where
  "lsu_commitLoad u =
     bindE (assertE (luLoads u \<noteq> [])) (\<lambda>_. Inr (u\<lparr>luLoads := tl (luLoads u), luLHead := luLHead u + 1\<rparr>))"

function lsu_commitLoads :: "nat \<Rightarrow> lsq_unit \<Rightarrow> lsq_unit" where
  "lsu_commitLoads youngest u =
     (if luLoads u \<noteq> [] \<and> leSn (hd (luLoads u)) \<le> youngest
      then case lsu_commitLoad u of Inr u \<Rightarrow> lsu_commitLoads youngest u | Inl _ \<Rightarrow> u
      else u)"
  by pat_completeness auto
termination
  by (relation "measure (\<lambda>(y, u). length (luLoads u))") (auto simp: lsu_commitLoad_def bindE_ok)

declare lsu_commitLoads.simps [simp del]

text \<open>The stores that are committed become able to write back, up to the first that is too young.\<close>

fun mark_stores :: "nat \<Rightarrow> sq_entry list \<Rightarrow> sq_entry list \<times> int" where
  "mark_stores youngest [] = ([], 0)"
| "mark_stores youngest (e # es) =
     (if seCanWB e then (let (es, n) = mark_stores youngest es in (e # es, n))
      else if seSn e > youngest then (e # es, 0)
      else (let (es, n) = mark_stores youngest es in (e\<lparr>seCanWB := True\<rparr> # es, n + 1)))"

definition lsu_commitStores :: "nat \<Rightarrow> lsq_unit \<Rightarrow> lsq_unit" where
  "lsu_commitStores youngest u =
     (let (es, n) = mark_stores youngest (luStores u) in u\<lparr>luStores := es, luToWB := luToWB u + n\<rparr>)"

text \<open>
  \<open>squash\<close>.  The loops take entries from the back, so they walk the reversed lists.
  \<open>setSquashed\<close> is the instruction's (the pin counters that it changes are the register file's).
\<close>

fun squash_loads :: "nat \<Rightarrow> lq_entry list \<Rightarrow> lsq_unit \<Rightarrow> lsq_unit" where
  "squash_loads sq [] u = u\<lparr>luLoads := []\<rparr>"
| "squash_loads sq (e # es) u =
     (if leSn e > sq then
        let u = (if luStalled u \<and> luLHead u + length es = luStallIdx u
                 then u\<lparr>luStalled := False, luStallSn := 0, luStallIdx := 0\<rparr> else u) in
        squash_loads sq es (lu_inst (leSn e) squash_mark u)
      else u\<lparr>luLoads := rev (e # es)\<rparr>)"

fun squash_stores :: "nat \<Rightarrow> sq_entry list \<Rightarrow> lsq_unit \<Rightarrow> lsq_unit res" where
  "squash_stores sq [] u = Inr (u\<lparr>luStores := []\<rparr>)"
| "squash_stores sq (e # es) u =
     (if seSn e > sq \<and> \<not> seCanWB e then
        if luStalled u \<and> seSn e = luStallSn u then Inl PanicCall
        else squash_stores sq es (lu_inst (seSn e) squash_mark u)
      else Inr (u\<lparr>luStores := rev (e # es)\<rparr>))"

definition lsu_squash :: "nat \<Rightarrow> lsq_unit \<Rightarrow> lsq_unit res" where
  "lsu_squash sq u =
     (let u = squash_loads sq (rev (luLoads u)) u;
          u = (case luViolator u of None \<Rightarrow> u | Some v \<Rightarrow> if sq < v then u\<lparr>luViolator := None\<rparr> else u) in
      squash_stores sq (rev (luStores u)) u)"

end
