(* ===== verification/LsqAccess.thy ===== *)
theory LsqAccess
  imports LsqUnit
begin

text \<open>
  Accesses of the load/store queue (\<open>lsq_unit.cc\<close>): sending to the caches, completion and
  write-back of stores, the read of a load with forwarding from the store queue, execution of
  loads and stores.
\<close>

section \<open>Sending\<close>

definition cachePortAvailable :: "bool \<Rightarrow> cache_ports \<Rightarrow> bool" where
  "cachePortAvailable isLoad c \<longleftrightarrow>
     (if isLoad then cpUsedLoad c < cpLoadPorts c else cpUsedStore c < cpStorePorts c)"

definition cachePortBusy :: "bool \<Rightarrow> cache_ports \<Rightarrow> cache_ports res" where
  "cachePortBusy isLoad c =
     bindE (assertE (cachePortAvailable isLoad c)) (\<lambda>_.
       Inr (if isLoad then c\<lparr>cpUsedLoad := cpUsedLoad c + 1\<rparr> else c\<lparr>cpUsedStore := cpUsedStore c + 1\<rparr>))"

text \<open>\<open>LSQ::tick\<close>; the result says whether the execute stage is told that the cache is unblocked.\<close>

definition lsq_tick :: "cache_ports \<Rightarrow> bool \<times> cache_ports" where
  "lsq_tick c = (cpUsedLoad c = cpLoadPorts c \<and> \<not> cpBlocked c, c\<lparr>cpUsedLoad := 0, cpUsedStore := 0\<rparr>)"

definition set_attr :: "req_attr \<Rightarrow> mem_req \<Rightarrow> mem_req" where
  "set_attr a rq = rq\<lparr>mqAttrs := insert a (mqAttrs rq)\<rparr>"

definition packetSent :: "mem_req \<Rightarrow> mem_req" where
  "packetSent rq = set_attr ReqSent rq"

definition packetNotSent :: "mem_req \<Rightarrow> mem_req" where
  "packetNotSent rq = rq\<lparr>mqAttrs := insert ReqRetry (mqAttrs rq) - {ReqSent}\<rparr>"

text \<open>
  \<open>trySendPacket\<close>: \<open>accept\<close> is the answer of the data cache, \<open>rc\<close> whether the runahead cache
  answers the packet.  The result is the number of packets sent.  The assertion that a runahead
  packet for the data cache is no write holds by the kind of the packets: \<open>buildPackets\<close> makes
  read packets for a load.
\<close>

definition trySendPacket ::
  "bool \<Rightarrow> bool \<times> bool \<Rightarrow> lsq_unit \<times> mem_req \<Rightarrow> (nat \<times> lsq_unit \<times> mem_req) res"
where
  "trySendPacket isLoad = (\<lambda>(accept, rc) (u, rq).
     let run = (ReqRunahead \<in> mqAttrs rq); toD = (\<not> run \<or> isLoad); c = luPorts u;
         open' = (\<not> cpBlocked c \<and> cachePortAvailable isLoad c);
         success = (toD \<longrightarrow> open' \<and> accept); gotBlocked = (toD \<and> open' \<and> \<not> accept) in
     if success then
       bindE (if run then assertE (has_flag Runahead (luInst u (mqSn rq))) else Inr ()) (\<lambda>_.
       bindE (if toD then cachePortBusy isLoad c else Inr c) (\<lambda>c.
         Inr ((if toD then 1 else 0) + (if run \<and> rc then 1 else 0),
              u\<lparr>luStoreBlocked := (isLoad \<and> luStoreBlocked u), luPorts := c\<rparr>,
              packetSent (if run \<and> rc then rq\<lparr>mqRc := mqRc rq + 1\<rparr> else rq))))
     else
       let u = (if gotBlocked then u\<lparr>luPorts := c\<lparr>cpBlocked := True\<rparr>\<rparr> else u) in
       bindE (if isLoad then Inr u
              else bindE (sq_at u (luWB u)) (\<lambda>e.
                   bindE (assertE (map_option mqSn (seReq e) = Some (mqSn rq))) (\<lambda>_.
                     Inr (u\<lparr>luStoreBlocked := True\<rparr>)))) (\<lambda>u.
         Inr (0, u, packetNotSent rq)))"

definition buildPackets :: "mem_req \<Rightarrow> mem_req" where
  "buildPackets rq = (if ReqBuilt \<in> mqAttrs rq then rq else (set_attr ReqBuilt rq)\<lparr>mqUnsent := mqFrags rq\<rparr>)"

text \<open>\<open>sendPacketToCache\<close>; \<open>port k\<close> are the answers to the k-th packet that is tried.\<close>

primrec send_split ::
  "bool \<Rightarrow> (nat \<Rightarrow> bool \<times> bool) \<Rightarrow> nat \<Rightarrow> lsq_unit \<times> mem_req \<Rightarrow> (lsq_unit \<times> mem_req) res"
where
  "send_split isLoad port 0 s = Inr s"
| "send_split isLoad port (Suc n) s =
     bindE (trySendPacket isLoad (port n) s) (\<lambda>(sent, u, rq).
       if sent = 0 then Inr (u, rq)
       else send_split isLoad port n (u, rq\<lparr>mqOut := mqOut rq + sent, mqUnsent := mqUnsent rq - 1\<rparr>))"

definition sendPacketToCache ::
  "bool \<Rightarrow> (nat \<Rightarrow> bool \<times> bool) \<Rightarrow> lsq_unit \<times> mem_req \<Rightarrow> (lsq_unit \<times> mem_req) res"
where
  "sendPacketToCache isLoad port = (\<lambda>(u, rq).
     if ReqSplit \<in> mqAttrs rq then send_split isLoad port (mqUnsent rq) (u, rq)
     else
       bindE (assertE (mqOut rq = 0)) (\<lambda>_.
       bindE (if ReqBuilt \<in> mqAttrs rq then trySendPacket isLoad (port 0) (u, rq) else Inl OutOfRange)
         (\<lambda>(sent, u, rq). Inr (u, rq\<lparr>mqOut := mqOut rq + sent\<rparr>))))"

section \<open>Completion of stores\<close>

text \<open>The load that waits for the store is replayed.\<close>

definition unstall :: "nat \<Rightarrow> lsq_unit \<Rightarrow> lsq_unit res" where
  "unstall sn u =
     (if luStalled u \<and> sn = luStallSn u then
        bindE (lq_at u (luStallIdx u)) (\<lambda>l.
          Inr (u\<lparr>luStalled := False, luStallSn := 0, luReplay := luReplay u @ [leSn l]\<rparr>))
      else Inr u)"

text \<open>The entries that leave the front of the store queue when its head completes.\<close>

definition pop_completed :: "lsq_unit \<Rightarrow> lsq_unit" where
  "pop_completed u =
     (let rest = dropWhile seCompleted (tl (luStores u)) in
      u\<lparr>luStores := rest, luSHead := luSHead u + (length (luStores u) - length rest)\<rparr>)"

definition completeStore :: "lsq_cfg \<Rightarrow> nat \<Rightarrow> lsq_unit \<Rightarrow> lsq_unit res" where
  "completeStore L p u =
     bindE (sq_at u p) (\<lambda>e.
       let u = (upd_sq p (seCompleted_update (\<lambda>_. True)) u)\<lparr>luToWB := luToWB u - 1\<rparr>;
           u = (if p = luSHead u then pop_completed u else u) in
       bindE (unstall (seSn e) u) (\<lambda>u.
         let u = lu_inst (seSn e) (set_status Completed) u in
         Inr (if lcTSO L then u\<lparr>luInFlight := False\<rparr> else u)))"

definition storePostSend :: "lsq_cfg \<Rightarrow> lsq_unit \<Rightarrow> lsq_unit res" where
  "storePostSend L u =
     bindE (sq_at u (luWB u)) (\<lambda>e.
     bindE (unstall (seSn e) u) (\<lambda>u.
       let u = (if has_prop IsStoreConditional (luInst u (seSn e)) then u
                else lu_inst (seSn e) (set_status Completed) u) in
       Inr (u\<lparr>luInFlight := (lcTSO L \<or> luInFlight u), luWB := luWB u + 1\<rparr>)))"

section \<open>Write-back of stores\<close>

text \<open>The caches, by the instruction and its packet, and \<open>handleLockedWrite\<close> of the ISA.\<close>

record wb_env =
  weCache :: "nat \<Rightarrow> nat \<Rightarrow> bool \<times> bool"
  weLocked :: "nat \<Rightarrow> bool"

definition send_at_wb :: "lsq_cfg \<Rightarrow> wb_env \<Rightarrow> lsq_unit \<Rightarrow> lsq_unit res" where
  "send_at_wb L E u =
     bindE (sq_at u (luWB u)) (\<lambda>e.
       case seReq e of
         None \<Rightarrow> Inl NullDeref
       | Some rq \<Rightarrow>
           bindE (sendPacketToCache False (weCache E (mqSn rq)) (u, rq)) (\<lambda>(u, rq).
             let u = upd_sq (luWB u) (seReq_update (\<lambda>_. Some rq)) u in
             if ReqSent \<in> mqAttrs rq then storePostSend L u else Inr u))"

definition writebackBlockedStore :: "lsq_cfg \<Rightarrow> wb_env \<Rightarrow> lsq_unit \<Rightarrow> lsq_unit res" where
  "writebackBlockedStore L E u = bindE (assertE (luStoreBlocked u)) (\<lambda>_. send_at_wb L E u)"

definition lsu_recvRetry :: "lsq_cfg \<Rightarrow> wb_env \<Rightarrow> lsq_unit \<Rightarrow> lsq_unit res" where
  "lsu_recvRetry L E u = (if luStoreBlocked u then writebackBlockedStore L E u else Inr u)"

text \<open>The condition of the loop of \<open>writebackStores\<close>.\<close>

definition wb_ready :: "lsq_cfg \<Rightarrow> lsq_unit \<Rightarrow> bool" where
  "wb_ready L u \<longleftrightarrow> luToWB u > 0 \<and>
     (case sq_at u (luWB u) of Inl _ \<Rightarrow> False | Inr e \<Rightarrow> seCanWB e) \<and> \<not> (lcTSO L \<and> luInFlight u)"

text \<open>
  What is done with a store that has data and a request: its data are copied and it is sent, a
  store conditional that lost its lock is completed at once, a local access as well.
\<close>

definition write_out :: "lsq_cfg \<Rightarrow> wb_env \<Rightarrow> sq_entry \<Rightarrow> mem_req \<Rightarrow> lsq_unit \<Rightarrow> lsq_unit res" where
  "write_out L E e rq u =
     (let sn = seSn e; i = luInst u sn in
      bindE (assertE (luMem u sn = None)) (\<lambda>_.
        let data = (if seAllZeros e then replicate (mqSize rq) 0 else take (mqSize rq) (seData e));
            rq = buildPackets rq;
            u = (upd_sq (luWB u) (\<lambda>e. e\<lparr>seCommitted := True, seReq := Some rq\<rparr>) u)
                  \<lparr>luMem := (luMem u)(sn := Some data)\<rparr> in
        bindE (assertE (has_flag Runahead i \<or> \<not> has_flag Poisoned i)) (\<lambda>_.
          if has_prop IsStoreConditional i \<and> \<not> weLocked E sn then
            let u = (upd_sq (luWB u) (seReq_update (\<lambda>_. Some (set_attr ReqComplete (packetSent rq)))) u)
                      \<lparr>luEvents := luEvents u @ [sn]\<rparr> in
            bindE (completeStore L (luWB u) u) (\<lambda>u.
              Inr (u\<lparr>luWB := (if luStores u \<noteq> [] then luWB u + 1 else sq_end u)\<rparr>))
          else
            let u = (if has_prop IsStoreConditional i
                     then upd_sq (luWB u) (seReq_update (\<lambda>_. Some (packetSent rq))) u else u) in
            if ReqLocalAccess \<in> mqAttrs rq then
              bindE (assertE (\<not> has_prop IsStoreConditional i)) (\<lambda>_.
              bindE (completeStore L (luWB u) u) (\<lambda>u. Inr (u\<lparr>luWB := luWB u + 1\<rparr>)))
            else send_at_wb L E u)))"

text \<open>One round; the result says whether the loop goes on.\<close>

definition wb_step :: "lsq_cfg \<Rightarrow> wb_env \<Rightarrow> lsq_unit \<Rightarrow> (bool \<times> lsq_unit) res" where
  "wb_step L E u =
     bindE (sq_at u (luWB u)) (\<lambda>e.
       let i = luInst u (seSn e) in
       if \<not> cachePortAvailable False (luPorts u) \<and> \<not> has_flag Runahead i then
         Inr (True, u\<lparr>luWB := luWB u + 1\<rparr>)
       else if luStoreBlocked u then bindE (assertE (\<not> has_flag Runahead i)) (\<lambda>_. Inr (False, u))
       else if seSize e = 0 then
         bindE (completeStore L (luWB u) (u\<lparr>luWB := luWB u + 1\<rparr>)) (\<lambda>u. Inr (True, u))
       else if lcDataPrefetch L i then Inr (True, u\<lparr>luWB := luWB u + 1\<rparr>)
       else case seReq e of
         None \<Rightarrow> Inl AssertFail
       | Some rq \<Rightarrow>
           bindE (assertE (\<not> seCommitted e)) (\<lambda>_.
             if (ReqLLSC \<in> mqAttrs rq \<or> ReqRelease \<in> mqAttrs rq) \<and> luWB u \<noteq> luSHead u
             then Inr (False, u)
             else bindE (write_out L E e rq u) (\<lambda>u. Inr (True, u))))"

partial_function (option) wb_loop :: "lsq_cfg \<Rightarrow> wb_env \<Rightarrow> lsq_unit \<Rightarrow> lsq_unit res option" where
  "wb_loop L E u =
     (if wb_ready L u then
        (case wb_step L E u of
           Inl x \<Rightarrow> Some (Inl x)
         | Inr (go, u) \<Rightarrow> if go then wb_loop L E u else Some (Inr u))
      else Some (Inr u))"

definition lsu_writebackStores :: "lsq_cfg \<Rightarrow> wb_env \<Rightarrow> lsq_unit \<Rightarrow> lsq_unit res option" where
  "lsu_writebackStores L E u =
     (case (if luStoreBlocked u then writebackBlockedStore L E u else Inr u) of
        Inl x \<Rightarrow> Some (Inl x)
      | Inr u \<Rightarrow> map_option (\<lambda>r. bindE r (\<lambda>u. bindE (assertE (luToWB u \<ge> 0)) (\<lambda>_. Inr u))) (wb_loop L E u))"

section \<open>The read of a load\<close>

text \<open>
  Which stores are considered for forwarding: those with data that are not strictly ordered or
  cache maintenance, and no runahead store for a normal load.
\<close>

definition may_forward :: "lsq_unit \<Rightarrow> nat \<Rightarrow> sq_entry \<Rightarrow> bool res" where
  "may_forward u ld e =
     (if seSize e = 0 \<or> has_flag IsStrictlyOrdered (luInst u (seSn e)) then Inr False
      else case seReq e of
        None \<Rightarrow> Inl NullDeref
      | Some r \<Rightarrow> Inr (ReqCacheMaint \<notin> mqAttrs r \<and>
          \<not> (has_flag Runahead (luInst u (seSn e)) \<and> \<not> has_flag Runahead (luInst u ld))))"

datatype forward = ForwardFrom nat | WaitFor nat | NoForward

text \<open>The search from the youngest older store down to \<open>storeWBIt\<close>; \<open>n\<close> stores are left.\<close>

primrec scan_stores :: "lsq_unit \<Rightarrow> nat \<Rightarrow> mem_req \<Rightarrow> nat \<Rightarrow> forward res" where
  "scan_stores u ld rq 0 = Inr NoForward"
| "scan_stores u ld rq (Suc n) =
     (let p = luWB u + n in
      bindE (sq_at u p) (\<lambda>e.
      bindE (assertE (seSn e < ld)) (\<lambda>_.
      bindE (may_forward u ld e) (\<lambda>ok.
        if \<not> ok then scan_stores u ld rq n
        else
          bindE (assertE (has_flag EffAddrValid (luInst u (seSn e)))) (\<lambda>_.
          bindE (getAddrRangeCoverage rq (luEff u (seSn e)) (has_prop IsAtomic (luInst u (seSn e))) e) (\<lambda>c.
            case c of
              FullCoverage \<Rightarrow> Inr (ForwardFrom p)
            | PartialCoverage \<Rightarrow> if seCompleted e then Inl PanicCall else Inr (WaitFor p)
            | NoCoverage \<Rightarrow> scan_stores u ld rq n))))))"

text \<open>The poison of a store goes to the load; \<open>inRun\<close> is whether the thread is in runahead.\<close>

definition pass_poison :: "bool \<Rightarrow> nat \<Rightarrow> nat \<Rightarrow> lsq_unit \<Rightarrow> lsq_unit res" where
  "pass_poison inRun st ld u =
     (if has_flag Poisoned (luInst u st) then
        bindE (assertE inRun) (\<lambda>_.
        bindE (setPoisoned (luInst u ld)) (\<lambda>i. Inr (lu_inst ld (\<lambda>_. i) u)))
      else Inr u)"

definition forward_data :: "sq_entry \<Rightarrow> 64 word \<Rightarrow> mem_req \<Rightarrow> 8 word list" where
  "forward_data e st_s rq =
     (if seAllZeros e then replicate (mqSize rq) 0
      else take (mqSize rq) (drop (unat (mqVaddr rq - st_s)) (seData e)))"

text \<open>\<open>discard\<close> while packets are in flight.\<close>

definition forward_from :: "bool \<Rightarrow> nat \<Rightarrow> nat \<Rightarrow> nat \<Rightarrow> mem_req \<Rightarrow> lsq_unit \<Rightarrow> lsq_unit res" where
  "forward_from inRun p idx ld rq u =
     bindE (sq_at u p) (\<lambda>e.
       let data = forward_data e (luEff u (seSn e)) rq;
           u = u\<lparr>luMem := (luMem u)(ld := Some data)\<rparr>;
           u = (if mqOut rq > 0 then upd_lq idx (leReq_update (\<lambda>_. Some (set_attr ReqDiscarded rq))) u else u) in
       bindE (pass_poison inRun (seSn e) ld u) (\<lambda>u. Inr (u\<lparr>luEvents := luEvents u @ [ld]\<rparr>)))"

text \<open>The instruction is to be issued again.\<close>

definition reschedule :: "nat \<Rightarrow> nat \<Rightarrow> lsq_unit \<Rightarrow> lsq_unit" where
  "reschedule idx ld u =
     upd_lq idx (leReq_update (\<lambda>_. None))
       (lu_inst ld (\<lambda>i. unset_flag EffAddrValid (reset_status Issued i)) (u\<lparr>luResched := luResched u @ [ld]\<rparr>))"

definition wait_for :: "bool \<Rightarrow> nat \<Rightarrow> nat \<Rightarrow> nat \<Rightarrow> lsq_unit \<Rightarrow> lsq_unit res" where
  "wait_for inRun p idx ld u =
     bindE (sq_at u p) (\<lambda>e.
     bindE (pass_poison inRun (seSn e) ld u) (\<lambda>u.
     bindE (if luStalled u then bindE (lq_at u (luStallIdx u)) (\<lambda>l. Inr (ld < leSn l)) else Inr True) (\<lambda>first.
       let u = (if first then u\<lparr>luStalled := True, luStallSn := seSn e, luStallIdx := idx\<rparr> else u) in
       Inr (reschedule idx ld u))))"

definition go_to_cache ::
  "(nat \<Rightarrow> bool \<times> bool) \<Rightarrow> 8 word list \<Rightarrow> nat \<Rightarrow> nat \<Rightarrow> mem_req \<Rightarrow> lsq_unit \<Rightarrow> lsq_unit res"
where
  "go_to_cache port fresh idx ld rq u =
     (let u = (if luMem u ld = None then u\<lparr>luMem := (luMem u)(ld := Some fresh)\<rparr> else u) in
      bindE (sendPacketToCache True port (u, buildPackets rq)) (\<lambda>(u, rq).
        let u = upd_lq idx (leReq_update (\<lambda>_. Some rq)) u in
        Inr (if ReqSent \<in> mqAttrs rq then u else u\<lparr>luBlockMem := luBlockMem u @ [ld]\<rparr>)))"

text \<open>
  \<open>read\<close> of the load at position \<open>idx\<close>.  \<open>fresh\<close> is the content of newly allocated memory and,
  for a local access, what the accessor returns.  Left out are \<open>handleLockedRead\<close> of the ISA, called
  for a load-linked access, and the bookkeeping of hardware transactions.
\<close>

definition lsu_read ::
  "lsq_cfg \<Rightarrow> bool \<Rightarrow> (nat \<Rightarrow> bool \<times> bool) \<Rightarrow> 8 word list \<Rightarrow> mem_req \<Rightarrow> nat \<Rightarrow> lsq_unit
     \<Rightarrow> (lsq_fault option \<times> lsq_unit) res"
where
  "lsu_read L inRun port fresh rq idx u =
     bindE (lq_at u idx) (\<lambda>le.
       let ld = leSn le; i = luInst u ld; u = upd_lq idx (leReq_update (\<lambda>_. Some rq)) u in
       bindE (assertE (\<not> has_status Executed i)) (\<lambda>_.
         if ReqStrictlyOrdered \<in> mqAttrs rq \<and> (idx \<noteq> luLHead u \<or> \<not> has_status AtCommit i)
         then Inr (Some (StrictlyOrderedLoad ld), reschedule idx ld u)
         else if ReqLocalAccess \<in> mqAttrs rq then
           bindE (assertE (luMem u ld = None)) (\<lambda>_.
             Inr (None, u\<lparr>luMem := (luMem u)(ld := Some fresh), luEvents := luEvents u @ [ld]\<rparr>))
         else
           bindE (assertE (luSqIt u ld \<ge> luWB u)) (\<lambda>_.
           bindE (if lcDataPrefetch L i then Inr NoForward else scan_stores u ld rq (luSqIt u ld - luWB u)) (\<lambda>f.
           bindE (case f of
                    ForwardFrom p \<Rightarrow> forward_from inRun p idx ld rq u
                  | WaitFor p \<Rightarrow> wait_for inRun p idx ld u
                  | NoForward \<Rightarrow> go_to_cache port fresh idx ld rq u) (\<lambda>u.
             Inr (None, u))))))"

text \<open>\<open>write\<close> puts the data of an executed store into its entry.\<close>

definition lsu_write :: "lsq_cfg \<Rightarrow> mem_req \<Rightarrow> 8 word list \<Rightarrow> nat \<Rightarrow> lsq_unit \<Rightarrow> lsq_unit res" where
  "lsu_write L rq bytes p u =
     bindE (sq_at u p) (\<lambda>e.
       let e = e\<lparr>seReq := Some rq, seSize := mqSize rq, seAllZeros := (ReqNoData \<in> mqAttrs rq)\<rparr> in
       bindE (assertE (mqSize rq \<le> lcMaxData L \<or> ReqNoData \<in> mqAttrs rq)) (\<lambda>_.
         let e = (if ReqBlockZero \<notin> mqAttrs rq \<and> ReqCacheMaint \<notin> mqAttrs rq \<and> ReqAtomic \<notin> mqAttrs rq
                  then e\<lparr>seData := take (mqSize rq) bytes @ drop (mqSize rq) (seData e)\<rparr> else e) in
         Inr (upd_sq p (\<lambda>_. e) u)))"

section \<open>Execution and write-back\<close>

text \<open>
  \<open>initiateAcc\<close> of the instruction (which calls \<open>read\<close> or \<open>write\<close>) is the argument \<open>acc\<close>; its fault
  is \<open>AccFault\<close> or one of this unit.  \<open>partial\<close> says whether the saved request has a partial
  fault, is incomplete and is split.
\<close>

datatype acc_fault = AccFault fault | UnitFault lsq_fault

type_synonym lsq_acc = "lsq_unit \<Rightarrow> (acc_fault option \<times> lsq_unit) res"

definition translation_delayed :: "dyn_inst \<Rightarrow> bool" where
  "translation_delayed i \<longleftrightarrow> has_flag TranslationStarted i \<and> \<not> has_flag TranslationCompleted i"

definition may_execute :: "dyn_inst \<Rightarrow> bool" where
  "may_execute i \<longleftrightarrow> \<not> (has_flag ReqMade i \<and> has_flag IsStrictlyOrdered i) \<or> has_status AtCommit i"

definition to_commit :: "nat \<Rightarrow> lsq_unit \<Rightarrow> lsq_unit" where
  "to_commit sn u = u\<lparr>luToCommit := luToCommit u @ [sn]\<rparr>"

definition lsu_executeLoad ::
  "lsq_cfg \<Rightarrow> lsq_acc \<Rightarrow> bool \<times> bool \<times> bool \<Rightarrow> nat \<Rightarrow> lsq_unit \<Rightarrow> (acc_fault option \<times> lsq_unit) res"
where
  "lsu_executeLoad L acc = (\<lambda>(partialFault, incomplete, split) sn u.
     bindE (assertE (\<not> has_status Squashed (luInst u sn))) (\<lambda>_.
     bindE (assertE (\<not> has_flag Poisoned (luInst u sn))) (\<lambda>_.
     bindE (acc u) (\<lambda>(f, u).
       let i = luInst u sn in
       if f = None \<and> \<not> has_flag MemAccPredicate i then
         bindE (assertE (has_flag Predicate i)) (\<lambda>_.
           Inr (None, to_commit sn (lu_inst sn (set_status Executed) (u\<lparr>luAccDone := luAccDone u @ [sn]\<rparr>))))
       else if translation_delayed i \<and> f = None then Inr (f, u)
       else if f \<noteq> None \<and> has_flag TranslationCompleted i \<and> partialFault \<and> incomplete then
         bindE (assertE split) (\<lambda>_. Inr (None, u))
       else if f \<noteq> None \<or> \<not> has_flag Predicate i then
         Inr (f, to_commit sn (if may_execute i then lu_inst sn (set_status Executed) u else u))
       else if has_flag EffAddrValid i \<and> lcCheckLoads L then
         (let (v, u) = checkViolations L (luLqIt u sn + 1) sn u in Inr (map_option UnitFault v, u))
       else Inr (f, u)))))"

definition lsu_executeStore ::
  "lsq_cfg \<Rightarrow> lsq_acc \<Rightarrow> nat \<Rightarrow> lsq_unit \<Rightarrow> (acc_fault option \<times> lsq_unit) res"
where
  "lsu_executeStore L acc sn u =
     bindE (assertE (luStores u \<noteq> [])) (\<lambda>_.
     bindE (assertE (\<not> has_status Squashed (luInst u sn))) (\<lambda>_.
       let p = luSqIt u sn; it = luLqIt u sn in
     bindE (acc u) (\<lambda>(f, u).
       let i = luInst u sn in
       if translation_delayed i \<and> f = None then Inr (f, u)
       else if \<not> has_flag Predicate i then Inr (f, u)
       else bindE (sq_at u p) (\<lambda>e.
         if seSize e = 0 then
           Inr (f, if has_prop IsAtomic i
                   then to_commit sn (if may_execute i then lu_inst sn (set_status Executed) u else u) else u)
         else bindE (assertE (f = None)) (\<lambda>_.
           let u = (if has_prop IsStoreConditional i \<or> has_prop IsAtomic i
                    then (upd_sq p (seCanWB_update (\<lambda>_. True)) u)\<lparr>luToWB := luToWB u + 1\<rparr> else u);
               (v, u) = checkViolations L it sn u in
           Inr (map_option UnitFault v, u))))))"

text \<open>
  \<open>writeback\<close>: \<open>rcPoison\<close> says whether the packet is from the runahead cache and poisoned.  The
  assertion on the kind of a pending fault is gem5's.
\<close>

definition lsu_writeback :: "bool \<Rightarrow> bool \<Rightarrow> nat \<Rightarrow> lsq_unit \<Rightarrow> lsq_unit res" where
  "lsu_writeback inRun rcPoison sn u =
     (let i = luInst u sn in
      if has_status Squashed i then
        bindE (assertE (\<not> has_prop IsStore i \<or> has_prop IsStoreConditional i)) (\<lambda>_. Inr u)
      else if has_flag Runahead i \<and> \<not> inRun then bindE (assertE (\<not> has_prop IsStore i)) (\<lambda>_. Inr u)
      else
        bindE (if rcPoison then bindE (setPoisoned i) (\<lambda>i. Inr (lu_inst sn (\<lambda>_. i) u)) else Inr u) (\<lambda>u.
          let u = (if has_status Executed i then u
                   else (lu_inst sn (set_status Executed) u)
                     \<lparr>luAccDone := (if diFault i = None then luAccDone u @ [sn] else luAccDone u)\<rparr>) in
          Inr (to_commit sn u)))"

text \<open>
  \<open>completeDataAccess\<close> of a response; \<open>fromRc\<close> says whether it comes from the runahead cache.
\<close>

definition lsu_completeDataAccess ::
  "lsq_cfg \<Rightarrow> bool \<Rightarrow> bool \<Rightarrow> mem_req \<Rightarrow> lsq_unit \<Rightarrow> lsq_unit res"
where
  "lsu_completeDataAccess L inRun fromRc rq u =
     (let sn = mqSn rq; i = luInst u sn in
      bindE (if ReqRunahead \<in> mqAttrs rq \<and> \<not> inRun then assertE (has_flag Runahead i) else Inr ()) (\<lambda>_.
        if mqRc rq > 0 \<and> \<not> fromRc then Inr u
        else if ReqWriteBack \<in> mqAttrs rq then
          bindE (assertE (has_prop IsLoad i \<or> has_prop IsStoreConditional i \<or> has_prop IsAtomic i)) (\<lambda>_.
          bindE (lsu_writeback inRun (mqRc rq > 0 \<and> ReqPoisoned \<in> mqAttrs rq) sn u) (\<lambda>u.
            if has_prop IsStore i \<or> has_prop IsAtomic i then completeStore L (luSqIt u sn) u else Inr u))
        else if has_prop IsStore i then completeStore L (luSqIt u sn) u
        else Inr u))"

end
