(* ===== verification/LsqProps.thy ===== *)
theory LsqProps
  imports LsqAccess
begin

text \<open>
  Properties of the load/store queue: the classification of address ranges, the data that a load
  gets from older stores, the detection of memory order violations, and what the write-back of
  stores does when the cache ports are used up.
\<close>

section \<open>Address ranges\<close>

definition byte_range :: "64 word \<Rightarrow> nat \<Rightarrow> nat set" where
  "byte_range a n = {unat a ..< unat a + n}"

text \<open>A range that does not wrap around the end of the address space.\<close>

definition no_wrap :: "64 word \<Rightarrow> nat \<Rightarrow> bool" where
  "no_wrap a n \<longleftrightarrow> 0 < n \<and> unat a + n < 2 ^ 64"

lemma unat_range_end: "no_wrap a n \<Longrightarrow> unat (a + of_nat n) = unat a + n"
  by (simp add: no_wrap_def unat_word_ariths unat_of_nat)

lemma range_cases:
  assumes "no_wrap a n" "no_wrap b m"
  shows "byte_range a n \<inter> byte_range b m = {} \<longleftrightarrow> \<not> (a < b + of_nat m \<and> b < a + of_nat n)"
    "byte_range a n \<subseteq> byte_range b m \<longleftrightarrow> b \<le> a \<and> a + of_nat n \<le> b + of_nat m"
proof -
  have n: "0 < n" and m: "0 < m" using assms by (auto simp: no_wrap_def)
  note e = unat_range_end[OF assms(1)] unat_range_end[OF assms(2)]
  show "byte_range a n \<inter> byte_range b m = {} \<longleftrightarrow> \<not> (a < b + of_nat m \<and> b < a + of_nat n)"
    using n m by (auto simp: byte_range_def word_less_nat_alt e disjoint_iff)
  show "byte_range a n \<subseteq> byte_range b m \<longleftrightarrow> b \<le> a \<and> a + of_nat n \<le> b + of_nat m"
    using n by (auto simp: byte_range_def word_le_nat_alt e ivl_subset)
qed

text \<open>The tests of the source as truth values.\<close>

lemma coverage_tests:
  assumes "lower \<longrightarrow> upper_part" "upper \<longrightarrow> lower_part"
  shows "(if \<not> atomic \<and> lower \<and> upper \<and> \<not> llsc then Inr (if masked then PartialCoverage else FullCoverage)
      else if (\<not> llsc \<and> (lower \<and> lower_part \<or> upper \<and> upper_part \<or> lower_part \<and> upper_part))
           \<or> (llsc \<and> (lower \<or> upper_part) \<and> (upper \<or> lower_part))
           \<or> (atomic \<and> (lower \<or> upper_part) \<and> (upper \<or> lower_part))
      then Inr PartialCoverage else Inr NoCoverage)
    = Inr (if \<not> (lower_part \<and> upper_part) then NoCoverage
        else if (lower \<and> upper) \<and> \<not> atomic \<and> \<not> llsc \<and> \<not> masked then FullCoverage else PartialCoverage)"
  using assms by (cases lower; cases upper; cases lower_part; cases upper_part; simp)

lemma coverage_class:
  assumes "no_wrap (mqVaddr rq) (mqSize rq)" "no_wrap a (seSize e)" "seReq e = Some r"
  shows "getAddrRangeCoverage rq a atomic e = Inr (
    if byte_range (mqVaddr rq) (mqSize rq) \<inter> byte_range a (seSize e) = {} then NoCoverage
    else if byte_range (mqVaddr rq) (mqSize rq) \<subseteq> byte_range a (seSize e) \<and> \<not> atomic \<and>
      ReqLLSC \<notin> mqAttrs rq \<and> ReqMasked \<notin> mqAttrs r then FullCoverage
    else PartialCoverage)"
proof -
  let ?v = "mqVaddr rq" and ?n = "mqSize rq" and ?m = "seSize e"
  have w: "?v < ?v + of_nat ?n" "a < a + of_nat ?m"
    using unat_range_end[OF assms(1)] unat_range_end[OF assms(2)] assms(1,2)
    by (simp_all add: word_less_nat_alt no_wrap_def)
  have o: "a \<le> ?v \<longrightarrow> a < ?v + of_nat ?n" "?v + of_nat ?n \<le> a + of_nat ?m \<longrightarrow> ?v < a + of_nat ?m"
    using w by (auto intro: le_less_trans less_le_trans)
  show ?thesis
    using coverage_tests[OF o, of atomic "ReqLLSC \<in> mqAttrs rq" "ReqMasked \<in> mqAttrs r"] assms(3)
    unfolding getAddrRangeCoverage_def Let_def range_cases[OF assms(1,2)] by (simp only: option.case)
qed

text \<open>
  C40: For ranges that are not empty and do not wrap around, the comparison of a load with an older
  store finds no coverage exactly when the two have no byte in common, full coverage exactly when
  the store has all bytes of the load and its data can be used (it is not atomic and not masked,
  and the load is not a load-linked), and partial coverage otherwise.
\<close>

theorem coverage_classifies_the_ranges:
  assumes "no_wrap (mqVaddr rq) (mqSize rq)" "no_wrap a (seSize e)" "seReq e = Some r"
  shows "getAddrRangeCoverage rq a atomic e = Inr (
    if byte_range (mqVaddr rq) (mqSize rq) \<inter> byte_range a (seSize e) = {} then NoCoverage
    else if byte_range (mqVaddr rq) (mqSize rq) \<subseteq> byte_range a (seSize e) \<and> \<not> atomic \<and>
      ReqLLSC \<notin> mqAttrs rq \<and> ReqMasked \<notin> mqAttrs r then FullCoverage
    else PartialCoverage)"
  by (rule coverage_class[OF assms])

section \<open>Forwarding\<close>

text \<open>
  The stores that serve a load: they have data, are not strictly ordered, are not cache
  maintenance, and are runahead stores only if the load is a runahead load.  The bytes of a store,
  and the bytes that those of the \<open>n\<close> stores from \<open>storeWBIt\<close> on that serve the load would leave
  in memory: a younger store overwrites an older one.
\<close>

definition serves :: "lsq_unit \<Rightarrow> nat \<Rightarrow> sq_entry \<Rightarrow> bool" where
  "serves u ld e \<longleftrightarrow> 0 < seSize e \<and> IsStrictlyOrdered \<notin> diFlags (luInst u (seSn e)) \<and>
     (\<forall>r \<in> set_option (seReq e). ReqCacheMaint \<notin> mqAttrs r) \<and>
     (Runahead \<in> diFlags (luInst u (seSn e)) \<longrightarrow> Runahead \<in> diFlags (luInst u ld))"

lemma may_forward_serves: "may_forward u ld e = Inr ok \<Longrightarrow> ok \<longleftrightarrow> serves u ld e"
  by (auto simp: may_forward_def serves_def has_flag_def split: if_splits option.splits)

definition entry_bytes :: "lsq_unit \<Rightarrow> sq_entry \<Rightarrow> nat \<Rightarrow> 8 word option" where
  "entry_bytes u e x =
     (if x \<in> byte_range (luEff u (seSn e)) (seSize e)
      then Some (if seAllZeros e then 0 else seData e ! (x - unat (luEff u (seSn e)))) else None)"

primrec pending :: "lsq_unit \<Rightarrow> nat \<Rightarrow> nat \<Rightarrow> nat \<Rightarrow> 8 word option" where
  "pending u ld 0 = (\<lambda>_. None)"
| "pending u ld (Suc n) =
     (case sq_at u (luWB u + n) of
        Inl _ \<Rightarrow> pending u ld n
      | Inr e \<Rightarrow> if serves u ld e then pending u ld n ++ entry_bytes u e else pending u ld n)"

text \<open>Stores that have executed have an address range, a request and their data.\<close>

definition stores_wf :: "lsq_unit \<Rightarrow> bool" where
  "stores_wf u \<longleftrightarrow> (\<forall>e \<in> set (luStores u). seSize e \<noteq> 0 \<longrightarrow>
     no_wrap (luEff u (seSn e)) (seSize e) \<and> (\<exists>r. seReq e = Some r) \<and> (seAllZeros e \<or> seSize e \<le> length (seData e)))"

lemma sq_at_in: "sq_at u p = Inr e \<Longrightarrow> e \<in> set (luStores u)"
  by (auto simp: sq_at_def vecGet_ok split: if_splits)

lemma forward_data_byte:
  assumes "byte_range (mqVaddr rq) (mqSize rq) \<subseteq> byte_range a (seSize e)" "no_wrap (mqVaddr rq) (mqSize rq)"
    "no_wrap a (seSize e)" "seAllZeros e \<or> seSize e \<le> length (seData e)" "k < mqSize rq"
  shows "length (forward_data e a rq) = mqSize rq"
    "forward_data e a rq ! k = (if seAllZeros e then 0 else seData e ! (unat (mqVaddr rq) + k - unat a))"
proof -
  have le: "a \<le> mqVaddr rq" "unat (mqVaddr rq) + mqSize rq \<le> unat a + seSize e"
    using assms(1) range_cases(2)[OF assms(2,3)] unat_range_end[OF assms(2)] unat_range_end[OF assms(3)]
    by (simp_all add: word_le_nat_alt)
  have d: "unat (mqVaddr rq - a) = unat (mqVaddr rq) - unat a" using le(1) by (rule unat_sub)
  have l: "unat a \<le> unat (mqVaddr rq)" using le(1) by (simp add: word_le_nat_alt)
  show "length (forward_data e a rq) = mqSize rq"
    using assms(4) le(2) l by (auto simp: forward_data_def d)
  show "forward_data e a rq ! k = (if seAllZeros e then 0 else seData e ! (unat (mqVaddr rq) + k - unat a))"
    using assms(4,5) le(2) l by (auto simp: forward_data_def d)
qed

text \<open>What the search finds.\<close>

definition usable :: "lsq_unit \<Rightarrow> nat \<Rightarrow> nat \<Rightarrow> nat \<Rightarrow> sq_entry \<Rightarrow> bool" where
  "usable u ld n p e \<longleftrightarrow> luWB u \<le> p \<and> p < luWB u + n \<and> sq_at u p = Inr e \<and> seSn e < ld \<and>
     serves u ld e"

definition found :: "lsq_unit \<Rightarrow> nat \<Rightarrow> mem_req \<Rightarrow> nat \<Rightarrow> forward \<Rightarrow> bool" where
  "found u ld rq n f \<longleftrightarrow>
     (let bytes = (\<lambda>k. pending u ld n (unat (mqVaddr rq) + k)) in
      case f of
        NoForward \<Rightarrow> \<forall>k < mqSize rq. bytes k = None
      | WaitFor p \<Rightarrow> (\<exists>e. usable u ld n p e) \<and> (\<exists>k < mqSize rq. bytes k \<noteq> None)
      | ForwardFrom p \<Rightarrow> \<exists>e. usable u ld n p e \<and>
          length (forward_data e (luEff u (seSn e)) rq) = mqSize rq \<and>
          (\<forall>k < mqSize rq. bytes k = Some (forward_data e (luEff u (seSn e)) rq ! k)))"

lemma usable_Suc: "usable u ld n p e \<Longrightarrow> usable u ld (Suc n) p e"
  by (simp add: usable_def)

lemma found_Suc:
  assumes "found u ld rq n f"
    "\<And>k. k < mqSize rq \<Longrightarrow> pending u ld (Suc n) (unat (mqVaddr rq) + k) = pending u ld n (unat (mqVaddr rq) + k)"
  shows "found u ld rq (Suc n) f"
proof (cases f)
  case (ForwardFrom p)
  then show ?thesis using assms usable_Suc[of u ld n p] by (auto simp: found_def Let_def simp del: pending.simps)
next
  case (WaitFor p)
  then show ?thesis using assms usable_Suc[of u ld n p] by (fastforce simp: found_def Let_def simp del: pending.simps)
next
  case NoForward
  then show ?thesis using assms by (auto simp: found_def Let_def simp del: pending.simps)
qed

lemma in_request: "k < mqSize rq \<Longrightarrow> unat (mqVaddr rq) + k \<in> byte_range (mqVaddr rq) (mqSize rq)"
  by (simp add: byte_range_def)

lemma common_byte: "byte_range v n \<inter> R \<noteq> {} \<Longrightarrow> \<exists>k < n. unat v + k \<in> R"
proof -
  assume "byte_range v n \<inter> R \<noteq> {}"
  then obtain x where "unat v \<le> x" "x < unat v + n" "x \<in> R" by (auto simp: byte_range_def)
  then show ?thesis by (intro exI[of _ "x - unat v"]) auto
qed

lemma scan_stores_finds:
  assumes "stores_wf u" "no_wrap (mqVaddr rq) (mqSize rq)" "scan_stores u ld rq n = Inr f"
  shows "found u ld rq n f"
  using assms(3)
proof (induction n)
  case 0
  then show ?case by (auto simp: found_def)
next
  case (Suc n)
  let ?p = "luWB u + n"
  obtain e ok where e: "sq_at u ?p = Inr e" "seSn e < ld" "may_forward u ld e = Inr ok"
    and rest: "(if \<not> ok then scan_stores u ld rq n
        else bindE (assertE (has_flag EffAddrValid (luInst u (seSn e)))) (\<lambda>_.
          bindE (getAddrRangeCoverage rq (luEff u (seSn e)) (has_prop IsAtomic (luInst u (seSn e))) e) (\<lambda>c.
            case c of
              FullCoverage \<Rightarrow> Inr (ForwardFrom ?p)
            | PartialCoverage \<Rightarrow> if seCompleted e then Inl PanicCall else Inr (WaitFor ?p)
            | NoCoverage \<Rightarrow> scan_stores u ld rq n))) = Inr f"
    using Suc.prems by (auto simp: Let_def assertE_ok elim!: bindE_elim)
  note sv = may_forward_serves[OF e(3)]
  show ?case
  proof (cases ok)
    case False
    then show ?thesis using Suc.IH rest e sv by (intro found_Suc) auto
  next
    case True
    let ?a = "luEff u (seSn e)" and ?at = "has_prop IsAtomic (luInst u (seSn e))"
    have "seSize e \<noteq> 0" using e(3) True by (auto simp: may_forward_def split: if_splits)
    then obtain r where wf: "no_wrap ?a (seSize e)" "seReq e = Some r" "seAllZeros e \<or> seSize e \<le> length (seData e)"
      using assms(1) sq_at_in[OF e(1)] unfolding stores_wf_def by blast
    have bytes: "pending u ld (Suc n) = pending u ld n ++ entry_bytes u e" using e True sv by simp
    obtain c where c: "getAddrRangeCoverage rq ?a ?at e = Inr c"
      and f: "(case c of FullCoverage \<Rightarrow> Inr (ForwardFrom ?p)
            | PartialCoverage \<Rightarrow> if seCompleted e then Inl PanicCall else Inr (WaitFor ?p)
            | NoCoverage \<Rightarrow> scan_stores u ld rq n) = Inr f"
      using rest True by (auto elim!: bindE_elim)
    note cc = c[unfolded coverage_class[OF assms(2) wf(1,2)]]
    show ?thesis
    proof (cases c)
      case NoCoverage
      then have "byte_range (mqVaddr rq) (mqSize rq) \<inter> byte_range ?a (seSize e) = {}" using cc by (auto split: if_splits)
      then have "pending u ld (Suc n) (unat (mqVaddr rq) + k) = pending u ld n (unat (mqVaddr rq) + k)"
        if "k < mqSize rq" for k
        using in_request[OF that] by (auto simp: bytes entry_bytes_def map_add_def simp del: pending.simps)
      then show ?thesis using Suc.IH f NoCoverage by (intro found_Suc) auto
    next
      case PartialCoverage
      then have ne: "byte_range (mqVaddr rq) (mqSize rq) \<inter> byte_range ?a (seSize e) \<noteq> {}" using cc by (auto split: if_splits)
      then obtain k where k: "k < mqSize rq" "unat (mqVaddr rq) + k \<in> byte_range ?a (seSize e)"
        using common_byte by metis
      have "f = WaitFor ?p" using f PartialCoverage by (auto split: if_splits)
      then show ?thesis using k e True sv by (auto simp: found_def usable_def bytes entry_bytes_def map_add_def simp del: pending.simps)
    next
      case FullCoverage
      then have sub: "byte_range (mqVaddr rq) (mqSize rq) \<subseteq> byte_range ?a (seSize e)" using cc by (auto split: if_splits)
      note fd = forward_data_byte[OF sub assms(2) wf(1,3)]
      have "pending u ld (Suc n) (unat (mqVaddr rq) + k) = Some (forward_data e ?a rq ! k)" if "k < mqSize rq" for k
        using in_request[OF that] sub fd(2)[OF that] by (auto simp: bytes entry_bytes_def map_add_def simp del: pending.simps)
      moreover have "length (forward_data e ?a rq) = mqSize rq" using assms(2) fd(1)[of 0] by (simp add: no_wrap_def)
      moreover have "f = ForwardFrom ?p" using f FullCoverage by simp
      ultimately show ?thesis using e True sv by (auto simp: found_def usable_def simp del: pending.simps)
    qed
  qed
qed

text \<open>
  The packets of a load that the data cache takes, of \<open>m\<close> that are to be sent: as long as it is
  not blocked, a port for loads is free and it accepts them.  Then the ports and the request after
  the attempt: a refusal blocks the cache, and the request is sent if all its packets are.
\<close>

definition sends :: "cache_ports \<Rightarrow> (nat \<Rightarrow> bool \<times> bool) \<Rightarrow> nat \<Rightarrow> nat list" where
  "sends c port m = (if cpBlocked c then []
     else takeWhile (\<lambda>k. fst (port k)) (take (cpLoadPorts c - cpUsedLoad c) (rev [0..<m])))"

definition ports_sent :: "nat \<Rightarrow> nat list \<Rightarrow> cache_ports \<Rightarrow> cache_ports" where
  "ports_sent m ks c = c\<lparr>cpUsedLoad := cpUsedLoad c + length ks,
     cpBlocked := (cpBlocked c \<or> (length ks < m \<and> cpUsedLoad c + length ks < cpLoadPorts c))\<rparr>"

definition req_sent :: "(nat \<Rightarrow> bool \<times> bool) \<Rightarrow> nat \<Rightarrow> nat list \<Rightarrow> mem_req \<Rightarrow> mem_req" where
  "req_sent port m ks rq =
     (let answered = (if ReqRunahead \<in> mqAttrs rq then length (filter (\<lambda>k. snd (port k)) ks) else 0) in
      rq\<lparr>mqAttrs := (if m = 0 then mqAttrs rq
           else if length ks = m then insert ReqSent (mqAttrs rq) else insert ReqRetry (mqAttrs rq) - {ReqSent}),
         mqUnsent := (if ReqSplit \<in> mqAttrs rq then mqUnsent rq - length ks else mqUnsent rq),
         mqOut := mqOut rq + length ks + answered, mqRc := mqRc rq + answered\<rparr>)"

lemma sends_Suc:
  "sends c port (Suc m) = (if \<not> cpBlocked c \<and> cpUsedLoad c < cpLoadPorts c \<and> fst (port m)
     then m # sends (c\<lparr>cpUsedLoad := cpUsedLoad c + 1\<rparr>) port m else [])"
proof (cases "cpUsedLoad c < cpLoadPorts c")
  case True
  then have "cpLoadPorts c - cpUsedLoad c = Suc (cpLoadPorts c - Suc (cpUsedLoad c))" by simp
  then show ?thesis using True by (simp add: sends_def)
qed (simp add: sends_def)

lemma sends_0 [simp]: "sends c port 0 = []"
  by (simp add: sends_def)

lemma trySend_load:
  assumes "trySendPacket True pt (u, rq) = Inr (n, u', rq')"
  shows "let c = luPorts u; free = (\<not> cpBlocked c \<and> cpUsedLoad c < cpLoadPorts c);
      rc = (ReqRunahead \<in> mqAttrs rq \<and> snd pt) in
    if free \<and> fst pt
    then n = 1 + (if rc then 1 else 0) \<and> u' = u\<lparr>luPorts := c\<lparr>cpUsedLoad := cpUsedLoad c + 1\<rparr>\<rparr>
      \<and> rq' = packetSent (if rc then rq\<lparr>mqRc := mqRc rq + 1\<rparr> else rq)
    else n = 0 \<and> u' = u\<lparr>luPorts := c\<lparr>cpBlocked := (cpBlocked c \<or> cpUsedLoad c < cpLoadPorts c)\<rparr>\<rparr> \<and> rq' = packetNotSent rq"
  using assms
  by (cases pt) (auto simp: trySendPacket_def Let_def cachePortAvailable_def cachePortBusy_def assertE_ok bindE_ok
      intro!: lsq_unit.equality split: if_splits)

lemma send_split_load:
  assumes "send_split True port m (u, rq) = Inr (u', rq')" "ReqSplit \<in> mqAttrs rq"
  shows "u' = u\<lparr>luPorts := ports_sent m (sends (luPorts u) port m) (luPorts u)\<rparr>
     \<and> rq' = req_sent port m (sends (luPorts u) port m) rq"
  using assms
proof (induction m arbitrary: u rq)
  case 0
  then show ?case by (simp add: ports_sent_def req_sent_def Let_def)
next
  case (Suc m)
  let ?c = "luPorts u"
  let ?free = "\<not> cpBlocked ?c \<and> cpUsedLoad ?c < cpLoadPorts ?c" and ?rc = "ReqRunahead \<in> mqAttrs rq \<and> snd (port m)"
  obtain n v r where t: "trySendPacket True (port m) (u, rq) = Inr (n, v, r)"
    and rest: "(if n = 0 then Inr (v, r)
      else send_split True port m (v, r\<lparr>mqOut := mqOut r + n, mqUnsent := mqUnsent r - 1\<rparr>)) = Inr (u', rq')"
    using Suc.prems(1) by (auto elim!: bindE_elim)
  note T = trySend_load[OF t, unfolded Let_def]
  show ?case
  proof (cases "?free \<and> fst (port m)")
    case False
    then have "sends ?c port (Suc m) = []" by (auto simp: sends_Suc)
    then show ?thesis using T rest False
      by (auto simp: ports_sent_def req_sent_def packetNotSent_def split: if_splits)
  next
    case True
    then have n: "n = 1 + (if ?rc then 1 else 0)" "v = u\<lparr>luPorts := ?c\<lparr>cpUsedLoad := cpUsedLoad ?c + 1\<rparr>\<rparr>"
      "r = packetSent (if ?rc then rq\<lparr>mqRc := mqRc rq + 1\<rparr> else rq)" using T by (simp_all split: if_splits)
    have s: "sends ?c port (Suc m) = m # sends (luPorts v) port m" using True n(2) by (simp add: sends_Suc)
    have "ReqSplit \<in> mqAttrs (r\<lparr>mqOut := mqOut r + n, mqUnsent := mqUnsent r - 1\<rparr>)"
      using Suc.prems(2) n(3) by (simp add: packetSent_def set_attr_def)
    from Suc.IH[OF _ this] rest n(1)
    have "u' = v\<lparr>luPorts := ports_sent m (sends (luPorts v) port m) (luPorts v)\<rparr>"
      "rq' = req_sent port m (sends (luPorts v) port m) (r\<lparr>mqOut := mqOut r + n, mqUnsent := mqUnsent r - 1\<rparr>)"
      by simp_all
    then show ?thesis unfolding s using n Suc.prems(2)
      by (auto simp: ports_sent_def req_sent_def packetSent_def set_attr_def Let_def insert_Diff_if)
  qed
qed

text \<open>How many packets the request has to send, and the whole attempt.\<close>

definition to_send :: "mem_req \<Rightarrow> nat" where
  "to_send rq = (if ReqSplit \<in> mqAttrs rq then mqUnsent rq else 1)"

lemma send_load:
  assumes "sendPacketToCache True port (u, rq) = Inr (u', rq')"
  shows "u' = u\<lparr>luPorts := ports_sent (to_send rq) (sends (luPorts u) port (to_send rq)) (luPorts u)\<rparr>
     \<and> rq' = req_sent port (to_send rq) (sends (luPorts u) port (to_send rq)) rq"
proof (cases "ReqSplit \<in> mqAttrs rq")
  case True
  then show ?thesis using assms send_split_load[of port "mqUnsent rq" u rq u' rq']
    by (simp add: sendPacketToCache_def to_send_def)
next
  case False
  then obtain n r where t: "trySendPacket True (port 0) (u, rq) = Inr (n, u', r)" "rq' = r\<lparr>mqOut := mqOut r + n\<rparr>"
    using assms by (auto simp: sendPacketToCache_def elim!: bindE_elim split: if_splits)
  show ?thesis using trySend_load[OF t(1)] t(2) False
    by (auto simp: to_send_def sends_Suc ports_sent_def req_sent_def packetSent_def packetNotSent_def set_attr_def Let_def
        split: if_splits)
qed

text \<open>The request is put into the entry of the load before the search.\<close>

lemma upd_lq_frame [simp]:
  "luInst (upd_lq i f u) = luInst u" "luEff (upd_lq i f u) = luEff u" "luWB (upd_lq i f u) = luWB u"
  "luStores (upd_lq i f u) = luStores u" "luMem (upd_lq i f u) = luMem u" "luEvents (upd_lq i f u) = luEvents u"
  "luResched (upd_lq i f u) = luResched u" "luSqIt (upd_lq i f u) = luSqIt u" "sq_at (upd_lq i f u) = sq_at u"
  "luPorts (upd_lq i f u) = luPorts u" "luBlockMem (upd_lq i f u) = luBlockMem u"
  by (auto simp: upd_lq_def sq_at_def)

lemma upd_lq_at: "lq_at u i = Inr e \<Longrightarrow> lq_at (upd_lq i f u) i = Inr (f e)"
  by (auto simp: lq_at_def upd_lq_def vecGet_ok split: if_splits)

lemma upd_lq_pending [simp]:
  "serves (upd_lq i f u) = serves u" "entry_bytes (upd_lq i f u) = entry_bytes u"
  "pending (upd_lq i f u) ld n = pending u ld n"
proof -
  show a: "serves (upd_lq i f u) = serves u" by (simp add: serves_def fun_eq_iff)
  show b: "entry_bytes (upd_lq i f u) = entry_bytes u" by (auto simp: entry_bytes_def fun_eq_iff)
  show "pending (upd_lq i f u) ld n = pending u ld n" by (induction n) (auto simp: a b split: sum.split)
qed

lemma upd_lq_stores_wf [simp]: "stores_wf (upd_lq i f u) = stores_wf u"
  by (simp add: stores_wf_def)

lemma upd_lq_usable [simp]: "usable (upd_lq i f u) = usable u"
  by (simp add: usable_def fun_eq_iff)

text \<open>
  The outcomes of a read: \<open>n\<close> stores are older than the load and not yet sent.  \<open>source_store\<close>
  says that one of them is the source, that it is no runahead store of a normal load, and that the
  load afterwards is poisoned exactly if it was or the store is.
\<close>

definition source_store :: "lsq_unit \<Rightarrow> nat \<Rightarrow> nat \<Rightarrow> lsq_unit \<Rightarrow> bool" where
  "source_store u ld n u' \<longleftrightarrow> (\<exists>p e. luWB u \<le> p \<and> p < luWB u + n \<and> sq_at u p = Inr e \<and> seSn e < ld \<and>
     (has_flag Runahead (luInst u (seSn e)) \<longrightarrow> has_flag Runahead (luInst u ld)) \<and>
     has_flag Poisoned (luInst u' ld) = (has_flag Poisoned (luInst u ld) \<or> has_flag Poisoned (luInst u (seSn e))))"

definition forwarded :: "lsq_unit \<Rightarrow> nat \<Rightarrow> mem_req \<Rightarrow> nat \<Rightarrow> lsq_unit \<Rightarrow> bool" where
  "forwarded u ld rq n u' \<longleftrightarrow> source_store u ld n u' \<and> luEvents u' = luEvents u @ [ld] \<and> luResched u' = luResched u \<and>
     luPorts u' = luPorts u \<and> luBlockMem u' = luBlockMem u \<and>
     (\<exists>d. luMem u' ld = Some d \<and> length d = mqSize rq \<and>
       (\<forall>k < mqSize rq. pending u ld n (unat (mqVaddr rq) + k) = Some (d ! k)))"

definition must_retry :: "lsq_unit \<Rightarrow> nat \<Rightarrow> mem_req \<Rightarrow> nat \<Rightarrow> lsq_unit \<Rightarrow> bool" where
  "must_retry u ld rq n u' \<longleftrightarrow> source_store u ld n u' \<and> luEvents u' = luEvents u \<and> luResched u' = luResched u @ [ld] \<and>
     \<not> has_status Issued (luInst u' ld) \<and>
     luPorts u' = luPorts u \<and> luBlockMem u' = luBlockMem u \<and>
     luMem u' = luMem u \<and> (\<exists>k < mqSize rq. pending u ld n (unat (mqVaddr rq) + k) \<noteq> None)"

definition sent_to_cache ::
  "lsq_unit \<Rightarrow> nat \<Rightarrow> mem_req \<Rightarrow> nat \<Rightarrow> (nat \<Rightarrow> bool \<times> bool) \<Rightarrow> nat \<Rightarrow> lsq_unit \<Rightarrow> bool"
where
  "sent_to_cache u ld rq n port idx u' \<longleftrightarrow> luEvents u' = luEvents u \<and> luResched u' = luResched u \<and> luInst u' = luInst u \<and>
     (\<forall>k < mqSize rq. pending u ld n (unat (mqVaddr rq) + k) = None) \<and>
     (let m = to_send (buildPackets rq); ks = sends (luPorts u) port m; rq' = req_sent port m ks (buildPackets rq) in
        luPorts u' = ports_sent m ks (luPorts u) \<and> luMem u' ld \<noteq> None \<and>
        lq_at u' idx = Inr \<lparr>leSn = ld, leReq = Some rq'\<rparr> \<and>
        luBlockMem u' = luBlockMem u @ (if ReqSent \<in> mqAttrs rq' then [] else [ld]))"

lemma pass_poison_ok:
  "st \<noteq> ld \<Longrightarrow> on_ok (pass_poison inRun st ld u) (\<lambda>v. \<exists>i. v = lu_inst ld (\<lambda>_. i) u \<and>
     has_flag Poisoned i = (has_flag Poisoned (luInst u ld) \<or> has_flag Poisoned (luInst u st)))"
proof (cases "has_flag Poisoned (luInst u st)")
  case True
  then show ?thesis
    by (auto simp: pass_poison_def setPoisoned_def lu_inst_def has_flag_def set_flag_def
        intro!: exI[of _ "(luInst u ld)\<lparr>diFlags := insert Poisoned (diFlags (luInst u ld))\<rparr>"])
next
  case False
  then show ?thesis by (auto simp: pass_poison_def lu_inst_def intro!: exI[of _ "luInst u ld"])
qed

lemma lu_inst_frame [simp]:
  "luMem (lu_inst k f u) = luMem u" "luEvents (lu_inst k f u) = luEvents u" "luResched (lu_inst k f u) = luResched u"
  "luStores (lu_inst k f u) = luStores u" "luInst (lu_inst k f u) = (luInst u)(k := f (luInst u k))"
  "sq_at (lu_inst k f u) = sq_at u" "luPorts (lu_inst k f u) = luPorts u" "luBlockMem (lu_inst k f u) = luBlockMem u"
  by (auto simp: lu_inst_def sq_at_def)

lemma usable_source:
  assumes "usable u ld n p e"
    "has_flag Poisoned (luInst u' ld) = (has_flag Poisoned (luInst u ld) \<or> has_flag Poisoned (luInst u (seSn e)))"
  shows "source_store u ld n u'"
  using assms unfolding usable_def source_store_def serves_def
  by (intro exI[of _ p] exI[of _ e]) (simp add: has_flag_def)

lemma forward_from_ok:
  assumes "found u ld rq n (ForwardFrom p)"
  shows "on_ok (forward_from inRun p idx ld rq u) (forwarded u ld rq n)"
proof -
  obtain e where e: "usable u ld n p e" "length (forward_data e (luEff u (seSn e)) rq) = mqSize rq"
    "\<forall>k < mqSize rq. pending u ld n (unat (mqVaddr rq) + k) = Some (forward_data e (luEff u (seSn e)) rq ! k)"
    using assms by (auto simp: found_def Let_def)
  then have "seSn e \<noteq> ld" "sq_at u p = Inr e" by (auto simp: usable_def)
  then show ?thesis
    using e unfolding forward_from_def
    by (auto simp: Let_def forwarded_def intro!: on_ok_mono[OF pass_poison_ok] usable_source[OF e(1)])
qed

lemma reschedule_retries:
  assumes "usable u ld n p e" "k < mqSize rq" "pending u ld n (unat (mqVaddr rq) + k) \<noteq> None"
    "has_flag Poisoned (luInst v ld) = (has_flag Poisoned (luInst u ld) \<or> has_flag Poisoned (luInst u (seSn e)))"
    "luEvents v = luEvents u" "luResched v = luResched u" "luMem v = luMem u"
    "luPorts v = luPorts u" "luBlockMem v = luBlockMem u"
  shows "must_retry u ld rq n (reschedule idx ld v)"
proof -
  have "has_flag Poisoned (luInst (reschedule idx ld v) ld) =
      (has_flag Poisoned (luInst u ld) \<or> has_flag Poisoned (luInst u (seSn e)))"
    using assms(4) by (auto simp: reschedule_def unset_flag_def reset_status_def has_flag_def)
  then have "source_store u ld n (reschedule idx ld v)" by (rule usable_source[OF assms(1)])
  then show ?thesis
    using assms(2,3,5-)
    by (auto simp: must_retry_def reschedule_def unset_flag_def has_flag_def reset_status_def has_status_def)
qed

lemma wait_for_ok:
  assumes "found u ld rq n (WaitFor p)"
  shows "on_ok (wait_for inRun p idx ld u) (must_retry u ld rq n)"
proof -
  obtain e k where e: "usable u ld n p e" "k < mqSize rq" "pending u ld n (unat (mqVaddr rq) + k) \<noteq> None"
    using assms by (auto simp: found_def Let_def)
  then have "seSn e \<noteq> ld" "sq_at u p = Inr e" by (auto simp: usable_def)
  then show ?thesis
    unfolding wait_for_def Let_def
    by (auto intro!: on_ok_mono[OF pass_poison_ok] reschedule_retries[OF e])
      (auto intro!: on_okI reschedule_retries[OF e])
qed

lemma go_to_cache_ok:
  assumes "found u ld rq n NoForward" "lq_at u idx = Inr le" "leSn le = ld"
  shows "on_ok (go_to_cache port fresh idx ld rq u) (sent_to_cache u ld rq n port idx)"
proof (rule on_okI)
  fix u'
  assume r: "go_to_cache port fresh idx ld rq u = Inr u'"
  define w where "w = (if luMem u ld = None then u\<lparr>luMem := (luMem u)(ld := Some fresh)\<rparr> else u)"
  have w: "luPorts w = luPorts u" "luMem w ld \<noteq> None" "luEvents w = luEvents u" "luResched w = luResched u"
    "luInst w = luInst u" "luBlockMem w = luBlockMem u" "luLHead w = luLHead u" "luLoads w = luLoads u"
    by (auto simp: w_def)
  obtain v rq' where s: "sendPacketToCache True port (w, buildPackets rq) = Inr (v, rq')"
    and u': "u' = (let u = upd_lq idx (leReq_update (\<lambda>_. Some rq')) v in
      if ReqSent \<in> mqAttrs rq' then u else u\<lparr>luBlockMem := luBlockMem u @ [ld]\<rparr>)"
    using r unfolding go_to_cache_def Let_def w_def[symmetric] by (auto elim!: bindE_elim)
  note S = send_load[OF s, unfolded w(1)]
  have "lq_at v idx = Inr le" using S w(7,8) assms(2) by (simp add: lq_at_def split: if_splits)
  then have "lq_at (upd_lq idx (leReq_update (\<lambda>_. Some rq')) v) idx = Inr \<lparr>leSn = ld, leReq = Some rq'\<rparr>"
    using assms(3) by (cases le) (simp add: upd_lq_at)
  then have "lq_at u' idx = Inr \<lparr>leSn = ld, leReq = Some rq'\<rparr>" using u' by (simp add: Let_def lq_at_def split: if_splits)
  moreover have "luMem u' ld \<noteq> None" using S w(2) u' by (simp add: Let_def)
  moreover have "luPorts u' = luPorts v" "luBlockMem u' = luBlockMem u @ (if ReqSent \<in> mqAttrs rq' then [] else [ld])"
    "luEvents u' = luEvents u" "luResched u' = luResched u" "luInst u' = luInst u"
    using S w u' by (simp_all add: Let_def)
  ultimately show "sent_to_cache u ld rq n port idx u'"
    using assms(1) S w(1) by (simp add: sent_to_cache_def found_def Let_def)
qed

lemma frame_upd_lq:
  "forwarded (upd_lq i f u) ld rq n u' = forwarded u ld rq n u'"
  "must_retry (upd_lq i f u) ld rq n u' = must_retry u ld rq n u'"
  "sent_to_cache (upd_lq i f u) ld rq n port idx u' = sent_to_cache u ld rq n port idx u'"
  by (simp_all add: forwarded_def must_retry_def sent_to_cache_def source_store_def)


end
