(* ===== verification/LsqOrder.thy ===== *)
theory LsqOrder
  imports LsqProps
begin

text \<open>
  The detection of memory order violations by the load/store queue, and what the write-back of
  stores does when the ports of the cache are used up.
\<close>

section \<open>Order violations\<close>

text \<open>The blocks that a range touches are an interval of block numbers.\<close>

lemma block_in_range:
  assumes "0 < n" "0 < d" "a div d \<le> q" "q \<le> (a + n - 1) div d"
  shows "\<exists>x \<in> {a ..< a + n}. x div d = (q::nat)"
proof -
  have q: "q * d \<le> a + n - 1" using assms(2,4) by (metis div_times_less_eq_dividend le_trans mult_le_mono1)
  show ?thesis
  proof (cases "a \<le> q * d")
    case True
    then show ?thesis using q assms(1,2) by (intro bexI[of _ "q * d"]) auto
  next
    case False
    then have "q \<le> a div d" using assms(2) by (metis less_eq_div_iff_mult_less_eq nat_le_linear)
    then show ?thesis using assms(1,3) by (intro bexI[of _ a]) auto
  qed
qed

lemma same_block_iff:
  assumes "0 < n" "0 < m" "0 < (d::nat)"
  shows "(\<exists>x \<in> {a ..< a + n}. \<exists>y \<in> {b ..< b + m}. x div d = y div d) \<longleftrightarrow>
    b div d \<le> (a + n - 1) div d \<and> a div d \<le> (b + m - 1) div d" (is "?l = ?r")
proof
  assume ?l
  then obtain x y where "a \<le> x" "x \<le> a + n - 1" "b \<le> y" "y \<le> b + m - 1" "x div d = y div d" by auto
  then show ?r by (metis div_le_mono le_trans)
next
  assume r: ?r
  let ?q = "max (a div d) (b div d)"
  have "?q \<le> (a + n - 1) div d" "?q \<le> (b + m - 1) div d"
    using r assms by (auto simp: max_def intro!: div_le_mono)
  then show ?l using block_in_range[OF assms(1,3), of a ?q] block_in_range[OF assms(2,3), of b ?q]
    by (metis max.cobounded1 max.cobounded2)
qed

text \<open>
  A load conflicts with an instruction if its address is known, it is not strictly ordered, and
  both touch a common block of \<open>2 ^ depCheckShift\<close> bytes.
\<close>

definition conflicts :: "lsq_cfg \<Rightarrow> lsq_unit \<Rightarrow> nat \<Rightarrow> nat \<Rightarrow> bool" where
  "conflicts L u sn ld \<longleftrightarrow> has_flag EffAddrValid (luInst u ld) \<and> \<not> has_flag IsStrictlyOrdered (luInst u ld) \<and>
     (\<exists>x \<in> byte_range (luEff u sn) (luEffSize u sn). \<exists>y \<in> byte_range (luEff u ld) (luEffSize u ld).
        x div 2 ^ lcShift L = y div 2 ^ lcShift L)"

lemma shifted_blocks:
  assumes "no_wrap (luEff u k) (luEffSize u k)"
  shows "unat (fst (shifted L u k)) = unat (luEff u k) div 2 ^ lcShift L"
    "unat (snd (shifted L u k)) = (unat (luEff u k) + luEffSize u k - 1) div 2 ^ lcShift L"
proof -
  obtain m where m: "luEffSize u k = Suc m" using assms by (cases "luEffSize u k") (auto simp: no_wrap_def)
  have e1: "luEff u k + of_nat (luEffSize u k) - 1 = luEff u k + of_nat m" by (simp add: m)
  have e2: "unat (luEff u k + of_nat m) = unat (luEff u k) + luEffSize u k - 1"
    using assms by (simp add: m no_wrap_def unat_word_ariths unat_of_nat)
  show "unat (snd (shifted L u k)) = (unat (luEff u k) + luEffSize u k - 1) div 2 ^ lcShift L"
    by (simp only: shifted_def snd_conv e1 unat_drop_bit_eq drop_bit_eq_div[where 'a = nat] e2)
  show "unat (fst (shifted L u k)) = unat (luEff u k) div 2 ^ lcShift L"
    by (simp only: shifted_def fst_conv unat_drop_bit_eq drop_bit_eq_div[where 'a = nat])
qed

lemma conflict_test:
  assumes "no_wrap (luEff u sn) (luEffSize u sn)" "no_wrap (luEff u ld) (luEffSize u ld)"
  shows "fst (shifted L u ld) \<le> snd (shifted L u sn) \<and> fst (shifted L u sn) \<le> snd (shifted L u ld) \<longleftrightarrow>
    (\<exists>x \<in> byte_range (luEff u sn) (luEffSize u sn). \<exists>y \<in> byte_range (luEff u ld) (luEffSize u ld).
        x div 2 ^ lcShift L = y div 2 ^ lcShift L)"
  using same_block_iff[of "luEffSize u sn" "luEffSize u ld" "2 ^ lcShift L" "unat (luEff u sn)" "unat (luEff u ld)"]
    assms by (simp add: word_le_nat_alt shifted_blocks byte_range_def no_wrap_def)

text \<open>The conflicting loads among the given entries.\<close>

definition conflicting :: "lsq_cfg \<Rightarrow> lsq_unit \<Rightarrow> nat \<Rightarrow> lq_entry list \<Rightarrow> nat set" where
  "conflicting L u sn es = {ld \<in> leSn ` set es. conflicts L u sn ld}"

definition report :: "nat \<Rightarrow> nat set \<Rightarrow> lsq_unit \<Rightarrow> lsq_fault option \<times> lsq_unit" where
  "report sn C u =
     (if C = {} \<or> (\<exists>v. luViolator u = Some v \<and> v < Min C) then (None, u)
      else (Some (OrderViolation sn (Min C)), u\<lparr>luViolator := Some (Min C)\<rparr>))"

lemma conflicting_Nil [simp]: "conflicting L u sn [] = {}"
  by (simp add: conflicting_def)

lemma conflicting_Cons:
  "conflicting L u sn (e # es) = (if conflicts L u sn (leSn e) then {leSn e} else {}) \<union> conflicting L u sn es"
  by (auto simp: conflicting_def)

lemma Min_conflicting:
  assumes "sorted (map leSn (e # es))" "conflicts L u sn (leSn e)"
  shows "Min (conflicting L u sn (e # es)) = leSn e"
proof (rule Min_eqI)
  show "finite (conflicting L u sn (e # es))" by (simp add: conflicting_def)
qed (use assms in \<open>auto simp: conflicting_def\<close>)

lemma check_loads_report:
  assumes "\<not> has_prop IsLoad (luInst u sn)" "no_wrap (luEff u sn) (luEffSize u sn)" "sorted (map leSn es)"
    "\<And>e. e \<in> set es \<Longrightarrow> has_flag EffAddrValid (luInst u (leSn e)) \<Longrightarrow> no_wrap (luEff u (leSn e)) (luEffSize u (leSn e))"
  shows "check_loads L sn es u = report sn (conflicting L u sn es) u"
  using assms(3,4)
proof (induction es)
  case Nil
  then show ?case by (simp add: report_def)
next
  case (Cons e es)
  let ?ld = "leSn e"
  have IH: "check_loads L sn es u = report sn (conflicting L u sn es) u" using Cons by simp
  have t: "conflicts L u sn ?ld \<longleftrightarrow> has_flag EffAddrValid (luInst u ?ld) \<and> \<not> has_flag IsStrictlyOrdered (luInst u ?ld) \<and>
      fst (shifted L u ?ld) \<le> snd (shifted L u sn) \<and> fst (shifted L u sn) \<le> snd (shifted L u ?ld)"
    using conflict_test[OF assms(2), of ?ld L] Cons.prems(2)[of e] by (auto simp: conflicts_def)
  show ?case
  proof (cases "conflicts L u sn ?ld")
    case True
    note m = Min_conflicting[OF Cons.prems(1) True]
    have ne: "conflicting L u sn (e # es) \<noteq> {}" using True by (simp add: conflicting_Cons)
    have "check_loads L sn (e # es) u =
        (if (case luViolator u of None \<Rightarrow> False | Some v \<Rightarrow> ?ld > v) then (None, u)
         else (Some (OrderViolation sn ?ld), u\<lparr>luViolator := Some ?ld\<rparr>))"
      using True t assms(1) by (simp add: Let_def split_beta)
    then show ?thesis using ne by (auto simp: report_def m split: option.splits)
  next
    case False
    then have "check_loads L sn (e # es) u = check_loads L sn es u"
      using t by (auto simp: Let_def split_beta)
    then show ?thesis using IH False by (simp add: conflicting_Cons)
  qed
qed

text \<open>
  C16: For a store the check of the loads from its iterator on, which are in program order,
  reports the oldest load that conflicts with the store (both touch a common block, the address of
  the load is known and it is not strictly ordered): this load becomes the violator and the fault,
  unless there is none or an older violator is already known; then nothing changes.
\<close>

theorem store_reports_the_oldest_conflicting_load:
  assumes "\<not> has_prop IsLoad (luInst u sn)" "no_wrap (luEff u sn) (luEffSize u sn)"
    "sorted (map leSn (luLoads u))"
    "\<And>e. e \<in> set (luLoads u) \<Longrightarrow> has_flag EffAddrValid (luInst u (leSn e)) \<Longrightarrow>
       no_wrap (luEff u (leSn e)) (luEffSize u (leSn e))"
  shows "checkViolations L it sn u =
    report sn (conflicting L u sn (drop (it - luLHead u) (luLoads u))) u"
  unfolding checkViolations_def
proof (rule check_loads_report[OF assms(1,2)])
  show "sorted (map leSn (drop (it - luLHead u) (luLoads u)))"
    using sorted_wrt_drop[OF assms(3), of "it - luLHead u"] by (simp add: drop_map)
  show "no_wrap (luEff u (leSn e)) (luEffSize u (leSn e))"
    if "e \<in> set (drop (it - luLHead u) (luLoads u))" "has_flag EffAddrValid (luInst u (leSn e))" for e
    using assms(4) that in_set_dropD by fast
qed

section \<open>Write-back without a port\<close>

text \<open>A store that is ready to be written back and belongs to normal execution.\<close>

definition normal_ready :: "lsq_unit \<Rightarrow> nat \<Rightarrow> bool" where
  "normal_ready u p \<longleftrightarrow>
     (\<exists>e. sq_at u p = Inr e \<and> seCanWB e \<and> \<not> has_flag Runahead (luInst u (seSn e)))"

lemma sq_at_luWB [simp]: "sq_at (u\<lparr>luWB := w\<rparr>) p = sq_at u p"
  by (simp add: sq_at_def)

lemma normal_ready_luWB [simp]: "normal_ready (u\<lparr>luWB := w\<rparr>) p = normal_ready u p"
  by (simp add: normal_ready_def)

lemma wb_loop_skips:
  assumes "luToWB u > 0" "\<not> (lcTSO L \<and> luInFlight u)" "\<not> cachePortAvailable False (luPorts u)"
    "luWB u \<le> m" "\<forall>p \<in> {luWB u ..< m}. normal_ready u p" "\<forall>e. sq_at u m = Inr e \<longrightarrow> \<not> seCanWB e"
  shows "wb_loop L E u = Some (Inr (u\<lparr>luWB := m\<rparr>))"
  using assms
proof (induction "m - luWB u" arbitrary: u)
  case 0
  then have "luWB u = m" by simp
  moreover have "\<not> wb_ready L u" using 0 \<open>luWB u = m\<close> by (auto simp: wb_ready_def split: sum.splits)
  moreover have "u\<lparr>luWB := luWB u\<rparr> = u" by simp
  ultimately show ?case by (subst wb_loop.simps) metis
next
  case (Suc n)
  then have "normal_ready u (luWB u)" by simp
  then obtain e where e: "sq_at u (luWB u) = Inr e" "seCanWB e" "\<not> has_flag Runahead (luInst u (seSn e))"
    by (auto simp: normal_ready_def)
  have "wb_loop L E (u\<lparr>luWB := luWB u + 1\<rparr>) = Some (Inr (u\<lparr>luWB := luWB u + 1\<rparr>\<lparr>luWB := m\<rparr>))"
    by (rule Suc.hyps(1)) (use Suc.hyps(2) Suc.prems in auto)
  moreover have "wb_ready L u" using Suc.prems(1,2) e by (simp add: wb_ready_def)
  moreover have "wb_step L E u = Inr (True, u\<lparr>luWB := luWB u + 1\<rparr>)"
    using e Suc.prems(3) by (simp add: wb_step_def)
  ultimately show ?case by (subst wb_loop.simps) simp
qed

text \<open>
  C17: When every port for stores is used, the write-back of stores walks past all normal stores
  that are ready without sending them: \<open>storeWBIt\<close> ends at the first entry that is not ready, while
  the entries and the number of stores to write back are unchanged.  When ports are free again in
  a later cycle nothing is sent either, as long as that entry is not ready.
\<close>

theorem full_ports_skip_the_stores:
  assumes "luToWB u > 0" "\<not> (lcTSO L \<and> luInFlight u)" "\<not> cachePortAvailable False (luPorts u)"
    "\<not> luStoreBlocked u"
    "luWB u \<le> m" "\<forall>p \<in> {luWB u ..< m}. normal_ready u p" "\<forall>e. sq_at u m = Inr e \<longrightarrow> \<not> seCanWB e"
  shows "lsu_writebackStores L E u = Some (Inr (u\<lparr>luWB := m\<rparr>)) \<and>
    (\<forall>c E. lsu_writebackStores L E (u\<lparr>luWB := m, luPorts := c\<rparr>) = Some (Inr (u\<lparr>luWB := m, luPorts := c\<rparr>)))"
proof
  show "lsu_writebackStores L E u = Some (Inr (u\<lparr>luWB := m\<rparr>))"
    using wb_loop_skips[OF assms(1-3,5-7)] assms(1,4) by (simp add: lsu_writebackStores_def)
  have "wb_loop L F v = Some (Inr v)" if "\<not> wb_ready L v" for F v using that by (subst wb_loop.simps) simp
  moreover have "\<not> wb_ready L (u\<lparr>luWB := m, luPorts := c\<rparr>)" for c
    using assms(7) by (auto simp: wb_ready_def sq_at_def split: sum.splits)
  ultimately show "\<forall>c E. lsu_writebackStores L E (u\<lparr>luWB := m, luPorts := c\<rparr>) = Some (Inr (u\<lparr>luWB := m, luPorts := c\<rparr>))"
    using assms(1,4) by (simp add: lsu_writebackStores_def)
qed

end
