(* ===== verification/LsqExample.thy ===== *)
theory LsqExample
  imports LsqOrder
begin

text \<open>
  The properties of the load/store queue at concrete states: a store with the sequence number 4
  to the bytes 100 to 107 and two younger loads, 7 and 9, of the bytes 102 and 103.
\<close>

definition ex_lsq_inst :: "static_prop \<Rightarrow> inst_flag set \<Rightarrow> nat \<Rightarrow> dyn_inst" where
  "ex_lsq_inst p fs sn = \<lparr>diSeq = sn, diTid = 0, diPC = (4 * sn, 0), diProps = {IsMemRef, p},
     diStatus = {Issued}, diFlags = insert EffAddrValid fs, diSrcs = [], diDests = [], diReadyRegs = 0,
     diReadySrc = [], diSavedReq = None, diFault = None, diFlatDests = [], diFirstIssue = 0\<rparr>"

definition ex_lsq_req :: "nat \<Rightarrow> 64 word \<Rightarrow> nat \<Rightarrow> mem_req" where
  "ex_lsq_req sn a n = \<lparr>mqSn = sn, mqVaddr = a, mqSize = n, mqAttrs = {}, mqFrags = 1, mqUnsent = 0,
     mqOut = 0, mqRc = 0\<rparr>"

definition ex_lsq_store :: sq_entry where
  "ex_lsq_store = \<lparr>seSn = 4, seReq = Some (ex_lsq_req 4 100 8), seSize = 8,
     seData = [10, 11, 12, 13, 14, 15, 16, 17], seCanWB = True, seCommitted = False,
     seCompleted = False, seAllZeros = False\<rparr>"

definition ex_lsq_cfg :: lsq_cfg where
  "ex_lsq_cfg = \<lparr>lcShift = 4, lcCheckLoads = True, lcTSO = False, lcMaxData = 64,
     lcDataPrefetch = (\<lambda>_. False)\<rparr>"

text \<open>\<open>fs\<close> are the flags of the store, \<open>k\<close> the ports for stores that are used, of one.\<close>

definition ex_lsq :: "inst_flag set \<Rightarrow> nat \<Rightarrow> lsq_unit" where
  "ex_lsq fs k = \<lparr>luLoads = [\<lparr>leSn = 7, leReq = None\<rparr>, \<lparr>leSn = 9, leReq = None\<rparr>],
     luLHead = 0, luLCap = 4, luStores = [ex_lsq_store], luSHead = 0, luSCap = 4, luWB = 0, luToWB = 1,
     luStalled = False, luStallSn = 0, luStallIdx = 0, luStoreBlocked = False, luInFlight = False,
     luViolator = None,
     luPorts = \<lparr>cpBlocked = False, cpUsedLoad = 0, cpUsedStore = k, cpLoadPorts = 1, cpStorePorts = 1\<rparr>,
     luInst = (\<lambda>sn. if sn = 4 then ex_lsq_inst IsStore fs sn else ex_lsq_inst IsLoad {Runahead} sn),
     luEff = (\<lambda>sn. if sn = 4 then 100 else 102), luEffSize = (\<lambda>sn. if sn = 4 then 8 else 2),
     luMem = (\<lambda>_. None), luSqIt = (\<lambda>_. 1), luLqIt = (\<lambda>_. 0), luResched = [], luReplay = [],
     luBlockMem = [], luEvents = [], luToCommit = [], luAccDone = []\<rparr>"

definition ex_lsq_env :: wb_env where
  "ex_lsq_env = \<lparr>weCache = \<lambda>_ _. (True, False), weLocked = \<lambda>_. True\<rparr>"

lemmas ex_lsq_simps = ex_lsq_def ex_lsq_store_def ex_lsq_req_def ex_lsq_cfg_def ex_lsq_inst_def
  no_wrap_def vecGet_def sq_at_def lq_at_def has_flag_def has_prop_def has_status_def

lemma ex_lsq_wf: "stores_wf (ex_lsq fs k)"
  by (simp add: stores_wf_def ex_lsq_simps)

theorem coverage_classifies_the_ranges_witness:
  "getAddrRangeCoverage (ex_lsq_req 7 102 2) 100 False ex_lsq_store = Inr FullCoverage"
  using coverage_classifies_the_ranges[of "ex_lsq_req 7 102 2" 100 ex_lsq_store "ex_lsq_req 4 100 8" False]
  by (simp add: ex_lsq_simps byte_range_def)

lemma ex_lsq_read:
  "\<exists>u'. lsu_read ex_lsq_cfg True (\<lambda>_. (True, False)) [] (ex_lsq_req 7 102 2) 0 (ex_lsq {Runahead, Poisoned} 0) = Inr (None, u') \<and>
     luMem u' 7 = Some [12, 13] \<and> luEvents u' = [7]"
  by (simp add: lsu_read_def Let_def ex_lsq_simps upd_lq_def may_forward_def getAddrRangeCoverage_def
      forward_from_def forward_data_def pass_poison_def setPoisoned_def lu_inst_def set_flag_def)

lemma ex_lsq_miss:
  "\<exists>u'. lsu_read ex_lsq_cfg True (\<lambda>_. (True, False)) [0, 0] (ex_lsq_req 7 300 2) 0 (ex_lsq {} 0) = Inr (None, u') \<and>
     luEvents u' = [] \<and> luResched u' = []"
  by (simp add: lsu_read_def Let_def ex_lsq_simps upd_lq_def may_forward_def getAddrRangeCoverage_def
      go_to_cache_def sendPacketToCache_def trySendPacket_def buildPackets_def set_attr_def packetSent_def
      cachePortAvailable_def cachePortBusy_def assertE_def)


theorem store_reports_the_oldest_conflicting_load_witness:
  "checkViolations ex_lsq_cfg 0 4 (ex_lsq {} 0) =
     (Some (OrderViolation 4 7), (ex_lsq {} 0)\<lparr>luViolator := Some 7\<rparr>)"
proof -
  let ?u = "ex_lsq {} 0"
  have "conflicts ex_lsq_cfg ?u 4 ld" if "ld \<in> {7, 9}" for ld
    unfolding conflicts_def byte_range_def
    using that by (auto simp: ex_lsq_simps intro!: bexI[of _ 102])
  then have "conflicting ex_lsq_cfg ?u 4 (luLoads ?u) = {7, 9}"
    by (auto simp: conflicting_def ex_lsq_def)
  moreover have "checkViolations ex_lsq_cfg 0 4 ?u = report 4 (conflicting ex_lsq_cfg ?u 4 (drop (0 - luLHead ?u) (luLoads ?u))) ?u"
    by (rule store_reports_the_oldest_conflicting_load) (auto simp: ex_lsq_simps)
  ultimately show ?thesis by (simp add: report_def ex_lsq_def)
qed

theorem full_ports_skip_the_stores_witness:
  "lsu_writebackStores ex_lsq_cfg ex_lsq_env (ex_lsq {} 1) = Some (Inr ((ex_lsq {} 1)\<lparr>luWB := 1\<rparr>))"
proof -
  have "lsu_writebackStores ex_lsq_cfg ex_lsq_env (ex_lsq {} 1) = Some (Inr ((ex_lsq {} 1)\<lparr>luWB := 1\<rparr>)) \<and>
      (\<forall>c F. lsu_writebackStores ex_lsq_cfg F ((ex_lsq {} 1)\<lparr>luWB := 1, luPorts := c\<rparr>) =
        Some (Inr ((ex_lsq {} 1)\<lparr>luWB := 1, luPorts := c\<rparr>)))"
    by (rule full_ports_skip_the_stores) (auto simp: ex_lsq_simps normal_ready_def cachePortAvailable_def)
  then show ?thesis by blast
qed

end
