(* ===== verification/Spec2Isabelle.thy ===== *)
theory Spec2Isabelle
  imports CommitMap RunaheadExit MemDepProps InstQueueFlow LsqExample
begin

text \<open>
  Verification development for the runahead CPU model of gem5-runahead
  (\<open>src/gem5-extensions/src/cpu/runahead\<close>), an out-of-order processor model derived from gem5's O3
  CPU.  When a load that misses the last level cache blocks the head of the reorder buffer, the
  processor saves its architectural state, poisons the result of the load and goes on executing
  speculatively (runahead) to prefetch; when the load returns, or by the exit policy, it squashes
  everything, restores the state and executes for real from the load.

  \<^bold>\<open>How the parts interact.\<close>  Rename takes physical registers from the free lists, records the
  mappings in the rename maps and in the history buffer, and marks the destinations as not ready
  in the scoreboard.  Renamed instructions enter the reorder buffer and the issue queue.  The issue
  queue keeps a dependence graph by flat register index and asks the memory dependence unit, which
  asks the store set predictor, for the order of memory instructions; it issues the oldest ready
  instructions to the functional units.  Memory instructions have their entries in the load/store
  queue, which forwards stores to loads, reports loads that were executed too early, and sends to
  the caches.  Commit retires from the reorder buffer, updates the commit
  rename map, decides on squashes, and drives the entry to and the exit from runahead.  In runahead
  the register file carries poison bits, stores go to the runahead cache, and a dependence chain
  of the blocking load is built from the reorder buffer.  The architectural checkpoint holds the
  state to return to.

  \<^bold>\<open>Conventions.\<close>  A C++ object is a record, an enumeration a datatype.  A pointer to an instruction
  is its sequence number or its place in a list; \<open>std::list\<close>, \<open>std::deque\<close> and \<open>std::vector\<close> are
  lists, \<open>std::map\<close> and \<open>std::set\<close> maps or sets.  Every operation that can fail returns
  \<open>err + 'a\<close> (\<open>'a res\<close>, \<open>Prelude\<close>): \<open>AssertFail\<close>, \<open>PanicCall\<close>, \<open>OutOfRange\<close>, \<open>BadIterator\<close>,
  \<open>DivByZero\<close> and the other constructors of \<open>err\<close> are the failed assertions, panics and undefined
  accesses of the source; \<open>NoReturn\<close> stands for a loop that does not end.  \<open>bindE\<close> is
  sequencing, \<open>foldE\<close> a loop whose body can fail, \<open>on_ok\<close> partial correctness.  Unsigned
  counters whose wrap-around matters are words (\<open>32 word\<close>, \<open>64 word\<close>); sequence numbers are natural
  numbers, and where the source subtracts them \<open>usub64\<close> writes out the wrap-around.

  \<^bold>\<open>Theories, sources and what the lemmas show.\<close>
  \<^item> \<open>Prelude\<close>: the failure type, loops, words.
  \<^item> \<open>RegFile\<close> (\<open>regfile.hh\<close>, \<open>regfile.cc\<close>): physical registers and poison bits; flat indices are
    dense and unique, reads return what was written (locale \<open>reg_store\<close>, interpreted for the values
    and for the poison bits).  \<open>FreeList\<close> (\<open>free_list.hh\<close>), \<open>Scoreboard\<close> (\<open>scoreboard.hh\<close>),
    \<open>RenameMap\<close> (\<open>rename_map.hh\<close>, \<open>rename_map.cc\<close>): one definition per method.
  \<^item> \<open>RenameHistory\<close>, \<open>RenameSteps\<close>, \<open>RenameInv\<close>, \<open>RenameInit\<close>, \<open>RenameProps\<close> (\<open>rename.cc\<close>:
    \<open>renameSrcRegs\<close>, \<open>renameDestRegs\<close>, \<open>doSquash\<close>, \<open>removeFromHistory\<close>; \<open>cpu.cc\<close>: the constructor):
    every physical register is free, mapped or in the history, exactly once; renaming refines the
    committed map followed by the renames in flight; a squash undoes renames; \<open>canRename\<close> and the
    rule for pinned registers that \<open>SimpleRenameMap::rename\<close> asserts suffice for renaming.
  \<^item> \<open>CommitMap\<close> (\<open>commit.cc\<close>, \<open>rename.cc\<close>): the commit rename map is the rename map with all
    renames in flight undone.
  \<^item> \<open>DynInst\<close> (\<open>dyn_inst.hh\<close>): status, flags and registers of an instruction.
  \<^item> \<open>ROB\<close> (\<open>rob.hh\<close>, \<open>rob.cc\<close>): insertion, retirement, squash over several cycles.
  \<^item> \<open>ArchCheckpoint\<close> (\<open>arch_checkpoint.hh\<close>, \<open>arch_checkpoint.cc\<close>): what a restore restores.
  \<^item> \<open>RunaheadCache\<close> (\<open>runahead_cache.hh\<close>, \<open>runahead_cache.cc\<close>): reads refine the list of the stores
    of the period.  \<open>DepChain\<close> (\<open>rob.cc\<close>, \<open>cpu.cc\<close>, \<open>lsq_unit.cc\<close>): the dependence chain is the
    backward slice of the load in the reorder buffer.
  \<^item> \<open>CommitState\<close>, \<open>RunaheadMode\<close>, \<open>CommitStage\<close>, \<open>CommitTick\<close>, \<open>CommitOrder\<close> (\<open>commit.hh\<close>,
    \<open>commit.cc\<close>, \<open>cpu.cc\<close>): the commit stage with the code of runahead in it, commit in order and
    within its width, the SMT policies.
  \<^item> \<open>RunaheadEntry\<close>, \<open>RunaheadPeriod\<close>, \<open>RunaheadRoundTrip\<close>, \<open>RunaheadExit\<close>, \<open>RunaheadExample\<close>: a
    period of runahead from its entry to the restore, as a step relation; a concrete period is the
    witness of the properties.
  \<^item> \<open>StoreSet\<close> (\<open>store_set.hh\<close>, \<open>store_set.cc\<close>): the store set predictor, through the locale
    \<open>dep_predictor\<close> that the memory dependence unit relies on.
  \<^item> \<open>MemDep\<close>, \<open>MemDepInv\<close>, \<open>MemDepOps\<close>, \<open>MemDepProps\<close> (\<open>mem_dep_unit.hh\<close>, \<open>mem_dep_unit.cc\<close>): a
    memory instruction waits exactly for its incomplete producers.
  \<^item> \<open>FUPool\<close> (\<open>fu_pool.hh\<close>, \<open>fu_pool.cc\<close>): the pool of functional units.
  \<^item> \<open>DepGraph\<close> (\<open>dep_graph.hh\<close>), \<open>InstQueue\<close>, \<open>InstQueueIssue\<close>, \<open>InstQueueWake\<close> (\<open>inst_queue.hh\<close>,
    \<open>inst_queue.cc\<close>): the issue queue; \<open>InstQueueAge\<close> (locale \<open>ready_queue\<close> for the priority
    queues), \<open>InstQueueInv\<close>, \<open>InstQueueProps\<close>, \<open>InstQueueFlow\<close>: the age order of the ready
    instructions, the account of the entries, the poison at issue and the wake-up of dependents,
    memory instructions through the memory dependence unit of their thread.
  \<^item> \<open>LsqUnit\<close>, \<open>LsqAccess\<close> (\<open>lsq_unit.hh\<close>, \<open>lsq_unit.cc\<close>, the ports of \<open>lsq.cc\<close>): the load/store queue
    of a thread; \<open>LsqProps\<close>, \<open>LsqOrder\<close>, \<open>LsqExample\<close>: what a load gets from older stores, which
    load a store reports, and the write-back of stores when the ports are used up.

  \<^bold>\<open>Loops and bounds.\<close>  Loops over lists are structural or \<open>foldE\<close>; the others are functions with a
  measure (the work left in the issue loop, the length of a chain), or, where the code may really
  not end, \<open>partial_function (option)\<close> with \<open>None\<close> for not returning: the search of the functional
  unit pool, the write-back loop of the load/store queue, and the squash of the store set
  predictor, whose termination is proved as a property.

  \<^bold>\<open>Parameters.\<close>  Code of gem5 that is not under \<open>src/\<close> is an argument of the definitions: the ISA
  (which registers it has, the static instructions and their properties), \<open>PhysRegId\<close>'s
  \<open>isFixedMapping\<close> and \<open>isPinned\<close>, the caches and the event queue, the copying of packets (whose
  copies carry static data but not dynamic data), and the values that other stages pass in a cycle.  Time buffers between stages are the arguments and results of a cycle.

  \<^bold>\<open>Not modelled.\<close>  Statistics, tracing and debug output, parameters and the Python
  configuration; the stages fetch, decode and execute (\<open>fetch.cc\<close>, \<open>decode.cc\<close>, \<open>iew.cc\<close>) and the
  stall control of \<open>rename.cc\<close>, which pass instructions on and whose effects on the parts above
  are the arguments of their operations; branch prediction; of the load/store queue the
  hardware transactions, snoops, address translation and the life time of requests; the thread
  contexts and the checker, which forward to gem5.  The list of components in the manifest
  gives the reason for each.
\<close>

end
